(* ===== verification/Prelude.thy ===== *)
theory Prelude
  imports Main "HOL-Library.Word"
begin

text \<open>
  Shared vocabulary of the development: the machine types of
  \<^verbatim>\<open>kernel/include/typedef.h\<close>, the bit and address macros of
  \<^verbatim>\<open>kernel/include/proto.h\<close>, the constants of
  \<^verbatim>\<open>kernel/include/config.h\<close> and \<^verbatim>\<open>kernel/include/const.h\<close> that several
  components use, the ways a kernel routine can fail to return, and the generic lemmas on
  lists, functions and words that the component theories share.
\<close>

unbundle bit_operations_syntax

section \<open>Machine types\<close>

type_synonym u8 = "8 word"
type_synonym u16 = "16 word"
type_synonym u32 = "32 word"
type_synonym u64 = "64 word"

text \<open>
  A signed C integer is the word of its width, read with \<^const>\<open>sint\<close> where the code
  compares or divides it.
\<close>

section \<open>Bit macros (proto.h)\<close>

definition BIT_TEST :: "'a::len word \<Rightarrow> nat \<Rightarrow> bool" where
  "BIT_TEST x b \<longleftrightarrow> x AND push_bit b 1 \<noteq> 0"

definition BIT_SET :: "'a::len word \<Rightarrow> nat \<Rightarrow> 'a word" where
  "BIT_SET x b = x OR push_bit b 1"

definition BIT_CLEAR :: "'a::len word \<Rightarrow> nat \<Rightarrow> 'a word" where
  "BIT_CLEAR x b = x AND NOT (push_bit b 1)"

definition BIT_SWITCH :: "'a::len word \<Rightarrow> nat \<Rightarrow> 'a word" where
  "BIT_SWITCH x b = x XOR push_bit b 1"

named_theorems bit_macros \<open>the definitions of the bit macros\<close>

declare BIT_TEST_def [bit_macros] BIT_SET_def [bit_macros] BIT_CLEAR_def [bit_macros]
  BIT_SWITCH_def [bit_macros]

lemma BIT_TEST_bit: "BIT_TEST x b \<longleftrightarrow> bit x b"
proof -
  have "x AND push_bit b 1 = (if bit x b then push_bit b 1 else 0)"
    by (rule bit_eqI) (auto simp: bit_simps)
  moreover have "bit x b \<Longrightarrow> push_bit b (1 :: 'a word) \<noteq> 0"
  proof
    assume "bit x b" and "push_bit b (1 :: 'a word) = 0"
    then have "bit (push_bit b (1 :: 'a word)) b = False" and "b < LENGTH('a)"
      by (auto dest: bit_imp_le_length)
    then show False by (simp add: bit_simps)
  qed
  ultimately show ?thesis by (simp add: BIT_TEST_def)
qed

lemma bit_BIT_SET: "bit (BIT_SET x b) n \<longleftrightarrow> bit x n \<or> (n = b \<and> n < LENGTH('a))"
  for x :: "'a::len word"
  by (auto simp: BIT_SET_def bit_simps)

lemma bit_BIT_CLEAR: "bit (BIT_CLEAR x b) n \<longleftrightarrow> bit x n \<and> n \<noteq> b"
  for x :: "'a::len word"
  by (auto simp: BIT_CLEAR_def bit_simps dest: bit_imp_le_length)

lemma bit_BIT_SWITCH:
  "bit (BIT_SWITCH x b) n \<longleftrightarrow> (if n = b \<and> n < LENGTH('a) then \<not> bit x n else bit x n)"
  for x :: "'a::len word"
  by (auto simp: BIT_SWITCH_def bit_simps)

lemma BIT_SWITCH_twice: "BIT_SWITCH (BIT_SWITCH x b) b = x"
  by (rule bit_eqI) (auto simp: bit_BIT_SWITCH)

lemmas bit_macro_simps = BIT_TEST_bit bit_BIT_SET bit_BIT_CLEAR bit_BIT_SWITCH

section \<open>Address macros and constants (proto.h, config.h, const.h)\<close>

abbreviation (input) PAGE_SIZE :: u32 where "PAGE_SIZE \<equiv> 0x1000"
abbreviation (input) PAGE_OFFSET :: u32 where "PAGE_OFFSET \<equiv> 0xC0000000"
abbreviation (input) MAX_MAPPING :: u32 where "MAX_MAPPING \<equiv> 0x30000000"
abbreviation (input) PAGE_TYPE_PHY :: u32 where "PAGE_TYPE_PHY \<equiv> 0x200"
abbreviation (input) MAX_MESSAGE_COUNT :: nat where "MAX_MESSAGE_COUNT \<equiv> 0x100"

definition va2pa :: "u32 \<Rightarrow> u32" where
  "va2pa x = x - PAGE_OFFSET"

definition pa2va :: "u32 \<Rightarrow> u32" where
  "pa2va x = x + PAGE_OFFSET"

definition va2pde :: "u32 \<Rightarrow> u32" where
  "va2pde x = drop_bit 22 x"

definition va2pte :: "u32 \<Rightarrow> u32" where
  "va2pte x = drop_bit 12 (x AND 0x3FFFFF)"

definition va2flat_pte :: "u32 \<Rightarrow> u32" where
  "va2flat_pte x = drop_bit 12 x"

lemma pa2va_va2pa [simp]: "pa2va (va2pa x) = x"
  by (simp add: pa2va_def va2pa_def)

lemma va2pa_pa2va [simp]: "va2pa (pa2va x) = x"
  by (simp add: pa2va_def va2pa_def)

section \<open>Ways a kernel routine can fail to return\<close>

text \<open>
  \<open>Spin\<close> is a loop that never ends (a lock that is never released, a list that never reaches
  its end marker); \<open>Halt\<close> is \<^verbatim>\<open>io_clihlt\<close>, the kernel's panic; \<open>Bad_Index\<close> is an access
  outside a C array; \<open>Divide_Error\<close> is the processor's exception 0.
\<close>

datatype kerror = Spin | Halt | Bad_Index | Divide_Error

definition spin_lock :: "u32 \<Rightarrow> kerror + u32" where
  "spin_lock l = (if l = 0 then Inr 1 else Inl Spin)"

definition spin_unlock :: "u32 \<Rightarrow> u32" where
  "spin_unlock l = 0"

lemma spin_lock_free [simp]: "spin_lock 0 = Inr 1"
  by (simp add: spin_lock_def)

lemma spin_unlock_zero [simp]: "spin_unlock l = 0"
  by (simp add: spin_unlock_def)

text \<open>Running one routine after another: an error of the first is an error of the whole.\<close>

definition and_then :: "'e + 'a \<Rightarrow> ('a \<Rightarrow> 'e + 'b) \<Rightarrow> 'e + 'b" where
  "and_then r f = (case r of Inl e \<Rightarrow> Inl e | Inr x \<Rightarrow> f x)"

lemma and_then_simps [simp]: "and_then (Inl e) f = Inl e" "and_then (Inr x) f = f x"
  by (simp_all add: and_then_def)

lemma and_then_cong [fundef_cong]:
  "r = r' \<Longrightarrow> (\<And>x. r' = Inr x \<Longrightarrow> f x = g x) \<Longrightarrow> and_then r f = and_then r' g"
  by (auto simp: and_then_def split: sum.splits)

lemma and_then_eq_Inr: "and_then r f = Inr y \<longleftrightarrow> (\<exists>x. r = Inr x \<and> f x = Inr y)"
  by (auto simp: and_then_def split: sum.splits)

section \<open>Generic lemmas\<close>

lemma unat_of_nat_small: "n < 2 ^ LENGTH('a) \<Longrightarrow> unat (of_nat n :: 'a::len word) = n"
  by (simp add: unat_of_nat take_bit_nat_eq_self)

lemma unat_plus_small:
  "unat x + unat y < 2 ^ LENGTH('a) \<Longrightarrow> unat (x + y) = unat x + unat y"
  for x y :: "'a::len word"
  by (simp add: unat_word_ariths)

lemma unat_minus_le: "y \<le> x \<Longrightarrow> unat (x - y) = unat x - unat y"
  for x y :: "'a::len word"
  by (rule unat_sub)

lemma measure_unat: "x \<noteq> 0 \<Longrightarrow> unat (x - 1) < unat x" for x :: "'a::len word"
  by (simp add: unat_minus_one unat_gt_0)

lemma unat_count_step: "Suc n = unat c \<Longrightarrow> c \<noteq> 0 \<and> unat (c - 1) = n"
  for c :: "'a::len word"
proof -
  assume n: "Suc n = unat c"
  then have "c \<noteq> 0" by (metis nat.distinct(1) unat_0)
  then show ?thesis using n unat_minus_one[of c] by simp
qed

lemma unat_ucast_widen:
  assumes "LENGTH('a) \<le> LENGTH('b)"
  shows "unat (ucast a :: 'b::len word) = unat (a :: 'a::len word)"
proof -
  have "unat a < 2 ^ LENGTH('b)"
    using assms by (intro less_le_trans[OF unsigned_less power_increasing]) auto
  then show ?thesis by (simp add: unsigned_ucast_eq take_bit_nat_eq_self)
qed

lemma unat_ucast_narrow: "unat (ucast a :: 'b::len word) = unat a mod 2 ^ LENGTH('b)"
  by (simp add: unsigned_ucast_eq take_bit_eq_mod)

lemma ucast_eq_iff_u8: "(ucast a :: u32) = ucast b \<longleftrightarrow> a = b" for a b :: u8
proof
  assume "(ucast a :: u32) = ucast b"
  then have "unat (ucast a :: u32) = unat (ucast b :: u32)" by simp
  then show "a = b" by (simp add: unat_ucast_widen word_unat_eq_iff)
qed simp

lemma all_less_Suc_shift: "(\<forall>i < Suc n. P i) \<longleftrightarrow> P 0 \<and> (\<forall>i < n. P (Suc i))"
  using less_Suc_eq_0_disj by auto

text \<open>A property of all bytes is a finite conjunction.\<close>

lemma all_u8: "(\<forall>x :: u8. P x) \<longleftrightarrow> list_all (\<lambda>n. P (word_of_nat n)) [0..<256]"
proof -
  have "P x" if "\<And>n. n < 256 \<Longrightarrow> P (word_of_nat n)" for x :: u8
    using that[of "unat x"] unsigned_less[of x, where ?'a=nat] by simp
  then show ?thesis by (auto simp: list_all_iff)
qed

lemma word_of_natI: "unat x = k \<Longrightarrow> x = word_of_nat k"
  by auto

lemma sint_word_of_int_small:
  "- (2 ^ 31) \<le> i \<Longrightarrow> i < 2 ^ 31 \<Longrightarrow> sint (word_of_int i :: u32) = i"
  by (simp add: signed_of_int signed_take_bit_int_eq_self)

lemma sint_small: "unat n < 2 ^ 31 \<Longrightarrow> sint n = int (unat n)" for n :: u32
proof -
  assume "unat n < 2 ^ 31"
  then have "int (unat n) < int (2 ^ 31)" by (simp only: of_nat_less_iff)
  then have "uint n < 2 ^ 31" unfolding of_nat_unat by simp
  moreover have "- (2 ^ 31) \<le> uint n" by (rule order_trans[OF _ unsigned_greater_eq]) simp
  ultimately have "sint n = uint n" using sint_word_of_int_small[of "uint n"] by simp
  then show ?thesis unfolding of_nat_unat .
qed

lemma ucast_word_of_int_32: "(ucast (word_of_int i :: u64) :: u32) = word_of_int i"
  by (simp add: unsigned_of_int word_of_int_eq_iff)

end
