(* ===== verification/Linked_List.thy ===== *)
theory Linked_List
  imports Prelude
begin

text \<open>
  The intrusive circular doubly linked lists of \<^verbatim>\<open>kernel/include/list.h\<close>. A store of
  \<^verbatim>\<open>LinkedList\<close> nodes gives the two pointers of every node; each operation performs the
  pointer writes of the C function in the same order, so aliasing between its arguments is
  part of the model. \<open>ring h head xs\<close> says that the store holds the list whose head node is
  \<open>head\<close> and whose entries are \<open>xs\<close>; the lemmas show what each operation does to \<open>xs\<close>.
\<close>

section \<open>The operations\<close>

record 'n links =
  nxt :: "'n \<Rightarrow> 'n"
  prv :: "'n \<Rightarrow> 'n"

definition set_next :: "'n \<Rightarrow> 'n \<Rightarrow> 'n links \<Rightarrow> 'n links" where
  "set_next a v h = h\<lparr>nxt := (nxt h)(a := v)\<rparr>"

definition set_prev :: "'n \<Rightarrow> 'n \<Rightarrow> 'n links \<Rightarrow> 'n links" where
  "set_prev a v h = h\<lparr>prv := (prv h)(a := v)\<rparr>"

definition list_empty :: "'n \<Rightarrow> 'n links \<Rightarrow> bool" where
  "list_empty head h \<longleftrightarrow> nxt h head = head"

definition init_list :: "'n \<Rightarrow> 'n links \<Rightarrow> 'n links" where
  "init_list ptr h = set_prev ptr ptr (set_next ptr ptr h)"

definition list_insert :: "'n \<Rightarrow> 'n \<Rightarrow> 'n \<Rightarrow> 'n links \<Rightarrow> 'n links" where
  "list_insert newl prev next h =
     (let h = set_next prev newl h;
          h = set_prev newl prev h;
          h = set_prev next newl h
      in set_next newl next h)"

definition list_add_head :: "'n \<Rightarrow> 'n \<Rightarrow> 'n links \<Rightarrow> 'n links" where
  "list_add_head newl head h = list_insert newl head (nxt h head) h"

definition list_add_tail :: "'n \<Rightarrow> 'n \<Rightarrow> 'n links \<Rightarrow> 'n links" where
  "list_add_tail newl head h = list_insert newl (prv h head) head h"

definition list_hide :: "'n \<Rightarrow> 'n links \<Rightarrow> 'n links" where
  "list_hide entry h =
     (let h = set_next (prv h entry) (nxt h entry) h
      in set_prev (nxt h entry) (prv h entry) h)"

definition list_del :: "'n \<Rightarrow> 'n links \<Rightarrow> 'n links" where
  "list_del entry h = init_list entry (list_hide entry h)"

definition list_move_head :: "'n \<Rightarrow> 'n \<Rightarrow> 'n links \<Rightarrow> 'n links" where
  "list_move_head entry head h = list_add_head entry head (list_hide entry h)"

definition list_move_tail :: "'n \<Rightarrow> 'n \<Rightarrow> 'n links \<Rightarrow> 'n links" where
  "list_move_tail entry head h = list_add_tail entry head (list_hide entry h)"

definition list_concat :: "'n \<Rightarrow> 'n \<Rightarrow> 'n links \<Rightarrow> 'n links" where
  "list_concat dest src h =
     (let h = set_next (prv h dest) (nxt h src) h;
          h = set_prev (nxt h src) (prv h dest) h;
          h = set_prev dest (prv h src) h
      in set_next (prv h src) dest h)"

definition list_slice :: "'n \<Rightarrow> 'n \<Rightarrow> 'n links \<Rightarrow> 'n links" where
  "list_slice left right h =
     (let h = set_next (prv h left) (nxt h right) h;
          h = set_prev (nxt h right) (prv h left) h;
          h = set_prev left right h
      in set_next right left h)"

text \<open>
  \<^verbatim>\<open>list_for_each\<close> with a body that stops the loop where \<open>p\<close> holds (the C code's
  \<^verbatim>\<open>break\<close>): the result is the node the loop variable holds after the loop, the head when
  the loop ran to its end. \<open>None\<close> is a loop that never meets the head.
\<close>

partial_function (option) list_find_from ::
  "('n \<Rightarrow> bool) \<Rightarrow> 'n \<Rightarrow> 'n \<Rightarrow> 'n links \<Rightarrow> 'n option" where
  "list_find_from p entry head h =
     (if entry = head then Some head
      else if p entry then Some entry
      else list_find_from p (nxt h entry) head h)"

definition list_find :: "('n \<Rightarrow> bool) \<Rightarrow> 'n \<Rightarrow> 'n links \<Rightarrow> 'n option" where
  "list_find p head h = list_find_from p (nxt h head) head h"

text \<open>
  \<^verbatim>\<open>list_for_each\<close> with a body that may change the lists: the successor is read before the
  body runs (\<^verbatim>\<open>prefetch\<close>).
\<close>

partial_function (option) list_for_each_from ::
  "('n \<Rightarrow> 's \<times> 'n links \<Rightarrow> 's \<times> 'n links) \<Rightarrow> 'n \<Rightarrow> 'n \<Rightarrow> 'n \<Rightarrow> 's \<times> 'n links \<Rightarrow>
    ('s \<times> 'n links) option" where
  "list_for_each_from body entry prefetch head s =
     (if entry = head then Some s
      else let s' = body entry s
           in list_for_each_from body prefetch (nxt (snd s') prefetch) head s')"

definition list_for_each ::
  "('n \<Rightarrow> 's \<times> 'n links \<Rightarrow> 's \<times> 'n links) \<Rightarrow> 'n \<Rightarrow> 's \<times> 'n links \<Rightarrow> ('s \<times> 'n links) option" where
  "list_for_each body head s =
     (let entry = nxt (snd s) head in list_for_each_from body entry (nxt (snd s) entry) head s)"

lemma set_next_simps [simp]:
  "nxt (set_next a v h) = (nxt h)(a := v)" "prv (set_next a v h) = prv h"
  "nxt (set_prev a v h) = nxt h" "prv (set_prev a v h) = (prv h)(a := v)"
  by (simp_all add: set_next_def set_prev_def)

section \<open>Chains and rings\<close>

text \<open>
  \<open>linked h a xs b\<close>: from \<open>a\<close> the \<^verbatim>\<open>next\<close> pointers lead through \<open>xs\<close> to \<open>b\<close> and the
  \<^verbatim>\<open>prev\<close> pointers lead back.
\<close>

fun linked :: "'n links \<Rightarrow> 'n \<Rightarrow> 'n list \<Rightarrow> 'n \<Rightarrow> bool" where
  "linked h a [] b \<longleftrightarrow> nxt h a = b \<and> prv h b = a"
| "linked h a (x # xs) b \<longleftrightarrow> nxt h a = x \<and> prv h x = a \<and> linked h x xs b"

definition ring :: "'n links \<Rightarrow> 'n \<Rightarrow> 'n list \<Rightarrow> bool" where
  "ring h head xs \<longleftrightarrow> distinct (head # xs) \<and> linked h head xs head"

lemma linked_append:
  "linked h a (xs @ y # ys) b \<longleftrightarrow> linked h a xs y \<and> linked h y ys b"
  by (induction xs arbitrary: a) auto

lemma linked_append2:
  "linked h a (xs @ ys) b \<longleftrightarrow>
     (case ys of [] \<Rightarrow> linked h a xs b | y # zs \<Rightarrow> linked h a xs y \<and> linked h y zs b)"
  by (cases ys) (auto simp: linked_append)

lemma linked_first: "linked h a xs b \<Longrightarrow> nxt h a = hd (xs @ [b])"
  by (cases xs) auto

lemma linked_last: "linked h a xs b \<Longrightarrow> prv h b = last (a # xs)"
  by (induction xs arbitrary: a) auto

text \<open>Writing a \<^verbatim>\<open>next\<close> pointer outside \<open>a, xs\<close>, or a \<^verbatim>\<open>prev\<close> outside \<open>xs, b\<close>, is harmless.\<close>

lemma linked_cong:
  assumes "linked h a xs b"
    and "\<And>x. x \<in> set (a # xs) \<Longrightarrow> nxt h' x = nxt h x"
    and "\<And>x. x \<in> set (xs @ [b]) \<Longrightarrow> prv h' x = prv h x"
  shows "linked h' a xs b"
  using assms by (induction xs arbitrary: a) auto

lemma linked_set_next: "c \<notin> set (a # xs) \<Longrightarrow> linked (set_next c v h) a xs b = linked h a xs b"
  by (induction xs arbitrary: a) auto

lemma linked_set_prev: "c \<notin> set (xs @ [b]) \<Longrightarrow> linked (set_prev c v h) a xs b = linked h a xs b"
  by (induction xs arbitrary: a) auto

lemma ring_distinct: "ring h head xs \<Longrightarrow> distinct (head # xs)"
  by (simp add: ring_def)


section \<open>What the operations do to a ring\<close>

lemma ring_init_list: "ring (init_list p h) p []"
  by (simp add: ring_def init_list_def)

lemma list_empty_ring: "ring h head xs \<Longrightarrow> list_empty head h \<longleftrightarrow> xs = []"
  by (cases xs) (auto simp: ring_def list_empty_def)

lemma ring_next: "ring h head (xs @ e # ys) \<Longrightarrow> nxt h e = hd (ys @ [head])"
  by (auto simp: ring_def linked_append dest: linked_first)

lemma ring_prev: "ring h head (xs @ e # ys) \<Longrightarrow> prv h e = last (head # xs)"
  by (auto simp: ring_def linked_append dest: linked_last)

lemma ring_head_next: "ring h head xs \<Longrightarrow> nxt h head = hd (xs @ [head])"
  by (auto simp: ring_def dest: linked_first)

lemma ring_head_prev: "ring h head xs \<Longrightarrow> prv h head = last (head # xs)"
  by (auto simp: ring_def dest: linked_last)

lemma nxt_list_insert: "nxt (list_insert n p q h) = (nxt h)(p := n, n := q)"
  by (simp add: list_insert_def)

lemma prv_list_insert: "prv (list_insert n p q h) = (prv h)(n := p, q := n)"
  by (simp add: list_insert_def)

lemma nxt_list_hide: "nxt (list_hide e h) = (nxt h)(prv h e := nxt h e)"
  by (simp add: list_hide_def)

lemma prv_list_hide:
  "prv (list_hide e h) = (prv h)((if prv h e = e then nxt h e else nxt h e) := prv h e)"
  by (simp add: list_hide_def)

lemma linked_insert:
  assumes l: "linked h a (xs @ ys) b"
    and d: "distinct (a # xs @ ys)" "distinct (xs @ ys @ [b])"
    and n: "n \<notin> set (a # xs @ ys @ [b])"
  shows "linked (list_insert n (last (a # xs)) (hd (ys @ [b])) h) a (xs @ n # ys) b"
proof -
  let ?p = "last (a # xs)" and ?q = "hd (ys @ [b])"
  let ?h = "list_insert n ?p ?q h"
  have left: "linked ?h a xs n"
  proof (cases xs rule: rev_cases)
    case Nil
    then show ?thesis using n d by (cases ys) (auto simp: nxt_list_insert prv_list_insert)
  next
    case (snoc zs z)
    with l have "linked h a zs z" by (simp add: linked_append)
    then have "linked ?h a zs z"
      by (rule linked_cong) (use snoc n d in \<open>cases ys; auto simp: nxt_list_insert prv_list_insert\<close>)+
    then show ?thesis using snoc n d
      by (cases ys) (auto simp: linked_append nxt_list_insert prv_list_insert)
  qed
  have right: "linked ?h n ys b"
  proof (cases ys)
    case Nil
    then show ?thesis by (simp add: nxt_list_insert prv_list_insert)
  next
    case (Cons y zs)
    with l have "linked h y zs b" by (simp add: linked_append)
    then have "linked ?h y zs b"
      by (rule linked_cong) (use Cons n d in \<open>cases xs rule: rev_cases;
        auto simp: nxt_list_insert prv_list_insert\<close>)+
    then show ?thesis using Cons by (simp add: nxt_list_insert prv_list_insert)
  qed
  show ?thesis using left right by (simp add: linked_append)
qed

lemma linked_hide:
  assumes l: "linked h a (xs @ e # ys) b"
    and d: "distinct (a # xs @ e # ys)" "distinct (xs @ e # ys @ [b])"
  shows "linked (list_hide e h) a (xs @ ys) b"
proof -
  from l have l1: "linked h a xs e" and l2: "linked h e ys b" by (simp_all add: linked_append)
  have pe: "prv h e = last (a # xs)" using l1 by (rule linked_last)
  have ne: "nxt h e = hd (ys @ [b])" using l2 by (rule linked_first)
  let ?h = "list_hide e h"
  have left: "linked ?h a xs (hd (ys @ [b]))"
  proof (cases xs rule: rev_cases)
    case Nil
    then show ?thesis using pe ne by (simp add: nxt_list_hide prv_list_hide)
  next
    case (snoc zs z)
    with l1 have "linked h a zs z" by (simp add: linked_append)
    then have "linked ?h a zs z"
      by (rule linked_cong) (use snoc d pe ne in \<open>cases ys; auto simp: nxt_list_hide prv_list_hide\<close>)+
    then show ?thesis using snoc pe ne
      by (simp add: linked_append nxt_list_hide prv_list_hide)
  qed
  show ?thesis
  proof (cases ys)
    case Nil
    with left show ?thesis by simp
  next
    case (Cons y zs)
    with l2 have "linked h y zs b" by simp
    then have "linked ?h y zs b"
      by (rule linked_cong) (use Cons d pe ne in \<open>cases xs rule: rev_cases;
        auto simp: nxt_list_hide prv_list_hide\<close>)+
    with left Cons show ?thesis by (simp add: linked_append)
  qed
qed

lemma ring_insert:
  assumes "ring h head (xs @ ys)" "n \<notin> set (head # xs @ ys)"
  shows "ring (list_insert n (last (head # xs)) (hd (ys @ [head])) h) head (xs @ n # ys)"
  using assms linked_insert[of h head xs ys head n] by (auto simp: ring_def)

lemma ring_insert_before:
  assumes "ring h head (xs @ e # ys)" "n \<notin> set (head # xs @ e # ys)"
  shows "ring (list_add_tail n e h) head (xs @ n # e # ys)"
  using assms ring_insert[of h head xs "e # ys" n]
  by (simp add: list_add_tail_def ring_prev)

lemma ring_add_tail:
  assumes "ring h head xs" "n \<notin> set (head # xs)"
  shows "ring (list_add_tail n head h) head (xs @ [n])"
  using assms ring_insert[of h head xs "[]" n] by (simp add: list_add_tail_def ring_head_prev)

lemma ring_add_head:
  assumes "ring h head xs" "n \<notin> set (head # xs)"
  shows "ring (list_add_head n head h) head (n # xs)"
  using assms ring_insert[of h head "[]" xs n] by (simp add: list_add_head_def ring_head_next)

lemma ring_hide:
  "ring h head (xs @ e # ys) \<Longrightarrow> ring (list_hide e h) head (xs @ ys)"
  using linked_hide[of h head xs e ys head] by (auto simp: ring_def)

lemma ring_cong:
  assumes "ring h head xs"
    and "\<And>x. x \<in> set (head # xs) \<Longrightarrow> nxt h' x = nxt h x \<and> prv h' x = prv h x"
  shows "ring h' head xs"
  using assms by (auto simp: ring_def intro: linked_cong)

lemma ring_del:
  assumes "ring h head (xs @ e # ys)"
  shows "ring (list_del e h) head (xs @ ys) \<and> ring (list_del e h) e []"
proof
  have "e \<notin> set (head # xs @ ys)" using assms by (auto simp: ring_def)
  then show "ring (list_del e h) head (xs @ ys)"
    unfolding list_del_def
    by (intro ring_cong[OF ring_hide[OF assms]]) (auto simp: init_list_def)
  show "ring (list_del e h) e []" by (simp add: list_del_def ring_init_list)
qed

lemma ring_move_tail:
  assumes "ring h head (xs @ e # ys)"
  shows "ring (list_move_tail e head h) head (xs @ ys @ [e])"
  using ring_add_tail[OF ring_hide[OF assms], of e] assms
  by (auto simp: list_move_tail_def ring_def)

lemma ring_move_head:
  assumes "ring h head (xs @ e # ys)"
  shows "ring (list_move_head e head h) head (e # xs @ ys)"
  using ring_add_head[OF ring_hide[OF assms], of e] assms
  by (auto simp: list_move_head_def ring_def)


section \<open>Frames: rings that share no node\<close>

lemma ring_list_insert_other:
  "ring h c zs \<Longrightarrow> n \<notin> set (c # zs) \<Longrightarrow> p \<notin> set (c # zs) \<Longrightarrow> q \<notin> set (c # zs) \<Longrightarrow>
     ring (list_insert n p q h) c zs"
  by (erule ring_cong) (auto simp: nxt_list_insert prv_list_insert)

lemma ring_list_hide_other:
  assumes "ring h c zs" "ring h a (xs @ e # ys)" "set (c # zs) \<inter> set (a # xs @ e # ys) = {}"
  shows "ring (list_hide e h) c zs"
proof (rule ring_cong[OF assms(1)])
  fix x assume x: "x \<in> set (c # zs)"
  have "prv h e \<in> set (a # xs @ e # ys)" "nxt h e \<in> set (a # xs @ e # ys)"
    using ring_prev[OF assms(2)] ring_next[OF assms(2)] by (cases xs rule: rev_cases; cases ys; auto)+
  with x assms(3) show "nxt (list_hide e h) x = nxt h x \<and> prv (list_hide e h) x = prv h x"
    by (auto simp: nxt_list_hide prv_list_hide)
qed

lemma ring_add_tail_other:
  assumes "ring h c zs" "ring h a xs" "set (c # zs) \<inter> set (n # a # xs) = {}"
  shows "ring (list_add_tail n a h) c zs"
  unfolding list_add_tail_def
  using assms ring_head_prev[OF assms(2)]
  by (intro ring_list_insert_other) (auto split: if_splits)

lemma ring_add_head_other:
  assumes "ring h c zs" "ring h a xs" "set (c # zs) \<inter> set (n # a # xs) = {}"
  shows "ring (list_add_head n a h) c zs"
  unfolding list_add_head_def
  using assms ring_head_next[OF assms(2)]
  by (intro ring_list_insert_other; cases xs) auto

text \<open>Moving an entry from one list to another.\<close>

lemma ring_move_tail_between:
  assumes "ring h a (xs @ e # ys)" "ring h b zs" "set (a # xs @ e # ys) \<inter> set (b # zs) = {}"
  shows "ring (list_move_tail e b h) a (xs @ ys) \<and> ring (list_move_tail e b h) b (zs @ [e])"
proof
  have b: "ring (list_hide e h) b zs"
    by (rule ring_list_hide_other[OF assms(2,1)]) (use assms(3) in blast)
  have a: "ring (list_hide e h) a (xs @ ys)" by (rule ring_hide[OF assms(1)])
  show "ring (list_move_tail e b h) a (xs @ ys)"
    unfolding list_move_tail_def
    by (rule ring_add_tail_other[OF a b]) (use assms(1,3) in \<open>auto simp: ring_def\<close>)
  show "ring (list_move_tail e b h) b (zs @ [e])"
    unfolding list_move_tail_def
    by (rule ring_add_tail[OF b]) (use assms(3) in auto)
qed

lemma ring_move_head_between:
  assumes "ring h a (xs @ e # ys)" "ring h b zs" "set (a # xs @ e # ys) \<inter> set (b # zs) = {}"
  shows "ring (list_move_head e b h) a (xs @ ys) \<and> ring (list_move_head e b h) b (e # zs)"
proof
  have b: "ring (list_hide e h) b zs"
    by (rule ring_list_hide_other[OF assms(2,1)]) (use assms(3) in blast)
  have a: "ring (list_hide e h) a (xs @ ys)" by (rule ring_hide[OF assms(1)])
  show "ring (list_move_head e b h) a (xs @ ys)"
    unfolding list_move_head_def
    by (rule ring_add_head_other[OF a b]) (use assms(1,3) in \<open>auto simp: ring_def\<close>)
  show "ring (list_move_head e b h) b (e # zs)"
    unfolding list_move_head_def
    by (rule ring_add_head[OF b]) (use assms(3) in auto)
qed

section \<open>Concatenation and slices\<close>

lemma ring_concat:
  assumes d: "ring h dest xs" and s: "ring h src ys" and dj: "set (dest # xs) \<inter> set (src # ys) = {}"
  shows "ring (list_concat dest src h) dest (xs @ ys)"
proof (cases ys)
  case Nil
  have h': "nxt (list_concat dest src h) x = nxt h x \<and> prv (list_concat dest src h) x = prv h x"
    if "x \<in> set (dest # xs)" for x
  proof -
    have "nxt h src = src" using s Nil by (simp add: ring_def)
    moreover have "prv h dest \<in> set (dest # xs)" "nxt h (prv h dest) = dest"
      using d ring_head_prev[OF d] by (cases xs rule: rev_cases; simp add: ring_def linked_append)+
    ultimately show ?thesis using that dj by (auto simp: list_concat_def Let_def)
  qed
  show ?thesis using ring_cong[OF d h'] Nil by simp
next
  case (Cons y zs)
  let ?h = "list_concat dest src h" and ?p = "last (dest # xs)" and ?q = "last ys"
  have pd: "prv h dest = ?p" by (rule ring_head_prev[OF d])
  have ns: "nxt h src = y" using ring_head_next[OF s] Cons by simp
  have ps: "prv h src = ?q" using ring_head_prev[OF s] Cons by simp
  have nx: "nxt ?h = (nxt h)(?p := y, ?q := dest)" and pv: "prv ?h = (prv h)(y := ?p, dest := ?q)"
    using pd ns ps dj Cons d s
    by (auto simp: list_concat_def Let_def ring_def fun_eq_iff split: if_splits)
  have p: "?p \<in> set (dest # xs)" and q: "?q \<in> set ys" using Cons by auto
  have left: "linked ?h dest xs y"
  proof (cases xs rule: rev_cases)
    case Nil
    with nx pv dj Cons q show ?thesis by auto
  next
    case (snoc us z)
    from d snoc have "linked h dest us z" by (simp add: ring_def linked_append)
    then have "linked ?h dest us z"
      by (rule linked_cong) (use snoc d dj Cons q in \<open>auto simp: nx pv ring_def\<close>)+
    with snoc nx pv dj Cons q show ?thesis by (auto simp: linked_append)
  qed
  have "linked h y zs src" using s Cons by (simp add: ring_def)
  then have "linked ?h y zs dest"
  proof (cases zs rule: rev_cases)
    case Nil
    with nx pv Cons show ?thesis by simp
  next
    case (snoc us z)
    with s Cons have "linked h y us z" by (simp add: ring_def linked_append)
    then have "linked ?h y us z"
      by (rule linked_cong) (use snoc s dj Cons p in \<open>auto simp: nx pv ring_def\<close>)+
    with snoc nx pv Cons show ?thesis by (simp add: linked_append)
  qed
  with left d s dj Cons show ?thesis by (auto simp: ring_def linked_append)
qed

text \<open>
  Slicing cuts the entries from \<open>left\<close> to \<open>right\<close> out of the list and closes them into a ring
  of their own, which has no separate head node: \<open>left\<close> serves as its head.
\<close>

lemma ring_slice_single:
  assumes "ring h head (xs @ e # ys)"
  shows "ring (list_slice e e h) head (xs @ ys) \<and> ring (list_slice e e h) e []"
proof -
  have "list_slice e e h = set_next e e (set_prev e e (list_hide e h))"
    by (simp add: list_slice_def list_hide_def Let_def)
  also have "\<dots> = list_del e h"
    by (simp add: list_del_def init_list_def set_next_def set_prev_def)
  finally show ?thesis using ring_del[OF assms] by simp
qed

lemma ring_slice:
  assumes r: "ring h head (xs @ l # ms @ r # ys)"
  shows "ring (list_slice l r h) head (xs @ ys) \<and> ring (list_slice l r h) l (ms @ [r])"
proof -
  let ?h = "list_slice l r h" and ?p = "last (head # xs)" and ?q = "hd (ys @ [head])"
  have pl: "prv h l = ?p" by (rule ring_prev[OF r])
  have nr: "nxt h r = ?q" using ring_next[of h head "xs @ l # ms" r ys] r by simp
  have dis: "distinct (head # xs @ l # ms @ r # ys)" using r by (rule ring_distinct)
  have p: "?p \<in> set (head # xs)" and q: "?q \<in> set (head # ys)" by (auto simp: hd_append)
  have lr: "l \<noteq> r" "l \<notin> set (head # xs @ ms @ ys)" "r \<notin> set (head # xs @ ms @ ys)" using dis by auto
  have nx: "nxt ?h = (nxt h)(?p := ?q, r := l)" and pv: "prv ?h = (prv h)(?q := ?p, l := r)"
    using pl nr p q lr by (auto simp: list_slice_def Let_def fun_eq_iff split: if_splits)
  have lx: "linked h head xs l" and lm: "linked h l ms r" and ly: "linked h r ys head"
    using r by (auto simp: ring_def linked_append)
  have left: "linked ?h head xs ?q"
  proof (cases xs rule: rev_cases)
    case Nil
    with nx pv q lr show ?thesis by auto
  next
    case (snoc us z)
    with lx have "linked h head us z" by (simp add: linked_append)
    then have "linked ?h head us z"
      by (rule linked_cong) (use snoc dis q in \<open>cases ys; auto simp: nx pv\<close>)+
    with snoc nx pv q lr show ?thesis by (auto simp: linked_append)
  qed
  have outer: "linked ?h head (xs @ ys) head"
  proof (cases ys)
    case Nil
    with left show ?thesis by simp
  next
    case (Cons y zs)
    with ly have "linked h y zs head" by simp
    then have "linked ?h y zs head"
      by (rule linked_cong) (use Cons dis p in \<open>auto simp: nx pv\<close>)+
    with left Cons show ?thesis by (simp add: linked_append)
  qed
  have "linked ?h l ms r"
    using lm by (rule linked_cong) (use dis p q in \<open>auto simp: nx pv\<close>)+
  with nx pv q lr have "linked ?h l (ms @ [r]) l" by (auto simp: linked_append)
  with outer dis show ?thesis by (auto simp: ring_def)
qed

section \<open>Traversal\<close>

lemma list_find_from_linked:
  assumes "linked h e xs head" "head \<notin> set (e # xs)"
  shows "list_find_from p e head h = Some (hd (dropWhile (\<lambda>x. \<not> p x) (e # xs) @ [head]))"
  using assms
proof (induction xs arbitrary: e)
  case Nil
  then show ?case by (simp add: list_find_from.simps[of p e] list_find_from.simps[of p head])
next
  case (Cons x xs)
  have "list_find_from p x head h = Some (hd (dropWhile (\<lambda>x. \<not> p x) (x # xs) @ [head]))"
    using Cons.prems by (intro Cons.IH) auto
  with Cons.prems show ?case by (subst list_find_from.simps) auto
qed

text \<open>On a ring the loop ends, at the first entry that satisfies the test or at the head.\<close>

lemma list_find_ring:
  assumes "ring h head xs"
  shows "list_find p head h = Some (hd (dropWhile (\<lambda>x. \<not> p x) xs @ [head]))"
proof (cases xs)
  case Nil
  with assms show ?thesis by (simp add: ring_def list_find_def list_find_from.simps[of p head])
next
  case (Cons x ys)
  with assms have "linked h x ys head" "head \<notin> set (x # ys)" "nxt h head = x" by (auto simp: ring_def)
  with Cons list_find_from_linked[of h x ys head p] show ?thesis by (simp add: list_find_def)
qed

text \<open>The loop that records every entry and removes those that satisfy \<open>p\<close>.\<close>

definition visit_and_del :: "('n \<Rightarrow> bool) \<Rightarrow> 'n \<Rightarrow> 'n list \<times> 'n links \<Rightarrow> 'n list \<times> 'n links" where
  "visit_and_del p e s = (fst s @ [e], if p e then list_del e (snd s) else snd s)"

lemma list_for_each_from_ring:
  assumes "ring h head (ks @ es)" "entry = hd (es @ [head])" "prefetch = nxt h entry"
  shows "\<exists>h'. list_for_each_from (visit_and_del p) entry prefetch head (acc, h) = Some (acc @ es, h')
           \<and> ring h' head (ks @ filter (\<lambda>x. \<not> p x) es)"
  using assms
proof (induction es arbitrary: ks entry prefetch acc h)
  case Nil
  then show ?case by (auto simp: list_for_each_from.simps)
next
  case (Cons e es)
  let ?h = "if p e then list_del e h else h" and ?ks = "if p e then ks else ks @ [e]"
  have e: "entry = e" "e \<noteq> head" using Cons.prems by (auto simp: ring_def)
  have pf: "prefetch = hd (es @ [head])" using Cons.prems ring_next by fastforce
  have r: "ring ?h head (?ks @ es)" using Cons.prems ring_del by fastforce
  obtain h' where "list_for_each_from (visit_and_del p) prefetch (nxt ?h prefetch) head (acc @ [e], ?h)
      = Some ((acc @ [e]) @ es, h')" and "ring h' head (?ks @ filter (\<lambda>x. \<not> p x) es)"
    using Cons.IH[OF r pf refl, of "acc @ [e]"] by blast
  then show ?case using e
    by (subst list_for_each_from.simps) (auto simp: visit_and_del_def Let_def split: if_splits)
qed

section \<open>Properties\<close>

text \<open>A store on numbers that holds the rings \<open>0: 1, 2, 3\<close> and \<open>4: 5\<close>.\<close>

definition demo_links :: "nat links" where
  "demo_links = list_add_tail 5 4 (init_list 4 (list_add_tail 3 0 (list_add_tail 2 0 (list_add_tail 1 0
     (init_list 0 \<lparr>nxt = id, prv = id\<rparr>)))))"

lemma demo_rings: "ring demo_links 0 [1, 2, 3]" "ring demo_links 4 [5]"
  by (simp_all add: ring_def demo_links_def list_add_tail_def list_insert_def init_list_def Let_def
      set_next_def set_prev_def)

text \<open>
  \<^verbatim>\<open>list_move_tail\<close> moves an entry out of whatever list it is in to the end of another list:
  the first list loses exactly this entry, the second gains it at its end, and both stay
  well-formed rings in both directions.
\<close>

theorem list_move_tail_between_lists:
  assumes "ring h a (xs @ e # ys)" and "ring h b zs" and "set (a # xs @ e # ys) \<inter> set (b # zs) = {}"
  shows "ring (list_move_tail e b h) a (xs @ ys) \<and> ring (list_move_tail e b h) b (zs @ [e])"
  using ring_move_tail_between[OF assms] .

theorem list_move_tail_between_lists_witness:
  "ring (list_move_tail 2 4 demo_links) 0 [1, 3] \<and> ring (list_move_tail 2 4 demo_links) 4 [5, 2]"
  using list_move_tail_between_lists[of demo_links 0 "[1]" 2 "[3]" 4 "[5]"] demo_rings by simp

text \<open>
  \<^verbatim>\<open>list_concat\<close> appends the entries of one list to another, and \<^verbatim>\<open>list_slice\<close> cuts a run of
  entries out again, closing both the remaining list and the run into rings.
\<close>

theorem list_concat_and_slice:
  assumes "ring h dest xs" and "ring h src ys" and "set (dest # xs) \<inter> set (src # ys) = {}"
  shows "ring (list_concat dest src h) dest (xs @ ys) \<and>
         (\<forall>us l ms r vs. xs @ ys = us @ l # ms @ r # vs \<longrightarrow>
            ring (list_slice l r (list_concat dest src h)) dest (us @ vs) \<and>
            ring (list_slice l r (list_concat dest src h)) l (ms @ [r]))"
  using ring_concat[OF assms] ring_slice by metis

theorem list_concat_and_slice_witness:
  "ring (list_concat 0 4 demo_links) 0 [1, 2, 3, 5] \<and>
   ring (list_slice 2 5 (list_concat 0 4 demo_links)) 0 [1]"
proof -
  have d: "set [0 :: nat, 1, 2, 3] \<inter> set [4, 5] = {}" by simp
  note th = list_concat_and_slice[OF demo_rings d]
  have "[1 :: nat, 2, 3] @ [5] = [1] @ 2 # [3] @ 5 # []" by simp
  with th have "ring (list_slice 2 5 (list_concat 0 4 demo_links)) 0 ([1] @ [])" by blast
  with th show ?thesis by simp
qed

text \<open>
  C39. \<^verbatim>\<open>list_for_each\<close> is safe against removal of the entry it is at: it ends, visits every entry
  of the list once and in order, and leaves the list of the entries that were not removed.
\<close>

theorem list_for_each_safe_removal:
  assumes "ring h head xs"
  shows "\<exists>h'. list_for_each (visit_and_del p) head ([], h) = Some (xs, h') \<and>
           ring h' head (filter (\<lambda>x. \<not> p x) xs)"
proof -
  have "nxt h head = hd (xs @ [head])" using ring_head_next[OF assms] .
  then show ?thesis
    using list_for_each_from_ring[of h head "[]" xs "nxt h head" "nxt h (nxt h head)" p "[]"] assms
    by (simp add: list_for_each_def Let_def)
qed

theorem list_for_each_safe_removal_witness:
  "\<exists>h'. list_for_each (visit_and_del even) 0 ([], demo_links) = Some ([1, 2, 3], h') \<and> ring h' 0 [1, 3]"
  using list_for_each_safe_removal[of demo_links 0 "[1, 2, 3]" even] demo_rings by simp

end
