(* ===== verification/Lib.thy ===== *)
theory Lib
  imports Prelude
begin

text \<open>
  The kernel library \<^verbatim>\<open>kernel/lib.c\<close>: 64-bit division by shift and subtract, the
  byte-block and string routines over a flat byte memory, the BCD conversions, the byte
  checksum, the string hash and the wait for the clock. The calendar functions \<^verbatim>\<open>mktime\<close> and \<^verbatim>\<open>gmtime\<close> of the same
  file are in theory \<open>Calendar\<close>.
\<close>

section \<open>64-bit division\<close>

text \<open>
  The first loop of \<^verbatim>\<open>do_divmod64\<close> left-justifies the denominator; \<open>None\<close> is the endless
  loop it would be for the denominator 0, which the code rules out before.
\<close>

partial_function (option) divmod_justify :: "u64 \<Rightarrow> u64 \<Rightarrow> (u64 \<times> u64) option" where
  "divmod_justify den qbit =
     (if 0 \<le> sint den then divmod_justify (push_bit 1 den) (push_bit 1 qbit) else Some (den, qbit))"

text \<open>The second loop: one quotient bit per round; the result is the quotient and the remainder.\<close>

function divmod_loop :: "u64 \<Rightarrow> u64 \<Rightarrow> u64 \<Rightarrow> u64 \<Rightarrow> u64 \<times> u64" where
  "divmod_loop num den qbit quot =
     (if qbit = 0 then (quot, num)
      else if den \<le> num
      then divmod_loop (num - den) (drop_bit 1 den) (drop_bit 1 qbit) (quot + qbit)
      else divmod_loop num (drop_bit 1 den) (drop_bit 1 qbit) quot)"
  by pat_completeness auto
termination
  by (relation "measure (\<lambda>(num, den, qbit, quot). unat qbit)")
    (auto simp: drop_bit_eq_div unat_div_distrib unat_gt_0)

declare divmod_loop.simps [simp del]

definition do_divmod64 :: "u64 \<Rightarrow> u64 \<Rightarrow> kerror + (u64 \<times> u64)" where
  "do_divmod64 num den =
     (if den = 0 then Inl Divide_Error
      else case divmod_justify den 1 of
             None \<Rightarrow> Inl Spin
           | Some (den, qbit) \<Rightarrow> Inr (divmod_loop num den qbit 0))"

definition do_mod64 :: "u64 \<Rightarrow> u64 \<Rightarrow> kerror + u64" where
  "do_mod64 num den = map_sum id snd (do_divmod64 num den)"

definition do_div64 :: "u64 \<Rightarrow> u64 \<Rightarrow> kerror + u64" where
  "do_div64 num den = map_sum id fst (do_divmod64 num den)"

lemma unat_half: "unat (x div 2) = unat x div 2" for x :: u64
  by (simp add: unat_div_distrib)

lemma unat_double: "unat x < 2 ^ 63 \<Longrightarrow> unat (x * 2) = 2 * unat x" for x :: u64
  by (simp add: unat_word_ariths)

lemma bit_63_iff: "bit x 63 \<longleftrightarrow> 2 ^ 63 \<le> unat x" for x :: u64
proof -
  have "bit x 63 = bit (unat x) 63" by (simp add: bit_unsigned_iff)
  then have b: "bit x 63 = odd (unat x div 2 ^ 63)" by (simp add: bit_iff_odd)
  have "unat x div 2 ^ 63 < 2" using unsigned_less[of x, where ?'a=nat] by auto
  then consider "unat x div 2 ^ 63 = 0" | "unat x div 2 ^ 63 = 1" by linarith
  then show ?thesis
  proof cases
    case 1
    with b show ?thesis by (simp add: div_eq_0_iff not_le)
  next
    case 2
    then have "2 ^ 63 \<le> unat x" using div_eq_0_iff[of "unat x" "2 ^ 63"] by (simp add: not_less)
    with 2 b show ?thesis by simp
  qed
qed

lemma sint_nonneg_iff: "0 \<le> sint x \<longleftrightarrow> unat x < 2 ^ 63" for x :: u64
  using bit_last_iff[of x] by (simp add: bit_63_iff not_le[symmetric] not_less)

text \<open>Left-justifying multiplies both words by the same power of two without overflow.\<close>

lemma divmod_justify_ok:
  assumes "0 < unat den" "unat den = d * 2 ^ k" "unat qbit = 2 ^ k" "unat den < 2 ^ 64"
  shows "\<exists>den' qbit' k'. divmod_justify den qbit = Some (den', qbit') \<and>
           unat den' = d * 2 ^ k' \<and> unat qbit' = 2 ^ k' \<and> 2 ^ 63 \<le> unat den'"
  using assms
proof (induction "2 ^ 64 - unat den" arbitrary: den qbit k rule: less_induct)
  case less
  show ?case
  proof (cases "0 \<le> sint den")
    case True
    then have s: "unat den < 2 ^ 63" by (simp add: sint_nonneg_iff)
    have q: "unat qbit < 2 ^ 63"
      using less.prems s by (metis le_less_trans mult_le_mono1 nat_0_less_mult_iff less_eq_Suc_le mult_1 One_nat_def)
    have d': "unat (push_bit 1 den) = d * 2 ^ Suc k" "unat (push_bit 1 qbit) = 2 ^ Suc k"
      using less.prems s q by (simp_all add: unat_double)
    have "\<exists>den' qbit' k'. divmod_justify (push_bit 1 den) (push_bit 1 qbit) = Some (den', qbit') \<and>
           unat den' = d * 2 ^ k' \<and> unat qbit' = 2 ^ k' \<and> 2 ^ 63 \<le> unat den'"
    proof (rule less.hyps[of "push_bit 1 den" "Suc k"])
      show "2 ^ 64 - unat (push_bit 1 den) < 2 ^ 64 - unat den"
        using s less.prems(1) by (simp add: unat_double)
    qed (use d' less.prems(1) s in \<open>simp_all add: unat_double\<close>)
    with True show ?thesis by (subst divmod_justify.simps) simp
  next
    case False
    with less.prems show ?thesis
      by (subst divmod_justify.simps) (auto simp: sint_nonneg_iff not_less)
  qed
qed

lemma divmod_loop_ok:
  assumes "unat qbit = (if i = 0 then 0 else 2 ^ (i - 1))"
    and "i \<noteq> 0 \<Longrightarrow> unat den = d * 2 ^ (i - 1)" and "0 < d"
    and "unat num < d * 2 ^ i"
    and "unat quot * d + unat num = n" "n < 2 ^ 64" "2 ^ i dvd unat quot"
  shows "\<exists>q r. divmod_loop num den qbit quot = (q, r) \<and> unat q = n div d \<and> unat r = n mod d"
  using assms
proof (induction i arbitrary: num den qbit quot)
  case 0
  then have "unat quot = n div d" "unat num = n mod d" by (auto simp: div_mult_self3 mult.commute)
  with 0 show ?case by (subst divmod_loop.simps) (simp add: unat_eq_zero)
next
  case (Suc i)
  then have q: "unat qbit = 2 ^ i" and den: "unat den = d * 2 ^ i" and q0: "qbit \<noteq> 0" by auto
  have dq: "unat (drop_bit 1 qbit) = (if i = 0 then 0 else 2 ^ (i - 1))"
    by (cases i) (simp_all add: drop_bit_eq_div unat_half q)
  have dd: "unat (drop_bit 1 den) = d * 2 ^ (i - 1)" if "i \<noteq> 0"
    using that by (cases i) (simp_all add: drop_bit_eq_div unat_half den)
  show ?case
  proof (cases "den \<le> num")
    case True
    then have le: "unat den \<le> unat num" by (simp add: word_le_nat_alt)
    have sub: "unat (num - den) = unat num - d * 2 ^ i" using True by (simp add: unat_sub den)
    have "(unat quot + 2 ^ i) * d \<le> n" using Suc.prems(5) le den by (simp add: algebra_simps)
    moreover have "unat quot + 2 ^ i \<le> (unat quot + 2 ^ i) * d" using \<open>0 < d\<close> by simp
    ultimately have lt: "unat quot + 2 ^ i < 2 ^ 64" using Suc.prems(6) by linarith
    then have add: "unat (quot + qbit) = unat quot + 2 ^ i" by (simp add: unat_plus_small q)
    have "\<exists>q r. divmod_loop (num - den) (drop_bit 1 den) (drop_bit 1 qbit) (quot + qbit) = (q, r)
        \<and> unat q = n div d \<and> unat r = n mod d"
    proof (rule Suc.IH[OF dq dd \<open>0 < d\<close>])
      show "unat (num - den) < d * 2 ^ i" using sub Suc.prems(4) by (simp add: algebra_simps)
      show "unat (quot + qbit) * d + unat (num - den) = n"
        using add sub le den Suc.prems(5) by (simp add: algebra_simps)
      show "2 ^ i dvd unat (quot + qbit)"
        using add Suc.prems(7) by (auto intro!: dvd_add dest: dvd_mult_left)
    qed (use Suc.prems(6) in auto)
    with True q0 show ?thesis by (subst divmod_loop.simps) simp
  next
    case False
    then have "unat num < d * 2 ^ i" by (simp add: word_le_nat_alt den not_le)
    then have "\<exists>q r. divmod_loop num (drop_bit 1 den) (drop_bit 1 qbit) quot = (q, r)
        \<and> unat q = n div d \<and> unat r = n mod d"
      by (intro Suc.IH[OF dq dd \<open>0 < d\<close>]) (use Suc.prems in \<open>auto dest: dvd_mult_left\<close>)
    with False q0 show ?thesis by (subst divmod_loop.simps) simp
  qed
qed

lemma do_divmod64_ok:
  assumes "den \<noteq> 0"
  shows "\<exists>q r. do_divmod64 num den = Inr (q, r) \<and>
           unat q = unat num div unat den \<and> unat r = unat num mod unat den"
proof -
  have "0 < unat den" using assms by (simp add: unat_gt_0)
  then obtain den' qbit' k where j: "divmod_justify den 1 = Some (den', qbit')"
      and k: "unat den' = unat den * 2 ^ k" "unat qbit' = 2 ^ k" "2 ^ 63 \<le> unat den'"
    using divmod_justify_ok[of den "unat den" 0 1] unsigned_less[of den, where ?'a=nat] by auto
  have "\<exists>q r. divmod_loop num den' qbit' 0 = (q, r) \<and>
          unat q = unat num div unat den \<and> unat r = unat num mod unat den"
    by (rule divmod_loop_ok[where i = "Suc k"])
      (use k \<open>0 < unat den\<close> unsigned_less[of num, where ?'a=nat] in auto)
  with j assms show ?thesis by (auto simp: do_divmod64_def)
qed


section \<open>Byte blocks and strings\<close>

text \<open>Memory is flat: a byte for each 32-bit address, and pointer arithmetic wraps.\<close>

type_synonym bytes = "u32 \<Rightarrow> u8"

text \<open>
  \<^verbatim>\<open>memcpy\<close> and \<^verbatim>\<open>memset\<close> return their first argument; the models return the memory
  after the loop.
\<close>

function memcpy :: "u32 \<Rightarrow> u32 \<Rightarrow> u32 \<Rightarrow> bytes \<Rightarrow> bytes" where
  "memcpy tmp s count m =
     (if count = 0 then m else memcpy (tmp + 1) (s + 1) (count - 1) (m(tmp := m s)))"
  by pat_completeness auto
termination
  by (relation "measure (\<lambda>(tmp, s, count, m). unat count)") (auto simp: measure_unat)

function memset :: "u32 \<Rightarrow> u8 \<Rightarrow> u32 \<Rightarrow> bytes \<Rightarrow> bytes" where
  "memset tmp ch count m =
     (if count = 0 then m else memset (tmp + 1) ch (count - 1) (m(tmp := ch)))"
  by pat_completeness auto
termination
  by (relation "measure (\<lambda>(tmp, ch, count, m). unat count)") (auto simp: measure_unat)

function memcmp :: "u32 \<Rightarrow> u32 \<Rightarrow> u32 \<Rightarrow> bytes \<Rightarrow> u32" where
  "memcmp tmp s n m =
     (if n = 0 then 0
      else if m tmp \<noteq> m s then ucast (m tmp) - ucast (m s)
      else memcmp (tmp + 1) (s + 1) (n - 1) m)"
  by pat_completeness auto
termination
  by (relation "measure (\<lambda>(tmp, s, n, m). unat n)") (auto simp: measure_unat)

function checksum_from :: "u8 \<Rightarrow> u32 \<Rightarrow> u32 \<Rightarrow> bytes \<Rightarrow> u8" where
  "checksum_from acc tmp n m =
     (if n = 0 then acc else checksum_from (acc + m tmp) (tmp + 1) (n - 1) m)"
  by pat_completeness auto
termination
  by (relation "measure (\<lambda>(acc, tmp, n, m). unat n)") (auto simp: measure_unat)

definition checksum :: "u32 \<Rightarrow> u32 \<Rightarrow> bytes \<Rightarrow> u8" where
  "checksum dest n m = checksum_from 0 dest n m"

text \<open>The string loops run to a zero byte; \<open>None\<close> is a memory that holds none.\<close>

partial_function (option) strlen_from :: "u32 \<Rightarrow> u32 \<Rightarrow> bytes \<Rightarrow> u32 option" where
  "strlen_from len tmp m = (if m tmp = 0 then Some len else strlen_from (len + 1) (tmp + 1) m)"

definition strlen :: "u32 \<Rightarrow> bytes \<Rightarrow> u32 option" where
  "strlen src m = strlen_from 0 src m"

partial_function (option) strcpy :: "u32 \<Rightarrow> u32 \<Rightarrow> bytes \<Rightarrow> bytes option" where
  "strcpy tmp s m =
     (if m s = 0 then Some (m(tmp := 0)) else strcpy (tmp + 1) (s + 1) (m(tmp := m s)))"

partial_function (option) stringHash_from :: "u32 \<Rightarrow> u32 \<Rightarrow> bytes \<Rightarrow> u32 option" where
  "stringHash_from hash str m =
     (if m str = 0 then Some hash
      else stringHash_from (hash * 31 + ucast (m str)) (str + 1) m)"

definition stringHash :: "u32 \<Rightarrow> bytes \<Rightarrow> u32 option" where
  "stringHash str m = stringHash_from 0 str m"

definition BCD2BIN :: "u8 \<Rightarrow> u8" where
  "BCD2BIN val = (val AND 15) + drop_bit 4 val * 10"

definition BIN2BCD :: "u8 \<Rightarrow> u8" where
  "BIN2BCD val = push_bit 4 (val div 10) + val mod 10"

declare memcpy.simps [simp del] memset.simps [simp del] memcmp.simps [simp del]
  checksum_from.simps [simp del]

lemmas string_loops = strlen_from.simps strcpy.simps stringHash_from.simps

section \<open>What the block routines compute\<close>

text \<open>
  The address of byte \<open>i\<close> of a block is \<open>p + i\<close>; whether an address lies in a block of \<open>n\<close>
  bytes is \<open>unat (x - p) < n\<close>, which is right also for a block that wraps.
\<close>

lemma in_block_Suc: "unat (x - p) < Suc n \<longleftrightarrow> x = p \<or> unat (x - (p + 1)) < n"
  if "Suc n \<le> 2 ^ 32" for x p :: u32
proof (cases "x = p")
  case False
  then have "unat (x - p) \<noteq> 0" by (simp add: unat_eq_zero)
  moreover from False have "unat (x - (p + 1)) = unat (x - p) - 1"
    using unat_minus_one[of "x - p"] by (simp add: diff_diff_eq)
  ultimately show ?thesis using False by auto
qed simp

lemma memcpy_apply:
  assumes "dest = src \<or> unat count \<le> unat (dest - src)"
  shows "memcpy dest src count m x =
           (if unat (x - dest) < unat count then m (src + (x - dest)) else m x)"
  using assms
proof (induction "unat count" arbitrary: dest src count m)
  case 0
  then show ?case by (subst memcpy.simps) (simp add: unat_eq_zero)
next
  case (Suc n)
  then have c: "count \<noteq> 0" "unat (count - 1) = n"
    using unat_count_step[of n count] by auto
  have le: "Suc n \<le> 2 ^ 32" using Suc(2) unsigned_less[of count, where ?'a=nat] by simp
  let ?m = "m(dest := m src)"
  have "memcpy dest src count m x = memcpy (dest + 1) (src + 1) (count - 1) ?m x"
    using c by (subst memcpy.simps) simp
  also have "\<dots> = (if unat (x - (dest + 1)) < n then ?m (src + 1 + (x - (dest + 1))) else ?m x)"
    using Suc(1)[of "count - 1" "dest + 1" "src + 1" ?m] Suc(2,3) c by auto
  also have "\<dots> = (if unat (x - dest) < Suc n then m (src + (x - dest)) else m x)"
  proof (cases "unat (x - (dest + 1)) < n")
    case True
    have "src + (x - dest) \<noteq> dest \<or> dest = src"
    proof (rule disjCI, rule notI)
      assume "dest \<noteq> src" and eq: "src + (x - dest) = dest"
      then have "Suc n \<le> unat (x - dest)" using Suc(2,3) by (metis add_diff_cancel_left')
      moreover have "x \<noteq> dest" using eq \<open>dest \<noteq> src\<close> by auto
      ultimately show False using True in_block_Suc[OF le, of x dest] by simp
    qed
    with True in_block_Suc[OF le, of x dest] show ?thesis by (auto simp: algebra_simps)
  next
    case False
    with in_block_Suc[OF le, of x dest] show ?thesis by auto
  qed
  finally show ?case using Suc(2) by simp
qed

lemma memset_apply:
  "memset dest ch count m x = (if unat (x - dest) < unat count then ch else m x)"
proof (induction "unat count" arbitrary: dest count m)
  case 0
  then show ?case by (subst memset.simps) (simp add: unat_eq_zero)
next
  case (Suc n)
  then have c: "count \<noteq> 0" "unat (count - 1) = n"
    using unat_count_step[of n count] by auto
  have le: "Suc n \<le> 2 ^ 32" using Suc(2) unsigned_less[of count, where ?'a=nat] by simp
  have "memset dest ch count m x = memset (dest + 1) ch (count - 1) (m(dest := ch)) x"
    using c by (subst memset.simps) simp
  also have "\<dots> = (if unat (x - (dest + 1)) < n then ch else (m(dest := ch)) x)"
    using Suc(1)[of "count - 1" "dest + 1"] c by simp
  finally show ?case using Suc(2) in_block_Suc[OF le, of x dest] by auto
qed

lemma memcmp_zero_iff:
  "memcmp p q n m = 0 \<longleftrightarrow> (\<forall>i < unat n. m (p + of_nat i) = m (q + of_nat i))"
proof (induction "unat n" arbitrary: p q n)
  case 0
  then show ?case by (subst memcmp.simps) (simp add: unat_eq_zero)
next
  case (Suc k)
  then have c: "n \<noteq> 0" "unat (n - 1) = k"
    using unat_count_step[of k n] by auto
  have ne: "ucast (m p) - ucast (m q) \<noteq> (0 :: u32)" if "m p \<noteq> m q"
    using that by (auto simp: ucast_eq_iff_u8)
  have "memcmp p q n m = 0 \<longleftrightarrow> m p = m q \<and> memcmp (p + 1) (q + 1) (n - 1) m = 0"
    using c ne by (subst memcmp.simps) auto
  also have "\<dots> \<longleftrightarrow> m p = m q \<and> (\<forall>i < k. m (p + of_nat (Suc i)) = m (q + of_nat (Suc i)))"
    using Suc(1)[of "n - 1" "p + 1" "q + 1"] c by (simp add: algebra_simps)
  also have "\<dots> \<longleftrightarrow> (\<forall>i < Suc k. m (p + of_nat i) = m (q + of_nat i))"
    by (simp add: all_less_Suc_shift)
  finally show ?case using Suc(2) by simp
qed

section \<open>What the string routines compute\<close>

fun cstr :: "bytes \<Rightarrow> u32 \<Rightarrow> u8 list \<Rightarrow> bool" where
  "cstr m p [] \<longleftrightarrow> m p = 0"
| "cstr m p (c # cs) \<longleftrightarrow> c \<noteq> 0 \<and> m p = c \<and> cstr m (p + 1) cs"

lemma strlen_from_cstr: "cstr m p cs \<Longrightarrow> strlen_from len p m = Some (len + of_nat (length cs))"
  by (induction cs arbitrary: p len) (auto simp: strlen_from.simps[of _ p for p] algebra_simps)

lemma stringHash_from_cstr:
  "cstr m p cs \<Longrightarrow> stringHash_from h p m = Some (foldl (\<lambda>h c. h * 31 + ucast c) h cs)"
  by (induction cs arbitrary: p h) (auto simp: stringHash_from.simps[of _ p for p])

lemma cstr_cong:
  "cstr m p cs \<Longrightarrow> (\<And>j. j \<le> length cs \<Longrightarrow> m' (p + of_nat j) = m (p + of_nat j)) \<Longrightarrow> cstr m' p cs"
proof (induction cs arbitrary: p)
  case (Cons c cs)
  have "m' (p + 1 + of_nat j) = m (p + 1 + of_nat j)" if "j \<le> length cs" for j
    using Cons.prems(2)[of "Suc j"] that by (simp add: algebra_simps)
  then have "cstr m' (p + 1) cs" using Cons by auto
  moreover have "m' p = m p" using Cons.prems(2)[of 0] by simp
  ultimately show ?case using Cons.prems(1) by simp
next
  case Nil
  then show ?case using Nil.prems(2)[of 0] by simp
qed

lemma strcpy_apply:
  assumes "cstr m s cs" "length cs + 1 < 2 ^ 32" "dest = s \<or> length cs < unat (dest - s)"
  shows "\<exists>m'. strcpy dest s m = Some m' \<and> (\<forall>x. m' x =
    (if unat (x - dest) < length cs then cs ! unat (x - dest)
     else if unat (x - dest) = length cs then 0 else m x))"
  using assms
proof (induction cs arbitrary: dest s m)
  case Nil
  then show ?case by (subst strcpy.simps) (auto simp: unat_eq_zero)
next
  case (Cons c cs)
  let ?m = "m(dest := c)"
  have c: "c \<noteq> 0" "m s = c" "cstr m (s + 1) cs" using Cons.prems(1) by auto
  have src: "cstr ?m (s + 1) cs"
  proof (cases "dest = s")
    case True
    then have "?m = m" using c(2) by auto
    then show ?thesis using c(3) by simp
  next
    case False
    have "dest \<noteq> s + 1 + of_nat j" if "j \<le> length cs" for j
    proof
      assume "dest = s + 1 + of_nat j"
      then have "dest - s = of_nat (Suc j)" by (simp add: algebra_simps)
      then have "unat (dest - s) = Suc j"
        using that Cons.prems(2) by (simp add: unat_of_nat_small del: of_nat_Suc)
      with False that Cons.prems(3) show False by simp
    qed
    then show ?thesis by (intro cstr_cong[OF c(3)]) auto
  qed
  have dst: "dest + 1 = s + 1 \<or> length cs < unat (dest + 1 - (s + 1))" and len: "length cs + 1 < 2 ^ 32"
    using Cons.prems(2,3) by auto
  obtain m' where m': "strcpy (dest + 1) (s + 1) ?m = Some m'"
    "\<forall>x. m' x = (if unat (x - (dest + 1)) < length cs then cs ! unat (x - (dest + 1))
     else if unat (x - (dest + 1)) = length cs then 0 else ?m x)"
    using Cons.IH[OF src len dst] by blast
  have "m' x = (if unat (x - dest) < length (c # cs) then (c # cs) ! unat (x - dest)
     else if unat (x - dest) = length (c # cs) then 0 else m x)" for x
  proof (cases "x = dest")
    case True
    have "unat (- 1 :: u32) = 2 ^ 32 - 1" by (simp add: unsigned_minus_1_eq_mask mask_eq_exp_minus_1)
    then have "\<not> unat (- 1 :: u32) \<le> length cs" using Cons.prems(2) by simp
    with True m'(2) show ?thesis by simp
  next
    case False
    then have "unat (x - dest) = Suc (unat (x - (dest + 1)))"
      using unat_minus_one[of "x - dest"] unat_gt_0[of "x - dest"] by (simp add: diff_diff_eq)
    with False m'(2) show ?thesis by simp
  qed
  then show ?case using m'(1) c by (subst strcpy.simps) auto
qed

lemma sum_mod_zero:
  fixes a b N :: nat
  assumes "a \<noteq> 0" "(a + b) mod N = 0" "a < N" "b < N"
  shows "a + b = N"
proof (cases "a + b < N")
  case False
  then have "(a + b) mod N = a + b - N" using assms(3,4) by (simp add: le_mod_geq)
  with assms(2) False show ?thesis by simp
qed (use assms in simp)

section \<open>Waiting\<close>

text \<open>
  \<^verbatim>\<open>delay\<close>: \<open>wallClock n\<close> is what reading number \<open>n\<close> of the clock returns, which the timer interrupt moves on.
  The lemma says when it returns and after which reading.
\<close>

partial_function (option) wait_clock :: "(nat \<Rightarrow> u64) \<Rightarrow> u64 \<Rightarrow> nat \<Rightarrow> nat option" where
  "wait_clock wallClock until n = (if wallClock n < until then wait_clock wallClock until (n + 1) else Some n)"

definition delay :: "(nat \<Rightarrow> u64) \<Rightarrow> u32 \<Rightarrow> nat \<Rightarrow> nat option" where
  "delay wallClock millisec n = wait_clock wallClock (wallClock n + ucast millisec) (n + 1)"

lemma wait_clock_first:
  "wait_clock c u n = Some k \<longleftrightarrow> n \<le> k \<and> u \<le> c k \<and> (\<forall>j. n \<le> j \<and> j < k \<longrightarrow> c j < u)"
proof
  show "n \<le> k \<and> u \<le> c k \<and> (\<forall>j. n \<le> j \<and> j < k \<longrightarrow> c j < u)" if "wait_clock c u n = Some k"
    using _ that
  proof (rule wait_clock.raw_induct[where P = "\<lambda>c u n k. n \<le> k \<and> u \<le> c k \<and> (\<forall>j. n \<le> j \<and> j < k \<longrightarrow> c j < u)"])
    fix f :: "(nat \<Rightarrow> u64) \<Rightarrow> u64 \<Rightarrow> nat \<Rightarrow> nat option" and c u n k
    assume IH: "\<And>c u n k. f c u n = Some k \<Longrightarrow> n \<le> k \<and> u \<le> c k \<and> (\<forall>j. n \<le> j \<and> j < k \<longrightarrow> c j < u)"
      and r: "(if c n < u then f c u (n + 1) else Some n) = Some k"
    show "n \<le> k \<and> u \<le> c k \<and> (\<forall>j. n \<le> j \<and> j < k \<longrightarrow> c j < u)"
    proof (cases "c n < u")
      case True
      then have "f c u (Suc n) = Some k" using r by simp
      from IH[OF this] show ?thesis using True by (metis Suc_leD Suc_leI le_neq_implies_less)
    next
      case False
      then show ?thesis using r by auto
    qed
  qed
next
  assume "n \<le> k \<and> u \<le> c k \<and> (\<forall>j. n \<le> j \<and> j < k \<longrightarrow> c j < u)"
  then show "wait_clock c u n = Some k"
  proof (induction "k - n" arbitrary: n)
    case 0
    then show ?case by (subst wait_clock.simps) (auto dest: leD)
  next
    case (Suc m)
    then have "wait_clock c u (Suc n) = Some k" "c n < u" by auto
    then show ?case by (subst wait_clock.simps) simp
  qed
qed

lemma delay_first:
  "delay c ms n = Some k \<longleftrightarrow> n < k \<and> c n + ucast ms \<le> c k \<and> (\<forall>j. n < j \<and> j < k \<longrightarrow> c j < c n + ucast ms)"
  by (simp add: delay_def wait_clock_first Suc_le_eq)

section \<open>Properties\<close>

text \<open>
  C40. The shift-and-subtract division of the kernel library is the unsigned 64-bit division: for
  every numerator and every non-zero denominator, also one with its top bit set, it ends with
  the exact quotient and remainder; a zero denominator raises the divide error.
\<close>

theorem do_divmod64_correct:
  "do_divmod64 num den = (if den = 0 then Inl Divide_Error else Inr (num div den, num mod den)) \<and>
   do_div64 num den = (if den = 0 then Inl Divide_Error else Inr (num div den)) \<and>
   do_mod64 num den = (if den = 0 then Inl Divide_Error else Inr (num mod den))"
proof (cases "den = 0")
  case True
  then show ?thesis by (simp add: do_divmod64_def do_div64_def do_mod64_def)
next
  case False
  obtain q r where "do_divmod64 num den = Inr (q, r)" "unat q = unat num div unat den"
      "unat r = unat num mod unat den"
    using do_divmod64_ok[OF False] by blast
  then have "do_divmod64 num den = Inr (num div den, num mod den)"
    by (simp add: word_unat_eq_iff unat_div_distrib unat_mod_distrib)
  with False show ?thesis by (simp add: do_div64_def do_mod64_def)
qed

text \<open>
  \<^verbatim>\<open>memcpy\<close> copies the source block exactly and touches no other byte, for every count,
  unless the destination starts inside the source block after its first byte; \<^verbatim>\<open>memcmp\<close> of the
  two blocks is then 0 when they do not overlap.
\<close>

theorem memcpy_copies_block:
  assumes "unat count \<le> unat (dest - src)"
  shows "(\<forall>x. memcpy dest src count m x =
            (if unat (x - dest) < unat count then m (src + (x - dest)) else m x)) \<and>
         (unat count \<le> unat (src - dest) \<longrightarrow> memcmp dest src count (memcpy dest src count m) = 0)"
proof (intro conjI impI allI)
  show c: "memcpy dest src count m x =
      (if unat (x - dest) < unat count then m (src + (x - dest)) else m x)" for x
    using assms by (intro memcpy_apply) simp
  assume ov: "unat count \<le> unat (src - dest)"
  have "memcpy dest src count m (dest + of_nat i) = memcpy dest src count m (src + of_nat i)"
    if i: "i < unat count" for i
  proof -
    have u: "unat (of_nat i :: u32) = i"
      using i unsigned_less[of count, where ?'a = nat] by (intro unat_of_nat_small) simp
    have "\<not> unat (src + of_nat i - dest) < unat count"
    proof
      assume lt: "unat (src + of_nat i - dest) < unat count"
      have e: "src + of_nat i - dest = (src - dest) + of_nat i" by simp
      show False
      proof (cases "unat (src - dest) + i < 2 ^ 32")
        case True
        then have "unat (src + of_nat i - dest) = unat (src - dest) + i"
          unfolding e using u by (subst unat_plus_small) auto
        with lt ov show False by simp
      next
        case False
        have "src \<noteq> dest" using ov i by auto
        then have "unat (dest - src) \<noteq> 0" by (auto simp: unat_eq_zero)
        moreover have "(unat (dest - src) + unat (src - dest)) mod 2 ^ 32 = 0"
          using unat_word_ariths(1)[of "dest - src" "src - dest"] by simp
        moreover have "unat (dest - src) < 2 ^ 32" "unat (src - dest) < 2 ^ 32"
          using unsigned_less[of "dest - src", where ?'a = nat] unsigned_less[of "src - dest", where ?'a = nat] by simp_all
        ultimately have "unat (dest - src) + unat (src - dest) = 2 ^ 32" by (rule sum_mod_zero)
        with False assms i show False by linarith
      qed
    qed
    then show ?thesis using i u unfolding c by simp
  qed
  then show "memcmp dest src count (memcpy dest src count m) = 0" unfolding memcmp_zero_iff by blast
qed

theorem memcpy_copies_block_witness:
  "memcpy 0x2000 0x1000 4 (\<lambda>a. ucast a) 0x2003 = 3"
  using memcpy_copies_block[of 4 "0x2000" "0x1000" "\<lambda>a. ucast a"] by simp

text \<open>
  The string routines on a zero-terminated string that does not fill the address space:
  \<^verbatim>\<open>strlen\<close> returns its length, \<^verbatim>\<open>stringHash\<close> the base-31 polynomial of its bytes, and
  \<^verbatim>\<open>strcpy\<close> copies it with its terminator and changes no other byte, unless the destination
  starts inside the source.
\<close>

theorem string_routines_correct:
  assumes "cstr m s cs" and "length cs + 1 < 2 ^ 32" and "length cs < unat (dest - s)"
  shows "strlen s m = Some (of_nat (length cs)) \<and>
         stringHash s m = Some (foldl (\<lambda>h c. h * 31 + ucast c) 0 cs) \<and>
         (\<exists>m'. strcpy dest s m = Some m' \<and> (\<forall>x. m' x =
            (if unat (x - dest) < length cs then cs ! unat (x - dest)
             else if unat (x - dest) = length cs then 0 else m x)))"
  using strlen_from_cstr[OF assms(1), of 0] stringHash_from_cstr[OF assms(1), of 0]
    strcpy_apply[of m s cs dest] assms by (simp add: strlen_def stringHash_def)

theorem string_routines_correct_witness:
  "stringHash 0x10 ((\<lambda>_. 0)(0x10 := 0x24, 0x11 := 0x4D, 0x12 := 0x42, 0x13 := 0x52)) = Some 1148601"
  using string_routines_correct[of "(\<lambda>_. 0)(0x10 := 0x24, 0x11 := 0x4D, 0x12 := 0x42, 0x13 := 0x52)"
      "0x10" "[0x24, 0x4D, 0x42, 0x52]" "0x100"] by simp

end
