(* ===== verification/Calendar.thy ===== *)
theory Calendar
  imports Lib
begin

text \<open>
  The calendar functions of \<^verbatim>\<open>kernel/lib.c\<close>: \<^verbatim>\<open>mktime\<close> turns a date into seconds since
  1/1/1 and \<^verbatim>\<open>gmtime\<close> turns milliseconds since 1/1/1 into a \<^verbatim>\<open>Time\<close>. The reference
  calendar they are compared with counts the days of every year and month one by one.
\<close>

section \<open>The code\<close>

record time =
  year :: u32
  month :: u8
  day :: u8
  hour :: u8
  minute :: u8
  second :: u8
  milli :: u16
  weekday :: u8

text \<open>
  \<^verbatim>\<open>mon\<close> is a byte: \<^verbatim>\<open>mon-=2\<close> wraps and is tested as a signed byte. The bracketed sum and
  \<^verbatim>\<open>year*365\<close> are computed in 32 bits and widened afterwards.
\<close>

definition mktime :: "u32 \<Rightarrow> u8 \<Rightarrow> u8 \<Rightarrow> u8 \<Rightarrow> u8 \<Rightarrow> u8 \<Rightarrow> u64" where
  "mktime yr mon dy hr mi sec =
     (let mon = mon - 2;
          (mon, yr) = (if sint mon \<le> 0 then (mon + 12, yr - 1) else (mon, yr))
      in (((ucast (yr div 4 - yr div 100 + yr div 400 + 367 * ucast mon div 12 + ucast dy)
             + ucast (yr * 365) - 337) * 24 + ucast hr) * 60 + ucast mi) * 60 + ucast sec)"

text \<open>\<^verbatim>\<open>(!(year%4)&&(year%100))||!(year%400)\<close>\<close>

definition year_is_leap :: "u32 \<Rightarrow> bool" where
  "year_is_leap y \<longleftrightarrow> y mod 4 = 0 \<and> y mod 100 \<noteq> 0 \<or> y mod 400 = 0"

text \<open>
  The loop of \<^verbatim>\<open>gmtime\<close> that steps back while the day of the year is not positive.
  \<^verbatim>\<open>days\<close> is a signed 32-bit integer; the loop only adds to values that are at most 0, so
  its arithmetic never overflows and is done on integers.
\<close>

function gmtime_year :: "int \<Rightarrow> u32 \<Rightarrow> int \<times> u32" where
  "gmtime_year days yr =
     (if days \<le> 0
      then gmtime_year (days + 365 + (if year_is_leap yr then 1 else 0)) (yr - 1)
      else (days, yr))"
  by pat_completeness auto
termination
  by (relation "measure (\<lambda>(days, yr). nat (1 - days))") auto

declare gmtime_year.simps [simp del]

definition mday :: "int list" where
  "mday = [0, 31, 59, 90, 120, 151, 181, 212, 243, 273, 304, 334, 365]"

text \<open>The end of \<^verbatim>\<open>gmtime\<close>: the month and the day from the day of the year.\<close>

definition gmtime_month :: "int \<Rightarrow> bool \<Rightarrow> kerror + (u8 \<times> u8)" where
  "gmtime_month days is_leap =
     (if is_leap \<and> days = 60 then Inr (2, 29)
      else
        let days = (if is_leap \<and> days > 60 then days - 1 else days);
            bmon = (word_of_int (days div 30) :: u8);
            mon = (word_of_int (days div 31) :: u8)
        in if length mday \<le> unat bmon \<or> length mday \<le> unat mon then Inl Bad_Index
           else let mon = (if bmon \<noteq> mon \<and> days > mday ! unat bmon then bmon else mon)
                in Inr (mon + 1, word_of_int (days - mday ! unat mon)))"

definition gmtime :: "u64 \<Rightarrow> kerror + time" where
  "gmtime t =
     (case do_divmod64 t 1000 of Inl e \<Rightarrow> Inl e | Inr (t, ms) \<Rightarrow>
      case do_divmod64 t 60 of Inl e \<Rightarrow> Inl e | Inr (t, s) \<Rightarrow>
      case do_divmod64 t 60 of Inl e \<Rightarrow> Inl e | Inr (t, mi) \<Rightarrow>
      case do_divmod64 t 24 of Inl e \<Rightarrow> Inl e | Inr (t, h) \<Rightarrow>
      case do_divmod64 (t + 1) 7 of Inl e \<Rightarrow> Inl e | Inr (_, wd) \<Rightarrow>
      case do_divmod64 t 365 of Inl e \<Rightarrow> Inl e | Inr (q, t) \<Rightarrow>
      let yr = (ucast q :: u32);
          days = sint (ucast (t - ucast (yr div 4) + ucast (yr div 100) - ucast (yr div 400) + 1) :: u32);
          (days, yr) = gmtime_year days yr;
          yr = yr + 1
      in case gmtime_month days (year_is_leap yr) of
           Inl e \<Rightarrow> Inl e
         | Inr (mon, dy) \<Rightarrow>
             Inr \<lparr>year = yr, month = mon, day = dy, hour = ucast h, minute = ucast mi,
                  second = ucast s, milli = ucast ms, weekday = ucast wd\<rparr>)"

section \<open>The reference calendar\<close>

definition leap :: "nat \<Rightarrow> bool" where
  "leap y \<longleftrightarrow> 4 dvd y \<and> \<not> 100 dvd y \<or> 400 dvd y"

definition year_length :: "nat \<Rightarrow> nat" where
  "year_length y = (if leap y then 366 else 365)"

definition month_length :: "bool \<Rightarrow> nat \<Rightarrow> nat" where
  "month_length is_leap m =
     (if m = 2 then if is_leap then 29 else 28 else if m \<in> {4, 6, 9, 11} then 30 else 31)"

text \<open>Days before 1 January of year \<open>Suc n\<close>, and before day 1 of month \<open>Suc n\<close>.\<close>

fun days_before_year :: "nat \<Rightarrow> nat" where
  "days_before_year 0 = 0"
| "days_before_year (Suc n) = days_before_year n + year_length (Suc n)"

fun days_before_month :: "bool \<Rightarrow> nat \<Rightarrow> nat" where
  "days_before_month is_leap 0 = 0"
| "days_before_month is_leap (Suc n) = days_before_month is_leap n + month_length is_leap (Suc n)"

definition valid_date :: "nat \<Rightarrow> nat \<Rightarrow> nat \<Rightarrow> bool" where
  "valid_date y m d \<longleftrightarrow> 1 \<le> y \<and> m \<in> {1..12} \<and> d \<in> {1..month_length (leap y) m}"

definition day_number :: "nat \<Rightarrow> nat \<Rightarrow> nat \<Rightarrow> nat" where
  "day_number y m d = days_before_year (y - 1) + days_before_month (leap y) (m - 1) + (d - 1)"

definition leaps :: "nat \<Rightarrow> nat" where
  "leaps n = n div 4 - n div 100 + n div 400"

lemma leaps_int: "int (leaps n) = int (n div 4) - int (n div 100) + int (n div 400)"
proof -
  have "n div 100 \<le> n div 4" by (rule div_le_mono2) auto
  then show ?thesis by (simp add: leaps_def of_nat_diff)
qed

lemma div_Suc_dvd: "Suc n div k = n div k + (if k dvd Suc n then 1 else 0)"
  by (simp add: div_Suc dvd_eq_mod_eq_0)

lemma leaps_Suc: "leaps (Suc n) = leaps n + (if leap (Suc n) then 1 else 0)"
proof -
  have "400 dvd Suc n \<Longrightarrow> 100 dvd Suc n" "100 dvd Suc n \<Longrightarrow> 4 dvd Suc n"
    by (auto elim!: dvd_trans[rotated])
  then have "int (leaps (Suc n)) = int (leaps n + (if leap (Suc n) then 1 else 0))"
    unfolding leaps_int div_Suc_dvd of_nat_add leap_def by auto
  then show ?thesis by linarith
qed

lemma days_before_year_eq: "days_before_year n = 365 * n + leaps n"
  by (induction n) (simp_all add: leaps_Suc year_length_def leaps_def[of 0])

lemma days_before_year_mono: "m \<le> n \<Longrightarrow> days_before_year m \<le> days_before_year n"
  by (induction n rule: nat_induct_at_least[of m]) (auto simp: le_Suc_eq)

lemma year_unique:
  assumes "days_before_year m \<le> D" "D < days_before_year (Suc m)"
    and "days_before_year n \<le> D" "D < days_before_year (Suc n)"
  shows "m = n"
proof (rule ccontr)
  assume "m \<noteq> n"
  then have "Suc m \<le> n \<or> Suc n \<le> m" by linarith
  then show False
    using days_before_year_mono[of "Suc m" n] days_before_year_mono[of "Suc n" m] assms by linarith
qed

section \<open>mktime\<close>

lemma unat_word_consts [simp]:
  "unat (y div 4) = unat y div 4" "unat (y div 100) = unat y div 100"
  "unat (y div 400) = unat y div 400" for y :: u32
  by (simp_all add: unat_div_distrib)

lemma unat_leaps_u32: "unat (y div 4 - y div 100 + y div 400) = leaps (unat y)" for y :: u32
proof -
  have "y div 100 \<le> y div 4" by (simp add: word_le_nat_alt div_le_mono2)
  moreover have "unat y div 4 + unat y div 400 < 2 ^ 32"
    using unsigned_less[of y, where ?'a=nat] by simp
  ultimately show ?thesis
    by (simp add: leaps_def unat_plus_small unat_minus_le less_le_trans)
qed

text \<open>The day count inside \<^verbatim>\<open>mktime\<close>, for the month and year after the shift by two months.\<close>

lemma mktime_days:
  fixes y :: u32 and mon dy :: u8
  assumes "yr < 2 ^ 23" "m \<in> {1..12}" "d \<in> {1..31}" "unat y = yr" "unat mon = m" "unat dy = d"
    and "337 \<le> 367 * m div 12 + d + 365 * yr"
  shows "unat (ucast (y div 4 - y div 100 + y div 400 + 367 * ucast mon div 12 + ucast dy)
           + ucast (y * 365) - 337 :: u64)
         = leaps yr + 367 * m div 12 + d + 365 * yr - 337" (is "unat ?e = _")
proof -
  have lp: "leaps yr \<le> yr" unfolding leaps_def by linarith
  have um: "unat (367 * ucast mon :: u32) = 367 * m"
    using assms(2,5) by (simp add: unat_word_ariths unat_ucast_widen)
  then have um': "unat (367 * ucast mon div 12 :: u32) = 367 * m div 12"
    by (simp add: unat_div_distrib)
  have "367 * m div 12 \<le> 367" using assms(2) by auto
  then have s: "unat (y div 4 - y div 100 + y div 400 + 367 * ucast mon div 12 + ucast dy)
      = leaps yr + 367 * m div 12 + d"
    using assms lp um' unat_leaps_u32[of y] by (simp add: unat_plus_small unat_ucast_widen)
  have p: "unat (y * 365) = 365 * yr"
    using assms(1,4) by (simp add: unat_word_ariths)
  have "unat (ucast (y div 4 - y div 100 + y div 400 + 367 * ucast mon div 12 + ucast dy)
      + ucast (y * 365) :: u64) = leaps yr + 367 * m div 12 + d + 365 * yr" (is "unat ?s = _")
    using s p assms(1,3) lp \<open>367 * m div 12 \<le> 367\<close> by (simp add: unat_plus_small unat_ucast_widen)
  moreover from this have "337 \<le> ?s" using assms(7) by (simp add: word_le_nat_alt)
  ultimately show ?thesis by (simp add: unat_minus_le)
qed

text \<open>The closed formula of the code counts the days of the reference calendar.\<close>

lemma months_cases:
  assumes "m \<in> {1..12::nat}"
  obtains "m = 1" | "m = 2" | "m = 3" | "m = 4" | "m = 5" | "m = 6" | "m = 7" | "m = 8" | "m = 9"
    | "m = 10" | "m = 11" | "m = 12"
proof -
  have "[1..<13::nat] = [1, 2, 3, 4, 5, 6, 7, 8, 9, 10, 11, 12]" by (simp add: upt_rec)
  moreover have "m \<in> set [1..<13]" using assms by simp
  ultimately have "m \<in> set [1, 2, 3, 4, 5, 6, 7, 8, 9, 10, 11, 12]" by simp
  then show thesis using that by auto
qed

lemma days_before_month_numeral [simp]:
  "days_before_month b (numeral k)
     = days_before_month b (pred_numeral k) + month_length b (numeral k)"
  by (simp add: numeral_eq_Suc)

lemma month_formula_late:
  assumes "m \<in> {3..12}"
  shows "days_before_month b (m - 1) = 367 * (m - 2) div 12 + 29 + (if b then 1 else 0)"
proof -
  have "m \<in> {1..12}" using assms by simp
  then show ?thesis
    by (rule months_cases) (use assms in \<open>simp_all add: month_length_def\<close>)
qed

lemma unat_seconds:
  fixes x :: u64 and hr mi sec :: u8
  assumes "unat x < 2 ^ 32"
  shows "unat (((x * 24 + ucast hr) * 60 + ucast mi) * 60 + ucast sec)
         = ((unat x * 24 + unat hr) * 60 + unat mi) * 60 + unat sec"
proof -
  have "unat hr < 256" "unat mi < 256" "unat sec < 256"
    using unsigned_less[of hr, where ?'a=nat] unsigned_less[of mi, where ?'a=nat]
      unsigned_less[of sec, where ?'a=nat] by auto
  with assms show ?thesis by (simp add: unat_word_ariths unat_ucast_widen)
qed

lemma mktime_ok:
  assumes v: "valid_date y m d" and y: "y < 2 ^ 23"
  shows "unat (mktime (of_nat y) (of_nat m) (of_nat d) hr mi sec)
         = ((day_number y m d * 24 + unat hr) * 60 + unat mi) * 60 + unat sec"
proof -
  have m: "m \<in> {1..12}" and d: "d \<in> {1..31}" and y1: "1 \<le> y"
    using v by (auto simp: valid_date_def month_length_def split: if_splits)
  define yr where "yr = (if m \<le> 2 then y - 1 else y)"
  define m' where "m' = (if m \<le> 2 then m + 10 else m - 2)"
  define mon where "mon = (of_nat m - 2 :: u8)"
  define mon' where "mon' = (if sint mon \<le> 0 then mon + 12 else mon)"
  define yr' where "yr' = (if sint mon \<le> 0 then of_nat y - 1 else of_nat y :: u32)"
  have mon: "unat mon' = m' \<and> (sint mon \<le> 0 \<longleftrightarrow> m \<le> 2)"
    using m by (rule months_cases) (simp_all add: mon_def mon'_def m'_def)
  then have yr: "unat yr' = yr"
    using y y1 by (simp add: yr'_def yr_def unat_of_nat_small unat_minus_le word_le_nat_alt)
  have m'r: "m' \<in> {1..12}" using m by (auto simp: m'_def)
  have L: "leaps y = leaps (y - 1) + (if leap y then 1 else 0)"
    using leaps_Suc[of "y - 1"] y1 by simp
  have D: "leaps yr + 367 * m' div 12 + d + 365 * yr = day_number y m d + 337"
  proof (cases "m \<le> 2")
    case True
    then have "m = 1 \<or> m = 2" using m by auto
    then show ?thesis using d
      by (auto simp: day_number_def yr_def m'_def days_before_year_eq month_length_def)
  next
    case False
    then have "days_before_month (leap y) (m - 1) = 367 * (m - 2) div 12 + 29 + (if leap y then 1 else 0)"
      using m by (intro month_formula_late) auto
    moreover have "365 * y = 365 * (y - 1) + 365" using y1 by simp
    ultimately show ?thesis using False d L
      by (simp add: day_number_def yr_def m'_def days_before_year_eq)
  qed
  have yr_lt: "yr < 2 ^ 23" using y by (auto simp: yr_def)
  have c: "337 \<le> 367 * m' div 12 + d + 365 * yr"
  proof (cases "m \<le> 2")
    case True
    then have "m = 1 \<or> m = 2" using m by auto
    then show ?thesis using d by (auto simp: m'_def)
  next
    case False
    then have "365 \<le> 365 * yr" "30 \<le> 367 * m' div 12" using y1 m'r by (auto simp: yr_def)
    then show ?thesis using d by simp
  qed
  have days: "unat (ucast (yr' div 4 - yr' div 100 + yr' div 400 + 367 * ucast mon' div 12
      + ucast (of_nat d :: u8)) + ucast (yr' * 365) - 337 :: u64) = day_number y m d"
    (is "unat ?days = _")
  proof -
    have "unat ?days = leaps yr + 367 * m' div 12 + d + 365 * yr - 337"
      by (rule mktime_days)
        (use c yr_lt m'r d yr mon in \<open>simp_all add: unat_of_nat_small\<close>)
    then show ?thesis using D by simp
  qed
  have dn: "day_number y m d < 2 ^ 32"
  proof -
    have "leaps yr \<le> yr" unfolding leaps_def by linarith
    moreover have "367 * m' div 12 \<le> 367" using m'r by auto
    ultimately show ?thesis using D d yr_lt by simp
  qed
  have "mktime (of_nat y) (of_nat m) (of_nat d) hr mi sec
      = ((?days * 24 + ucast hr) * 60 + ucast mi) * 60 + ucast sec"
    by (simp add: mktime_def Let_def mon_def mon'_def yr'_def)
  also have "unat \<dots> = ((day_number y m d * 24 + unat hr) * 60 + unat mi) * 60 + unat sec"
    using unat_seconds[of ?days hr mi sec] days dn by simp
  finally show ?thesis .
qed

section \<open>gmtime\<close>

lemma year_is_leap_iff: "year_is_leap y \<longleftrightarrow> leap (unat y)"
proof -
  have "y mod k = 0 \<longleftrightarrow> unat k dvd unat y" for k :: u32
    by (simp add: dvd_eq_mod_eq_0 unat_mod_distrib[symmetric] unat_eq_zero)
  from this[of 4] this[of 100] this[of 400] show ?thesis
    by (simp add: year_is_leap_def leap_def)
qed

text \<open>
  The loop ends in the year that holds day \<open>D\<close>, with the day of that year, for every start
  at or after that year that agrees with \<open>D\<close>.
\<close>

lemma gmtime_year_ok:
  assumes "unat yr = n" "days = int D - int (days_before_year n) + 1" "D < days_before_year (Suc n)"
  shows "\<exists>yr' n'. gmtime_year days yr = (int D - int (days_before_year n') + 1, yr') \<and> unat yr' = n' \<and>
           days_before_year n' \<le> D \<and> D < days_before_year (Suc n')"
  using assms
proof (induction n arbitrary: days yr)
  case 0
  then show ?case by (subst gmtime_year.simps) simp
next
  case (Suc n)
  show ?case
  proof (cases "days \<le> 0")
    case True
    have y: "unat (yr - 1) = n" using unat_count_step[of n yr] Suc.prems(1) by simp
    have "\<exists>yr' n'. gmtime_year (days + 365 + (if year_is_leap yr then 1 else 0)) (yr - 1)
        = (int D - int (days_before_year n') + 1, yr') \<and> unat yr' = n' \<and>
          days_before_year n' \<le> D \<and> D < days_before_year (Suc n')"
      by (rule Suc.IH[OF y])
        (use Suc.prems True in \<open>auto simp: year_is_leap_iff year_length_def\<close>)
    with True show ?thesis by (subst gmtime_year.simps) simp
  next
    case False
    with Suc.prems show ?thesis by (subst gmtime_year.simps) auto
  qed
qed

text \<open>
  The month and day are right for every day of the year but one: 31 January, which comes out
  as day 0 of February.
\<close>

definition month_day_ok :: "bool \<Rightarrow> nat \<Rightarrow> nat \<Rightarrow> bool" where
  "month_day_ok b m d \<longleftrightarrow>
     gmtime_month (int (days_before_month b (m - 1) + d)) b
       = Inr (if m = 1 \<and> d = 31 then (2, 0) else (of_nat m, of_nat d))"

lemma gmtime_month_table:
  "list_all (\<lambda>b. list_all (\<lambda>m. list_all (month_day_ok b m) [1..<Suc (month_length b m)]) [1..<13])
     [False, True]"
  by code_simp

lemma gmtime_month_ok:
  assumes "m \<in> {1..12}" "d \<in> {1..month_length b m}"
  shows "gmtime_month (int (days_before_month b (m - 1) + d)) b
           = Inr (if m = 1 \<and> d = 31 then (2, 0) else (of_nat m, of_nat d))"
proof -
  have "m \<in> set [1..<13]" "d \<in> set [1..<Suc (month_length b m)]" using assms by auto
  then have "month_day_ok b m d"
    using gmtime_month_table by (cases b) (auto simp: list_all_iff)
  then show ?thesis by (simp add: month_day_ok_def)
qed

lemma do_divmod64_cases:
  assumes "den \<noteq> 0"
  obtains q r where "do_divmod64 num den = Inr (q, r)" "unat q = unat num div unat den"
    "unat r = unat num mod unat den"
  using do_divmod64_ok[OF assms] by blast

lemma day_of_year_bounds:
  assumes "valid_date y m d"
  shows "days_before_year (y - 1) \<le> day_number y m d" "day_number y m d < days_before_year y"
    "day_number y m d - days_before_year (y - 1) + 1 = days_before_month (leap y) (m - 1) + d"
proof -
  have m: "m \<in> {1..12}" and d: "1 \<le> d" "d \<le> month_length (leap y) m" and y: "1 \<le> y"
    using assms by (auto simp: valid_date_def)
  show "days_before_year (y - 1) \<le> day_number y m d" by (simp add: day_number_def)
  show "day_number y m d - days_before_year (y - 1) + 1 = days_before_month (leap y) (m - 1) + d"
    using d by (simp add: day_number_def)
  have "days_before_month (leap y) (m - 1) + month_length (leap y) m \<le> year_length y"
    using m by (rule months_cases) (simp_all add: month_length_def year_length_def)
  moreover have "days_before_year y = days_before_year (y - 1) + year_length y"
    using y days_before_year.simps(2)[of "y - 1"] by simp
  ultimately show "day_number y m d < days_before_year y" using d by (simp add: day_number_def)
qed

lemma gmtime_day:
  assumes v: "valid_date y m d" and y: "y < 2 ^ 23" and q: "unat q = day_number y m d div 365"
    and t: "unat t = day_number y m d mod 365"
  shows "gmtime_year (sint (ucast ((t :: u64) - ucast (ucast (q :: u64) div 4 :: u32)
            + ucast (ucast q div 100 :: u32) - ucast (ucast q div 400 :: u32) + 1) :: u32)) (ucast q)
         = (int (days_before_month (leap y) (m - 1) + d), of_nat (y - 1))"
    (is "gmtime_year ?days _ = _")
proof -
  let ?D = "day_number y m d"
  define n where "n = ?D div 365"
  have D: "?D < 2 ^ 32"
    using day_of_year_bounds(2)[OF v] y by (simp add: days_before_year_eq leaps_def)
  then have n: "n < 2 ^ 24" by (simp add: n_def)
  have uq: "unat (ucast q :: u32) = n"
    using q D by (simp add: unat_ucast_narrow n_def)
  have div: "(ucast (ucast q div k :: u32) :: u64) = word_of_nat (n div unat k)" for k
    by (rule word_of_natI) (simp add: uq unat_ucast_widen unat_div_distrib)
  have "t = word_of_nat (?D mod 365)" using t by (rule word_of_natI)
  then have "t - ucast (ucast q div 4 :: u32) + ucast (ucast q div 100 :: u32)
      - ucast (ucast q div 400 :: u32) + 1 = word_of_int (int (?D mod 365) - int (leaps n) + 1)"
    by (simp add: div leaps_int)
  then have "(ucast (t - ucast (ucast q div 4 :: u32) + ucast (ucast q div 100 :: u32)
      - ucast (ucast q div 400 :: u32) + 1) :: u32) = word_of_int (int (?D mod 365) - int (leaps n) + 1)"
    by (simp only: ucast_word_of_int_32)
  moreover have "leaps n < 2 ^ 24" using n by (simp add: leaps_def)
  then have "- (2 ^ 31) \<le> int (?D mod 365) - int (leaps n) + 1"
      "int (?D mod 365) - int (leaps n) + 1 < 2 ^ 31"
    using mod_less_divisor[of 365 ?D] by (simp_all add: zmod_int)
  ultimately have "?days = int (?D mod 365) - int (leaps n) + 1"
    by (simp only: sint_word_of_int_small)
  also have "\<dots> = int ?D - int (days_before_year n) + 1"
    by (simp add: days_before_year_eq n_def minus_mult_div_eq_mod[symmetric] zmod_int)
  finally have days: "?days = int ?D - int (days_before_year n) + 1" .
  have "?D < 365 * n + 365" unfolding n_def by linarith
  then have "?D < days_before_year (Suc n)" by (simp add: days_before_year_eq)
  from gmtime_year_ok[OF uq days this] obtain yr' n' where r: "gmtime_year ?days (ucast q)
      = (int ?D - int (days_before_year n') + 1, yr')" "unat yr' = n'"
    "days_before_year n' \<le> ?D" "?D < days_before_year (Suc n')"
    by blast
  have "n' = y - 1"
    by (rule year_unique[OF r(3,4)])
      (use day_of_year_bounds(1,2)[OF v] v in \<open>auto simp: valid_date_def\<close>)
  moreover have "int ?D - int (days_before_year (y - 1)) + 1
      = int (days_before_month (leap y) (m - 1) + d)"
    using day_of_year_bounds(1,3)[OF v] by linarith
  moreover have "yr' = of_nat (y - 1)" using r(2) \<open>n' = y - 1\<close> by (intro word_of_natI) simp
  ultimately show ?thesis using r(1) by simp
qed

lemma divmod_digit:
  assumes "unat num = x * unat den + r" "r < unat den"
  obtains q r' where "do_divmod64 num den = Inr (q, r')" "unat q = x" "unat r' = r"
proof -
  have "den \<noteq> 0" using assms(2) by auto
  then show thesis
    using assms by (elim do_divmod64_cases[of den num]) (auto intro: that)
qed

lemma gmtime_ok:
  assumes v: "valid_date y m d" and y: "y < 2 ^ 23" and h: "h < 24" "mi < 60" "s < 60" "ms < 1000"
    and t: "unat t = (((day_number y m d * 24 + h) * 60 + mi) * 60 + s) * 1000 + ms"
  shows "gmtime t = Inr \<lparr>year = of_nat y,
           month = (if m = 1 \<and> d = 31 then 2 else of_nat m),
           day = (if m = 1 \<and> d = 31 then 0 else of_nat d),
           hour = of_nat h, minute = of_nat mi, second = of_nat s, milli = of_nat ms,
           weekday = of_nat ((day_number y m d + 1) mod 7)\<rparr>"
proof -
  let ?D = "day_number y m d"
  obtain t1 r1 where s1: "do_divmod64 t 1000 = Inr (t1, r1)" "unat t1 = ((?D * 24 + h) * 60 + mi) * 60 + s"
      "unat r1 = ms"
    by (rule divmod_digit[of t "((?D * 24 + h) * 60 + mi) * 60 + s" 1000 ms]) (use t h in simp_all)
  obtain t2 r2 where s2: "do_divmod64 t1 60 = Inr (t2, r2)" "unat t2 = (?D * 24 + h) * 60 + mi"
      "unat r2 = s"
    by (rule divmod_digit[of t1 "(?D * 24 + h) * 60 + mi" 60 s]) (use s1 h in simp_all)
  obtain t3 r3 where s3: "do_divmod64 t2 60 = Inr (t3, r3)" "unat t3 = ?D * 24 + h" "unat r3 = mi"
    by (rule divmod_digit[of t2 "?D * 24 + h" 60 mi]) (use s2 h in simp_all)
  obtain t4 r4 where s4: "do_divmod64 t3 24 = Inr (t4, r4)" "unat t4 = ?D" "unat r4 = h"
    by (rule divmod_digit[of t3 ?D 24 h]) (use s3 h in simp_all)
  have "?D < 2 ^ 32"
    using day_of_year_bounds(2)[OF v] y by (simp add: days_before_year_eq leaps_def)
  then have w: "unat (t4 + 1) = ?D + 1" using s4 by (simp add: unat_plus_small)
  obtain t5 r5 where s5: "do_divmod64 (t4 + 1) 7 = Inr (t5, r5)" "unat r5 = (?D + 1) mod 7"
    by (rule do_divmod64_cases[of 7 "t4 + 1"]) (use w in auto)
  obtain q r where s6: "do_divmod64 t4 365 = Inr (q, r)" "unat q = ?D div 365" "unat r = ?D mod 365"
    by (rule do_divmod64_cases[of 365 t4]) (use s4 in auto)
  have year: "of_nat (y - 1) + 1 = (of_nat y :: u32)" using v by (simp add: valid_date_def of_nat_diff)
  have leap: "year_is_leap (of_nat y) = leap y"
    using y by (simp add: year_is_leap_iff unat_of_nat_small)
  have md: "gmtime_month (int (days_before_month (leap y) (m - 1) + d)) (leap y)
      = Inr (if m = 1 \<and> d = 31 then (2, 0) else (of_nat m, of_nat d))"
    using v by (intro gmtime_month_ok) (auto simp: valid_date_def)
  have u: "ucast r1 = (of_nat ms :: u16)" "ucast r2 = (of_nat s :: u8)" "ucast r3 = (of_nat mi :: u8)"
    "ucast r4 = (of_nat h :: u8)" "ucast r5 = (of_nat ((?D + 1) mod 7) :: u8)"
    using s1 s2 s3 s4 s5 h by (auto intro!: word_of_natI simp: unat_ucast_narrow)
  show ?thesis
    unfolding gmtime_def s1(1) s2(1) s3(1) s4(1) s5(1) s6(1) sum.case prod.case Let_def
      gmtime_day[OF v y s6(2,3)] year leap md u
    by simp
qed

section \<open>Properties\<close>

lemma mktime_millis:
  assumes "valid_date y m d" "y < 2 ^ 23" "h < 24" "mi < 60" "s < 60" "ms < 1000"
  shows "unat (mktime (of_nat y) (of_nat m) (of_nat d) (of_nat h) (of_nat mi) (of_nat s) * 1000
           + of_nat ms) = (((day_number y m d * 24 + h) * 60 + mi) * 60 + s) * 1000 + ms"
proof -
  have D: "day_number y m d < 2 ^ 32"
    using day_of_year_bounds(2)[OF assms(1)] assms(2) by (simp add: days_before_year_eq leaps_def)
  have "unat (mktime (of_nat y) (of_nat m) (of_nat d) (of_nat h) (of_nat mi) (of_nat s))
      = ((day_number y m d * 24 + h) * 60 + mi) * 60 + s"
    using assms by (simp add: mktime_ok unat_of_nat_small)
  with D assms show ?thesis by (simp add: unat_word_ariths unat_of_nat_small)
qed

text \<open>
  C37. \<^verbatim>\<open>mktime\<close> counts the seconds from 1 January of year 1: for every valid date below
  year \<open>2 ^ 23\<close> and any byte values of the clock fields, its result is the day number of the
  reference calendar in seconds plus the time of day. No 32-bit or 64-bit step wraps.
\<close>

theorem mktime_correct:
  assumes "valid_date y m d" and "y < 2 ^ 23"
  shows "unat (mktime (of_nat y) (of_nat m) (of_nat d) hr mi sec)
         = ((day_number y m d * 24 + unat hr) * 60 + unat mi) * 60 + unat sec"
  using assms by (rule mktime_ok)

theorem mktime_correct_witness:
  "valid_date 2014 3 1 \<and>
   unat (mktime (of_nat 2014) (of_nat 3) (of_nat 1) 12 30 15)
     = ((day_number 2014 3 1 * 24 + 12) * 60 + 30) * 60 + 15"
proof -
  have v: "valid_date 2014 3 1" by (simp add: valid_date_def month_length_def)
  show ?thesis using v mktime_correct[OF v, of 12 30 15] by simp
qed

text \<open>
  C36. \<^verbatim>\<open>gmtime\<close> inverts \<^verbatim>\<open>mktime\<close>: for every valid date below year \<open>2 ^ 23\<close> other than a
  31 January, and every time of day to the millisecond, converting to milliseconds and back
  gives the same fields, and the weekday counts from Sunday 0 with 1/1/1 a Monday.
\<close>

theorem gmtime_mktime_roundtrip:
  assumes "valid_date y m d" and "y < 2 ^ 23" and "\<not> (m = 1 \<and> d = 31)"
    and "h < 24" and "mi < 60" and "s < 60" and "ms < 1000"
  shows "gmtime (mktime (of_nat y) (of_nat m) (of_nat d) (of_nat h) (of_nat mi) (of_nat s) * 1000
           + of_nat ms)
         = Inr \<lparr>year = of_nat y, month = of_nat m, day = of_nat d, hour = of_nat h,
             minute = of_nat mi, second = of_nat s, milli = of_nat ms,
             weekday = of_nat ((day_number y m d + 1) mod 7)\<rparr>"
  using gmtime_ok[OF assms(1,2,4,5,6,7) mktime_millis[OF assms(1,2,4,5,6,7)]] assms(3) by simp

theorem gmtime_mktime_roundtrip_witness:
  "gmtime (mktime 2012 2 29 23 59 58 * 1000 + 999)
     = Inr \<lparr>year = 2012, month = 2, day = 29, hour = 23, minute = 59, second = 58, milli = 999,
         weekday = of_nat ((day_number 2012 2 29 + 1) mod 7)\<rparr>"
proof -
  have v: "valid_date 2012 2 29" by (simp add: valid_date_def month_length_def leap_def)
  show ?thesis using gmtime_mktime_roundtrip[OF v, of 23 59 58 999] by simp
qed

text \<open>
  The exception: \<^verbatim>\<open>gmtime\<close> reports every 31 January as day 0 of February, because day
  31 of the year gives \<^verbatim>\<open>days/30\<close> and \<^verbatim>\<open>days/31\<close> the same value 1 and the comparison with
  the month table is skipped.
\<close>

theorem gmtime_january_31:
  assumes "1 \<le> y" and "y < 2 ^ 23" and "h < 24" and "mi < 60" and "s < 60" and "ms < 1000"
  shows "\<exists>tm. gmtime (mktime (of_nat y) 1 31 (of_nat h) (of_nat mi) (of_nat s) * 1000 + of_nat ms)
           = Inr tm \<and> month tm = 2 \<and> day tm = 0 \<and> year tm = of_nat y"
proof -
  have v: "valid_date y 1 31" using assms(1) by (simp add: valid_date_def month_length_def)
  show ?thesis
    using gmtime_ok[OF v assms(2-6) mktime_millis[OF v assms(2-6)]] by simp
qed

theorem gmtime_january_31_witness:
  "\<exists>tm. gmtime (mktime 2014 1 31 10 0 0 * 1000) = Inr tm \<and> month tm = 2 \<and> day tm = 0 \<and> year tm = 2014"
  using gmtime_january_31[of 2014 10 0 0 0] by simp

end
