(* ===== verification/Rtc.thy ===== *)
theory Rtc
  imports Calendar
begin

text \<open>
  The CMOS clock driver \<^verbatim>\<open>kernel/driver/rtc.c\<close>. The chip is the environment: a function that
  gives the byte found in each register at each read access, so that a register may change
  between two reads. The driver's side is the number of reads it has made and the log of the
  registers it has written.
\<close>

section \<open>The driver\<close>

type_synonym cmos = "nat \<Rightarrow> u8 \<Rightarrow> u8"

record cmos_io =
  reads :: nat
  writes :: "(u8 \<times> u8) list"

definition CMOS_read :: "cmos \<Rightarrow> u32 \<Rightarrow> cmos_io \<Rightarrow> u8 \<times> cmos_io" where
  "CMOS_read env reg io = (env (reads io) (ucast reg), io\<lparr>reads := reads io + 1\<rparr>)"

definition CMOS_write :: "u32 \<Rightarrow> u8 \<Rightarrow> cmos_io \<Rightarrow> cmos_io" where
  "CMOS_write reg value io = io\<lparr>writes := writes io @ [(ucast reg, value)]\<rparr>"

text \<open>\<^verbatim>\<open>while(BIT_TEST(CMOS_read(0x0A),7));\<close> waits for the end of an update.\<close>

partial_function (option) wait_update :: "cmos \<Rightarrow> cmos_io \<Rightarrow> cmos_io option" where
  "wait_update env io =
     (let (a, io) = CMOS_read env 0x0A io
      in if BIT_TEST a 7 then wait_update env io else Some io)"

record rtc_regs =
  r_second :: u8
  r_minute :: u8
  r_hour :: u8
  r_day :: u8
  r_month :: u8
  r_year :: u8

definition read_sample :: "cmos \<Rightarrow> cmos_io \<Rightarrow> rtc_regs \<times> cmos_io" where
  "read_sample env io =
     (let (s, io) = CMOS_read env 0x00 io;
          (mi, io) = CMOS_read env 0x02 io;
          (h, io) = CMOS_read env 0x04 io;
          (d, io) = CMOS_read env 0x07 io;
          (mo, io) = CMOS_read env 0x08 io;
          (y, io) = CMOS_read env 0x09 io
      in (\<lparr>r_second = s, r_minute = mi, r_hour = h, r_day = d, r_month = mo, r_year = y\<rparr>, io))"

text \<open>The \<^verbatim>\<open>do ... while\<close> loop: sample until two samples in a row are equal.\<close>

partial_function (option) read_stable ::
  "cmos \<Rightarrow> rtc_regs \<Rightarrow> cmos_io \<Rightarrow> (rtc_regs \<times> cmos_io) option" where
  "read_stable env prev io =
     (case wait_update env io of
        None \<Rightarrow> None
      | Some io \<Rightarrow>
          (let (cur, io) = read_sample env io
           in if cur \<noteq> prev then read_stable env cur io else Some (cur, io)))"

text \<open>From register B and the six registers to the arguments of \<^verbatim>\<open>mktime\<close>.\<close>

definition rtc_decode :: "u8 \<Rightarrow> rtc_regs \<Rightarrow> u16 \<times> u8 \<times> u8 \<times> u8 \<times> u8 \<times> u8" where
  "rtc_decode registerB r =
     (let (hr, hour_correction) =
            (if r_hour r AND 0x80 \<noteq> 0 \<and> \<not> BIT_TEST registerB 1
             then (r_hour r AND NOT 0x80, 12) else (r_hour r, 0 :: u8));
          bcd = (\<lambda>v. if BIT_TEST registerB 2 then v else BCD2BIN v);
          hr = ucast ((ucast (bcd hr) + ucast hour_correction :: u32) mod 24)
      in (ucast (bcd (r_year r)) + 2000, bcd (r_month r), bcd (r_day r), hr,
          bcd (r_minute r), bcd (r_second r)))"

definition read_RTC :: "cmos \<Rightarrow> cmos_io \<Rightarrow> (u64 \<times> cmos_io) option" where
  "read_RTC env io =
     (case wait_update env io of
        None \<Rightarrow> None
      | Some io \<Rightarrow>
          (let (first, io) = read_sample env io
           in case read_stable env first io of
                None \<Rightarrow> None
              | Some (r, io) \<Rightarrow>
                  (let (registerB, io) = CMOS_read env 0x0B io;
                       (yr, mon, dy, hr, mi, s) = rtc_decode registerB r
                   in Some (mktime (ucast yr) mon dy hr mi s * 1000, io))))"

text \<open>The field conversions of \<^verbatim>\<open>write_RTC\<close>: the hour, minute, day, month and year bytes.\<close>

definition rtc_encode :: "u8 \<Rightarrow> time \<Rightarrow> rtc_regs" where
  "rtc_encode registerB tmm =
     (let (hr, hour_correction) =
            (if BIT_TEST registerB 1 then (hour tmm, 0)
             else if hour tmm = 0 then (12, 0x80)
             else if 12 < hour tmm then (hour tmm - 12, 0x80)
             else (hour tmm, 0));
          bcd = (\<lambda>v. if BIT_TEST registerB 2 then v else BIN2BCD v);
          yr = (if BIT_TEST registerB 2 then ucast (year tmm)
                else BIN2BCD (ucast (year tmm mod 100)))
      in \<lparr>r_second = bcd (second tmm), r_minute = bcd (minute tmm),
          r_hour = bcd hr OR hour_correction, r_day = bcd (day tmm),
          r_month = bcd (month tmm), r_year = yr\<rparr>)"

text \<open>The seconds register is set to 0 first; the weekday is written as it is.\<close>

definition write_RTC :: "cmos \<Rightarrow> u64 \<Rightarrow> cmos_io \<Rightarrow> kerror + cmos_io" where
  "write_RTC env wall_clock io =
     (case gmtime wall_clock of
        Inl e \<Rightarrow> Inl e
      | Inr tmm \<Rightarrow>
          (let (registerB, io) = CMOS_read env 0x0B io;
               r = rtc_encode registerB tmm
           in case wait_update env io of None \<Rightarrow> Inl Spin | Some io \<Rightarrow>
              case wait_update env (CMOS_write 0x00 0 io) of None \<Rightarrow> Inl Spin | Some io \<Rightarrow>
                Inr (CMOS_write 0x09 (r_year r) (CMOS_write 0x08 (r_month r)
                    (CMOS_write 0x07 (r_day r) (CMOS_write 0x06 (weekday tmm)
                    (CMOS_write 0x04 (r_hour r) (CMOS_write 0x02 (r_minute r) io))))))))"

section \<open>Reading a chip\<close>

lemma wait_update_done:
  "\<not> BIT_TEST (env (reads io) 0x0A) 7 \<Longrightarrow> wait_update env io = Some (io\<lparr>reads := reads io + 1\<rparr>)"
  by (subst wait_update.simps) (simp add: CMOS_read_def)

lemma reads_read_sample: "reads (snd (read_sample env io)) = reads io + 6"
  by (simp add: read_sample_def CMOS_read_def Let_def)

lemma writes_read_sample: "writes (snd (read_sample env io)) = writes io"
  by (simp add: read_sample_def CMOS_read_def Let_def)

text \<open>The six registers of a chip whose registers do not change.\<close>

definition chip_regs :: "(u8 \<Rightarrow> u8) \<Rightarrow> rtc_regs" where
  "chip_regs c = \<lparr>r_second = c 0x00, r_minute = c 0x02, r_hour = c 0x04, r_day = c 0x07,
     r_month = c 0x08, r_year = c 0x09\<rparr>"

lemma read_sample_quiet:
  "(\<And>n. reads io \<le> n \<Longrightarrow> env n = c) \<Longrightarrow>
     read_sample env io = (chip_regs c, io\<lparr>reads := reads io + 6\<rparr>)"
  by (simp add: read_sample_def CMOS_read_def Let_def chip_regs_def)

text \<open>Once the chip is quiet, the wait loop and the sampling loop both end.\<close>

lemma wait_update_returns:
  assumes "\<And>n. N \<le> n \<Longrightarrow> env n = c" and "\<not> BIT_TEST (c 0x0A) 7"
  shows "\<exists>io'. wait_update env io = Some io' \<and> reads io < reads io'"
proof (induction "N - reads io" arbitrary: io)
  case 0
  then have "\<not> BIT_TEST (env (reads io) 0x0A) 7" using assms by simp
  then show ?case by (simp add: wait_update_done)
next
  case (Suc k)
  let ?io = "io\<lparr>reads := reads io + 1\<rparr>"
  have "\<exists>io'. wait_update env ?io = Some io' \<and> reads ?io < reads io'"
    by (rule Suc(1)) (use Suc(2) in simp)
  then show ?case by (subst wait_update.simps) (auto simp: CMOS_read_def)
qed

lemma read_stable_returns:
  assumes q: "\<And>n. N \<le> n \<Longrightarrow> env n = c" and u: "\<not> BIT_TEST (c 0x0A) 7"
  shows "\<exists>r io'. read_stable env prev io = Some (r, io')"
proof (induction "N - reads io" arbitrary: io prev rule: less_induct)
  case less
  obtain io1 where io1: "wait_update env io = Some io1" "reads io < reads io1"
    using wait_update_returns[of N env c io, OF q u] by blast
  obtain r io2 where s: "read_sample env io1 = (r, io2)" by fastforce
  then have io2: "reads io2 = reads io1 + 6" using reads_read_sample[of env io1] by simp
  show ?case
  proof (cases "N \<le> reads io1")
    case False
    then have "\<exists>r' io'. read_stable env r io2 = Some (r', io')"
      using io1 io2 by (intro less) linarith
    with io1 s show ?thesis by (subst read_stable.simps) auto
  next
    case True
    then have r: "r = chip_regs c" using read_sample_quiet[of io1 env c] q s by simp
    have "wait_update env io2 = Some (io2\<lparr>reads := reads io2 + 1\<rparr>)"
      by (rule wait_update_done) (use True io2 q u in simp)
    moreover have "read_sample env (io2\<lparr>reads := reads io2 + 1\<rparr>)
        = (chip_regs c, io2\<lparr>reads := reads io2 + 7\<rparr>)"
      using read_sample_quiet[of "io2\<lparr>reads := reads io2 + 1\<rparr>" env c] True io2 q by simp
    ultimately have "read_stable env r io2 = Some (chip_regs c, io2\<lparr>reads := reads io2 + 7\<rparr>)"
      by (subst read_stable.simps) (simp add: r)
    with io1 s show ?thesis by (subst read_stable.simps) auto
  qed
qed

lemma read_RTC_quiet:
  assumes "\<not> BIT_TEST (c 0x0A) 7" and "rtc_decode (c 0x0B) (chip_regs c) = (yr, mon, dy, hr, mi, s)"
  shows "read_RTC (\<lambda>_. c) io = Some (mktime (ucast yr) mon dy hr mi s * 1000, io\<lparr>reads := reads io + 15\<rparr>)"
proof -
  have w: "wait_update (\<lambda>_. c) io = Some (io\<lparr>reads := reads io + 1\<rparr>)" for io
    by (rule wait_update_done) (rule assms(1))
  have r: "read_sample (\<lambda>_. c) io = (chip_regs c, io\<lparr>reads := reads io + 6\<rparr>)" for io
    by (rule read_sample_quiet) simp
  have "read_stable (\<lambda>_. c) (chip_regs c) io = Some (chip_regs c, io\<lparr>reads := reads io + 7\<rparr>)" for io
    by (subst read_stable.simps) (simp add: w r)
  with assms(2) show ?thesis by (simp add: read_RTC_def w r CMOS_read_def)
qed

section \<open>Encoding and decoding\<close>

definition bcd_roundtrip_ok :: "nat \<Rightarrow> bool" where
  "bcd_roundtrip_ok n \<longleftrightarrow> BCD2BIN (BIN2BCD (of_nat n)) = of_nat n"

lemma bcd_roundtrip_table: "list_all bcd_roundtrip_ok [0..<100]"
  by code_simp

lemma BCD2BIN_BIN2BCD: "n < 100 \<Longrightarrow> BCD2BIN (BIN2BCD (of_nat n)) = of_nat n"
  using bcd_roundtrip_table by (simp add: list_all_iff bcd_roundtrip_ok_def)

text \<open>The hour byte in BCD mode, for a 24-hour chip (\<open>True\<close>) and a 12-hour chip.\<close>

definition hour_byte :: "bool \<Rightarrow> nat \<Rightarrow> u8" where
  "hour_byte h24 h =
     (if h24 then BIN2BCD (of_nat h)
      else if h = 0 then BIN2BCD 12 OR 0x80
      else if 12 < h then BIN2BCD (of_nat h - 12) OR 0x80
      else BIN2BCD (of_nat h))"

definition hour_back :: "bool \<Rightarrow> u8 \<Rightarrow> u8" where
  "hour_back h24 b =
     (let (hr, corr) = (if b AND 0x80 \<noteq> 0 \<and> \<not> h24 then (b AND NOT 0x80, 12) else (b, 0 :: u8))
      in ucast ((ucast (BCD2BIN hr) + ucast corr :: u32) mod 24))"

lemma hour_table:
  "list_all (\<lambda>b. list_all (\<lambda>h. hour_back b (hour_byte b h) = of_nat h) [0..<24]) [True, False]"
  by code_simp

lemma hour_back_byte: "h < 24 \<Longrightarrow> hour_back b (hour_byte b h) = of_nat h"
  using hour_table by (cases b) (auto simp: list_all_iff)

lemma hour_byte_encode:
  assumes "hour tm = of_nat h" "h < 24" "\<not> BIT_TEST rb 2"
  shows "r_hour (rtc_encode rb tm) = hour_byte (BIT_TEST rb 1) h"
proof -
  have "(12 < (of_nat h :: u8)) = (12 < h)" "((of_nat h :: u8) = 0) = (h = 0)"
    using assms(2) by (simp_all add: word_less_nat_alt unat_of_nat_small word_unat_eq_iff)
  with assms show ?thesis by (simp add: rtc_encode_def hour_byte_def Let_def)
qed

text \<open>The hour byte in binary mode.\<close>

definition hour_byte_binary :: "bool \<Rightarrow> nat \<Rightarrow> u8" where
  "hour_byte_binary h24 h =
     (if h24 then of_nat h else if h = 0 then 12 OR 0x80 else if 12 < h then (of_nat h - 12) OR 0x80 else of_nat h)"

definition hour_back_binary :: "bool \<Rightarrow> u8 \<Rightarrow> u8" where
  "hour_back_binary h24 b =
     (let (hr, corr) = (if b AND 0x80 \<noteq> 0 \<and> \<not> h24 then (b AND NOT 0x80, 12) else (b, 0 :: u8))
      in ucast ((ucast hr + ucast corr :: u32) mod 24))"

lemma hour_table_binary:
  "list_all (\<lambda>b. list_all (\<lambda>h. hour_back_binary b (hour_byte_binary b h) = of_nat h) [0..<24]) [True, False]"
  by code_simp

lemma hour_back_byte_binary: "h < 24 \<Longrightarrow> hour_back_binary b (hour_byte_binary b h) = of_nat h"
  using hour_table_binary by (cases b) (auto simp: list_all_iff)

lemma hour_byte_binary_encode:
  assumes "hour tm = of_nat h" "h < 24" "BIT_TEST rb 2"
  shows "r_hour (rtc_encode rb tm) = hour_byte_binary (BIT_TEST rb 1) h"
proof -
  have "(12 < (of_nat h :: u8)) = (12 < h)" "((of_nat h :: u8) = 0) = (h = 0)"
    using assms(2) by (simp_all add: word_less_nat_alt unat_of_nat_small word_unat_eq_iff)
  with assms show ?thesis by (simp add: rtc_encode_def hour_byte_binary_def Let_def)
qed

lemma rtc_decode_binary:
  assumes "BIT_TEST rb 2"
  shows "rtc_decode rb r =
    (ucast (r_year r) + 2000, r_month r, r_day r, hour_back_binary (BIT_TEST rb 1) (r_hour r), r_minute r, r_second r)"
  using assms by (auto simp: rtc_decode_def hour_back_binary_def Let_def split: prod.splits)

lemma rtc_decode_bcd:
  assumes "\<not> BIT_TEST rb 2"
  shows "rtc_decode rb r =
    (ucast (BCD2BIN (r_year r)) + 2000, BCD2BIN (r_month r), BCD2BIN (r_day r),
     hour_back (BIT_TEST rb 1) (r_hour r), BCD2BIN (r_minute r), BCD2BIN (r_second r))"
  using assms by (auto simp: rtc_decode_def hour_back_def Let_def split: prod.splits)

text \<open>The registers after the driver's writes.\<close>

definition chip_after :: "(u8 \<times> u8) list \<Rightarrow> (u8 \<Rightarrow> u8) \<Rightarrow> (u8 \<Rightarrow> u8)" where
  "chip_after ws c = foldl (\<lambda>c (r, v). c(r := v)) c ws"

lemma write_RTC_quiet:
  assumes "\<not> BIT_TEST (c 0x0A) 7" and "gmtime t = Inr tm"
  shows "\<exists>io'. write_RTC (\<lambda>_. c) t io = Inr io' \<and> writes io' = writes io @
     (let r = rtc_encode (c 0x0B) tm
      in [(0x00, 0), (0x02, r_minute r), (0x04, r_hour r), (0x06, weekday tm), (0x07, r_day r),
          (0x08, r_month r), (0x09, r_year r)])"
proof -
  have w: "wait_update (\<lambda>_. c) io = Some (io\<lparr>reads := reads io + 1\<rparr>)" for io
    by (rule wait_update_done) (rule assms(1))
  show ?thesis using assms(2) by (simp add: write_RTC_def CMOS_read_def CMOS_write_def Let_def w)
qed

section \<open>Properties\<close>

text \<open>
  \<^verbatim>\<open>read_RTC\<close> returns: if the chip stops changing after some number of reads, with its
  update flag clear, then both polling loops end, whatever the chip did before.
\<close>

theorem read_RTC_returns:
  assumes "\<And>n. N \<le> n \<Longrightarrow> env n = c" and "\<not> BIT_TEST (c 0x0A) 7"
  shows "\<exists>t io'. read_RTC env io = Some (t, io')"
proof -
  obtain io1 where io1: "wait_update env io = Some io1"
    using wait_update_returns[of N env c io, OF assms] by blast
  obtain r io2 where s: "read_sample env io1 = (r, io2)" by fastforce
  obtain r' io3 where "read_stable env r io2 = Some (r', io3)"
    using read_stable_returns[of N env c r io2, OF assms] by blast
  with io1 s show ?thesis
    by (cases "rtc_decode (fst (CMOS_read env 0x0B io3)) r'")
      (simp add: read_RTC_def CMOS_read_def Let_def)
qed

theorem read_RTC_returns_witness:
  "\<exists>t io'. read_RTC (\<lambda>n reg. if n < 5 then 0x80 else 0x12) \<lparr>reads = 0, writes = []\<rparr> = Some (t, io')"
proof (rule read_RTC_returns)
  show "(\<lambda>reg. if n < 5 then 0x80 else 0x12) = (\<lambda>reg. 0x12 :: u8)" if "5 \<le> n" for n :: nat
    using that by simp
  show "\<not> BIT_TEST (0x12 :: u8) 7" by (simp add: BIT_TEST_def)
qed

lemma chip_after_write:
  "chip_after [(0x00, s), (0x02, a), (0x04, b), (0x06, w), (0x07, d), (0x08, e), (0x09, f)] c
     = c(0x00 := s, 0x02 := a, 0x04 := b, 0x06 := w, 0x07 := d, 0x08 := e, 0x09 := f)"
  by (simp add: chip_after_def)

lemma BCD2BIN_zero: "BCD2BIN 0 = 0"
  by (simp add: BCD2BIN_def)

lemma year_back:
  assumes "k < 256"
  shows "ucast (ucast (of_nat k :: u8) + 2000 :: u16) = (of_nat (2000 + k) :: u32)"
proof -
  have a: "unat (of_nat k :: u8) = k" using assms by (simp add: unat_of_nat_small)
  have "unat (ucast (of_nat k :: u8) :: u16) = k" by (simp add: unat_ucast_widen a)
  then have "unat (ucast (of_nat k :: u8) + 2000 :: u16) = 2000 + k"
    using assms by (simp add: unat_plus_small)
  then have "unat (ucast (ucast (of_nat k :: u8) + 2000 :: u16) :: u32) = 2000 + k"
    by (simp add: unat_ucast_widen)
  then show ?thesis by (metis word_of_natI)
qed

text \<open>
  The fields that come back: the year of a chip in binary mode loses its century and its remainder
  by 256 is taken for the years since 2000.
\<close>

definition year_read :: "u8 \<Rightarrow> nat \<Rightarrow> nat" where
  "year_read rb y = (if BIT_TEST rb 2 then 2000 + y mod 256 else y)"

lemma rtc_fields_back:
  assumes tm: "year tm = of_nat y" "month tm = of_nat m" "day tm = of_nat d" "hour tm = of_nat h" "minute tm = of_nat mi"
    and b: "m < 100" "d < 100" "mi < 100" "h < 24" "2000 \<le> y" "y < 2100"
  shows "\<exists>yr. rtc_decode rb ((rtc_encode rb tm)\<lparr>r_second := 0\<rparr>) = (yr, of_nat m, of_nat d, of_nat h, of_nat mi, 0) \<and>
    ucast yr = (of_nat (year_read rb y) :: u32)"
proof (cases "BIT_TEST rb 2")
  case True
  have e: "(ucast (of_nat y :: u32) :: u8) = of_nat (y mod 256)"
    by (rule word_of_natI) (simp add: unat_ucast_narrow unat_of_nat take_bit_eq_mod mod_mod_cancel)
  have ry: "r_year (rtc_encode rb tm) = of_nat (y mod 256)" "r_month (rtc_encode rb tm) = of_nat m"
      "r_day (rtc_encode rb tm) = of_nat d" "r_minute (rtc_encode rb tm) = of_nat mi"
    using True e by (simp_all add: rtc_encode_def tm Let_def)
  show ?thesis
    using True ry hour_byte_binary_encode[OF tm(4) b(4) True] hour_back_byte_binary[OF b(4)] year_back[of "y mod 256"]
    by (simp add: rtc_decode_binary year_read_def)
next
  case False
  have "(ucast ((of_nat y :: u32) mod 100) :: u8) = of_nat (y - 2000)"
  proof (rule word_of_natI)
    have "unat ((of_nat y :: u32) mod 100) = y mod 100"
      using b by (simp add: unat_mod_distrib unat_of_nat_small)
    also have "y mod 100 = y - 2000" using b(5,6) mod_add_self2 by (simp add: mod_if)
    finally show "unat (ucast ((of_nat y :: u32) mod 100) :: u8) = y - 2000"
      using b by (simp add: unat_ucast_narrow)
  qed
  then have ry: "r_year (rtc_encode rb tm) = BIN2BCD (of_nat (y - 2000))" "r_month (rtc_encode rb tm) = BIN2BCD (of_nat m)"
      "r_day (rtc_encode rb tm) = BIN2BCD (of_nat d)" "r_minute (rtc_encode rb tm) = BIN2BCD (of_nat mi)"
    using False by (simp_all add: rtc_encode_def tm Let_def del: of_nat_diff)
  have "2000 + (y - 2000) = y" using b(5) by simp
  then show ?thesis
    using False ry hour_byte_encode[OF tm(4) b(4) False] hour_back_byte[OF b(4)] year_back[of "y - 2000"] b
    by (simp add: rtc_decode_bcd year_read_def BCD2BIN_BIN2BCD BCD2BIN_zero del: of_nat_diff)
qed

text \<open>
  C38. Setting the clock and reading it back, for a date of the years 2000 to 2099 other than 31 January and
  a chip that keeps what is written and does not tick in between: from a chip in BCD mode
  (12-hour or 24-hour) \<^verbatim>\<open>read_RTC\<close> after \<^verbatim>\<open>write_RTC\<close> returns the time that was written with the
  seconds and milliseconds cleared, as the driver writes 0 to the seconds register. From a chip in
  binary mode it returns this time in the year 2000 plus the remainder of the year by 256 (in 2222 for
  2014), which is the right year for none of these, since \<^verbatim>\<open>write_RTC\<close> takes the year by 100 only in BCD mode.
\<close>

theorem rtc_write_read:
  assumes v: "valid_date y m d" and y: "2000 \<le> y" "y < 2100" and j: "\<not> (m = 1 \<and> d = 31)"
    and t: "h < 24" "mi < 60" "s < 60" "ms < 1000"
    and u: "\<not> BIT_TEST (c 0x0A) 7"
  shows "\<exists>io' io''. write_RTC (\<lambda>_. c) (mktime (of_nat y) (of_nat m) (of_nat d) (of_nat h) (of_nat mi)
             (of_nat s) * 1000 + of_nat ms) \<lparr>reads = 0, writes = []\<rparr> = Inr io' \<and>
           read_RTC (\<lambda>_. chip_after (writes io') c) io'
             = Some (mktime (of_nat (if BIT_TEST (c 0x0B) 2 then 2000 + y mod 256 else y)) (of_nat m) (of_nat d)
                 (of_nat h) (of_nat mi) 0 * 1000, io'')"
proof -
  let ?t = "mktime (of_nat y) (of_nat m) (of_nat d) (of_nat h) (of_nat mi) (of_nat s) * 1000 + of_nat ms"
  let ?wd = "of_nat ((day_number y m d + 1) mod 7) :: u8"
  define tm where "tm = \<lparr>year = of_nat y, month = of_nat m, day = of_nat d, hour = of_nat h,
     minute = of_nat mi, second = of_nat s, milli = of_nat ms, weekday = ?wd\<rparr>"
  have y23: "y < 2 ^ 23" using y by simp
  have g: "gmtime ?t = Inr tm"
    using gmtime_ok[OF v y23 t mktime_millis[OF v y23 t]] j by (simp add: tm_def)
  define r where "r = rtc_encode (c 0x0B) tm"
  obtain io' where io': "write_RTC (\<lambda>_. c) ?t \<lparr>reads = 0, writes = []\<rparr> = Inr io'"
    "writes io' = [(0x00, 0), (0x02, r_minute r), (0x04, r_hour r), (0x06, weekday tm),
       (0x07, r_day r), (0x08, r_month r), (0x09, r_year r)]"
    using write_RTC_quiet[of c ?t tm "\<lparr>reads = 0, writes = []\<rparr>", OF u g] by (auto simp: r_def Let_def)
  define c' where "c' = chip_after (writes io') c"
  have c': "c' = c(0x00 := 0, 0x02 := r_minute r, 0x04 := r_hour r, 0x06 := weekday tm,
       0x07 := r_day r, 0x08 := r_month r, 0x09 := r_year r)"
    unfolding c'_def io'(2) chip_after_write ..
  have cr: "chip_regs c' = r\<lparr>r_second := 0\<rparr>" by (simp add: c' chip_regs_def)
  have md: "m < 100" "d < 100" "mi < 100"
    using v t by (auto simp: valid_date_def month_length_def split: if_splits)
  have "\<exists>yr. rtc_decode (c' 0x0B) (chip_regs c')
      = (yr, of_nat m, of_nat d, of_nat h, of_nat mi, 0) \<and> ucast yr = (of_nat (year_read (c 0x0B) y) :: u32)"
    using rtc_fields_back[of tm y m d h mi "c 0x0B"] md t(1) y unfolding cr by (simp add: tm_def r_def c')
  moreover have "\<not> BIT_TEST (c' 0x0A) 7" using u by (simp add: c')
  ultimately obtain io'' where
      "read_RTC (\<lambda>_. c') io' = Some (mktime (of_nat (year_read (c 0x0B) y)) (of_nat m) (of_nat d) (of_nat h) (of_nat mi) 0 * 1000, io'')"
    using read_RTC_quiet[of c' _ _ _ _ _ _ io'] by (metis (no_types, lifting))
  with io'(1) show ?thesis unfolding c'_def year_read_def by blast
qed

theorem rtc_write_read_witness:
  "(\<exists>io' io''. write_RTC (\<lambda>_ _. 0) (mktime 2014 7 15 17 45 30 * 1000) \<lparr>reads = 0, writes = []\<rparr> = Inr io' \<and>
     read_RTC (\<lambda>_. chip_after (writes io') (\<lambda>_. 0)) io' = Some (mktime 2014 7 15 17 45 0 * 1000, io'')) \<and>
   (\<exists>io' io''. write_RTC (\<lambda>_ _. 4) (mktime 2014 7 15 17 45 30 * 1000) \<lparr>reads = 0, writes = []\<rparr> = Inr io' \<and>
     read_RTC (\<lambda>_. chip_after (writes io') (\<lambda>_. 4)) io' = Some (mktime 2222 7 15 17 45 0 * 1000, io''))"
proof -
  have v: "valid_date 2014 7 15" by (simp add: valid_date_def month_length_def)
  show ?thesis
    using rtc_write_read[OF v, of 17 45 30 0 "\<lambda>_. 0"] rtc_write_read[OF v, of 17 45 30 0 "\<lambda>_. 4"] by (simp add: BIT_TEST_def)
qed

text \<open>
  In 12-hour BCD mode \<^verbatim>\<open>read_RTC\<close> takes noon for midnight and midnight for noon: the
  chip's byte for 12 PM (\<open>0x92\<close>) decodes to hour 0 and its byte for 12 AM (\<open>0x12\<close>) to hour
  12, and \<^verbatim>\<open>write_RTC\<close> writes hour 0 as 12 PM and hour 12 as 12 AM. Every other hour \<open>h\<close>
  of the chip's AM or PM half is read as \<open>h\<close> or \<open>h + 12\<close>.
\<close>

theorem rtc_noon_midnight_swapped:
  assumes "\<not> BIT_TEST rb 1" and "\<not> BIT_TEST rb 2"
  shows "(r_hour r = 0x92 \<longrightarrow> fst (snd (snd (snd (rtc_decode rb r)))) = 0) \<and>
         (r_hour r = 0x12 \<longrightarrow> fst (snd (snd (snd (rtc_decode rb r)))) = 12) \<and>
         (\<forall>h. 1 \<le> h \<and> h \<le> (11 :: nat) \<longrightarrow>
            (r_hour r = BIN2BCD (of_nat h) \<longrightarrow> fst (snd (snd (snd (rtc_decode rb r)))) = of_nat h) \<and>
            (r_hour r = BIN2BCD (of_nat h) OR 0x80 \<longrightarrow>
               fst (snd (snd (snd (rtc_decode rb r)))) = of_nat (h + 12))) \<and>
         (hour tm = 0 \<longrightarrow> r_hour (rtc_encode rb tm) = 0x92) \<and>
         (hour tm = 12 \<longrightarrow> r_hour (rtc_encode rb tm) = 0x12)"
proof -
  have "hour_back False 0x92 = 0 \<and> hour_back False 0x12 = 12" by code_simp
  moreover have "hour_back False (BIN2BCD (of_nat h)) = of_nat h"
      "hour_back False (BIN2BCD (of_nat h) OR 0x80) = of_nat (h + 12)"
    if "1 \<le> h" "h \<le> 11" for h
    using that hour_back_byte[of h False] hour_back_byte[of "h + 12" False]
    by (simp_all add: hour_byte_def)
  moreover have "hour_byte False 0 = 0x92 \<and> hour_byte False 12 = 0x12" by code_simp
  ultimately show ?thesis
    using assms hour_byte_encode[of tm 0 rb] hour_byte_encode[of tm 12 rb]
    by (simp add: rtc_decode_bcd)
qed

theorem rtc_noon_midnight_swapped_witness:
  "fst (snd (snd (snd (rtc_decode 0 (chip_regs (\<lambda>_. 0x92)))))) = 0"
  using rtc_noon_midnight_swapped[of 0 "chip_regs (\<lambda>_. 0x92)"]
  by (simp add: BIT_TEST_def chip_regs_def)

end
