(* ===== verification/Memory.thy ===== *)
theory Memory
  imports Prelude
begin

text \<open>
  The kernel's memory allocator, \<^verbatim>\<open>kernel/memory/memory.c\<close>: a buddy allocator whose free
  blocks of \<open>2 ^ b\<close> bytes, \<open>2 \<le> b < 30\<close>, are chained through their first words in address
  order, one chain per size. The model keeps the array of chain heads, the words of memory,
  the free-byte counter and the lock; each operation performs the pointer writes of the code.
  The abstract view is the set of free bytes: the lemmas show that the chains always describe
  such a set, which block each operation moves in or out of it, and that two free halves of a
  block never stay apart, so that an allocation fails only when the free bytes hold no
  aligned block of the size asked for.
\<close>

section \<open>State\<close>

abbreviation (input) EMPTY :: u32 where "EMPTY \<equiv> 0xFFFFFFFF"

text \<open>
  \<open>mem a\<close> is the 32-bit word at the address \<open>a\<close>, a multiple of 4: the allocator reads and
  writes memory at such addresses only.
\<close>

record kmem =
  memoryBlocks :: "u32 list"
  mem :: "u32 \<Rightarrow> u32"
  freeMemoryCounter :: u32
  memoryLock :: u32

text \<open>What a \<^verbatim>\<open>u32**\<close> of the allocator points to: a chain head or the first word of a block.\<close>

datatype slot = Head nat | Cell u32

fun store_slot :: "slot \<Rightarrow> u32 \<Rightarrow> kmem \<Rightarrow> kmem" where
  "store_slot (Head i) v s = s\<lparr>memoryBlocks := (memoryBlocks s)[i := v]\<rparr>"
| "store_slot (Cell a) v s = s\<lparr>mem := (mem s)(a := v)\<rparr>"

section \<open>Freeing\<close>

text \<open>
  The loop of \<^verbatim>\<open>memory_block_free\<close> over a chain: it ends at the place where the block belongs
  (\<open>Insert\<close>, with the slot to write and the entry that follows) or at the block's buddy
  (\<open>Merge\<close>, with the slot that points to the buddy, the buddy, and the start of the merged
  block). \<open>None\<close> is a chain that never ends.
\<close>

datatype scan = Insert slot u32 | Merge slot u32 u32

partial_function (option) block_scan ::
  "u32 \<Rightarrow> u32 \<Rightarrow> slot \<Rightarrow> u32 \<Rightarrow> (u32 \<Rightarrow> u32) \<Rightarrow> scan option" where
  "block_scan address sizep prev entry m =
     (if entry = EMPTY then Some (Insert prev entry)
      else if address < entry then
        (if address AND sizep = 0 \<and> address + sizep = entry then Some (Merge prev entry address)
         else Some (Insert prev entry))
      else if address AND sizep \<noteq> 0 \<and> entry + sizep = address then Some (Merge prev entry entry)
      else block_scan address sizep (Cell entry) (m entry) m)"

function memory_block_free :: "u32 \<Rightarrow> nat \<Rightarrow> kmem \<Rightarrow> kerror + kmem" where
  "memory_block_free address b s =
     (if b < 2 \<or> 30 \<le> b then Inl Bad_Index
      else and_then (spin_lock (memoryLock s)) (\<lambda>l.
        let sizep = push_bit b 1;
            s = s\<lparr>memoryLock := l, freeMemoryCounter := freeMemoryCounter s + sizep\<rparr>
        in case block_scan address sizep (Head (b - 2)) (memoryBlocks s ! (b - 2)) (mem s) of
             None \<Rightarrow> Inl Spin
           | Some (Merge prev entry low) \<Rightarrow>
               (let s = store_slot prev (mem s entry) s;
                    s = s\<lparr>freeMemoryCounter := freeMemoryCounter s - sizep * 2\<rparr>;
                    s = s\<lparr>memoryLock := spin_unlock (memoryLock s)\<rparr>
                in memory_block_free low (b + 1) s)
           | Some (Insert prev entry) \<Rightarrow>
               (let s = store_slot prev address s;
                    s = s\<lparr>mem := (mem s)(address := entry)\<rparr>
                in Inr (s\<lparr>memoryLock := spin_unlock (memoryLock s)\<rparr>))))"
  by pat_completeness auto
termination by (relation "measure (\<lambda>(address, b, s). 30 - b)") auto

declare memory_block_free.simps [simp del]

text \<open>The loop of \<^verbatim>\<open>memory_free_nocheck\<close>, from the bit \<open>b\<close> on.\<close>

function memory_free_from :: "nat \<Rightarrow> u32 \<Rightarrow> u32 \<Rightarrow> kmem \<Rightarrow> kerror + kmem" where
  "memory_free_from b address sz s =
     (if 32 \<le> b then Inr s
      else let sizep = push_bit b 1 in
        if sz < sizep then Inr s
        else and_then
          (if address AND sizep \<noteq> 0
           then and_then (memory_block_free address b s) (\<lambda>s. Inr (address + sizep, sz - sizep, s))
           else Inr (address, sz, s)) (\<lambda>(address, sz, s).
        and_then
          (if sz AND sizep \<noteq> 0
           then and_then (memory_block_free (address + sz - sizep) b s) (\<lambda>s. Inr (sz - sizep, s))
           else Inr (sz, s)) (\<lambda>(sz, s).
        memory_free_from (b + 1) address sz s)))"
  by pat_completeness auto
termination by (relation "measure (\<lambda>(b, address, sz, s). 32 - b)") auto

declare memory_free_from.simps [simp del]

definition memory_free_nocheck :: "u32 \<Rightarrow> u32 \<Rightarrow> kmem \<Rightarrow> kerror + kmem" where
  "memory_free_nocheck address sz s = memory_free_from 2 address sz s"

definition memory_free :: "u32 \<Rightarrow> u32 \<Rightarrow> kmem \<Rightarrow> kerror + kmem" where
  "memory_free address sz s =
     (if sz < 4 then Inr s
      else
        let afadd = (address AND NOT 3) + 4;
            unaligned = (address AND 3 \<noteq> 0);
            sz' = (if unaligned then sz + address - afadd else sz);
            address' = (if unaligned then afadd else address)
        in if unaligned \<and> sz' < 4 then Inr s
           else let sz'' = (if sz' AND 3 \<noteq> 0 then sz' AND NOT 3 else sz')
                in memory_free_nocheck address' sz'' s)"

section \<open>Allocating\<close>

text \<open>The \<^verbatim>\<open>do ... while\<close> loop of \<^verbatim>\<open>memory_alloc\<close>; reaching the last chain is the kernel's panic.\<close>

function alloc_search :: "nat \<Rightarrow> kmem \<Rightarrow> kerror + nat" where
  "alloc_search bit2 s =
     (if bit2 = 27 then Inl Halt
      else if 27 < bit2 then Inl Bad_Index
      else if memoryBlocks s ! (bit2 + 1) = EMPTY then alloc_search (bit2 + 1) s
      else Inr (bit2 + 1))"
  by pat_completeness auto
termination by (relation "measure (\<lambda>(bit2, s). 28 - bit2)") auto

declare alloc_search.simps [simp del]

definition memory_alloc :: "nat \<Rightarrow> kmem \<Rightarrow> kerror + (u32 \<times> kmem)" where
  "memory_alloc b s =
     (if b < 2 \<or> 30 \<le> b then Inl Bad_Index
      else and_then (spin_lock (memoryLock s)) (\<lambda>l.
        let s = s\<lparr>memoryLock := l\<rparr>;
            getit = memoryBlocks s ! (b - 2)
        in if getit = EMPTY then
             and_then (alloc_search (b - 2) s) (\<lambda>bit2.
             let getit = memoryBlocks s ! bit2;
                 s = s\<lparr>memoryBlocks := (memoryBlocks s)[bit2 := mem s getit]\<rparr>;
                 s = s\<lparr>freeMemoryCounter := freeMemoryCounter s - push_bit (bit2 + 2) 1\<rparr>;
                 extra = push_bit (bit2 + 2) 1 - push_bit b 1;
                 s = s\<lparr>memoryLock := spin_unlock (memoryLock s)\<rparr>
             in and_then (memory_free_nocheck (getit + push_bit b 1) extra s) (\<lambda>s. Inr (getit, s)))
           else
             let s = s\<lparr>freeMemoryCounter := freeMemoryCounter s - push_bit b 1\<rparr>;
                 s = s\<lparr>memoryBlocks := (memoryBlocks s)[b - 2 := mem s getit]\<rparr>
             in Inr (getit, s\<lparr>memoryLock := spin_unlock (memoryLock s)\<rparr>)))"

text \<open>The size class of \<^verbatim>\<open>malloc\<close>: the loop \<^verbatim>\<open>for(bit=2;sized;bit++,sized>>=1)\<close>.\<close>

function malloc_bit :: "nat \<Rightarrow> u32 \<Rightarrow> nat" where
  "malloc_bit b sized = (if sized = 0 then b else malloc_bit (b + 1) (drop_bit 1 sized))"
  by pat_completeness auto
termination
  by (relation "measure (\<lambda>(b, sized). unat sized)")
    (auto simp: drop_bit_eq_div unat_div_distrib unat_gt_0)

declare malloc_bit.simps [simp del]

definition malloc :: "u32 \<Rightarrow> kmem \<Rightarrow> kerror + (u32 \<times> kmem)" where
  "malloc sz s =
     (let sz = ((sz - 1 + 4) AND NOT 3) + 4;
          b = malloc_bit 2 (drop_bit 2 (sz - 1))
      in if 29 < b then Inl Halt
         else and_then (memory_alloc b s) (\<lambda>(getit, s).
           Inr (getit + 4, s\<lparr>mem := (mem s)(getit := push_bit b 1)\<rparr>)))"

definition free :: "u32 \<Rightarrow> kmem \<Rightarrow> kerror + kmem" where
  "free addr s = memory_free_nocheck (addr - 4) (mem s (addr - 4)) s"

section \<open>Chains\<close>

fun chain :: "(u32 \<Rightarrow> u32) \<Rightarrow> u32 \<Rightarrow> u32 list \<Rightarrow> bool" where
  "chain m e [] \<longleftrightarrow> e = EMPTY"
| "chain m e (x # xs) \<longleftrightarrow> e = x \<and> x \<noteq> EMPTY \<and> chain m (m x) xs"

lemma chain_cong: "chain m e xs \<Longrightarrow> (\<And>x. x \<in> set xs \<Longrightarrow> m' x = m x) \<Longrightarrow> chain m' e xs"
  by (induction xs arbitrary: e) auto

text \<open>\<open>chain_at s b xs\<close>: the chain of the blocks of \<open>2 ^ b\<close> bytes holds \<open>xs\<close>.\<close>

definition chain_at :: "kmem \<Rightarrow> nat \<Rightarrow> u32 list \<Rightarrow> bool" where
  "chain_at s b xs \<longleftrightarrow> chain (mem s) (memoryBlocks s ! (b - 2)) xs"

definition slot_after :: "nat \<Rightarrow> u32 list \<Rightarrow> slot" where
  "slot_after b ys = (if ys = [] then Head (b - 2) else Cell (last ys))"

lemma slot_after_Nil [simp]: "slot_after b [] = Head (b - 2)"
  and slot_after_snoc [simp]: "slot_after b (ys @ [y]) = Cell y"
  by (simp_all add: slot_after_def)

definition load_slot :: "slot \<Rightarrow> kmem \<Rightarrow> u32" where
  "load_slot sl s = (case sl of Head i \<Rightarrow> memoryBlocks s ! i | Cell a \<Rightarrow> mem s a)"

lemma chain_splice:
  assumes "chain m e (ys @ zs)" "distinct ys" "ys \<noteq> []"
    "chain (m(last ys := v)) v zs'"
  shows "chain (m(last ys := v)) e (ys @ zs')"
  using assms
proof (induction ys arbitrary: e)
  case (Cons y ys)
  show ?case
  proof (cases "ys = []")
    case False
    then have "y \<noteq> last ys" using Cons.prems(2) by auto
    with Cons False show ?thesis by auto
  qed (use Cons.prems in auto)
qed simp

text \<open>Writing the slot after \<open>ys\<close> replaces the rest of the chain.\<close>

lemma chain_at_store:
  assumes "chain_at s b (ys @ zs)" "distinct ys" "b - 2 < length (memoryBlocks s)"
    "chain (mem s) v zs'" "set ys \<inter> set zs' = {}"
  shows "chain_at (store_slot (slot_after b ys) v s) b (ys @ zs')"
proof (cases "ys = []")
  case False
  have "chain ((mem s)(last ys := v)) v zs'"
    by (rule chain_cong[OF assms(4)]) (use False assms(5) in \<open>auto dest: last_in_set\<close>)
  with False assms show ?thesis
    by (simp add: chain_at_def slot_after_def chain_splice)
qed (use assms in \<open>simp add: chain_at_def\<close>)

lemma chain_at_store_other:
  assumes "chain_at s b' xs" "set ys \<inter> set xs = {}" "b' \<noteq> b" "2 \<le> b" "2 \<le> b'"
  shows "chain_at (store_slot (slot_after b ys) v s) b' xs"
proof (cases "ys = []")
  case True
  have "b - 2 \<noteq> b' - 2" using assms(3-5) by simp
  with True assms(1) show ?thesis by (simp add: chain_at_def)
next
  case False
  with assms(2) have "last ys \<notin> set xs" by (auto dest: last_in_set)
  then show ?thesis using False assms(1)
    by (auto simp: chain_at_def slot_after_def intro!: chain_cong[where m = "mem s"])
qed

section \<open>Aligned blocks\<close>

definition block :: "u32 \<Rightarrow> nat \<Rightarrow> nat set" where
  "block a b = {unat a ..< unat a + 2 ^ b}"

text \<open>
  The blocks the allocator may hold: aligned to their size and inside the kernel's direct
  mapping, whose end \<open>PAGE_OFFSET + MAX_MAPPING\<close> is \<open>0xF0000000\<close>.
\<close>

definition good_block :: "u32 \<Rightarrow> nat \<Rightarrow> bool" where
  "good_block a b \<longleftrightarrow> 2 \<le> b \<and> 2 ^ b dvd unat a \<and> 0xC0000000 \<le> unat a \<and> unat a + 2 ^ b \<le> 0xF0000000"

lemma good_block_bit:
  assumes "good_block a b"
  shows "2 \<le> b" "b < 30"
proof -
  have "(2::nat) ^ b < 2 ^ 30" using assms by (simp add: good_block_def)
  then show "b < 30" by (rule power_less_imp_less_exp[rotated]) simp
qed (use assms in \<open>simp add: good_block_def\<close>)

lemma unat_sizep: "b < 32 \<Longrightarrow> unat (2 ^ b :: u32) = 2 ^ b"
  using unat_of_nat_small[of "2 ^ b", where ?'a = 32] power_strict_increasing[of b 32 "2::nat"]
  by simp

lemma block_self: "unat a \<in> block a b" by (simp add: block_def)

lemma card_block [simp]: "card (block a b) = 2 ^ b" by (simp add: block_def)

lemma finite_block [simp]: "finite (block a b)" by (simp add: block_def)

text \<open>Aligned blocks are nested or disjoint.\<close>

lemma aligned_le:
  fixes x y k :: nat
  assumes "k dvd x" "k dvd y" "x < y + k"
  shows "x \<le> y"
proof -
  obtain i j where "x = k * i" "y = k * j" using assms by (auto elim!: dvdE)
  with assms(3) have "k * i < k * (j + 1)" by simp
  then have "i < j + 1" by (simp only: mult_less_cancel1)
  with \<open>x = k * i\<close> \<open>y = k * j\<close> show ?thesis by simp
qed

lemma block_nested:
  assumes "2 ^ b dvd unat a" "2 ^ b' dvd unat a'" "b \<le> b'" "block a b \<inter> block a' b' \<noteq> {}"
  shows "block a b \<subseteq> block a' b'"
proof -
  let ?k = "2 ^ b :: nat"
  have kd: "?k dvd unat a'" "?k dvd 2 ^ b'"
    using assms by (auto intro: dvd_trans[OF le_imp_power_dvd])
  obtain x where x: "unat a \<le> x" "x < unat a + ?k" "unat a' \<le> x" "x < unat a' + 2 ^ b'"
    using assms(4) unfolding block_def ex_in_conv[symmetric] Int_iff atLeastLessThan_iff by blast
  have "unat a' \<le> unat a" by (rule aligned_le[OF kd(1) assms(1)]) (use x in linarith)
  moreover have "unat a + ?k \<le> unat a' + 2 ^ b'"
    by (rule aligned_le[of ?k]) (use x assms(1) kd in \<open>auto intro: dvd_add\<close>)
  ultimately show ?thesis by (auto simp: block_def)
qed

section \<open>Finding the place or the buddy\<close>

text \<open>\<open>buddies a c b\<close>: the block \<open>a\<close> and the block \<open>c\<close> are the halves of one block.\<close>

definition buddies :: "u32 \<Rightarrow> u32 \<Rightarrow> nat \<Rightarrow> bool" where
  "buddies a c b \<longleftrightarrow> 2 ^ Suc b dvd unat a \<and> unat c = unat a + 2 ^ b"

lemma dvd_double_iff:
  "2 ^ Suc b dvd n \<longleftrightarrow> 2 ^ b dvd n \<and> even (n div 2 ^ b)" for n :: nat
proof
  assume "2 ^ Suc b dvd n"
  then obtain k where "n = 2 ^ b * (2 * k)" by (auto elim!: dvdE simp: algebra_simps)
  then show "2 ^ b dvd n \<and> even (n div 2 ^ b)" by simp
next
  assume r: "2 ^ b dvd n \<and> even (n div 2 ^ b)"
  then obtain k where "n div 2 ^ b = 2 * k" by (auto elim!: evenE)
  with r have "n = 2 ^ Suc b * k" using dvd_mult_div_cancel[of "2 ^ b" n] by simp
  then show "2 ^ Suc b dvd n" by simp
qed

lemma AND_sizep: "a AND 2 ^ b = 0 \<longleftrightarrow> even (unat a div 2 ^ b)" for a :: u32
proof -
  have "bit a b = bit (unat a) b" by (auto simp: bit_unsigned_iff dest: bit_imp_le_length)
  then show ?thesis using BIT_TEST_bit[of a b] by (simp add: BIT_TEST_def bit_iff_odd[of "unat a"])
qed

lemma unat_plus_sizep:
  "good_block a b \<Longrightarrow> unat (a + 2 ^ b) = unat a + 2 ^ b"
  using good_block_bit[of a b] unat_sizep[of b]
  by (subst unat_plus_small) (auto simp: good_block_def)

lemma buddy_above:
  assumes "good_block a b"
  shows "a AND 2 ^ b = 0 \<and> a + 2 ^ b = c \<longleftrightarrow> buddies a c b"
proof -
  have "a + 2 ^ b = c \<longleftrightarrow> unat c = unat a + 2 ^ b"
    using unat_plus_sizep[OF assms] by (auto simp: word_unat_eq_iff)
  then show ?thesis using assms
    by (simp add: AND_sizep buddies_def dvd_double_iff good_block_def del: power_Suc)
qed

lemma buddy_below:
  assumes "good_block a b" "good_block c b"
  shows "a AND 2 ^ b \<noteq> 0 \<and> c + 2 ^ b = a \<longleftrightarrow> buddies c a b"
proof -
  have "c + 2 ^ b = a \<longleftrightarrow> unat a = unat c + 2 ^ b"
    using unat_plus_sizep[OF assms(2)] by (auto simp: word_unat_eq_iff)
  then show ?thesis using assms
    by (auto simp: AND_sizep buddies_def dvd_double_iff good_block_def simp del: power_Suc)
qed

lemma block_scan_ok:
  assumes "chain m e zs" "sorted_wrt (<) zs" "\<forall>z \<in> set zs. good_block z b" "good_block a b" "a \<notin> set zs"
  shows "\<exists>us vs. zs = us @ vs \<and>
    ((\<exists>c ws low. vs = c # ws \<and> (buddies a c b \<and> low = a \<or> buddies c a b \<and> low = c) \<and>
        block_scan a (2 ^ b) prev e m = Some (Merge (if us = [] then prev else Cell (last us)) c low)) \<or>
     ((\<forall>z \<in> set zs. \<not> buddies a z b \<and> \<not> buddies z a b) \<and> (\<forall>u \<in> set us. u < a) \<and> (\<forall>v \<in> set vs. a < v) \<and>
        (\<exists>x. chain m x vs \<and>
        block_scan a (2 ^ b) prev e m = Some (Insert (if us = [] then prev else Cell (last us)) x))))"
  using assms
proof (induction zs arbitrary: e prev)
  case Nil
  then show ?case by (simp add: block_scan.simps)
next
  case (Cons z zs)
  then have e: "e = z" "z \<noteq> EMPTY" and gz: "good_block z b" by auto
  consider (above) "a < z" "buddies a z b" | (below) "z < a" "buddies z a b"
    | (stop) "a < z" "\<not> buddies a z b" | (go) "z < a" "\<not> buddies z a b"
    using Cons.prems(5) by fastforce
  then show ?case
  proof cases
    case above
    then show ?thesis using e buddy_above[OF Cons.prems(4), of z]
      by (intro exI[of _ "[]"] exI[of _ "z # zs"]) (subst block_scan.simps, simp)
  next
    case below
    then show ?thesis using e buddy_below[OF Cons.prems(4) gz]
      by (intro exI[of _ "[]"] exI[of _ "z # zs"]) (subst block_scan.simps, simp)
  next
    case stop
    have gt: "a < v" if "v \<in> set (z # zs)" for v
      using that Cons.prems(2) stop(1) by (auto intro: less_trans)
    have "\<not> buddies a v b \<and> \<not> buddies v a b" if v: "v \<in> set (z # zs)" for v
    proof
      show "\<not> buddies v a b" using gt[OF v] by (auto simp: buddies_def word_less_nat_alt)
      show "\<not> buddies a v b"
      proof
        assume bv: "buddies a v b"
        with stop v have "z < v" using Cons.prems(2) by auto
        with bv have "unat z < unat a + 2 ^ b" by (auto simp: buddies_def word_less_nat_alt)
        then have "unat z \<le> unat a"
          using gz Cons.prems(4) by (intro aligned_le) (auto simp: good_block_def)
        with stop(1) show False by (simp add: word_less_nat_alt)
      qed
    qed
    with gt e stop Cons.prems(1) buddy_above[OF Cons.prems(4), of z] show ?thesis
      by (intro exI[of _ "[]"] exI[of _ "z # zs"]) (subst block_scan.simps, auto)
  next
    case go
    have step: "block_scan a (2 ^ b) prev e m = block_scan a (2 ^ b) (Cell z) (m z) m"
      using go e buddy_below[OF Cons.prems(4) gz] by (subst block_scan.simps) auto
    have nz: "\<not> buddies a z b" using go by (auto simp: buddies_def word_less_nat_alt)
    have "chain m (m z) zs" "sorted_wrt (<) zs" "\<forall>z\<in>set zs. good_block z b" "a \<notin> set zs"
      using Cons.prems by auto
    from Cons.IH[OF this(1-3) Cons.prems(4) this(4), of "Cell z"] obtain us vs where
      zs: "zs = us @ vs" and r: "(\<exists>c ws low. vs = c # ws \<and> (buddies a c b \<and> low = a \<or> buddies c a b \<and> low = c) \<and>
        block_scan a (2 ^ b) (Cell z) (m z) m = Some (Merge (if us = [] then Cell z else Cell (last us)) c low)) \<or>
     ((\<forall>z \<in> set zs. \<not> buddies a z b \<and> \<not> buddies z a b) \<and> (\<forall>u \<in> set us. u < a) \<and> (\<forall>v \<in> set vs. a < v) \<and>
        (\<exists>x. chain m x vs \<and>
        block_scan a (2 ^ b) (Cell z) (m z) m = Some (Insert (if us = [] then Cell z else Cell (last us)) x)))"
      by blast
    show ?thesis
      by (rule exI[of _ "z # us"], rule exI[of _ vs], use zs r step nz go in \<open>auto split: if_splits\<close>)
  qed
qed

section \<open>The invariant\<close>

text \<open>
  \<open>F b\<close> is the chain of the free blocks of \<open>2 ^ b\<close> bytes. The blocks are good, disjoint and
  in address order, and no two of them are halves of one block.
\<close>

definition shape :: "(nat \<Rightarrow> u32 list) \<Rightarrow> bool" where
  "shape F \<longleftrightarrow>
     (\<forall>b. sorted_wrt (<) (F b)) \<and>
     (\<forall>b. \<forall>a \<in> set (F b). good_block a b) \<and>
     (\<forall>b a b' a'. a \<in> set (F b) \<longrightarrow> a' \<in> set (F b') \<longrightarrow> (a, b) \<noteq> (a', b') \<longrightarrow> block a b \<inter> block a' b' = {}) \<and>
     (\<forall>b. \<forall>a \<in> set (F b). \<forall>c \<in> set (F b). \<not> buddies a c b)"

definition free_area :: "(nat \<Rightarrow> u32 list) \<Rightarrow> nat set" where
  "free_area F = (\<Union>b. \<Union>a \<in> set (F b). block a b)"

definition free_inv :: "kmem \<Rightarrow> (nat \<Rightarrow> u32 list) \<Rightarrow> bool" where
  "free_inv s F \<longleftrightarrow> length (memoryBlocks s) = 28 \<and> memoryLock s = 0 \<and> shape F \<and>
     (\<forall>b. 2 \<le> b \<longrightarrow> b < 30 \<longrightarrow> chain_at s b (F b)) \<and>
     unat (freeMemoryCounter s) = card (free_area F)"

lemma shapeD:
  assumes "shape F"
  shows "sorted_wrt (<) (F b)" "a \<in> set (F b) \<Longrightarrow> good_block a b"
    "a \<in> set (F b) \<Longrightarrow> a' \<in> set (F b') \<Longrightarrow> (a, b) \<noteq> (a', b') \<Longrightarrow> block a b \<inter> block a' b' = {}"
    "a \<in> set (F b) \<Longrightarrow> c \<in> set (F b) \<Longrightarrow> \<not> buddies a c b"
  using assms unfolding shape_def by (blast+)

lemma in_free_area: "x \<in> free_area F \<longleftrightarrow> (\<exists>b a. a \<in> set (F b) \<and> x \<in> block a b)"
  by (auto simp: free_area_def)

lemma free_areaI: "a \<in> set (F b) \<Longrightarrow> x \<in> block a b \<Longrightarrow> x \<in> free_area F"
  by (auto simp: free_area_def)

lemma block_bound: "good_block a b \<Longrightarrow> block a b \<subseteq> {0xC0000000 ..< 0xF0000000}"
  by (auto simp: good_block_def block_def)

lemma free_area_bound: "shape F \<Longrightarrow> free_area F \<subseteq> {0xC0000000 ..< 0xF0000000}"
  unfolding free_area_def using shapeD(2) block_bound by blast

lemma free_area_finite: "shape F \<Longrightarrow> finite (free_area F)"
  using free_area_bound finite_subset by blast

lemma good_not_EMPTY: "good_block a b \<Longrightarrow> a \<noteq> EMPTY"
  by (auto simp: good_block_def)

lemma distinct_shape: "shape F \<Longrightarrow> distinct (F b)"
proof -
  have "sorted_wrt (<) xs \<Longrightarrow> distinct xs" for xs :: "u32 list" by (induction xs) auto
  then show "shape F \<Longrightarrow> distinct (F b)" using shapeD(1) by blast
qed

text \<open>Two different chains share no block.\<close>

lemma chains_disjoint: "shape F \<Longrightarrow> b \<noteq> b' \<Longrightarrow> set (F b) \<inter> set (F b') = {}"
proof -
  assume s: "shape F" and b: "b \<noteq> b'"
  have False if "a \<in> set (F b)" "a \<in> set (F b')" for a
    using shapeD(3)[OF s that] b block_self[of a b] block_self[of a b'] by blast
  then show ?thesis by blast
qed

lemma shape_sub:
  assumes "shape F" "\<And>b'. set (G b') \<subseteq> set (F b')" "\<And>b'. sorted_wrt (<) (G b')"
  shows "shape G"
  unfolding shape_def
proof (intro conjI allI impI ballI)
  fix b a assume "a \<in> set (G b)"
  then show "good_block a b" using shapeD(2)[OF assms(1)] assms(2) by blast
next
  fix b a b' a' assume "a \<in> set (G b)" "a' \<in> set (G b')" "(a, b) \<noteq> (a', b')"
  then show "block a b \<inter> block a' b' = {}" using shapeD(3)[OF assms(1)] assms(2) by blast
next
  fix b a c assume "a \<in> set (G b)" "c \<in> set (G b)"
  then show "\<not> buddies a c b" using shapeD(4)[OF assms(1)] assms(2) by blast
qed (rule assms(3))

lemma shape_remove:
  assumes s: "shape F" and F: "F b = us @ c # ws"
  shows "shape (F(b := us @ ws))"
    and "free_area (F(b := us @ ws)) = free_area F - block c b"
proof -
  have "sorted_wrt (<) (us @ c # ws)" using shapeD(1)[OF s, of b] F by simp
  then have "sorted_wrt (<) (us @ ws)" by (auto simp: sorted_wrt_append)
  then show "shape (F(b := us @ ws))"
    by (intro shape_sub[OF s]) (use F shapeD(1)[OF s] in auto)
  have c: "c \<in> set (F b)" and nc: "c \<notin> set (us @ ws)"
    using F distinct_shape[OF s, of b] by auto
  have m: "a \<in> set ((F(b := us @ ws)) b') \<longleftrightarrow> a \<in> set (F b') \<and> (a, b') \<noteq> (c, b)" for a b'
    using F nc by auto
  show "free_area (F(b := us @ ws)) = free_area F - block c b"
  proof (intro set_eqI iffI)
    fix x assume "x \<in> free_area (F(b := us @ ws))"
    then obtain a b' where "a \<in> set (F b')" "(a, b') \<noteq> (c, b)" "x \<in> block a b'"
      unfolding in_free_area m by blast
    then show "x \<in> free_area F - block c b" using shapeD(3)[OF s _ c] free_areaI by blast
  next
    fix x assume "x \<in> free_area F - block c b"
    then obtain a b' where "a \<in> set (F b')" "x \<in> block a b'" "x \<notin> block c b"
      unfolding Diff_iff in_free_area by blast
    then show "x \<in> free_area (F(b := us @ ws))" unfolding in_free_area m by blast
  qed
qed

lemma shape_insert:
  assumes s: "shape F" and F: "F b = us @ vs" and g: "good_block a b"
    and d: "block a b \<inter> free_area F = {}" and o: "\<forall>u \<in> set us. u < a" "\<forall>v \<in> set vs. a < v"
    and nb: "\<forall>z \<in> set (F b). \<not> buddies a z b \<and> \<not> buddies z a b"
  shows "shape (F(b := us @ a # vs))"
    and "free_area (F(b := us @ a # vs)) = free_area F \<union> block a b"
proof -
  let ?F = "F(b := us @ a # vs)"
  have m: "c \<in> set (?F b') \<longleftrightarrow> c \<in> set (F b') \<or> (c, b') = (a, b)" for c b'
    using F by auto
  have dj: "block a b \<inter> block c b' = {}" if "c \<in> set (F b')" for c b'
    using d that free_areaI by blast
  show "shape ?F"
    unfolding shape_def m
  proof (intro conjI allI impI ballI)
    fix b'
    have "sorted_wrt (<) (us @ vs)" using shapeD(1)[OF s, of b] F by simp
    then show "sorted_wrt (<) (?F b')"
      using o shapeD(1)[OF s, of b'] by (auto simp: sorted_wrt_append intro: less_trans)
  next
    fix b' c assume "c \<in> set (?F b')"
    then show "good_block c b'" using m g shapeD(2)[OF s] by blast
  next
    fix b1 a1 b2 a2
    assume "a1 \<in> set (F b1) \<or> (a1, b1) = (a, b)" "a2 \<in> set (F b2) \<or> (a2, b2) = (a, b)"
      "(a1, b1) \<noteq> (a2, b2)"
    then show "block a1 b1 \<inter> block a2 b2 = {}" using dj shapeD(3)[OF s] by (metis Int_commute Pair_inject)
  next
    fix b' c e assume "c \<in> set (?F b')" "e \<in> set (?F b')"
    moreover have "\<not> buddies a a b" by (simp add: buddies_def)
    ultimately show "\<not> buddies c e b'" using nb shapeD(4)[OF s] m by (metis Pair_inject)
  qed
  show "free_area ?F = free_area F \<union> block a b"
    unfolding set_eq_iff Un_iff in_free_area m by blast
qed

section \<open>What freeing a block does\<close>

definition links :: "kmem \<Rightarrow> (nat \<Rightarrow> u32 list) \<Rightarrow> bool" where
  "links s F \<longleftrightarrow> length (memoryBlocks s) = 28 \<and> (\<forall>b. 2 \<le> b \<longrightarrow> b < 30 \<longrightarrow> chain_at s b (F b))"

lemma free_inv_iff:
  "free_inv s F \<longleftrightarrow> links s F \<and> shape F \<and> memoryLock s = 0 \<and>
     unat (freeMemoryCounter s) = card (free_area F)"
  by (auto simp: free_inv_def links_def)

lemma links_cong [simp]:
  "links (s\<lparr>memoryLock := l\<rparr>) F = links s F" "links (s\<lparr>freeMemoryCounter := n\<rparr>) F = links s F"
  by (simp_all add: links_def chain_at_def)

lemma chain_suffix: "chain m e (us @ c # ws) \<Longrightarrow> chain m (m c) ws"
  by (induction us arbitrary: e) auto

lemma length_store_slot [simp]: "length (memoryBlocks (store_slot sl v s)) = length (memoryBlocks s)"
  by (cases sl) auto

lemma links_store:
  assumes l: "links s F" and sh: "shape F" and b: "2 \<le> b" "b < 30" and F: "F b = us @ zs"
    and v: "chain (mem s) v zs'" "set us \<inter> set zs' = {}"
  shows "links (store_slot (slot_after b us) v s) (F(b := us @ zs'))"
  unfolding links_def
proof (intro conjI allI impI)
  show "length (memoryBlocks (store_slot (slot_after b us) v s)) = 28" using l by (simp add: links_def)
  fix b' :: nat assume b': "2 \<le> b'" "b' < 30"
  show "chain_at (store_slot (slot_after b us) v s) b' ((F(b := us @ zs')) b')"
  proof (cases "b' = b")
    case True
    have "distinct us" using distinct_shape[OF sh, of b] F by simp
    with True l b F v show ?thesis by (auto simp: links_def intro!: chain_at_store[where zs = zs])
  next
    case False
    have "set us \<inter> set (F b') = {}" using chains_disjoint[OF sh, of b b'] False F by auto
    with False l b b' show ?thesis by (auto simp: links_def intro!: chain_at_store_other)
  qed
qed

lemma links_remove:
  assumes l: "links s F" and sh: "shape F" and b: "2 \<le> b" "b < 30" and F: "F b = us @ c # ws"
  shows "links (store_slot (slot_after b us) (mem s c) s) (F(b := us @ ws))"
proof (rule links_store[OF l sh b F])
  have "chain_at s b (us @ c # ws)" using l b F by (metis links_def)
  then show "chain (mem s) (mem s c) ws" unfolding chain_at_def by (rule chain_suffix)
  show "set us \<inter> set ws = {}" using distinct_shape[OF sh, of b] F by auto
qed

lemma links_write:
  assumes "links s F" "\<And>b. a \<notin> set (F b)"
  shows "links (s\<lparr>mem := (mem s)(a := x)\<rparr>) F"
proof -
  have "chain_at (s\<lparr>mem := (mem s)(a := x)\<rparr>) b (F b)" if "chain_at s b (F b)" for b
    using that assms(2)[of b] by (auto simp: chain_at_def intro!: chain_cong[where m = "mem s"])
  then show ?thesis using assms(1) by (simp add: links_def)
qed

lemma mem_store_slot: "x \<notin> set us \<Longrightarrow> mem (store_slot (slot_after b us) v s) x = mem s x"
  by (auto simp: slot_after_def)

lemma links_insert:
  assumes l: "links s F" and sh: "shape F" and b: "2 \<le> b" "b < 30" and F: "F b = us @ vs"
    and x: "chain (mem s) x vs" and a: "\<And>b. a \<notin> set (F b)" "a \<noteq> EMPTY"
  shows "links (let s = store_slot (slot_after b us) a s in s\<lparr>mem := (mem s)(a := x)\<rparr>)
           (F(b := us @ a # vs))"
proof -
  let ?s = "s\<lparr>mem := (mem s)(a := x)\<rparr>"
  have av: "a \<notin> set us" "a \<notin> set vs" using a(1)[of b] F by auto
  have tw: "us \<noteq> [] \<Longrightarrow> (mem s)(last us := a, a := x) = (mem s)(a := x, last us := a)"
    by (rule fun_upd_twist) (metis av(1) last_in_set)
  then have c: "(let s = store_slot (slot_after b us) a s in s\<lparr>mem := (mem s)(a := x)\<rparr>)
      = store_slot (slot_after b us) a ?s"
    by (cases "us = []") (simp_all add: slot_after_def Let_def)
  have "chain (mem ?s) a (a # vs)" using x a(2) av by (auto intro: chain_cong[where m = "mem s"])
  moreover have "set us \<inter> set (a # vs) = {}" using av distinct_shape[OF sh, of b] F by auto
  ultimately show ?thesis
    unfolding c by (intro links_store[OF links_write[OF l a(1)] sh b F])
qed

lemma card_add_block:
  "shape F \<Longrightarrow> block a b \<inter> free_area F = {} \<Longrightarrow> card (free_area F \<union> block a b) = card (free_area F) + 2 ^ b"
  using free_area_finite card_Un_disjoint[of "free_area F" "block a b"] by (simp add: Int_commute)

lemma area_card_bound:
  assumes "X \<subseteq> {0xC0000000 ..< 0xF0000000 :: nat}" shows "card X \<le> 0x30000000"
  using card_mono[OF _ assms] by simp

lemma counter_add:
  fixes n :: u32
  assumes "unat n = card (free_area F)" "shape F" "good_block a b" "block a b \<inter> free_area F = {}"
  shows "unat (n + 2 ^ b) = card (free_area F \<union> block a b)"
proof -
  have "free_area F \<union> block a b \<subseteq> {0xC0000000 ..< 0xF0000000}"
    using free_area_bound[OF assms(2)] block_bound[OF assms(3)] by blast
  then have "card (free_area F) + 2 ^ b \<le> 0x30000000"
    using area_card_bound card_add_block[OF assms(2,4)] by metis
  then show ?thesis
    using assms(1) unat_sizep[of b] good_block_bit[OF assms(3)] card_add_block[OF assms(2,4)]
    by (subst unat_plus_small) auto
qed

lemma counter_remove:
  fixes n :: u32
  assumes "unat n = card (free_area F)" "shape F" "c \<in> set (F b)"
  shows "unat (n - 2 ^ b) = card (free_area F - block c b)"
proof -
  have s: "block c b \<subseteq> free_area F" using assms(3) free_areaI by blast
  have cd: "card (free_area F - block c b) = card (free_area F) - 2 ^ b"
    using card_Diff_subset[OF finite_block s] by simp
  have le: "2 ^ b \<le> card (free_area F)" using card_mono[OF free_area_finite[OF assms(2)] s] by simp
  have u: "unat (2 ^ b :: u32) = 2 ^ b"
    using unat_sizep good_block_bit[OF shapeD(2)[OF assms(2,3)]] by simp
  have "(2 ^ b :: u32) \<le> n" using assms(1) le u by (simp add: word_le_nat_alt)
  then show ?thesis using assms(1) cd u by (simp add: unat_minus_le)
qed

lemma store_slot_simps [simp]:
  "freeMemoryCounter (store_slot sl v s) = freeMemoryCounter s"
  "memoryLock (store_slot sl v s) = memoryLock s"
  by (cases sl; simp)+

text \<open>Two buddies make a block of the next size.\<close>

lemma buddies_join:
  assumes "buddies a c b" "good_block a b" "good_block c b"
  shows "good_block a (Suc b)" "block a (Suc b) = block a b \<union> block c b"
proof -
  have e: "(2 :: nat) ^ Suc b = 2 ^ b + 2 ^ b" by simp
  show "good_block a (Suc b)" "block a (Suc b) = block a b \<union> block c b"
    using assms by (auto simp: buddies_def good_block_def block_def)
qed

text \<open>The abstract effect of an operation: a state that represents the set of free bytes \<open>A\<close>.\<close>

definition frees :: "kmem \<Rightarrow> nat set \<Rightarrow> kerror + kmem \<Rightarrow> bool" where
  "frees s A r \<longleftrightarrow> (\<exists>s' F'. r = Inr s' \<and> free_inv s' F' \<and> free_area F' = A \<and>
     (\<forall>x. unat x \<notin> A \<longrightarrow> mem s' x = mem s x))"

lemma memory_block_free_ok:
  assumes "free_inv s F" "good_block a b" "block a b \<inter> free_area F = {}"
  shows "frees s (free_area F \<union> block a b) (memory_block_free a b s)"
  using assms
proof (induction "30 - b" arbitrary: a b s F rule: less_induct)
  case less
  note inv = less.prems(1) and good = less.prems(2) and disj = less.prems(3)
  have li: "links s F" and sh: "shape F" and lock: "memoryLock s = 0"
    and cnt: "unat (freeMemoryCounter s) = card (free_area F)"
    using inv by (auto simp: free_inv_iff)
  have b: "2 \<le> b" "b < 30" using good_block_bit[OF good] by auto
  define s0 where "s0 = s\<lparr>memoryLock := 1, freeMemoryCounter := freeMemoryCounter s + 2 ^ b\<rparr>"
  have s0: "links s0 F" "mem s0 = mem s" "memoryBlocks s0 = memoryBlocks s"
    using li by (simp_all add: s0_def)
  have na: "a \<notin> set (F b')" for b'
    using disj block_self[of a b] block_self[of a b'] free_areaI[of a F b' "unat a"] by blast
  have ch: "chain (mem s) (memoryBlocks s ! (b - 2)) (F b)" using li b by (auto simp: links_def chain_at_def)
  have gF: "\<forall>z \<in> set (F b). good_block z b" using shapeD(2)[OF sh] by blast
  have unfold: "memory_block_free a b s =
      (case block_scan a (2 ^ b) (Head (b - 2)) (memoryBlocks s ! (b - 2)) (mem s) of
         None \<Rightarrow> Inl Spin
       | Some (Merge prev entry low) \<Rightarrow>
           memory_block_free low (Suc b) ((store_slot prev (mem s entry) s0)
             \<lparr>freeMemoryCounter := freeMemoryCounter s - 2 ^ b, memoryLock := 0\<rparr>)
       | Some (Insert prev entry) \<Rightarrow>
           Inr ((let s = store_slot prev a s0 in s\<lparr>mem := (mem s)(a := entry)\<rparr>)\<lparr>memoryLock := 0\<rparr>))"
    using b lock by (subst memory_block_free.simps)
      (simp add: s0_def Let_def algebra_simps split: option.splits scan.splits)
  obtain us vs where F: "F b = us @ vs" and r:
    "(\<exists>c ws low. vs = c # ws \<and> (buddies a c b \<and> low = a \<or> buddies c a b \<and> low = c) \<and>
        block_scan a (2 ^ b) (Head (b - 2)) (memoryBlocks s ! (b - 2)) (mem s) = Some (Merge (slot_after b us) c low)) \<or>
     ((\<forall>z \<in> set (F b). \<not> buddies a z b \<and> \<not> buddies z a b) \<and> (\<forall>u \<in> set us. u < a) \<and> (\<forall>v \<in> set vs. a < v) \<and>
        (\<exists>x. chain (mem s) x vs \<and>
        block_scan a (2 ^ b) (Head (b - 2)) (memoryBlocks s ! (b - 2)) (mem s) = Some (Insert (slot_after b us) x)))"
    using block_scan_ok[OF ch shapeD(1)[OF sh] gF good na, of "Head (b - 2)"]
    unfolding slot_after_def by blast
  let ?scan = "block_scan a (2 ^ b) (Head (b - 2)) (memoryBlocks s ! (b - 2)) (mem s)"
  from r consider
    (merge) c ws low where "vs = c # ws" "buddies a c b \<and> low = a \<or> buddies c a b \<and> low = c"
      "?scan = Some (Merge (slot_after b us) c low)"
  | (insert) x where "\<forall>z \<in> set (F b). \<not> buddies a z b \<and> \<not> buddies z a b"
      "\<forall>u \<in> set us. u < a" "\<forall>v \<in> set vs. a < v" "chain (mem s) x vs"
      "?scan = Some (Insert (slot_after b us) x)"
    by blast
  then show ?case
  proof cases
    case (merge c ws low)
    note vs = merge(1) and bud = merge(2) and scan = merge(3)
    let ?F = "F(b := us @ ws)"
    let ?s = "(store_slot (slot_after b us) (mem s c) s0)
        \<lparr>freeMemoryCounter := freeMemoryCounter s - 2 ^ b, memoryLock := 0\<rparr>"
    have F': "F b = us @ c # ws" and cF: "c \<in> set (F b)" using F vs by auto
    have inv': "free_inv ?s ?F"
      unfolding free_inv_iff using links_remove[OF s0(1) sh b F'] shape_remove[OF sh F']
        counter_remove[OF cnt sh cF] s0(2) by simp
    have low: "good_block low (Suc b)" "block low (Suc b) = block a b \<union> block c b"
      using bud buddies_join good gF cF by blast+
    have dj: "block low (Suc b) \<inter> free_area ?F = {}"
      using low(2) shape_remove(2)[OF sh F'] disj by blast
    have sub: "block c b \<subseteq> free_area F" using cF free_areaI by blast
    have eq: "free_area ?F \<union> block low (Suc b) = free_area F \<union> block a b"
      using low(2) shape_remove(2)[OF sh F'] sub by blast
    have "frees ?s (free_area F \<union> block a b) (memory_block_free low (Suc b) ?s)"
      using less.hyps[of "Suc b", OF _ inv' low(1) dj] b eq by simp
    moreover have "mem ?s x = mem s x" if "unat x \<notin> free_area F \<union> block a b" for x
    proof -
      have "x \<notin> set us" using that F' free_areaI[of x F b "unat x"] block_self[of x b] by auto
      then show ?thesis by (simp add: mem_store_slot s0)
    qed
    ultimately have "frees s (free_area F \<union> block a b) (memory_block_free low (Suc b) ?s)"
      unfolding frees_def by metis
    then show ?thesis by (simp add: unfold scan)
  next
    case (insert x)
    note nb = insert(1) and o = insert(2,3) and x = insert(4) and scan = insert(5)
    let ?F = "F(b := us @ a # vs)"
    let ?s = "(let s = store_slot (slot_after b us) a s0 in s\<lparr>mem := (mem s)(a := x)\<rparr>)\<lparr>memoryLock := 0\<rparr>"
    have "links ?s ?F"
      using links_insert[OF s0(1) sh b F _ na good_not_EMPTY[OF good], of x] x s0(2) by simp
    then have inv': "free_inv ?s ?F"
      unfolding free_inv_iff
      using shape_insert[OF sh F good disj o nb] counter_add[OF cnt sh good disj]
      by (simp add: s0_def Let_def)
    have mem': "mem ?s y = mem s y" if "unat y \<notin> free_area F \<union> block a b" for y
    proof -
      have "y \<notin> set us" using that F free_areaI[of y F b "unat y"] block_self[of y b] by auto
      moreover have "y \<noteq> a" using that block_self[of a b] by auto
      ultimately show ?thesis by (simp add: mem_store_slot s0 Let_def)
    qed
    have "memory_block_free a b s = Inr ?s" by (simp add: unfold scan)
    then show ?thesis
      unfolding frees_def using inv' shape_insert(2)[OF sh F good disj o nb] mem' by blast
  qed
qed

section \<open>Freeing a range\<close>

lemma frees_refl: "free_inv s F \<Longrightarrow> A = free_area F \<Longrightarrow> frees s A (Inr s)"
  by (auto simp: frees_def)

lemma frees_trans:
  assumes "frees s A (Inr s1)" "frees s1 B r" "A \<subseteq> B"
  shows "frees s B r"
  using assms unfolding frees_def by (metis subsetD Inr_inject)

definition span :: "u32 \<Rightarrow> u32 \<Rightarrow> nat set" where
  "span a sz = {unat a ..< unat a + unat sz}"

definition in_bounds :: "u32 \<Rightarrow> u32 \<Rightarrow> bool" where
  "in_bounds a sz \<longleftrightarrow> 0xC0000000 \<le> unat a \<and> unat a + unat sz \<le> 0xF0000000"

text \<open>The first \<open>if\<close> of the loop frees the odd block at the front, the second the one at the end.\<close>

lemma free_front:
  assumes inv: "free_inv s F" and d: "2 ^ b dvd unat a" "2 ^ b dvd unat sz" "2 \<le> b" "b < 32"
    and ib: "in_bounds a sz" and dj: "span a sz \<inter> free_area F = {}" and le: "2 ^ b \<le> sz"
  shows "\<exists>a' sz' s' F'. (if a AND 2 ^ b \<noteq> 0
           then and_then (memory_block_free a b s) (\<lambda>s. Inr (a + 2 ^ b, sz - 2 ^ b, s)) else Inr (a, sz, s))
           = Inr (a', sz', s') \<and> frees s (free_area F') (Inr s') \<and> free_inv s' F' \<and>
         2 ^ Suc b dvd unat a' \<and> 2 ^ b dvd unat sz' \<and> in_bounds a' sz' \<and>
         span a' sz' \<inter> free_area F' = {} \<and> free_area F' \<union> span a' sz' = free_area F \<union> span a sz"
proof (cases "a AND 2 ^ b = 0")
  case True
  then show ?thesis using inv d ib dj
    by (intro exI[of _ a] exI[of _ sz] exI[of _ s] exI[of _ F])
      (simp add: frees_refl AND_sizep dvd_double_iff del: power_Suc)
next
  case False
  have e: "unat (2 ^ b :: u32) = 2 ^ b" using d(4) by (rule unat_sizep)
  have le': "2 ^ b \<le> unat sz" using le e by (simp add: word_le_nat_alt)
  have g: "good_block a b" using ib d le' by (simp add: good_block_def in_bounds_def)
  have sub: "block a b \<subseteq> span a sz" using le' by (auto simp: block_def span_def)
  obtain s' F' where s': "memory_block_free a b s = Inr s'" "free_inv s' F'"
      "free_area F' = free_area F \<union> block a b" "frees s (free_area F') (Inr s')"
    using memory_block_free_ok[OF inv g] dj sub unfolding frees_def by blast
  have a': "unat (a + 2 ^ b) = unat a + 2 ^ b" using unat_plus_sizep[OF g] .
  have sz': "unat (sz - 2 ^ b) = unat sz - 2 ^ b" using le e by (simp add: unat_minus_le)
  have "odd (unat a div 2 ^ b)" using False by (simp add: AND_sizep)
  then have "2 ^ Suc b dvd unat (a + 2 ^ b)"
    unfolding dvd_double_iff a' using d(1) by simp
  moreover have "2 ^ b dvd unat (sz - 2 ^ b)" unfolding sz' using d(2) by (simp add: dvd_diff_nat)
  moreover have sp: "span a sz = block a b \<union> span (a + 2 ^ b) (sz - 2 ^ b)"
    "block a b \<inter> span (a + 2 ^ b) (sz - 2 ^ b) = {}"
    using le' unfolding span_def block_def a' sz' by auto
  moreover have "in_bounds (a + 2 ^ b) (sz - 2 ^ b)"
    using ib le' unfolding in_bounds_def a' sz' by simp
  ultimately show ?thesis using s' False dj
    by (intro exI[of _ "a + 2 ^ b"] exI[of _ "sz - 2 ^ b"] exI[of _ s'] exI[of _ F']) auto
qed

lemma free_back:
  assumes inv: "free_inv s F" and d: "2 ^ Suc b dvd unat a" "2 ^ b dvd unat sz" "2 \<le> b" "b < 32"
    and ib: "in_bounds a sz" and dj: "span a sz \<inter> free_area F = {}"
  shows "\<exists>sz' s' F'. (if sz AND 2 ^ b \<noteq> 0
           then and_then (memory_block_free (a + sz - 2 ^ b) b s) (\<lambda>s. Inr (sz - 2 ^ b, s)) else Inr (sz, s))
           = Inr (sz', s') \<and> frees s (free_area F') (Inr s') \<and> free_inv s' F' \<and>
         2 ^ Suc b dvd unat sz' \<and> in_bounds a sz' \<and>
         span a sz' \<inter> free_area F' = {} \<and> free_area F' \<union> span a sz' = free_area F \<union> span a sz"
proof (cases "sz AND 2 ^ b = 0")
  case True
  then show ?thesis using inv d ib dj
    by (intro exI[of _ sz] exI[of _ s] exI[of _ F])
      (simp add: frees_refl AND_sizep dvd_double_iff del: power_Suc)
next
  case False
  have e: "unat (2 ^ b :: u32) = 2 ^ b" using d(4) by (rule unat_sizep)
  have odd: "odd (unat sz div 2 ^ b)" using False by (simp add: AND_sizep)
  then have "unat sz div 2 ^ b \<noteq> 0" by (metis even_zero)
  then have le': "2 ^ b \<le> unat sz" by (simp add: div_eq_0_iff)
  then have le: "(2 ^ b :: u32) \<le> sz" using e by (simp add: word_le_nat_alt)
  have sz': "unat (sz - 2 ^ b) = unat sz - 2 ^ b" using le e by (simp add: unat_minus_le)
  have "a + sz - 2 ^ b = a + (sz - 2 ^ b)" by simp
  then have a': "unat (a + sz - 2 ^ b) = unat a + (unat sz - 2 ^ b)"
    using ib sz' by (subst \<open>a + sz - 2 ^ b = _\<close>, subst unat_plus_small) (auto simp: in_bounds_def)
  have da: "2 ^ b dvd unat a" using d(1) by (simp only: dvd_double_iff)
  then have g: "good_block (a + sz - 2 ^ b) b"
    unfolding good_block_def a' using ib d le' by (auto simp: in_bounds_def intro!: dvd_add dvd_diff_nat)
  have sub: "span a sz = block (a + sz - 2 ^ b) b \<union> span a (sz - 2 ^ b)"
      "block (a + sz - 2 ^ b) b \<inter> span a (sz - 2 ^ b) = {}"
    using le' unfolding span_def block_def a' sz' by auto
  obtain s' F' where s': "memory_block_free (a + sz - 2 ^ b) b s = Inr s'" "free_inv s' F'"
      "free_area F' = free_area F \<union> block (a + sz - 2 ^ b) b" "frees s (free_area F') (Inr s')"
    using memory_block_free_ok[OF inv g] dj sub unfolding frees_def by blast
  have "even ((unat sz - 2 ^ b) div 2 ^ b)"
    using odd le' le_div_geq[of "2 ^ b" "unat sz"] by simp
  then have "2 ^ Suc b dvd unat (sz - 2 ^ b)"
    unfolding dvd_double_iff sz' using d(2) by (simp add: dvd_diff_nat)
  moreover have "in_bounds a (sz - 2 ^ b)" using ib unfolding in_bounds_def sz' by linarith
  ultimately show ?thesis using s' False dj sub
    by (intro exI[of _ "sz - 2 ^ b"] exI[of _ s'] exI[of _ F']) auto
qed


lemma memory_free_from_ok:
  assumes "free_inv s F" "2 ^ b dvd unat a" "2 ^ b dvd unat sz" "2 \<le> b" "in_bounds a sz"
    "span a sz \<inter> free_area F = {}"
  shows "frees s (free_area F \<union> span a sz) (memory_free_from b a sz s)"
  using assms
proof (induction "32 - b" arbitrary: b a sz s F rule: less_induct)
  case less
  show ?case
  proof (cases "b < 32 \<and> 2 ^ b \<le> sz")
    case False
    have "unat sz = 0"
    proof (rule ccontr)
      assume "unat sz \<noteq> 0"
      then have le: "2 ^ b \<le> unat sz" using less.prems(3) by (auto dest: dvd_imp_le)
      also have "unat sz < 2 ^ 32" using unsigned_less[of sz, where ?'a = nat] by simp
      finally have "b < 32" by (rule power_less_imp_less_exp[rotated]) simp
      then show False using False le unat_sizep[of b] by (simp add: word_le_nat_alt)
    qed
    then have "span a sz = {}" by (simp add: span_def)
    moreover have "memory_free_from b a sz s = Inr s"
      using False by (subst memory_free_from.simps) (auto simp: not_le)
    ultimately show ?thesis using less.prems(1) by (simp add: frees_refl)
  next
    case True
    obtain a1 sz1 s1 F1 where front: "(if a AND 2 ^ b \<noteq> 0
           then and_then (memory_block_free a b s) (\<lambda>s. Inr (a + 2 ^ b, sz - 2 ^ b, s)) else Inr (a, sz, s))
           = Inr (a1, sz1, s1)" "frees s (free_area F1) (Inr s1)" "free_inv s1 F1"
         "2 ^ Suc b dvd unat a1" "2 ^ b dvd unat sz1" "in_bounds a1 sz1" "span a1 sz1 \<inter> free_area F1 = {}"
         "free_area F1 \<union> span a1 sz1 = free_area F \<union> span a sz"
      using free_front[OF less.prems(1-4) _ less.prems(5,6)] True by blast
    obtain sz2 s2 F2 where rear: "(if sz1 AND 2 ^ b \<noteq> 0
           then and_then (memory_block_free (a1 + sz1 - 2 ^ b) b s1) (\<lambda>s. Inr (sz1 - 2 ^ b, s)) else Inr (sz1, s1))
           = Inr (sz2, s2)" "frees s1 (free_area F2) (Inr s2)" "free_inv s2 F2"
         "2 ^ Suc b dvd unat sz2" "in_bounds a1 sz2" "span a1 sz2 \<inter> free_area F2 = {}"
         "free_area F2 \<union> span a1 sz2 = free_area F1 \<union> span a1 sz1"
      using free_back[OF front(3-5) less.prems(4) _ front(6,7)] True by blast
    have "\<not> sz < 2 ^ b" "\<not> 32 \<le> b" using True by auto
    then have "memory_free_from b a sz s = memory_free_from (Suc b) a1 sz2 s2"
      using front(1) rear(1) by (subst memory_free_from.simps) (simp add: Let_def)
    moreover have "frees s2 (free_area F2 \<union> span a1 sz2) (memory_free_from (Suc b) a1 sz2 s2)"
    proof (rule less.hyps[OF _ rear(3) front(4) rear(4) _ rear(5,6)])
      show "32 - Suc b < 32 - b" "2 \<le> Suc b" using True less.prems(4) by linarith+
    qed
    moreover have "free_area F1 \<subseteq> free_area F2 \<union> span a1 sz2" "free_area F2 \<subseteq> free_area F2 \<union> span a1 sz2"
      using rear(7) by auto
    ultimately have "frees s1 (free_area F2 \<union> span a1 sz2) (memory_free_from b a sz s)"
      using frees_trans[OF rear(2)] by simp
    then have "frees s (free_area F2 \<union> span a1 sz2) (memory_free_from b a sz s)"
      using frees_trans[OF front(2)] rear(7) by auto
    then show ?thesis using front(8) rear(7) by simp
  qed
qed

lemma memory_free_nocheck_ok:
  assumes "free_inv s F" "4 dvd unat a" "4 dvd unat sz" "in_bounds a sz" "span a sz \<inter> free_area F = {}"
  shows "frees s (free_area F \<union> span a sz) (memory_free_nocheck a sz s)"
  using memory_free_from_ok[of s F 2 a sz] assms by (simp add: memory_free_nocheck_def)

section \<open>Alignment to words\<close>

lemma AND_3: "unat (a AND 3) = unat a mod 4" for a :: u32
proof -
  have "a AND 3 = take_bit 2 a" by (simp add: take_bit_eq_mask mask_eq_exp_minus_1)
  then show ?thesis by (simp add: take_bit_eq_mod unat_mod_distrib)
qed

lemma AND_NOT_3: "unat (a AND NOT 3) = unat a - unat a mod 4" for a :: u32
proof -
  have m: "(3 :: u32) = mask 2" by (simp add: mask_eq_exp_minus_1)
  have "a AND NOT 3 = push_bit 2 (drop_bit 2 a)"
    unfolding m by (rule bit_eqI) (auto simp: bit_simps not_less dest!: le_Suc_ex)
  then have "a AND NOT 3 = a - take_bit 2 a"
    using bits_ident[of 2 a] by (metis add_diff_cancel_right')
  moreover have "unat (take_bit 2 a) = unat a mod 4" by (simp add: take_bit_eq_mod unat_mod_distrib)
  moreover from this have "take_bit 2 a \<le> a" by (simp add: word_le_nat_alt)
  ultimately show ?thesis by (simp add: unat_minus_le)
qed

lemma AND_3_zero: "a AND 3 = 0 \<longleftrightarrow> unat a mod 4 = 0" for a :: u32
  using AND_3[of a] by (metis unat_eq_zero)

text \<open>The bytes of a range that make up whole words.\<close>

definition whole_words :: "u32 \<Rightarrow> u32 \<Rightarrow> nat set" where
  "whole_words a sz = {4 * ((unat a + 3) div 4) ..< 4 * ((unat a + unat sz) div 4)}"

lemma memory_free_ok:
  assumes inv: "free_inv s F" and ib: "in_bounds a sz" and dj: "span a sz \<inter> free_area F = {}"
  shows "frees s (free_area F \<union> whole_words a sz) (memory_free a sz s)"
proof -
  let ?a = "unat a" and ?z = "unat sz"
  define a' where "a' = (if a AND 3 \<noteq> 0 then (a AND NOT 3) + 4 else a)"
  define z' where "z' = (if a AND 3 \<noteq> 0 then sz + a - ((a AND NOT 3) + 4) else sz)"
  define z'' where "z'' = (if z' AND 3 \<noteq> 0 then z' AND NOT 3 else z')"
  have def: "memory_free a sz s = (if sz < 4 then Inr s else if a AND 3 \<noteq> 0 \<and> z' < 4 then Inr s
      else memory_free_nocheck a' z'' s)"
    unfolding memory_free_def Let_def z''_def z'_def a'_def ..
  have bd: "?a + ?z \<le> 0xF0000000" "0xC0000000 \<le> ?a" using ib by (auto simp: in_bounds_def)
  have ua: "unat a' = 4 * ((?a + 3) div 4)"
  proof (cases "a AND 3 = 0")
    case True
    then show ?thesis by (simp add: a'_def AND_3_zero) presburger
  next
    case False
    then have "unat a' = ?a - ?a mod 4 + 4"
      using bd by (subst a'_def, simp, subst unat_plus_small) (auto simp: AND_NOT_3[simplified])
    moreover have "?a mod 4 \<noteq> 0" using False by (simp add: AND_3_zero)
    ultimately show ?thesis by presburger
  qed
  have small: "memory_free a sz s = Inr s \<and> whole_words a sz = {}" if "sz < 4"
  proof -
    have "?z < 4" using that by (simp add: word_less_nat_alt)
    then have "4 * ((?a + ?z) div 4) \<le> 4 * ((?a + 3) div 4)" by presburger
    with that show ?thesis by (simp add: def whole_words_def)
  qed
  show ?thesis
  proof (cases "sz < 4")
    case False
    then have z4: "4 \<le> ?z" by (simp add: word_less_nat_alt)
    have up: "?a \<le> unat a'" "unat a' \<le> ?a + 3" unfolding ua by presburger+
    have uz: "unat z' = ?a + ?z - unat a'"
    proof -
      have "unat (sz + a) = ?z + ?a" using bd by (subst unat_plus_small) auto
      moreover have "a' \<le> sz + a" using calculation up z4 by (simp add: word_le_nat_alt)
      ultimately have "unat (sz + a - a') = ?z + ?a - unat a'" by (simp add: unat_minus_le)
      moreover have "z' = (if a AND 3 \<noteq> 0 then sz + a - a' else sz)" by (simp add: z'_def a'_def)
      ultimately show ?thesis by (cases "a AND 3 = 0") (simp_all, simp add: a'_def)
    qed
    have uz2: "unat z'' = unat z' - unat z' mod 4"
      by (simp add: z''_def AND_3_zero AND_NOT_3[simplified])
    have ww: "span a' z'' = whole_words a sz"
    proof -
      have e: "?a + ?z = 4 * ((?a + 3) div 4) + unat z'" using up z4 unfolding ua uz by linarith
      have "unat a' + unat z'' = 4 * ((?a + ?z) div 4)"
        unfolding uz2 ua e by (simp add: minus_mod_eq_mult_div)
      then show ?thesis by (simp add: span_def whole_words_def ua)
    qed
    have free: "frees s (free_area F \<union> span a' z'') (memory_free_nocheck a' z'' s)"
    proof (rule memory_free_nocheck_ok[OF inv])
      show "4 dvd unat a'" unfolding ua by simp
      show "4 dvd unat z''" unfolding uz2 by (simp add: minus_mod_eq_mult_div)
      show "in_bounds a' z''" using bd up uz uz2 z4 by (auto simp: in_bounds_def)
      have "span a' z'' \<subseteq> span a sz" using up uz uz2 z4 by (auto simp: span_def)
      then show "span a' z'' \<inter> free_area F = {}" using dj by blast
    qed
    show ?thesis
    proof (cases "a AND 3 \<noteq> 0 \<and> z' < 4")
      case True
      then have "unat z' < 4" by (simp add: word_less_nat_alt)
      then have "whole_words a sz = {}" using uz2 unfolding ww[symmetric] by (simp add: span_def)
      moreover have "memory_free a sz s = Inr s"
        using True by (simp add: def)
      ultimately show ?thesis using inv by (simp add: frees_refl)
    next
      case c: False
      have "memory_free a sz s = memory_free_nocheck a' z'' s"
        using c False by (auto simp: def)
      then show ?thesis using free ww by simp
    qed
  qed (use small inv frees_refl in auto)
qed

section \<open>What allocating does\<close>

text \<open>
  Because no two buddies are free apart, an aligned block of free bytes always lies inside one
  block of the chains.
\<close>

lemma free_block_covered:
  assumes sh: "shape F" and b: "2 \<le> b" and d: "2 ^ b dvd unat a" and s: "block a b \<subseteq> free_area F"
  shows "\<exists>b' a'. b \<le> b' \<and> a' \<in> set (F b') \<and> block a b \<subseteq> block a' b'"
  using b d s
proof (induction b arbitrary: a rule: nat_induct_at_least)
  case base
  have "unat a \<in> free_area F" using base block_self[of a 2] by blast
  then obtain a' b' where a': "a' \<in> set (F b')" "unat a \<in> block a' b'" unfolding in_free_area by blast
  have g: "good_block a' b'" using shapeD(2)[OF sh a'(1)] .
  have "block a 2 \<subseteq> block a' b'"
    by (rule block_nested) (use base g a' block_self[of a 2] in \<open>auto simp: good_block_def\<close>)
  then show ?case using a' good_block_bit[OF g] by blast
next
  case (Suc n)
  have e: "(2 :: nat) ^ Suc n = 2 ^ n + 2 ^ n" by simp
  have "0 < (2 :: nat) ^ Suc n" by simp
  then have "unat a + (2 ^ Suc n - 1) \<in> block a (Suc n)"
    unfolding block_def atLeastLessThan_iff by linarith
  then have "unat a + (2 ^ Suc n - 1) < 0xF0000000"
    using Suc.prems(2) free_area_bound[OF sh] atLeastLessThan_iff by blast
  then have bd: "unat a + 2 ^ Suc n \<le> 0xF0000000" by linarith
  then have "n < 32" using power_less_imp_less_exp[of "2 :: nat" n 32] by simp
  define c where "c = a + 2 ^ n"
  have c: "unat c = unat a + 2 ^ n"
    unfolding c_def using bd unat_sizep[OF \<open>n < 32\<close>] e by (subst unat_plus_small) auto
  have bud: "buddies a c n" using Suc.prems c by (simp add: buddies_def)
  have da: "2 ^ n dvd unat a" using Suc.prems(1) unfolding dvd_double_iff by blast
  then have dc: "2 ^ n dvd unat c" using c by simp
  have halves: "block a (Suc n) = block a n \<union> block c n"
    unfolding block_def c e by (simp add: ivl_disj_un add.assoc)
  obtain b1 a1 where 1: "n \<le> b1" "a1 \<in> set (F b1)" "block a n \<subseteq> block a1 b1"
    using Suc.IH[OF da] Suc.prems(2) halves by blast
  obtain b2 a2 where 2: "n \<le> b2" "a2 \<in> set (F b2)" "block c n \<subseteq> block a2 b2"
    using Suc.IH[OF dc] Suc.prems(2) halves by blast
  have whole: "block a (Suc n) \<subseteq> block a' b'" if "a' \<in> set (F b')" "Suc n \<le> b'" "x \<in> block a (Suc n)" "x \<in> block a' b'"
    for a' b' x
    by (rule block_nested) (use that shapeD(2)[OF sh] Suc.prems in \<open>auto simp: good_block_def simp del: power_Suc\<close>)
  show ?case
  proof (cases "n < b1 \<or> n < b2")
    case True
    then show ?thesis
      using whole[OF 1(2), of "unat a"] whole[OF 2(2), of "unat c"] 1 2 block_self[of a n] block_self[of c n] halves
      by (metis Suc_leI UnI1 UnI2 subsetD)
  next
    case False
    then have "b1 = n" "b2 = n" using 1 2 by auto
    have same: "a' = x" if "block x n \<subseteq> block a' n" for a' x
    proof -
      have p: "0 < (2 :: nat) ^ n" by simp
      then have "unat x \<in> block x n" "unat x + (2 ^ n - 1) \<in> block x n"
        unfolding block_def atLeastLessThan_iff by linarith+
      then have "unat x \<in> block a' n" "unat x + (2 ^ n - 1) \<in> block a' n" using that by blast+
      then have "unat a' = unat x" using p unfolding block_def atLeastLessThan_iff by linarith
      then show ?thesis by (simp add: word_unat_eq_iff)
    qed
    have "a1 = a" "a2 = c" using same 1(3) 2(3) \<open>b1 = n\<close> \<open>b2 = n\<close> by blast+
    then show ?thesis using bud 1 2 \<open>b1 = n\<close> \<open>b2 = n\<close> shapeD(4)[OF sh] by blast
  qed
qed

lemma head_EMPTY: "chain_at s b xs \<Longrightarrow> memoryBlocks s ! (b - 2) = EMPTY \<longleftrightarrow> xs = []"
  by (cases xs) (auto simp: chain_at_def)

lemma chain_head: "chain_at s b (x # xs) \<Longrightarrow> memoryBlocks s ! (b - 2) = x"
  by (simp add: chain_at_def)

lemma alloc_search_ok:
  assumes "links s F" "2 \<le> b" "b < 30"
  shows "(\<exists>b'. b < b' \<and> b' < 30 \<and> F b' \<noteq> [] \<and> (\<forall>i. b < i \<and> i < b' \<longrightarrow> F i = []) \<and>
            alloc_search (b - 2) s = Inr (b' - 2)) \<or>
         ((\<forall>i. b < i \<and> i < 30 \<longrightarrow> F i = []) \<and> alloc_search (b - 2) s = Inl Halt)"
  using assms
proof (induction "30 - b" arbitrary: b rule: less_induct)
  case less
  show ?case
  proof (cases "b = 29")
    case True
    then have "alloc_search (b - 2) s = Inl Halt" by (subst alloc_search.simps) simp
    with True show ?thesis by auto
  next
    case False
    then have b: "Suc b < 30" "b - 2 < 27" "b - 2 + 1 = Suc b - 2" using less.prems by auto
    have h: "memoryBlocks s ! (Suc b - 2) = EMPTY \<longleftrightarrow> F (Suc b) = []"
      by (rule head_EMPTY) (use less.prems b in \<open>auto simp: links_def\<close>)
    have u: "alloc_search (b - 2) s = (if F (Suc b) = [] then alloc_search (Suc b - 2) s else Inr (Suc b - 2))"
      using b(2) h by (subst alloc_search.simps) (simp only: b(3), simp)
    have m: "i = Suc b \<or> Suc b < i" if "b < i" for i using that by linarith
    show ?thesis
    proof (cases "F (Suc b) = []")
      case True
      have "30 - Suc b < 30 - b" "2 \<le> Suc b" using b less.prems by auto
      from less.hyps[OF this(1) less.prems(1) this(2) b(1)] show ?thesis
        unfolding u using True m by (metis Suc_lessD)
    next
      case False
      then show ?thesis using b(1) u by (intro disjI1 exI[of _ "Suc b"]) auto
    qed
  qed
qed

text \<open>
  \<open>allocates s A b r\<close>: the result \<open>r\<close> is the address of a good block of \<open>2 ^ b\<close> bytes of \<open>A\<close> and
  a state whose free bytes are the rest of \<open>A\<close>; memory outside the rest is untouched.
\<close>

definition allocates :: "kmem \<Rightarrow> nat set \<Rightarrow> nat \<Rightarrow> kerror + (u32 \<times> kmem) \<Rightarrow> bool" where
  "allocates s A b r \<longleftrightarrow> (\<exists>a s' F'. r = Inr (a, s') \<and> good_block a b \<and> block a b \<subseteq> A \<and>
     free_inv s' F' \<and> free_area F' = A - block a b \<and>
     (\<forall>x. unat x \<notin> A - block a b \<longrightarrow> mem s' x = mem s x))"

text \<open>Taking the first block of a chain.\<close>

lemma detach_ok:
  assumes inv: "free_inv s F" and b: "2 \<le> b" "b < 30" and F: "F b = c # ws"
  defines "s' \<equiv> s\<lparr>memoryBlocks := (memoryBlocks s)[b - 2 := mem s c],
                  freeMemoryCounter := freeMemoryCounter s - 2 ^ b, memoryLock := 0\<rparr>"
  shows "free_inv s' (F(b := ws))" "free_area (F(b := ws)) = free_area F - block c b"
    "good_block c b" "block c b \<subseteq> free_area F"
proof -
  have li: "links s F" and sh: "shape F" and cnt: "unat (freeMemoryCounter s) = card (free_area F)"
    using inv by (auto simp: free_inv_iff)
  have F': "F b = [] @ c # ws" and cF: "c \<in> set (F b)" using F by auto
  show area: "free_area (F(b := ws)) = free_area F - block c b"
    using shape_remove(2)[OF sh F'] by simp
  show "free_inv s' (F(b := ws))"
    unfolding free_inv_iff using links_remove[OF li sh b F'] shape_remove(1)[OF sh F']
      counter_remove[OF cnt sh cF] area by (simp add: s'_def)
  show "good_block c b" using shapeD(2)[OF sh cF] .
  show "block c b \<subseteq> free_area F" using free_areaI[of c F b] cF by blast
qed

lemma good_block_front: "good_block c B \<Longrightarrow> 2 \<le> b \<Longrightarrow> b \<le> B \<Longrightarrow> good_block c b"
proof -
  assume g: "good_block c B" and b: "2 \<le> b" "b \<le> B"
  have "(2 :: nat) ^ b dvd 2 ^ B" "(2 :: nat) ^ b \<le> 2 ^ B"
    using b by (simp_all add: le_imp_power_dvd)
  then show ?thesis using g b unfolding good_block_def by (meson dvd_trans add_left_mono order_trans)
qed

text \<open>Splitting a larger block: the front is handed out, the rest is freed.\<close>

lemma split_ok:
  assumes inv: "free_inv s F" and g: "good_block c B" and b: "2 \<le> b" "b < B"
    and dj: "block c B \<inter> free_area F = {}"
  shows "frees s (free_area F \<union> (block c B - block c b))
           (memory_free_nocheck (c + 2 ^ b) (2 ^ B - 2 ^ b) s)"
proof -
  have B: "B < 30" using good_block_bit[OF g] by simp
  have lt: "(2 :: nat) ^ b < 2 ^ B" using b by simp
  have ub: "unat (2 ^ b :: u32) = 2 ^ b" "unat (2 ^ B :: u32) = 2 ^ B" using b B by (simp_all add: unat_sizep)
  have uz: "unat (2 ^ B - 2 ^ b :: u32) = 2 ^ B - 2 ^ b"
    using lt ub by (subst unat_minus_le) (auto simp: word_le_nat_alt)
  have uc: "unat (c + 2 ^ b) = unat c + 2 ^ b"
    by (rule unat_plus_sizep[OF good_block_front[OF g b(1)]]) (use b in simp)
  have sp: "span (c + 2 ^ b) (2 ^ B - 2 ^ b) = block c B - block c b"
    using lt unfolding span_def block_def uc uz by auto
  have four: "(4 :: nat) dvd 2 ^ b" "(4 :: nat) dvd 2 ^ B"
    using le_imp_power_dvd[of 2 b "2 :: nat"] le_imp_power_dvd[of 2 B "2 :: nat"] b by simp_all
  moreover have "4 dvd unat c" using g dvd_trans[OF four(2)] by (simp add: good_block_def)
  ultimately have "4 dvd unat (c + 2 ^ b)" "4 dvd unat (2 ^ B - 2 ^ b :: u32)"
    unfolding uc uz by (simp_all add: dvd_diff_nat)
  moreover have "in_bounds (c + 2 ^ b) (2 ^ B - 2 ^ b)"
    using g lt unfolding in_bounds_def uc uz good_block_def by linarith
  ultimately have "frees s (free_area F \<union> span (c + 2 ^ b) (2 ^ B - 2 ^ b))
      (memory_free_nocheck (c + 2 ^ b) (2 ^ B - 2 ^ b) s)"
    by (rule memory_free_nocheck_ok[OF inv]) (use dj sp in blast)
  then show ?thesis by (simp add: sp)
qed

lemma memory_alloc_ok:
  assumes inv: "free_inv s F" and b: "2 \<le> b" "b < 30"
  shows "(\<exists>b' \<ge> b. F b' \<noteq> []) \<Longrightarrow> allocates s (free_area F) b (memory_alloc b s)"
    and "\<not> (\<exists>b' \<ge> b. F b' \<noteq> []) \<Longrightarrow> memory_alloc b s = Inl Halt"
proof -
  let ?s = "s\<lparr>memoryLock := 1\<rparr>"
  have li: "links s F" and sh: "shape F" and lock: "memoryLock s = 0" using inv by (auto simp: free_inv_iff)
  have head: "memoryBlocks s ! (b' - 2) = EMPTY \<longleftrightarrow> F b' = []" if "2 \<le> b'" "b' < 30" for b'
    using head_EMPTY that li by (auto simp: links_def)
  have hd: "memoryBlocks s ! (b' - 2) = c" if "2 \<le> b'" "b' < 30" "F b' = c # ws" for b' c ws
    using that li chain_head by (metis links_def)
  have high: "F b' = []" if "30 \<le> b'" for b'
  proof (rule ccontr)
    assume "F b' \<noteq> []"
    then have "hd (F b') \<in> set (F b')" by simp
    then have "b' < 30" using shapeD(2)[OF sh] good_block_bit(2) by blast
    then show False using that by simp
  qed
  have alloc0: "memory_alloc b s = and_then (alloc_search (b - 2) ?s) (\<lambda>bit2.
      let c = memoryBlocks s ! bit2 in
      and_then (memory_free_nocheck (c + 2 ^ b) (2 ^ (bit2 + 2) - 2 ^ b)
        (s\<lparr>memoryBlocks := (memoryBlocks s)[bit2 := mem s c],
           freeMemoryCounter := freeMemoryCounter s - 2 ^ (bit2 + 2), memoryLock := 0\<rparr>))
        (\<lambda>s. Inr (c, s)))" if "F b = []"
    using that b lock head[OF b] by (simp add: memory_alloc_def Let_def)
  have li': "links ?s F" using li by simp
  {
    assume ex: "\<exists>b' \<ge> b. F b' \<noteq> []"
    show "allocates s (free_area F) b (memory_alloc b s)"
    proof (cases "F b")
      case (Cons c ws)
      have "memory_alloc b s = Inr (c, s\<lparr>memoryBlocks := (memoryBlocks s)[b - 2 := mem s c],
          freeMemoryCounter := freeMemoryCounter s - 2 ^ b, memoryLock := 0\<rparr>)"
        using b lock head[OF b] hd[OF b Cons] Cons by (simp add: memory_alloc_def Let_def)
      then show ?thesis unfolding allocates_def using detach_ok[OF inv b Cons] by fastforce
    next
      case Nil
      then obtain B where B: "b < B" "B < 30" "F B \<noteq> []" "alloc_search (b - 2) ?s = Inr (B - 2)"
        using alloc_search_ok[OF li' b] ex high by (metis le_less_linear le_neq_implies_less)
      then obtain c ws where F: "F B = c # ws" by (cases "F B") auto
      let ?s1 = "s\<lparr>memoryBlocks := (memoryBlocks s)[B - 2 := mem s c],
          freeMemoryCounter := freeMemoryCounter s - 2 ^ B, memoryLock := 0\<rparr>"
      have B2: "2 \<le> B" "B - 2 + 2 = B" using b B by auto
      note det = detach_ok[OF inv B2(1) B(2) F]
      have al: "memory_alloc b s =
          and_then (memory_free_nocheck (c + 2 ^ b) (2 ^ B - 2 ^ b) ?s1) (\<lambda>s. Inr (c, s))"
        unfolding alloc0[OF Nil] B(4) and_then_simps Let_def hd[OF B2(1) B(2) F] B2(2) ..
      have sub: "block c b \<subseteq> block c B" using B(1) by (auto simp: block_def intro: less_le_trans)
      have dj: "block c B \<inter> free_area (F(B := ws)) = {}" using det(2) by blast
      have area: "free_area (F(B := ws)) \<union> (block c B - block c b) = free_area F - block c b"
        using det(2,4) sub by blast
      have "frees ?s1 (free_area F - block c b) (memory_free_nocheck (c + 2 ^ b) (2 ^ B - 2 ^ b) ?s1)"
        using split_ok[OF det(1,3) b(1) B(1) dj] area by simp
      then show ?thesis
        unfolding al allocates_def frees_def
        using good_block_front[OF det(3) b(1)] B(1) sub det(4) by fastforce
    qed
  }
  {
    assume no: "\<not> (\<exists>b' \<ge> b. F b' \<noteq> [])"
    then have "F b = []" "alloc_search (b - 2) ?s = Inl Halt"
      using alloc_search_ok[OF li' b] by auto
    then show "memory_alloc b s = Inl Halt" using alloc0 by simp
  }
qed

section \<open>Sizes and headers\<close>

lemma malloc_bit_bounds:
  "b \<le> malloc_bit b x \<and> unat x < 2 ^ (malloc_bit b x - b) \<and>
   (x \<noteq> 0 \<longrightarrow> 2 ^ (malloc_bit b x - Suc b) \<le> unat x \<and> b < malloc_bit b x)"
proof (induction b x rule: malloc_bit.induct)
  case (1 b x)
  show ?case
  proof (cases "x = 0")
    case True
    then show ?thesis by (simp add: malloc_bit.simps)
  next
    case False
    let ?y = "drop_bit 1 x" and ?m = "malloc_bit (Suc b) (drop_bit 1 x)"
    have m: "malloc_bit b x = ?m" using False by (subst malloc_bit.simps) simp
    have y: "unat ?y = unat x div 2" by (simp add: drop_bit_eq_div unat_div_distrib)
    have IH: "Suc b \<le> ?m" "unat x div 2 < 2 ^ (?m - Suc b)"
        "?y \<noteq> 0 \<longrightarrow> 2 ^ (?m - Suc (Suc b)) \<le> unat x div 2 \<and> Suc b < ?m"
      using 1[OF False] y by simp_all
    have e: "?m - b = Suc (?m - Suc b)" using IH(1) by simp
    have "unat x < 2 ^ (?m - b)" unfolding e power_Suc using IH(2) by linarith
    moreover have "2 ^ (?m - Suc b) \<le> unat x"
    proof (cases "?y = 0")
      case True
      then have "?m = Suc b" by (subst malloc_bit.simps) simp
      with False show ?thesis by (simp add: unat_gt_0 Suc_le_eq)
    next
      case False
      then have "?m - Suc b = Suc (?m - Suc (Suc b))" "2 ^ (?m - Suc (Suc b)) \<le> unat x div 2" using IH(3) by auto
      then show ?thesis by (metis power_Suc mult_le_mono2 times_div_less_eq_dividend order_trans)
    qed
    ultimately show ?thesis using m IH(1) by simp
  qed
qed

text \<open>The block \<^verbatim>\<open>malloc\<close> asks for is the smallest that holds the payload and the header.\<close>

lemma malloc_round:
  fixes n :: u32
  assumes "unat n + 8 \<le> 2 ^ 32"
  shows "unat (((n - 1 + 4) AND NOT 3) + 4) = 4 * ((unat n + 3) div 4) + 4"
proof -
  have e: "n - 1 + 4 = n + 3" by simp
  have u: "unat (n + 3) = unat n + 3" using assms by (subst unat_plus_small) auto
  have a: "unat ((n - 1 + 4) AND NOT 3) = 4 * ((unat n + 3) div 4)"
    unfolding AND_NOT_3 e u by (rule minus_mod_eq_mult_div)
  then show ?thesis using assms by (subst unat_plus_small) auto
qed

lemma pow_split: "k \<le> b \<Longrightarrow> (2 :: nat) ^ b = 2 ^ k * 2 ^ (b - k)"
  by (simp flip: power_add)

lemma unat_drop_bit_2: "unat (drop_bit 2 x) = unat x div 4" for x :: u32
  by (simp add: drop_bit_eq_div unat_div_distrib)

lemma malloc_class:
  fixes n :: u32
  assumes n: "unat n + 8 \<le> 2 ^ 32"
  defines "b \<equiv> malloc_bit 2 (drop_bit 2 (((n - 1 + 4) AND NOT 3) + 4 - 1))"
  shows "2 \<le> b" "unat n + 4 \<le> 2 ^ b" "2 < b \<Longrightarrow> 2 ^ (b - 1) < unat n + 4"
proof -
  let ?z = "((n - 1 + 4) AND NOT 3) + 4" and ?q = "(unat n + 3) div 4"
  let ?x = "drop_bit 2 (?z - 1)"
  have z: "unat ?z = 4 * ?q + 4" by (rule malloc_round[OF n])
  then have "unat ?z \<noteq> 0" by linarith
  then have nz: "?z \<noteq> 0" by (rule contrapos_nn) (simp only: unat_0)
  have "unat (?z - 1) = 4 * ?q + 3" unfolding unat_minus_one[OF nz] z by linarith
  then have x': "unat ?x = ?q" unfolding unat_drop_bit_2 by linarith
  define x where "x = ?x"
  have x: "unat x = ?q" and bx: "b = malloc_bit 2 x" using x' unfolding x_def b_def by simp_all
  have s3: "Suc 2 = 3" by simp
  have bd: "2 \<le> b" "?q < 2 ^ (b - 2)" "x \<noteq> 0 \<longrightarrow> 2 ^ (b - 3) \<le> ?q \<and> 2 < b"
    using malloc_bit_bounds[of 2 x] unfolding x bx s3 by blast+
  then show "2 \<le> b" by simp
  have e: "(2 :: nat) ^ b = 4 * 2 ^ (b - 2)" using pow_split[OF bd(1)] by simp
  show "unat n + 4 \<le> 2 ^ b" unfolding e using bd(2) by linarith
  assume b2: "2 < b"
  have "x \<noteq> 0"
  proof
    assume "x = 0"
    then have "b = 2" unfolding bx by (simp add: malloc_bit.simps)
    with b2 show False by simp
  qed
  then have q: "2 ^ (b - 3) \<le> ?q" using bd(3) by simp
  have "(2 :: nat) ^ (b - 1) = 4 * 2 ^ (b - 3)"
    using b2 pow_split[of 2 "b - 1"] by (simp add: diff_diff_eq numeral_eq_Suc)
  then show "2 ^ (b - 1) < unat n + 4" using q by linarith
qed

lemma class_unique:
  assumes "2 \<le> b" "m \<le> 2 ^ b" "2 < b \<Longrightarrow> 2 ^ (b - 1) < m"
    "2 \<le> c" "m \<le> 2 ^ c" "2 < c \<Longrightarrow> 2 ^ (c - 1) < (m :: nat)"
  shows "b = c"
proof -
  have "\<not> x < y" if "m \<le> 2 ^ x" "2 \<le> x" "2 < y \<Longrightarrow> 2 ^ (y - 1) < m" for x y :: nat
  proof
    assume "x < y"
    then have "(2 :: nat) ^ x \<le> 2 ^ (y - 1)" by (intro power_increasing) auto
    moreover have "2 ^ (y - 1) < m" using that \<open>x < y\<close> by simp
    ultimately show False using that(1) by linarith
  qed
  from this[OF assms(2,1,6)] this[OF assms(5,4,3)] show ?thesis by simp
qed

lemma malloc_eq:
  assumes "2 \<le> b" "b < 30" "unat n + 4 \<le> 2 ^ b" "2 < b \<Longrightarrow> 2 ^ (b - 1) < unat n + 4"
  shows "malloc n s = and_then (memory_alloc b s) (\<lambda>(g, s). Inr (g + 4, s\<lparr>mem := (mem s)(g := 2 ^ b)\<rparr>))"
proof -
  have "(2 :: nat) ^ b \<le> 2 ^ 29" using assms(2) by (intro power_increasing) auto
  then have n: "unat n + 8 \<le> 2 ^ 32" using assms(3) by simp
  have "malloc_bit 2 (drop_bit 2 (((n - 1 + 4) AND NOT 3) + 4 - 1)) = b"
    by (rule class_unique[OF malloc_class[OF n] assms(1,3,4)])
  then show ?thesis using assms(2) unfolding malloc_def Let_def by (simp add: push_bit_eq_mult)
qed

lemma malloc_ok:
  assumes inv: "free_inv s F" and b: "2 \<le> b" "b < 30" "unat n + 4 \<le> 2 ^ b" "2 < b \<Longrightarrow> 2 ^ (b - 1) < unat n + 4"
    and r: "malloc n s = Inr (p, s')"
  shows "\<exists>F'. good_block (p - 4) b \<and> block (p - 4) b \<subseteq> free_area F \<and> free_inv s' F' \<and>
    free_area F' = free_area F - block (p - 4) b \<and> mem s' (p - 4) = 2 ^ b \<and>
    (\<forall>x. x \<noteq> p - 4 \<longrightarrow> unat x \<notin> free_area F' \<longrightarrow> mem s' x = mem s x)"
proof -
  obtain g s1 where g: "memory_alloc b s = Inr (g, s1)" "p = g + 4" "s' = s1\<lparr>mem := (mem s1)(g := 2 ^ b)\<rparr>"
    using r malloc_eq[OF b, of s] by (auto simp: and_then_eq_Inr)
  then have "allocates s (free_area F) b (Inr (g, s1))"
    using memory_alloc_ok[OF inv b(1,2)] by (metis Inl_Inr_False)
  then obtain F' where F': "good_block g b" "block g b \<subseteq> free_area F" "free_inv s1 F'"
      "free_area F' = free_area F - block g b"
      "\<forall>x. unat x \<notin> free_area F - block g b \<longrightarrow> mem s1 x = mem s x"
    unfolding allocates_def by auto
  have "g \<notin> set (F' i)" for i
    using F'(4) block_self[of g b] block_self[of g i] free_areaI[of g F' i "unat g"] by blast
  then have "free_inv s' F'" using F'(3) links_write[of s1 F' g] unfolding g free_inv_iff by auto
  then show ?thesis using F' g by (intro exI[of _ F']) auto
qed

lemma free_ok:
  assumes "free_inv s F" "good_block (p - 4) b" "block (p - 4) b \<inter> free_area F = {}" "mem s (p - 4) = 2 ^ b"
  shows "frees s (free_area F \<union> block (p - 4) b) (free p s)"
proof -
  have b: "2 \<le> b" "b < 30" using good_block_bit[OF assms(2)] .
  have u: "unat (2 ^ b :: u32) = 2 ^ b" using b by (simp add: unat_sizep)
  have four: "(4 :: nat) dvd 2 ^ b" using le_imp_power_dvd[of 2 b "2 :: nat"] b by simp
  have "span (p - 4) (2 ^ b) = block (p - 4) b" by (simp add: span_def block_def u)
  then show ?thesis
    using memory_free_nocheck_ok[OF assms(1), of "p - 4" "2 ^ b"] assms(2-4) four u
    unfolding free_def good_block_def in_bounds_def by (auto intro: dvd_trans)
qed

lemma freesD:
  "frees s A r \<Longrightarrow> \<exists>s' F'. r = Inr s' \<and> free_inv s' F' \<and> free_area F' = A \<and>
     (\<forall>x. unat x \<notin> free_area F' \<longrightarrow> mem s' x = mem s x)"
  unfolding frees_def by blast

lemma allocatesD:
  "allocates s A b r \<Longrightarrow> \<exists>a s' F'. r = Inr (a, s') \<and> 2 ^ b dvd unat a \<and> block a b \<subseteq> A \<and>
     free_inv s' F' \<and> free_area F' = A - block a b \<and>
     (\<forall>x. unat x \<notin> free_area F' \<longrightarrow> mem s' x = mem s x)"
  unfolding allocates_def good_block_def by metis

section \<open>Properties\<close>

text \<open>The allocator as \<^verbatim>\<open>kernel/include/global.h\<close> initialises it.\<close>

definition boot_memory :: "(u32 \<Rightarrow> u32) \<Rightarrow> kmem" where
  "boot_memory m = \<lparr>memoryBlocks = replicate 28 EMPTY, mem = m, freeMemoryCounter = 0, memoryLock = 0\<rparr>"

lemma boot_inv: "free_inv (boot_memory m) (\<lambda>_. [])" "free_area (\<lambda>_. []) = {}"
  by (auto simp: free_inv_def boot_memory_def shape_def chain_at_def free_area_def)

text \<open>
  C15. \<^verbatim>\<open>memory_block_free\<close> of an aligned block that is not free returns, adds exactly its
  bytes to the free bytes, keeps the chains sorted, disjoint and fully merged with the counter
  equal to the number of free bytes, releases the lock, never leaves the array of chain heads,
  and writes no word outside the free bytes.
\<close>

theorem memory_block_free_adds_block:
  assumes "free_inv s F" and "good_block a b" and "block a b \<inter> free_area F = {}"
  shows "\<exists>s' F'. memory_block_free a b s = Inr s' \<and> free_inv s' F' \<and>
           free_area F' = free_area F \<union> block a b \<and>
           (\<forall>x. unat x \<notin> free_area F' \<longrightarrow> mem s' x = mem s x)"
  by (rule freesD[OF memory_block_free_ok[OF assms]])

theorem memory_block_free_adds_block_witness:
  "\<exists>s' F'. memory_block_free 0xC0100000 12 (boot_memory (\<lambda>_. 0)) = Inr s' \<and> free_inv s' F' \<and>
     free_area F' = {0xC0100000 ..< 0xC0101000}"
proof -
  have "good_block 0xC0100000 12" by (simp add: good_block_def)
  then show ?thesis
    using memory_block_free_adds_block[OF boot_inv(1), of "0xC0100000" 12 "\<lambda>_. 0"] boot_inv(2)
    by (auto simp: block_def)
qed

text \<open>
  \<^verbatim>\<open>memory_free_nocheck\<close> splits any word-aligned range inside the direct mapping into
  aligned blocks that cover it exactly: after it the free bytes are the old ones and the range.
\<close>

theorem memory_free_nocheck_adds_range:
  assumes "free_inv s F" and "4 dvd unat a" and "4 dvd unat sz" and "0xC0000000 \<le> unat a"
    and "unat a + unat sz \<le> 0xF0000000" and "{unat a ..< unat a + unat sz} \<inter> free_area F = {}"
  shows "\<exists>s' F'. memory_free_nocheck a sz s = Inr s' \<and> free_inv s' F' \<and>
           free_area F' = free_area F \<union> {unat a ..< unat a + unat sz} \<and>
           (\<forall>x. unat x \<notin> free_area F' \<longrightarrow> mem s' x = mem s x)"
  using freesD[OF memory_free_nocheck_ok[of s F a sz]] assms unfolding in_bounds_def span_def by blast

theorem memory_free_nocheck_adds_range_witness:
  "\<exists>s' F'. memory_free_nocheck 0xC0100004 0x1ABC0 (boot_memory (\<lambda>_. 0)) = Inr s' \<and> free_inv s' F' \<and>
     free_area F' = {0xC0100004 ..< 0xC011ABC4}"
  using memory_free_nocheck_adds_range[OF boot_inv(1), of "0xC0100004" "0x1ABC0" "\<lambda>_. 0"] boot_inv(2)
  by auto

text \<open>
  \<^verbatim>\<open>memory_free\<close> of any range, aligned or not, frees exactly the whole words inside it and
  nothing else; a range that holds no whole word leaves the allocator as it is.
\<close>

theorem memory_free_adds_whole_words:
  assumes "free_inv s F" and "0xC0000000 \<le> unat a" and "unat a + unat sz \<le> 0xF0000000"
    and "{unat a ..< unat a + unat sz} \<inter> free_area F = {}"
  shows "\<exists>s' F'. memory_free a sz s = Inr s' \<and> free_inv s' F' \<and>
           free_area F' = free_area F \<union> {4 * ((unat a + 3) div 4) ..< 4 * ((unat a + unat sz) div 4)}"
  using freesD[OF memory_free_ok[of s F a sz]] assms
  unfolding in_bounds_def span_def whole_words_def by blast

theorem memory_free_adds_whole_words_witness:
  "\<exists>s' F'. memory_free 0xC0100001 11 (boot_memory (\<lambda>_. 0)) = Inr s' \<and> free_inv s' F' \<and>
     free_area F' = {0xC0100004 ..< 0xC010000C}"
  using memory_free_adds_whole_words[OF boot_inv(1), of "0xC0100001" 11 "\<lambda>_. 0"] boot_inv(2)
  by auto

text \<open>
  C16. \<^verbatim>\<open>memory_alloc\<close> is complete: it returns an aligned block of \<open>2 ^ b\<close> free bytes, taking
  exactly these bytes out of the free bytes and keeping the invariant, whenever the free bytes
  hold such a block at all, and halts the kernel otherwise.
\<close>

theorem memory_alloc_complete:
  assumes inv: "free_inv s F" and b: "2 \<le> b" "b < 30"
  shows "if \<exists>a. 2 ^ b dvd unat a \<and> block a b \<subseteq> free_area F
         then \<exists>a s' F'. memory_alloc b s = Inr (a, s') \<and> 2 ^ b dvd unat a \<and> block a b \<subseteq> free_area F \<and>
                free_inv s' F' \<and> free_area F' = free_area F - block a b \<and>
                (\<forall>x. unat x \<notin> free_area F' \<longrightarrow> mem s' x = mem s x)
         else memory_alloc b s = Inl Halt"
proof (cases "\<exists>b' \<ge> b. F b' \<noteq> []")
  case True
  from allocatesD[OF memory_alloc_ok(1)[OF inv b this]] show ?thesis by auto
next
  case False
  have "shape F" using inv by (simp add: free_inv_def)
  then have "\<not> (\<exists>a. 2 ^ b dvd unat a \<and> block a b \<subseteq> free_area F)"
    using free_block_covered[OF _ b(1)] False by (metis empty_iff list.set(1))
  with memory_alloc_ok(2)[OF inv b False] show ?thesis by simp
qed

theorem memory_alloc_complete_witness:
  "memory_alloc 12 (boot_memory (\<lambda>_. 0)) = Inl Halt"
  using memory_alloc_complete[OF boot_inv(1), of 12 "\<lambda>_. 0"] boot_inv(2) by (simp add: block_def)

text \<open>
  \<^verbatim>\<open>malloc\<close> of \<open>n\<close> bytes takes the smallest aligned power-of-two block that holds \<open>n\<close> bytes
  and a 4-byte header, stores the block's size in the header and returns the address after it,
  so that the \<open>n\<close> bytes from there lie in the block; it halts exactly when no such block is free.
\<close>

theorem malloc_returns_block:
  assumes inv: "free_inv s F" and b: "2 \<le> b" "b < 30" "unat n + 4 \<le> 2 ^ b" "2 < b \<longrightarrow> 2 ^ (b - 1) < unat n + 4"
  shows "if \<exists>a. 2 ^ b dvd unat a \<and> block a b \<subseteq> free_area F
         then \<exists>p s' F'. malloc n s = Inr (p, s') \<and> 2 ^ b dvd unat (p - 4) \<and>
                {unat p ..< unat p + unat n} \<subseteq> block (p - 4) b \<and> block (p - 4) b \<subseteq> free_area F \<and>
                mem s' (p - 4) = 2 ^ b \<and> free_inv s' F' \<and> free_area F' = free_area F - block (p - 4) b
         else malloc n s = Inl Halt"
proof (cases "\<exists>b' \<ge> b. F b' \<noteq> []")
  case True
  have c: "2 < b \<Longrightarrow> 2 ^ (b - 1) < unat n + 4" using b(4) by simp
  have "allocates s (free_area F) b (memory_alloc b s)" by (rule memory_alloc_ok(1)[OF inv b(1,2) True])
  then obtain p s' where r: "malloc n s = Inr (p, s')"
    using malloc_eq[OF b(1-3) c, of s] unfolding allocates_def by auto
  obtain F' where F': "good_block (p - 4) b" "block (p - 4) b \<subseteq> free_area F" "free_inv s' F'"
      "free_area F' = free_area F - block (p - 4) b" "mem s' (p - 4) = 2 ^ b"
    using malloc_ok[OF inv b(1-3) c r] by blast
  have "unat p = unat (p - 4) + 4"
    using unat_plus_small[of "p - 4" 4] F'(1) by (simp add: good_block_def)
  then have "{unat p ..< unat p + unat n} \<subseteq> block (p - 4) b" using b(3) by (auto simp: block_def)
  then show ?thesis using r F' by (auto simp: good_block_def)
next
  case False
  have "shape F" using inv by (simp add: free_inv_def)
  then have "\<not> (\<exists>a. 2 ^ b dvd unat a \<and> block a b \<subseteq> free_area F)"
    using free_block_covered[OF _ b(1)] False by (metis empty_iff list.set(1))
  with memory_alloc_ok(2)[OF inv b(1,2) False] malloc_eq[OF b(1-3)] b(4) show ?thesis by simp
qed

theorem malloc_returns_block_witness:
  "malloc 100 (boot_memory (\<lambda>_. 0)) = Inl Halt"
  using malloc_returns_block[OF boot_inv(1), of 7 100 "\<lambda>_. 0"] boot_inv(2) by (simp add: block_def)

text \<open>
  C17. \<^verbatim>\<open>free\<close> undoes \<^verbatim>\<open>malloc\<close>: freed at once, or in any later state whose allocator is sound,
  still holds the block's header and does not hold the block as free, the block's bytes are
  free again, and no other byte changes sides.
\<close>

theorem malloc_free_roundtrip:
  assumes inv: "free_inv s F" and n: "unat n + 4 \<le> 2 ^ 29" and r: "malloc n s = Inr (p, s1)"
  shows "(\<exists>s2 F2. free p s1 = Inr s2 \<and> free_inv s2 F2 \<and> free_area F2 = free_area F) \<and>
         (\<exists>b. \<forall>t G. free_inv t G \<and> mem t (p - 4) = mem s1 (p - 4) \<and> block (p - 4) b \<inter> free_area G = {} \<longrightarrow>
            (\<exists>t' G'. free p t = Inr t' \<and> free_inv t' G' \<and> free_area G' = free_area G \<union> block (p - 4) b))"
proof -
  define b where "b = malloc_bit 2 (drop_bit 2 (((n - 1 + 4) AND NOT 3) + 4 - 1))"
  have n8: "unat n + 8 \<le> 2 ^ 32" using n by simp
  note c = malloc_class[OF n8, folded b_def]
  have b30: "b < 30"
  proof (rule ccontr)
    assume "\<not> b < 30"
    then have "(2 :: nat) ^ 29 \<le> 2 ^ (b - 1)" by (intro power_increasing) auto
    with c(3) \<open>\<not> b < 30\<close> n show False by simp
  qed
  obtain F1 where F1: "good_block (p - 4) b" "block (p - 4) b \<subseteq> free_area F" "free_inv s1 F1"
      "free_area F1 = free_area F - block (p - 4) b" "mem s1 (p - 4) = 2 ^ b"
    using malloc_ok[OF inv c(1) b30 c(2,3) r] by blast
  have later: "\<exists>t' G'. free p t = Inr t' \<and> free_inv t' G' \<and> free_area G' = free_area G \<union> block (p - 4) b"
    if "free_inv t G" "mem t (p - 4) = mem s1 (p - 4)" "block (p - 4) b \<inter> free_area G = {}" for t G
    using free_ok[OF that(1) F1(1) that(3)] that(2) F1(5) unfolding frees_def by auto
  moreover have "free_area F1 \<union> block (p - 4) b = free_area F" "block (p - 4) b \<inter> free_area F1 = {}"
    using F1(2,4) by auto
  ultimately show ?thesis using F1(3) by metis
qed

text \<open>
  \<^verbatim>\<open>malloc\<close> of more than \<open>2 ^ 29 - 4\<close> bytes halts, except for the three largest sizes: there
  \<^verbatim>\<open>size - 1 + 4\<close> wraps to less than 4 and the caller gets the 4-byte block of \<^verbatim>\<open>malloc(0)\<close>, whose
  four bytes the header takes.
\<close>

theorem malloc_oversized:
  assumes "2 ^ 29 - 4 < unat n"
  shows "malloc n s = (if 0xFFFFFFFD \<le> n then malloc 0 s else Inl Halt)"
proof (cases "unat n + 8 \<le> 2 ^ 32")
  case True
  then have "malloc n s = Inl Halt"
  proof -
    note c = malloc_class[OF True]
    let ?b = "malloc_bit 2 (drop_bit 2 (((n - 1 + 4) AND NOT 3) + 4 - 1))"
    have "29 < ?b"
    proof (rule ccontr)
      assume "\<not> 29 < ?b"
      then have "(2 :: nat) ^ ?b \<le> 2 ^ 29" by (intro power_increasing) auto
      with c(2) assms show False by simp
    qed
    then show ?thesis unfolding malloc_def Let_def by (simp only: if_True)
  qed
  moreover have "\<not> 0xFFFFFFFD \<le> n" using True by (simp add: word_le_nat_alt)
  ultimately show ?thesis by simp
next
  case False
  then have r: "unat n \<in> {0xFFFFFFF9 ..< 0x100000000}" using unsigned_less[of n, where ?'a = nat] by auto
  show ?thesis
  proof (cases "0xFFFFFFFD \<le> n")
    case True
    then have "unat n \<in> {0xFFFFFFFD ..< 0x100000000}" using r by (simp add: word_le_nat_alt)
    then consider "unat n = 0xFFFFFFFD" | "unat n = 0xFFFFFFFE" | "unat n = 0xFFFFFFFF" by fastforce
    then have "n = 0xFFFFFFFD \<or> n = 0xFFFFFFFE \<or> n = 0xFFFFFFFF" by cases (simp_all add: word_unat_eq_iff)
    then show ?thesis by (elim disjE) (simp_all add: malloc_def)
  next
    case False
    then have "unat n \<in> {0xFFFFFFF9 ..< 0xFFFFFFFD}" using r by (simp add: word_le_nat_alt)
    then consider "unat n = 0xFFFFFFF9" | "unat n = 0xFFFFFFFA" | "unat n = 0xFFFFFFFB" | "unat n = 0xFFFFFFFC" by fastforce
    then have n: "n = 0xFFFFFFF9 \<or> n = 0xFFFFFFFA \<or> n = 0xFFFFFFFB \<or> n = 0xFFFFFFFC"
      by cases (simp_all add: word_unat_eq_iff)
    have "29 < malloc_bit 2 0x3FFFFFFF"
    proof (rule ccontr)
      assume "\<not> 29 < malloc_bit 2 0x3FFFFFFF"
      then have "(2 :: nat) ^ (malloc_bit 2 0x3FFFFFFF - 2) \<le> 2 ^ 27" by (intro power_increasing) auto
      with malloc_bit_bounds[of 2 "0x3FFFFFFF"] show False by simp
    qed
    then show ?thesis using n False by (elim disjE) (simp_all add: malloc_def)
  qed
qed

theorem malloc_oversized_witness:
  "malloc 0xFFFFFFFE (boot_memory (\<lambda>_. 0)) = malloc 0 (boot_memory (\<lambda>_. 0))"
  using malloc_oversized[of "0xFFFFFFFE"] by simp

text \<open>A heap of one page, for the round trip on concrete data.\<close>

lemma page_heap:
  "\<exists>s F. free_inv s F \<and> free_area F = {0xC0100000 ..< 0xC0101000}"
proof -
  have g: "good_block 0xC0100000 12" by (simp add: good_block_def)
  have b: "free_area (\<lambda>_. []) \<union> block 0xC0100000 12 = {0xC0100000 ..< 0xC0101000}"
    by (simp add: block_def boot_inv(2))
  have "block 0xC0100000 12 \<inter> free_area (\<lambda>_. []) = {}" by (simp add: boot_inv(2))
  from freesD[OF memory_block_free_ok[OF boot_inv(1)[of "\<lambda>_. 0"] g this], unfolded b] show ?thesis by blast
qed

theorem malloc_free_roundtrip_witness:
  "\<exists>s F p s1 s2 F2. free_inv s F \<and> free_area F = {0xC0100000 ..< 0xC0101000} \<and> malloc 100 s = Inr (p, s1) \<and>
     free p s1 = Inr s2 \<and> free_inv s2 F2 \<and> free_area F2 = {0xC0100000 ..< 0xC0101000}"
proof -
  obtain s F where s: "free_inv s F" "free_area F = {0xC0100000 ..< 0xC0101000}" using page_heap by blast
  have "2 ^ 7 dvd unat (0xC0100000 :: u32)" "block 0xC0100000 7 \<subseteq> free_area F" by (auto simp: block_def s(2))
  then obtain b' a' where "7 \<le> b'" "a' \<in> set (F b')"
    using free_block_covered[of F 7 "0xC0100000"] s(1) by (auto simp: free_inv_def)
  then have "\<exists>b' \<ge> 7. F b' \<noteq> []" by (metis empty_iff list.set(1))
  then obtain p s1 where r: "malloc 100 s = Inr (p, s1)"
    using memory_alloc_ok(1)[OF s(1), of 7] malloc_eq[of 7 100 s] unfolding allocates_def by auto
  have "unat (100 :: u32) + 4 \<le> 2 ^ 29" by simp
  from malloc_free_roundtrip[OF s(1) this r, THEN conjunct1] obtain s2 F2 where
    "free p s1 = Inr s2" "free_inv s2 F2" "free_area F2 = free_area F" by blast
  with r s show ?thesis by blast
qed

end
