(* ===== verification/Format.thy ===== *)
theory Format
  imports Lib
begin

text \<open>
  Formatted output, \<^verbatim>\<open>kernel/format.c\<close>: \<^verbatim>\<open>itoa\<close>, \<^verbatim>\<open>vsprintf\<close>, \<^verbatim>\<open>sprintf\<close>, \<^verbatim>\<open>printf\<close> and
  \<^verbatim>\<open>atoi\<close>. The text written so far is a list of characters, so that \<^verbatim>\<open>*p++=c\<close> appends; the
  argument area is a function from the index of a 4-byte slot to its value, and strings passed
  by address are read from the byte memory of theory \<open>Lib\<close>.
\<close>

section \<open>itoa\<close>

abbreviation (input) LEFT :: u32 where "LEFT \<equiv> 1"
abbreviation (input) PLUS :: u32 where "PLUS \<equiv> 2"
abbreviation (input) SPACE :: u32 where "SPACE \<equiv> 4"
abbreviation (input) SPECIAL :: u32 where "SPECIAL \<equiv> 8"
abbreviation (input) ZEROPAD :: u32 where "ZEROPAD \<equiv> 16"
abbreviation (input) SIGN :: u32 where "SIGN \<equiv> 32"
abbreviation (input) SMALL :: u32 where "SMALL \<equiv> 64"

definition flag :: "u32 \<Rightarrow> u32 \<Rightarrow> bool" where
  "flag type f \<longleftrightarrow> type AND f \<noteq> 0"

definition digit_chars :: "u32 \<Rightarrow> string" where
  "digit_chars type =
     (if flag type SMALL then ''0123456789abcdefghijklmnopqrstuvwxyz''
      else ''0123456789ABCDEFGHIJKLMNOPQRSTUVWXYZ'')"

text \<open>The \<^verbatim>\<open>do ... while\<close> loop that writes the digits, the lowest first.\<close>

partial_function (option) itoa_digits :: "string \<Rightarrow> u32 \<Rightarrow> u32 \<Rightarrow> string \<Rightarrow> (kerror + string) option" where
  "itoa_digits index radix unum str =
     (if length index \<le> unat (unum mod radix) then Some (Inl Bad_Index)
      else let str = str @ [index ! unat (unum mod radix)];
               unum = unum div radix
           in if unum = 0 then Some (Inr str) else itoa_digits index radix unum str)"

text \<open>\<^verbatim>\<open>while(i<width)str[i++]=c\<close>, where \<^verbatim>\<open>i\<close> is the length of the text.\<close>

function pad_to :: "char \<Rightarrow> int \<Rightarrow> string \<Rightarrow> string" where
  "pad_to c width str = (if int (length str) < width then pad_to c width (str @ [c]) else str)"
  by pat_completeness auto
termination by (relation "measure (\<lambda>(c, width, str). nat (width - int (length str)))") auto

text \<open>The loop that swaps the characters from \<open>k\<close> to the last one end for end.\<close>

function swap_loop :: "nat \<Rightarrow> nat \<Rightarrow> nat \<Rightarrow> string \<Rightarrow> string" where
  "swap_loop j i k str =
     (if j \<le> (i + k - 1) div 2
      then let temp = str ! j;
               str = str[j := str ! (i - 1 + k - j)]
           in swap_loop (j + 1) i k (str[i - j - 1 + k := temp])
      else str)"
  by pat_completeness auto
termination by (relation "measure (\<lambda>(j, i, k, str). Suc ((i + k - 1) div 2) - j)") auto

declare pad_to.simps [simp del] swap_loop.simps [simp del]

text \<open>The sign and the radix prefix, and the number whose digits follow.\<close>

definition itoa_start :: "u32 \<Rightarrow> u32 \<Rightarrow> u32 \<Rightarrow> u32 \<times> string" where
  "itoa_start num radix type =
     (let (unum, str) =
        (if (flag type SIGN \<or> flag type PLUS) \<and> sint num < 0 then (- num, ''-'')
         else if flag type PLUS then (num, ''+'')
         else (num, []))
      in (unum,
          if flag type SPECIAL
          then if radix = 8 then str @ ''0''
               else if radix = 16 then str @ ''0'' @ (if flag type SMALL then ''x'' else ''X'')
               else str
          else str))"

text \<open>The number of leading characters that the reversal leaves in place.\<close>

definition itoa_fixed :: "u32 \<Rightarrow> u32 \<Rightarrow> string \<Rightarrow> nat" where
  "itoa_fixed radix type str =
     (if str ! 0 = CHR ''-'' \<or> str ! 0 = CHR ''+'' then 1 else 0) +
     (if flag type SPECIAL then if radix = 8 then 1 else if radix = 16 then 2 else 0 else 0)"

definition itoa :: "u32 \<Rightarrow> u32 \<Rightarrow> int \<Rightarrow> u32 \<Rightarrow> kerror + string" where
  "itoa num radix width type =
     (let (unum, str) = itoa_start num radix type
      in if radix = 0 then Inl Divide_Error
         else case itoa_digits (digit_chars type) radix unum str of
           None \<Rightarrow> Inl Spin
         | Some (Inl e) \<Rightarrow> Inl e
         | Some (Inr str) \<Rightarrow>
             let k = itoa_fixed radix type str;
                 str = (if \<not> flag type LEFT
                        then pad_to (if flag type ZEROPAD then CHR ''0'' else CHR '' '') width str else str);
                 str = swap_loop k (length str) k str
             in Inr (pad_to (CHR '' '') width str))"

section \<open>vsprintf\<close>

definition char_of_byte :: "u8 \<Rightarrow> char" where
  "char_of_byte b = char_of (unat b)"

text \<open>The flag loop after a percent sign.\<close>

fun fmt_flags :: "u32 \<Rightarrow> string \<Rightarrow> u32 \<times> string" where
  "fmt_flags flags (c # fmt) =
     (if c = CHR ''-'' then fmt_flags (flags OR LEFT) fmt
      else if c = CHR ''+'' then fmt_flags (flags OR PLUS) fmt
      else if c = CHR '' '' then fmt_flags (flags OR SPACE) fmt
      else if c = CHR ''#'' then fmt_flags (flags OR SPECIAL) fmt
      else if c = CHR ''0'' then fmt_flags (flags OR ZEROPAD) fmt
      else (flags, c # fmt))"
| "fmt_flags flags [] = (flags, [])"

definition is_digit :: "char \<Rightarrow> bool" where
  "is_digit c \<longleftrightarrow> c \<in> set ''0123456789''"

definition digit_value :: "char \<Rightarrow> nat" where
  "digit_value c = of_char c - 48"

text \<open>The field width: one digit, or \<^verbatim>\<open>*\<close>, which reads an argument but is not skipped.\<close>

definition fmt_width :: "u32 \<Rightarrow> u32 \<Rightarrow> string \<Rightarrow> int \<times> u32 \<times> string" where
  "fmt_width arg flags fmt =
     (case fmt of
        c # rest \<Rightarrow>
          if is_digit c then (int (digit_value c), flags, rest)
          else if c = CHR ''*'' then
            (if sint arg < 0 then (- sint arg, flags OR LEFT, fmt) else (sint arg, flags, fmt))
          else (- 1, flags, fmt)
      | [] \<Rightarrow> (- 1, flags, fmt))"

definition fmt_precision :: "u32 \<Rightarrow> string \<Rightarrow> int \<times> string" where
  "fmt_precision arg fmt =
     (if fmt \<noteq> [] \<and> hd fmt = CHR ''.'' then
        (let (precision, fmt) =
           (case tl fmt of
              c # rest \<Rightarrow>
                if is_digit c then (int (digit_value c), rest)
                else if c = CHR ''*'' then (sint arg, c # rest) else (- 1, c # rest)
            | [] \<Rightarrow> (- 1, []))
         in (if precision < 0 then 0 else precision, fmt))
      else (- 1, fmt))"

definition fmt_qualifier :: "string \<Rightarrow> string" where
  "fmt_qualifier fmt =
     (case fmt of c # rest \<Rightarrow> if c \<in> set ''hlL'' then rest else fmt | [] \<Rightarrow> fmt)"

text \<open>\<^verbatim>\<open>while(--field_width>0)*p++=' '\<close> and \<^verbatim>\<open>while(len<field_width--)*p++=' '\<close>.\<close>

function pad_predec :: "int \<Rightarrow> string \<Rightarrow> int \<times> string" where
  "pad_predec w out = (if 0 < w - 1 then pad_predec (w - 1) (out @ '' '') else (w - 1, out))"
  by pat_completeness auto
termination by (relation "measure (\<lambda>(w, out). nat w)") auto

function pad_postdec :: "int \<Rightarrow> int \<Rightarrow> string \<Rightarrow> int \<times> string" where
  "pad_postdec len w out = (if len < w then pad_postdec len (w - 1) (out @ '' '') else (w - 1, out))"
  by pat_completeness auto
termination by (relation "measure (\<lambda>(len, w, out). nat (w - len))") auto

declare pad_predec.simps [simp del] pad_postdec.simps [simp del]

text \<open>
  What the conversions read: the argument slots, the byte memory, and the addresses of the
  output buffer and of the unused local array \<^verbatim>\<open>tmp\<close>, which \<^verbatim>\<open>%n\<close> subtracts. The state holds
  the text written, the index of the next argument and the words that \<^verbatim>\<open>%n\<close> stored.
\<close>

record fmt_env =
  args :: "nat \<Rightarrow> u32"
  fbytes :: bytes
  buf_addr :: u32
  tmp_addr :: u32

record fmt_state =
  out :: string
  arg_ix :: nat
  stores :: "(u32 \<times> u32) list"

definition emit :: "string \<Rightarrow> fmt_state \<Rightarrow> fmt_state" where
  "emit t s = s\<lparr>out := out s @ t\<rparr>"

definition next_arg :: "fmt_state \<Rightarrow> fmt_state" where
  "next_arg s = s\<lparr>arg_ix := arg_ix s + 1\<rparr>"

definition fmt_itoa :: "fmt_env \<Rightarrow> u32 \<Rightarrow> int \<Rightarrow> u32 \<Rightarrow> fmt_state \<Rightarrow> kerror + fmt_state" where
  "fmt_itoa env radix width flags s =
     and_then (itoa (args env (arg_ix s)) radix width flags) (\<lambda>t. Inr (next_arg (emit t s)))"

definition fmt_string :: "fmt_env \<Rightarrow> int \<Rightarrow> int \<Rightarrow> u32 \<Rightarrow> fmt_state \<Rightarrow> kerror + fmt_state" where
  "fmt_string env width precision flags s =
     (let str = args env (arg_ix s);
          s = next_arg s
      in case strlen str (fbytes env) of
           None \<Rightarrow> Inl Spin
         | Some n \<Rightarrow>
             let len = (if 0 \<le> precision \<and> precision < sint n then precision else sint n);
                 (width, o1) = (if flag flags LEFT then (width, out s) else pad_postdec len width (out s));
                 o2 = o1 @ map (\<lambda>i. char_of_byte (fbytes env (str + of_nat i))) [0..<nat len];
                 (width, o3) = pad_postdec len width o2
             in Inr (s\<lparr>out := o3\<rparr>))"

definition fmt_char :: "fmt_env \<Rightarrow> int \<Rightarrow> u32 \<Rightarrow> fmt_state \<Rightarrow> fmt_state" where
  "fmt_char env width flags s =
     (let (width, o1) = (if flag flags LEFT then (width, out s) else pad_predec width (out s));
          o2 = o1 @ [char_of_byte (ucast (args env (arg_ix s)))];
          (width, o3) = pad_predec width o2
      in next_arg (s\<lparr>out := o3\<rparr>))"

text \<open>
  The \<^verbatim>\<open>switch\<close> on the conversion character: the new state and whether the character is
  consumed (the default case steps back so that it is printed as text).
\<close>

definition fmt_convert ::
  "fmt_env \<Rightarrow> int \<Rightarrow> int \<Rightarrow> u32 \<Rightarrow> char option \<Rightarrow> fmt_state \<Rightarrow> kerror + (fmt_state \<times> bool)" where
  "fmt_convert env width precision flags c s =
     (let done = (\<lambda>r. and_then r (\<lambda>s. Inr (s, True))) in
      if c = Some (CHR ''x'') then done (fmt_itoa env 16 width (flags OR SMALL) s)
      else if c = Some (CHR ''X'') then done (fmt_itoa env 16 width flags s)
      else if c = Some (CHR ''d'') \<or> c = Some (CHR ''i'') then done (fmt_itoa env 10 width (flags OR SIGN) s)
      else if c = Some (CHR ''u'') then done (fmt_itoa env 10 width flags s)
      else if c = Some (CHR ''o'') then done (fmt_itoa env 8 width flags s)
      else if c = Some (CHR ''n'') then
        done (Inr (next_arg (s\<lparr>stores := stores s @
          [(args env (arg_ix s), buf_addr env + of_nat (length (out s)) - tmp_addr env)]\<rparr>)))
      else if c = Some (CHR ''p'') then
        done (if width = - 1 then fmt_itoa env 16 8 (flags OR ZEROPAD) s else fmt_itoa env 16 width flags s)
      else if c = Some (CHR ''c'') then done (Inr (fmt_char env width flags s))
      else if c = Some (CHR ''s'') then done (fmt_string env width precision flags s)
      else if c = Some (CHR ''%'') then done (Inr (emit ''%'' s))
      else Inr (emit ''%'' s, False))"

text \<open>One directive: from the character after the percent sign to the rest of the format.\<close>

definition fmt_directive :: "fmt_env \<Rightarrow> string \<Rightarrow> fmt_state \<Rightarrow> kerror + (fmt_state \<times> string)" where
  "fmt_directive env fmt s =
     (let (flags, fmt) = fmt_flags 0 fmt;
          (width, flags, fmt) = fmt_width (args env (arg_ix s)) flags fmt;
          (precision, fmt) = fmt_precision (args env (arg_ix s)) fmt;
          fmt = fmt_qualifier fmt;
          c = (case fmt of [] \<Rightarrow> None | c # _ \<Rightarrow> Some c)
      in and_then (fmt_convert env width precision flags c s)
           (\<lambda>(s, consumed). Inr (s, if consumed then tl fmt else fmt)))"

lemma fmt_flags_length: "length (snd (fmt_flags f fmt)) \<le> length fmt"
  by (induction f fmt rule: fmt_flags.induct) auto

lemma fmt_width_length: "length (snd (snd (fmt_width a f fmt))) \<le> length fmt"
  by (auto simp: fmt_width_def split: list.splits)

lemma fmt_precision_length: "length (snd (fmt_precision a fmt)) \<le> length fmt"
  by (cases fmt) (auto simp: fmt_precision_def Let_def split: list.splits)

lemma fmt_qualifier_length: "length (fmt_qualifier fmt) \<le> length fmt"
  by (auto simp: fmt_qualifier_def split: list.splits)

lemma fmt_directive_length:
  assumes "fmt_directive env fmt s = Inr (s', fmt')" shows "length fmt' \<le> length fmt"
proof -
  obtain f1 r1 where 1: "fmt_flags 0 fmt = (f1, r1)" by (cases "fmt_flags 0 fmt")
  obtain w f2 r2 where 2: "fmt_width (args env (arg_ix s)) f1 r1 = (w, f2, r2)"
    by (cases "fmt_width (args env (arg_ix s)) f1 r1") auto
  obtain p r3 where 3: "fmt_precision (args env (arg_ix s)) r2 = (p, r3)"
    by (cases "fmt_precision (args env (arg_ix s)) r2")
  have "length (fmt_qualifier r3) \<le> length fmt"
    using fmt_flags_length[of 0 fmt] fmt_width_length[of "args env (arg_ix s)" f1 r1]
      fmt_precision_length[of "args env (arg_ix s)" r2] fmt_qualifier_length[of r3] 1 2 3 by simp
  then show ?thesis using assms 1 2 3
    by (auto simp: fmt_directive_def and_then_eq_Inr Let_def split: if_splits)
qed

function vsprintf_from :: "fmt_env \<Rightarrow> string \<Rightarrow> fmt_state \<Rightarrow> kerror + fmt_state" where
  "vsprintf_from env [] s = Inr s"
| "vsprintf_from env (c # fmt) s =
     (if c \<noteq> CHR ''%'' then vsprintf_from env fmt (emit [c] s)
      else and_then (fmt_directive env fmt s) (\<lambda>(s, fmt). vsprintf_from env fmt s))"
  by pat_completeness auto
termination
  by (relation "measure (\<lambda>(env, fmt, s). length fmt)") (auto dest: fmt_directive_length)

definition vsprintf :: "fmt_env \<Rightarrow> string \<Rightarrow> kerror + fmt_state" where
  "vsprintf env fmt = vsprintf_from env fmt \<lparr>out = [], arg_ix = 0, stores = []\<rparr>"

text \<open>\<^verbatim>\<open>sprintf\<close> returns the length; \<^verbatim>\<open>printf\<close> formats into a local array of 256 bytes.\<close>

definition sprintf :: "fmt_env \<Rightarrow> string \<Rightarrow> kerror + (string \<times> nat)" where
  "sprintf env fmt = and_then (vsprintf env fmt) (\<lambda>s. Inr (out s, length (out s)))"

definition printf :: "fmt_env \<Rightarrow> string \<Rightarrow> kerror + (string \<times> nat)" where
  "printf env fmt = and_then (vsprintf env fmt) (\<lambda>s.
     if 256 \<le> length (out s) then Inl Bad_Index else Inr (out s, length (out s)))"

section \<open>atoi\<close>

fun atoi_digits :: "u32 \<Rightarrow> string \<Rightarrow> u32" where
  "atoi_digits res (c # p) =
     (if is_digit c then atoi_digits (res * 10 + of_nat (digit_value c)) p else res)"
| "atoi_digits res [] = res"

definition atoi :: "string \<Rightarrow> u32" where
  "atoi p =
     (let (neg, p) =
        (case p of
           c # q \<Rightarrow> if c = CHR ''+'' \<or> c = CHR ''-'' then (c \<noteq> CHR ''+'', q) else (False, p)
         | [] \<Rightarrow> (False, p))
      in if neg then - atoi_digits 0 p else atoi_digits 0 p)"

section \<open>What itoa computes\<close>

text \<open>The digits of a number in base \<open>r\<close>, the lowest first.\<close>

function radix_digits :: "nat \<Rightarrow> nat \<Rightarrow> nat list" where
  "radix_digits r n = n mod r # (if r < 2 \<or> n < r then [] else radix_digits r (n div r))"
  by pat_completeness auto
termination by (relation "measure snd") auto

declare radix_digits.simps [simp del]

lemma radix_digits_less: "0 < r \<Longrightarrow> d \<in> set (radix_digits r n) \<Longrightarrow> d < r"
  by (induction r n rule: radix_digits.induct) (subst (asm) (2) radix_digits.simps, auto split: if_splits)

lemma radix_digits_nonempty [simp]: "radix_digits r n \<noteq> []"
  by (subst radix_digits.simps) simp

text \<open>Read back from the highest digit, the digits give the number.\<close>

lemma radix_digits_value:
  "2 \<le> r \<Longrightarrow> foldl (\<lambda>v d. v * r + d) 0 (rev (radix_digits r n)) = n"
proof (induction r n rule: radix_digits.induct)
  case (1 r n)
  then show ?case by (subst radix_digits.simps) auto
qed

lemma itoa_digits_ok:
  assumes "2 \<le> unat radix" "unat radix \<le> length index"
  shows "itoa_digits index radix u str = Some (Inr (str @ map ((!) index) (radix_digits (unat radix) (unat u))))"
proof (induction "unat u" arbitrary: u str rule: less_induct)
  case less
  have m: "unat (u mod radix) = unat u mod unat radix" "unat (u div radix) = unat u div unat radix"
    by (simp_all add: unat_mod_distrib unat_div_distrib)
  have ok: "\<not> length index \<le> unat (u mod radix)"
    using assms mod_less_divisor[of "unat radix" "unat u"] unfolding m by linarith
  show ?case
  proof (cases "u div radix = 0")
    case True
    then have "unat u div unat radix = 0" using m(2) by simp
    then have "unat u < unat radix" using assms(1) by (simp add: div_eq_0_iff)
    then show ?thesis using ok m True
      by (subst itoa_digits.simps, subst radix_digits.simps) (simp add: Let_def)
  next
    case False
    then have nz: "unat u div unat radix \<noteq> 0" using m(2) by (simp flip: unat_eq_zero)
    then have "\<not> unat u < unat radix" by auto
    moreover have "unat (u div radix) < unat u"
      using nz assms(1) unfolding m by (intro div_less_dividend) (auto intro: gr0I)
    ultimately show ?thesis using ok m False assms(1) less[of "u div radix"]
      by (subst itoa_digits.simps, subst radix_digits.simps) (simp add: Let_def)
  qed
qed

lemma pad_to_eq: "pad_to c w str = str @ replicate (nat (w - int (length str))) c"
proof (induction c w str rule: pad_to.induct)
  case (1 c w str)
  show ?case
  proof (cases "int (length str) < w")
    case True
    then have "nat (w - int (length str)) = Suc (nat (w - int (length (str @ [c]))))" by auto
    with 1 True show ?thesis by (subst pad_to.simps) simp
  qed (subst pad_to.simps, simp)
qed

text \<open>The swap loop reverses the text from position \<open>k\<close> on.\<close>

lemma swap_loop_nth:
  assumes "k \<le> j" "k < i" "length str = i" "x < i"
  shows "swap_loop j i k str ! x = (if j \<le> x \<and> x \<le> i - 1 + k - j then str ! (i - 1 + k - x) else str ! x)
     \<and> length (swap_loop j i k str) = i"
  using assms
proof (induction "Suc ((i + k - 1) div 2) - j" arbitrary: j str rule: less_induct)
  case less
  let ?n = "i - 1 + k"
  show ?case
  proof (cases "j \<le> (i + k - 1) div 2")
    case False
    then have "?n < 2 * j" using less.prems(2) by linarith
    then have "\<not> (j \<le> x \<and> x \<le> ?n - j)" by arith
    moreover have "swap_loop j i k str = str" using False by (subst swap_loop.simps) simp
    ultimately show ?thesis using less.prems(3) by auto
  next
    case True
    let ?s = "(str[j := str ! (?n - j)])[?n - j := str ! j]"
    have j: "2 * j \<le> ?n" "j < i" "?n - j < i" "i - j - 1 + k = ?n - j"
      using True less.prems by linarith+
    have u: "swap_loop j i k str = swap_loop (j + 1) i k ?s"
      using True j(4) by (subst swap_loop.simps) (simp add: Let_def)
    have IH: "swap_loop (j + 1) i k ?s ! x = (if j + 1 \<le> x \<and> x \<le> ?n - (j + 1) then ?s ! (?n - x) else ?s ! x)
        \<and> length (swap_loop (j + 1) i k ?s) = i"
      by (rule less.hyps) (use True less.prems in auto)
    consider "x = j" | "x = ?n - j" | "j < x" "x < ?n - j" | "x < j" | "?n - j < x" by linarith
    then have "(if j + 1 \<le> x \<and> x \<le> ?n - (j + 1) then ?s ! (?n - x) else ?s ! x)
        = (if j \<le> x \<and> x \<le> ?n - j then str ! (?n - x) else str ! x)"
    proof cases
      case 3
      then have "?n - x \<noteq> j" "?n - x \<noteq> ?n - j" "x \<le> ?n - (j + 1)" using j by linarith+
      with 3 show ?thesis by simp
    qed (use j less.prems in \<open>auto simp: nth_list_update\<close>)
    then show ?thesis unfolding u using IH by simp
  qed
qed

lemma swap_loop_rev:
  assumes "k < length str"
  shows "swap_loop k (length str) k str = take k str @ rev (drop k str)"
proof (rule nth_equalityI)
  let ?i = "length str"
  have "length (swap_loop k ?i k str) = ?i" using swap_loop_nth[of k k ?i str k] assms by simp
  then show "length (swap_loop k ?i k str) = length (take k str @ rev (drop k str))" using assms by simp
  fix x assume "x < length (swap_loop k ?i k str)"
  then have x: "x < ?i" using \<open>length (swap_loop k ?i k str) = ?i\<close> by simp
  have "swap_loop k ?i k str ! x = (if k \<le> x \<and> x \<le> ?i - 1 + k - k then str ! (?i - 1 + k - x) else str ! x)"
    using swap_loop_nth[of k k ?i str x] assms x by auto
  then show "swap_loop k ?i k str ! x = (take k str @ rev (drop k str)) ! x"
    using assms x by (auto simp: nth_append rev_nth intro: arg_cong)
qed

text \<open>The parts of a formatted number.\<close>

definition itoa_sign :: "u32 \<Rightarrow> u32 \<Rightarrow> string" where
  "itoa_sign num type =
     (if (flag type SIGN \<or> flag type PLUS) \<and> sint num < 0 then ''-''
      else if flag type PLUS then ''+'' else [])"

definition itoa_prefix :: "u32 \<Rightarrow> u32 \<Rightarrow> string" where
  "itoa_prefix radix type =
     (if \<not> flag type SPECIAL then []
      else if radix = 8 then ''0''
      else if radix = 16 then (if flag type SMALL then ''0x'' else ''0X'')
      else [])"

definition itoa_magnitude :: "u32 \<Rightarrow> u32 \<Rightarrow> nat" where
  "itoa_magnitude num type = (if (flag type SIGN \<or> flag type PLUS) \<and> sint num < 0 then unat (- num) else unat num)"

definition itoa_number :: "u32 \<Rightarrow> u32 \<Rightarrow> u32 \<Rightarrow> string" where
  "itoa_number num radix type =
     rev (map ((!) (digit_chars type)) (radix_digits (unat radix) (itoa_magnitude num type)))"

definition itoa_padding :: "u32 \<Rightarrow> u32 \<Rightarrow> int \<Rightarrow> u32 \<Rightarrow> nat" where
  "itoa_padding num radix width type =
     nat (width - int (length (itoa_sign num type @ itoa_prefix radix type @ itoa_number num radix type)))"

lemma digit_chars_no_sign:
  "c \<in> set (digit_chars type) \<Longrightarrow> c \<noteq> CHR ''-'' \<and> c \<noteq> CHR ''+''"
  by (auto simp: digit_chars_def split: if_splits)

lemma length_digit_chars [simp]: "length (digit_chars type) = 36"
  by (simp add: digit_chars_def)

lemma itoa_ok:
  assumes r: "2 \<le> unat radix" "unat radix \<le> 36"
  shows "itoa num radix width type = Inr
    (itoa_sign num type @ itoa_prefix radix type @
     (let pad = itoa_padding num radix width type in
      if flag type LEFT then itoa_number num radix type @ replicate pad (CHR '' '')
      else replicate pad (if flag type ZEROPAD then CHR ''0'' else CHR '' '') @ itoa_number num radix type))"
proof -
  let ?sg = "itoa_sign num type" and ?pf = "itoa_prefix radix type" and ?ix = "digit_chars type"
  define u where "u = (if (flag type SIGN \<or> flag type PLUS) \<and> sint num < 0 then - num else num)"
  define ds where "ds = map ((!) ?ix) (radix_digits (unat radix) (unat u))"
  define pre where "pre = ?sg @ ?pf"
  define k where "k = length pre"
  have num: "itoa_number num radix type = rev ds"
    by (simp add: itoa_number_def ds_def u_def itoa_magnitude_def)
  have dig: "itoa_digits ?ix radix u pre = Some (Inr (pre @ ds))"
    using itoa_digits_ok[OF r(1)] r(2) by (simp add: ds_def)
  have dne: "ds \<noteq> []" by (simp add: ds_def)
  have "hd ds \<in> set ?ix"
  proof -
    have "hd ds = ?ix ! hd (radix_digits (unat radix) (unat u))" by (simp add: ds_def hd_map)
    moreover have "hd (radix_digits (unat radix) (unat u)) < 36"
      using radix_digits_less[of "unat radix" "hd (radix_digits (unat radix) (unat u))" "unat u"] r by auto
    ultimately show ?thesis by simp
  qed
  then have first: "((pre @ ds) ! 0 = CHR ''-'' \<or> (pre @ ds) ! 0 = CHR ''+'') \<longleftrightarrow> ?sg \<noteq> []"
    using dne digit_chars_no_sign[of "hd ds" type]
    by (auto simp: pre_def itoa_sign_def itoa_prefix_def hd_conv_nth)
  have kk: "itoa_fixed radix type (pre @ ds) = k"
    unfolding itoa_fixed_def first by (auto simp: k_def pre_def itoa_sign_def itoa_prefix_def)
  have start: "itoa_start num radix type = (u, pre)"
    by (auto simp: itoa_start_def u_def pre_def itoa_sign_def itoa_prefix_def)
  let ?c = "if flag type ZEROPAD then CHR ''0'' else CHR '' ''"
  let ?str = "if \<not> flag type LEFT then pad_to ?c width (pre @ ds) else pre @ ds"
  have "radix \<noteq> 0" using r(1) by auto
  then have "itoa num radix width type = Inr (pad_to (CHR '' '') width (swap_loop k (length ?str) k ?str))"
    by (simp only: itoa_def start dig Let_def prod.case if_False option.case sum.case kk)
  also have "swap_loop k (length ?str) k ?str = take k ?str @ rev (drop k ?str)"
    using dne by (intro swap_loop_rev) (auto simp: k_def pad_to_eq)
  also have "\<dots> = pre @ (if flag type LEFT then rev ds else
      replicate (itoa_padding num radix width type) ?c @ rev ds)"
    by (simp add: k_def pad_to_eq itoa_padding_def num pre_def)
  finally show ?thesis
    by (simp add: pad_to_eq Let_def num itoa_padding_def pre_def)
qed

section \<open>What atoi reads back\<close>

lemma is_digit_char: "d < 10 \<Longrightarrow> is_digit (digit_chars type ! d) \<and> digit_value (digit_chars type ! d) = d"
proof -
  assume "d < 10"
  then have "d \<in> set [0,1,2,3,4,5,6,7,8,9]" by auto
  then show ?thesis by (auto simp: digit_chars_def is_digit_def digit_value_def)
qed

lemma atoi_digits_rev:
  assumes "\<forall>d \<in> set ds. d < 10"
  shows "atoi_digits res (map ((!) (digit_chars type)) ds)
           = foldl (\<lambda>v d. v * 10 + of_nat d) res ds"
  using assms by (induction ds arbitrary: res) (auto simp: is_digit_char)

lemma foldl_of_nat:
  "foldl (\<lambda>v d. v * 10 + of_nat d) (of_nat n) ds = (of_nat (foldl (\<lambda>v d. v * 10 + d) n ds) :: u32)"
proof (induction ds arbitrary: n)
  case (Cons d ds)
  have "of_nat n * 10 + of_nat d = (of_nat (n * 10 + d) :: u32)" by simp
  then show ?case using Cons[of "n * 10 + d"] by simp
qed simp

lemma atoi_digits_number:
  "atoi_digits 0 (map ((!) (digit_chars type)) (rev (radix_digits 10 n))) = of_nat n"
proof -
  have "\<forall>d \<in> set (rev (radix_digits 10 n)). d < 10" using radix_digits_less[of 10] by auto
  then show ?thesis
    using foldl_of_nat[of 0 "rev (radix_digits 10 n)"] radix_digits_value[of 10 n]
    by (simp add: atoi_digits_rev)
qed

lemma flag_SIGN: "flag SIGN SIGN" "\<not> flag SIGN PLUS" "\<not> flag SIGN SPECIAL" "\<not> flag SIGN LEFT"
  "\<not> flag SIGN ZEROPAD"
  by (simp_all add: flag_def)

section \<open>The format language\<close>

text \<open>
  A directive as a programmer writes it: flag characters, an optional width digit, an optional
  precision digit and a conversion. \<open>unparse\<close> is its text in a format string.
\<close>

datatype conv = Hex | HEX | Dec | Unsigned | Oct | Pointer | Character | Str

datatype piece = Text char | Percent | Directive string "nat option" "nat option" conv

fun conv_char :: "conv \<Rightarrow> char" where
  "conv_char Hex = CHR ''x''" | "conv_char HEX = CHR ''X''" | "conv_char Dec = CHR ''d''"
| "conv_char Unsigned = CHR ''u''" | "conv_char Oct = CHR ''o''" | "conv_char Pointer = CHR ''p''"
| "conv_char Character = CHR ''c''" | "conv_char Str = CHR ''s''"

definition digit_char :: "nat \<Rightarrow> char" where
  "digit_char d = ''0123456789'' ! d"

fun unparse :: "piece \<Rightarrow> string" where
  "unparse (Text c) = [c]"
| "unparse Percent = ''%%''"
| "unparse (Directive fl w p cv) =
     ''%'' @ fl @ (case w of None \<Rightarrow> [] | Some d \<Rightarrow> [digit_char d]) @
     (case p of None \<Rightarrow> [] | Some d \<Rightarrow> [CHR ''.'', digit_char d]) @ [conv_char cv]"

text \<open>A width digit is not 0, which would be a flag.\<close>

fun wf_piece :: "piece \<Rightarrow> bool" where
  "wf_piece (Text c) \<longleftrightarrow> c \<noteq> CHR ''%''"
| "wf_piece Percent \<longleftrightarrow> True"
| "wf_piece (Directive fl w p cv) \<longleftrightarrow> set fl \<subseteq> set ''-+ #0'' \<and>
     (case w of None \<Rightarrow> True | Some d \<Rightarrow> 1 \<le> d \<and> d \<le> 9) \<and> (case p of None \<Rightarrow> True | Some d \<Rightarrow> d \<le> 9)"

definition flag_bit :: "char \<Rightarrow> u32" where
  "flag_bit c =
     (if c = CHR ''-'' then LEFT else if c = CHR ''+'' then PLUS else if c = CHR '' '' then SPACE
      else if c = CHR ''#'' then SPECIAL else if c = CHR ''0'' then ZEROPAD else 0)"

definition flag_bits :: "string \<Rightarrow> u32" where
  "flag_bits fl = foldr (\<lambda>c f. flag_bit c OR f) fl 0"

text \<open>What a directive prints for the argument \<open>a\<close>.\<close>

definition field :: "string \<Rightarrow> nat option \<Rightarrow> string \<Rightarrow> string" where
  "field fl w t =
     (let pad = replicate ((case w of None \<Rightarrow> 0 | Some d \<Rightarrow> d) - length t) (CHR '' '')
      in if CHR ''-'' \<in> set fl then t @ pad else pad @ t)"

definition number :: "u32 \<Rightarrow> int \<Rightarrow> u32 \<Rightarrow> u32 \<Rightarrow> string" where
  "number radix width type a =
     itoa_sign a type @ itoa_prefix radix type @
     (let pad = itoa_padding a radix width type in
      if flag type LEFT then itoa_number a radix type @ replicate pad (CHR '' '')
      else replicate pad (if flag type ZEROPAD then CHR ''0'' else CHR '' '') @ itoa_number a radix type)"

definition width_of :: "nat option \<Rightarrow> int" where
  "width_of w = (case w of None \<Rightarrow> - 1 | Some d \<Rightarrow> int d)"

fun render_conv :: "bytes \<Rightarrow> string \<Rightarrow> nat option \<Rightarrow> nat option \<Rightarrow> conv \<Rightarrow> u32 \<Rightarrow> string" where
  "render_conv m fl w p Hex a = number 16 (width_of w) (flag_bits fl OR SMALL) a"
| "render_conv m fl w p HEX a = number 16 (width_of w) (flag_bits fl) a"
| "render_conv m fl w p Dec a = number 10 (width_of w) (flag_bits fl OR SIGN) a"
| "render_conv m fl w p Unsigned a = number 10 (width_of w) (flag_bits fl) a"
| "render_conv m fl w p Oct a = number 8 (width_of w) (flag_bits fl) a"
| "render_conv m fl w p Pointer a =
     (case w of None \<Rightarrow> number 16 8 (flag_bits fl OR ZEROPAD) a
      | Some d \<Rightarrow> number 16 (int d) (flag_bits fl) a)"
| "render_conv m fl w p Character a = field fl w [char_of_byte (ucast a)]"
| "render_conv m fl w p Str a =
     field fl w (case strlen a m of None \<Rightarrow> []
       | Some n \<Rightarrow> map (\<lambda>i. char_of_byte (m (a + of_nat i)))
           [0..<(case p of None \<Rightarrow> unat n | Some d \<Rightarrow> min d (unat n))])"

fun render :: "fmt_env \<Rightarrow> nat \<Rightarrow> piece list \<Rightarrow> string" where
  "render env i [] = []"
| "render env i (Text c # ps) = [c] @ render env i ps"
| "render env i (Percent # ps) = ''%'' @ render env i ps"
| "render env i (Directive fl w p cv # ps) =
     render_conv (fbytes env) fl w p cv (args env i) @ render env (i + 1) ps"

lemma pad_predec_eq: "snd (pad_predec w t) = t @ replicate (nat (w - 1)) (CHR '' '') \<and> fst (pad_predec w t) \<le> max 0 (w - 1) \<and>
   (fst (pad_predec w t) \<le> 0)"
proof (induction w t rule: pad_predec.induct)
  case (1 w t)
  show ?case
  proof (cases "0 < w - 1")
    case True
    then have "nat (w - 1) = Suc (nat (w - 1 - 1))" by auto
    with True 1[OF True] show ?thesis by (subst (1 2 3) pad_predec.simps) auto
  qed (subst (1 2 3) pad_predec.simps, auto)
qed

lemma pad_postdec_eq:
  "snd (pad_postdec n w t) = t @ replicate (nat (w - n)) (CHR '' '') \<and> fst (pad_postdec n w t) < n + 1 \<and>
   (fst (pad_postdec n w t) \<le> n)"
proof (induction n w t rule: pad_postdec.induct)
  case (1 n w t)
  show ?case
  proof (cases "n < w")
    case True
    then have "nat (w - n) = Suc (nat (w - 1 - n))" by auto
    with True 1[OF True] show ?thesis by (subst (1 2 3) pad_postdec.simps) auto
  qed (subst (1 2 3) pad_postdec.simps, auto)
qed

lemma flag_bits_LEFT: "flag (flag_bits fl) LEFT \<longleftrightarrow> CHR ''-'' \<in> set fl"
proof (induction fl)
  case (Cons c fl)
  have "(flag_bit c OR y) AND LEFT \<noteq> 0 \<longleftrightarrow> c = CHR ''-'' \<or> y AND LEFT \<noteq> 0" for y
  proof -
    have "(flag_bit c OR y) AND LEFT = (flag_bit c AND LEFT) OR (y AND LEFT)"
      by (simp add: bit.conj_disj_distrib2)
    moreover have "y AND LEFT = 0 \<or> y AND LEFT = LEFT" by (simp add: and_one_eq mod_2_eq_odd)
    ultimately show ?thesis by (auto simp: flag_bit_def)
  qed
  with Cons show ?case by (auto simp: flag_def flag_bits_def)
qed (simp add: flag_def flag_bits_def)

lemma fmt_flags_unparse:
  assumes "set fl \<subseteq> set ''-+ #0''" "rest \<noteq> []" "hd rest \<notin> set ''-+ #0''"
  shows "fmt_flags f (fl @ rest) = (f OR flag_bits fl, rest)"
  using assms(1)
proof (induction fl arbitrary: f)
  case Nil
  then show ?case using assms(2,3) by (cases rest) (auto simp: flag_bits_def)
next
  case (Cons c fl)
  then have "fmt_flags f ((c # fl) @ rest) = fmt_flags (f OR flag_bit c) (fl @ rest)"
    by (auto simp: flag_bit_def)
  also have "\<dots> = ((f OR flag_bit c) OR flag_bits fl, rest)" using Cons by simp
  finally show ?case by (simp add: flag_bits_def or.assoc)
qed

lemma digit_char_facts:
  assumes "d \<le> 9"
  shows "is_digit (digit_char d)" "digit_value (digit_char d) = d" "digit_char d \<noteq> CHR ''.''"
    "1 \<le> d \<Longrightarrow> digit_char d \<notin> set ''-+ #0''"
proof -
  have "d \<in> set [0,1,2,3,4,5,6,7,8,9]" using assms by auto
  then show "is_digit (digit_char d)" "digit_value (digit_char d) = d" "digit_char d \<noteq> CHR ''.''"
    "1 \<le> d \<Longrightarrow> digit_char d \<notin> set ''-+ #0''"
    by (auto simp: digit_char_def is_digit_def digit_value_def)
qed

lemma conv_char_facts:
  "conv_char cv \<notin> set ''-+ #0''" "\<not> is_digit (conv_char cv)" "conv_char cv \<noteq> CHR ''*''"
  "conv_char cv \<noteq> CHR ''.''" "conv_char cv \<notin> set ''hlL''"
  by (cases cv; simp add: is_digit_def)+

lemma fmt_width_digit: "d \<le> 9 \<Longrightarrow> fmt_width a f (digit_char d # t) = (int d, f, t)"
  by (simp add: fmt_width_def digit_char_facts)

lemma fmt_width_none: "t \<noteq> [] \<Longrightarrow> \<not> is_digit (hd t) \<Longrightarrow> hd t \<noteq> CHR ''*'' \<Longrightarrow> fmt_width a f t = (- 1, f, t)"
  by (cases t) (simp_all add: fmt_width_def)

lemma fmt_precision_digit: "d \<le> 9 \<Longrightarrow> fmt_precision a (CHR ''.'' # digit_char d # t) = (int d, t)"
  by (simp add: fmt_precision_def digit_char_facts)

lemma fmt_precision_none: "c \<noteq> CHR ''.'' \<Longrightarrow> fmt_precision a (c # t) = (- 1, c # t)"
  by (simp add: fmt_precision_def)

text \<open>The parts of a directive are read back as they were written.\<close>

lemma fmt_parse:
  assumes "wf_piece (Directive fl w p cv)"
  shows "\<exists>t1 t2. fmt_flags 0 (tl (unparse (Directive fl w p cv)) @ rest) = (flag_bits fl, t1) \<and>
    fmt_width a (flag_bits fl) t1 = (width_of w, flag_bits fl, t2) \<and>
    fmt_precision a t2 = (width_of p, conv_char cv # rest)"
proof -
  define t2 where "t2 = (case p of None \<Rightarrow> [] | Some d \<Rightarrow> [CHR ''.'', digit_char d]) @ conv_char cv # rest"
  define t1 where "t1 = (case w of None \<Rightarrow> [] | Some d \<Rightarrow> [digit_char d]) @ t2"
  have dot: "\<not> is_digit (CHR ''.'')" by (simp add: is_digit_def)
  have hd2: "t2 \<noteq> []" "hd t2 \<notin> set ''-+ #0''" "\<not> is_digit (hd t2)" "hd t2 \<noteq> CHR ''*''"
    using conv_char_facts[of cv] dot by (auto simp: t2_def split: option.splits)
  have "t1 \<noteq> []" "hd t1 \<notin> set ''-+ #0''"
    using hd2 assms digit_char_facts(4) by (auto simp: t1_def split: option.splits)
  then have "fmt_flags 0 (fl @ t1) = (flag_bits fl, t1)"
    using fmt_flags_unparse[of fl t1 0] assms by simp
  moreover have "tl (unparse (Directive fl w p cv)) @ rest = fl @ t1" by (simp add: t1_def t2_def)
  moreover have "fmt_width a (flag_bits fl) t1 = (width_of w, flag_bits fl, t2)"
    using hd2 assms by (cases w) (simp_all add: t1_def fmt_width_digit fmt_width_none width_of_def)
  moreover have "fmt_precision a t2 = (width_of p, conv_char cv # rest)"
    using assms conv_char_facts[of cv]
    by (cases p) (simp_all add: t2_def fmt_precision_digit fmt_precision_none width_of_def)
  ultimately show ?thesis by auto
qed

lemma fmt_itoa_number:
  assumes "2 \<le> unat radix" "unat radix \<le> 36"
  shows "fmt_itoa env radix width type s
    = Inr (s\<lparr>out := out s @ number radix width type (args env (arg_ix s)), arg_ix := arg_ix s + 1\<rparr>)"
  by (simp add: fmt_itoa_def itoa_ok[OF assms] number_def emit_def next_arg_def)

lemma fmt_char_field:
  "fmt_char env (width_of w) (flag_bits fl) s = s\<lparr>out := out s @ field fl w [char_of_byte (ucast (args env (arg_ix s)))],
     arg_ix := arg_ix s + 1\<rparr>"
proof -
  have l: "flag (flag_bits fl) LEFT \<longleftrightarrow> CHR ''-'' \<in> set fl" by (rule flag_bits_LEFT)
  have n: "nat (width_of w - 1) = (case w of None \<Rightarrow> 0 | Some d \<Rightarrow> d) - 1"
    by (auto simp: width_of_def split: option.splits)
  obtain w1 t1 where 1: "pad_predec (width_of w) (out s) = (w1, t1)" by force
  let ?c = "[char_of_byte (ucast (args env (arg_ix s)))]"
  have "t1 = out s @ replicate (nat (width_of w - 1)) (CHR '' '')" "w1 \<le> 0"
    using pad_predec_eq[of "width_of w" "out s"] 1 by auto
  moreover have "snd (pad_predec w1 (t1 @ ?c)) = t1 @ ?c" if "w1 \<le> 0"
    using that pad_predec_eq[of w1 "t1 @ ?c"] by simp
  moreover have "snd (pad_predec (width_of w) (out s @ ?c)) = out s @ ?c @ replicate (nat (width_of w - 1)) (CHR '' '')"
    using pad_predec_eq[of "width_of w" "out s @ ?c"] by simp
  ultimately show ?thesis using n 1
    by (auto simp: fmt_char_def Let_def l field_def next_arg_def split_def)
qed

lemma fmt_string_field:
  assumes n: "strlen (args env (arg_ix s)) (fbytes env) = Some n" "unat n < 2 ^ 31"
  shows "fmt_string env (width_of w) (width_of p) (flag_bits fl) s
    = Inr (s\<lparr>out := out s @ render_conv (fbytes env) fl w p Str (args env (arg_ix s)), arg_ix := arg_ix s + 1\<rparr>)"
proof -
  let ?a = "args env (arg_ix s)"
  define k where "k = (case p of None \<Rightarrow> unat n | Some d \<Rightarrow> min d (unat n))"
  define t where "t = map (\<lambda>i. char_of_byte (fbytes env (?a + of_nat i))) [0..<k]"
  have len: "(if 0 \<le> width_of p \<and> width_of p < sint n then width_of p else sint n) = int k"
    unfolding k_def width_of_def sint_small[OF n(2)] by (cases p) (auto simp del: of_nat_unat)
  have r: "render_conv (fbytes env) fl w p Str ?a = field fl w t" using n(1) by (simp add: k_def t_def)
  have pad: "nat (width_of w - int k) = (case w of None \<Rightarrow> 0 | Some d \<Rightarrow> d) - length t"
    by (auto simp: width_of_def t_def split: option.splits)
  obtain w1 t1 where 1: "pad_postdec (int k) (width_of w) (out s) = (w1, t1)" by force
  have "t1 = out s @ replicate (nat (width_of w - int k)) (CHR '' '')" "w1 \<le> int k"
    using pad_postdec_eq[of "int k" "width_of w" "out s"] 1 by auto
  moreover have "snd (pad_postdec (int k) w1 (t1 @ t)) = t1 @ t" if "w1 \<le> int k"
    using that pad_postdec_eq[of "int k" w1 "t1 @ t"] by simp
  moreover have "snd (pad_postdec (int k) (width_of w) (out s @ t))
      = out s @ t @ replicate (nat (width_of w - int k)) (CHR '' '')"
    using pad_postdec_eq[of "int k" "width_of w" "out s @ t"] by simp
  ultimately have "snd (let (w1, o1) = (if flag (flag_bits fl) LEFT then (width_of w, out s) else pad_postdec (int k) (width_of w) (out s))
      in pad_postdec (int k) w1 (o1 @ t)) = out s @ field fl w t"
    using 1 by (simp add: field_def flag_bits_LEFT pad Let_def)
  then show ?thesis
    unfolding fmt_string_def r
    by (cases "flag (flag_bits fl) LEFT") (simp_all add: n(1) len Let_def next_arg_def t_def[symmetric] split_def)
qed

text \<open>A directive prints its rendering and consumes one argument.\<close>

definition str_arg_ok :: "fmt_env \<Rightarrow> nat \<Rightarrow> bool" where
  "str_arg_ok env i \<longleftrightarrow> (\<exists>n. strlen (args env i) (fbytes env) = Some n \<and> unat n < 2 ^ 31)"

lemma fmt_directive_ok:
  assumes wf: "wf_piece (Directive fl w p cv)" and str: "cv = Str \<longrightarrow> str_arg_ok env (arg_ix s)"
  shows "fmt_directive env (tl (unparse (Directive fl w p cv)) @ rest) s
    = Inr (s\<lparr>out := out s @ render_conv (fbytes env) fl w p cv (args env (arg_ix s)), arg_ix := arg_ix s + 1\<rparr>, rest)"
proof -
  let ?a = "args env (arg_ix s)"
  obtain t1 t2 where parse: "fmt_flags 0 (tl (unparse (Directive fl w p cv)) @ rest) = (flag_bits fl, t1)"
    "fmt_width ?a (flag_bits fl) t1 = (width_of w, flag_bits fl, t2)"
    "fmt_precision ?a t2 = (width_of p, conv_char cv # rest)"
    using fmt_parse[OF wf] by blast
  have q: "fmt_qualifier (conv_char cv # rest) = conv_char cv # rest"
    using conv_char_facts(5)[of cv] by (simp add: fmt_qualifier_def)
  have d: "fmt_directive env (tl (unparse (Directive fl w p cv)) @ rest) s =
      and_then (fmt_convert env (width_of w) (width_of p) (flag_bits fl) (Some (conv_char cv)) s)
        (\<lambda>(s, consumed). Inr (s, if consumed then rest else conv_char cv # rest))"
    unfolding fmt_directive_def parse Let_def prod.case q list.case list.sel ..
  have "fmt_convert env (width_of w) (width_of p) (flag_bits fl) (Some (conv_char cv)) s
    = Inr (s\<lparr>out := out s @ render_conv (fbytes env) fl w p cv ?a, arg_ix := arg_ix s + 1\<rparr>, True)"
  proof (cases cv)
    case Str
    then obtain n where "strlen ?a (fbytes env) = Some n" "unat n < 2 ^ 31"
      using str by (auto simp: str_arg_ok_def)
    from fmt_string_field[OF this] show ?thesis using Str by (simp add: fmt_convert_def)
  next
    case Pointer
    then show ?thesis
      by (cases w) (simp_all add: fmt_convert_def fmt_itoa_number width_of_def)
  qed (simp_all add: fmt_convert_def fmt_itoa_number fmt_char_field)
  then show ?thesis unfolding d by simp
qed

fun str_args_ok :: "fmt_env \<Rightarrow> nat \<Rightarrow> piece list \<Rightarrow> bool" where
  "str_args_ok env i (Directive fl w p cv # ps) \<longleftrightarrow>
     (cv = Str \<longrightarrow> str_arg_ok env i) \<and> str_args_ok env (i + 1) ps"
| "str_args_ok env i (_ # ps) \<longleftrightarrow> str_args_ok env i ps"
| "str_args_ok env i [] \<longleftrightarrow> True"

fun directives :: "piece list \<Rightarrow> nat" where
  "directives (Directive _ _ _ _ # ps) = Suc (directives ps)"
| "directives (_ # ps) = directives ps"
| "directives [] = 0"

lemma vsprintf_from_pieces:
  assumes "\<forall>p \<in> set ps. wf_piece p" "str_args_ok env (arg_ix s) ps"
  shows "vsprintf_from env (concat (map unparse ps)) s
    = Inr (s\<lparr>out := out s @ render env (arg_ix s) ps, arg_ix := arg_ix s + directives ps\<rparr>)"
  using assms
proof (induction ps arbitrary: s)
  case (Cons p ps)
  let ?rest = "concat (map unparse ps)"
  show ?case
  proof (cases p)
    case (Text c)
    then show ?thesis using Cons.IH[of "emit [c] s"] Cons.prems by (simp add: emit_def)
  next
    case Percent
    have "fmt_flags 0 (CHR ''%'' # ?rest) = (0, CHR ''%'' # ?rest)" by simp
    moreover have "fmt_width a 0 (CHR ''%'' # ?rest) = (- 1, 0, CHR ''%'' # ?rest)" for a
      by (intro fmt_width_none) (simp_all add: is_digit_def)
    ultimately have "fmt_directive env (CHR ''%'' # ?rest) s = Inr (emit ''%'' s, ?rest)"
      by (simp add: fmt_directive_def fmt_precision_none fmt_qualifier_def fmt_convert_def)
    then show ?thesis using Percent Cons.IH[of "emit ''%'' s"] Cons.prems by (simp add: emit_def)
  next
    case (Directive fl w pr cv)
    let ?s = "s\<lparr>out := out s @ render_conv (fbytes env) fl w pr cv (args env (arg_ix s)), arg_ix := arg_ix s + 1\<rparr>"
    have u: "concat (map unparse (p # ps)) = CHR ''%'' # (tl (unparse p) @ ?rest)" by (simp add: Directive)
    have "fmt_directive env (tl (unparse p) @ ?rest) s = Inr (?s, ?rest)"
      unfolding Directive by (rule fmt_directive_ok) (use Cons.prems Directive in auto)
    then have "vsprintf_from env (concat (map unparse (p # ps))) s = vsprintf_from env ?rest ?s"
      unfolding u by simp
    then show ?thesis using Cons.IH[of ?s] Cons.prems Directive by simp
  qed
qed simp

section \<open>Properties\<close>

text \<open>
  C35. \<^verbatim>\<open>itoa\<close> for a radix of 2 to 36 always returns: the sign, the radix prefix, then the
  digits of the number padded to the width, with the padding (spaces or zeros) between the
  prefix and the digits, or after the digits for left alignment. So \<^verbatim>\<open>%5d\<close> prints -42 as a
  minus sign, two spaces and 42.
\<close>

theorem itoa_prints_number:
  assumes "2 \<le> unat radix" and "unat radix \<le> 36"
  shows "itoa num radix width type = Inr
    (let sign = (if (flag type SIGN \<or> flag type PLUS) \<and> sint num < 0 then ''-''
                 else if flag type PLUS then ''+'' else []);
         mag = (if sign = ''-'' then unat (- num) else unat num);
         prefix = itoa_prefix radix type;
         digits = rev (map ((!) (digit_chars type)) (radix_digits (unat radix) mag));
         pad = nat (width - int (length (sign @ prefix @ digits)))
     in if flag type LEFT then sign @ prefix @ digits @ replicate pad (CHR '' '')
        else sign @ prefix @ replicate pad (if flag type ZEROPAD then CHR ''0'' else CHR '' '') @ digits)"
proof -
  have "itoa_magnitude num type = (if itoa_sign num type = ''-'' then unat (- num) else unat num)"
    by (simp add: itoa_magnitude_def itoa_sign_def)
  then show ?thesis
    by (simp add: itoa_ok[OF assms] itoa_number_def itoa_padding_def Let_def flip: itoa_sign_def)
qed

theorem itoa_prints_number_witness:
  "itoa (- 42) 10 5 SIGN = Inr ''-  42''"
proof -
  have "rev (radix_digits 10 42) = [4, 2]" by (simp add: radix_digits.simps)
  moreover have "rev (map f ds) = map f (rev ds)" for f :: "nat \<Rightarrow> char" and ds by (simp add: rev_map)
  moreover have "replicate 2 c = [c, c]" for c :: char by (simp add: numeral_2_eq_2)
  ultimately show ?thesis
    using itoa_prints_number[of 10 "- 42" 5 SIGN]
    by (simp add: flag_SIGN itoa_prefix_def digit_chars_def flag_def)
qed

text \<open>
  \<^verbatim>\<open>atoi\<close> reads back what \<^verbatim>\<open>itoa\<close> printed in signed decimal, for every 32-bit integer, the
  most negative one included.
\<close>

theorem atoi_itoa_roundtrip:
  "map_sum id atoi (itoa num 10 (- 1) SIGN) = Inr num"
proof -
  let ?ds = "\<lambda>n. map ((!) (digit_chars SIGN)) (rev (radix_digits 10 n))"
  have i: "itoa num 10 (- 1) SIGN = Inr (itoa_sign num SIGN @ ?ds (itoa_magnitude num SIGN))"
    using itoa_ok[of 10 num "- 1" SIGN]
    by (simp add: flag_SIGN itoa_prefix_def itoa_number_def itoa_padding_def rev_map)
  have nosign: "case ?ds n of c # q \<Rightarrow> \<not> (c = CHR ''+'' \<or> c = CHR ''-'') | [] \<Rightarrow> True" for n
  proof -
    have "c \<noteq> CHR ''+'' \<and> c \<noteq> CHR ''-''" if "c \<in> set (?ds n)" for c
    proof -
      obtain d where "c = digit_chars SIGN ! d" "d < 10"
        using \<open>c \<in> set (?ds n)\<close> radix_digits_less[of 10 _ n] by auto
      then show ?thesis using digit_chars_no_sign[of c SIGN] by simp
    qed
    then show ?thesis by (cases "?ds n") auto
  qed
  show ?thesis
  proof (cases "sint num < 0")
    case True
    have "atoi (''-'' @ ?ds (unat (- num))) = - atoi_digits 0 (?ds (unat (- num)))"
      by (simp add: atoi_def)
    then show ?thesis
      using True unfolding i atoi_digits_number by (simp add: itoa_sign_def itoa_magnitude_def flag_SIGN)
  next
    case False
    have "atoi (?ds (unat num)) = atoi_digits 0 (?ds (unat num))"
      using nosign[of "unat num"] by (auto simp: atoi_def split: list.splits)
    then show ?thesis
      using False unfolding i atoi_digits_number by (simp add: itoa_sign_def itoa_magnitude_def flag_SIGN)
  qed
qed

text \<open>
  C33. \<^verbatim>\<open>vsprintf\<close> implements the format language: for text, \<^verbatim>\<open>%%\<close> and directives made of flags, an
  optional width and precision digit and one of the conversions \<^verbatim>\<open>x X d u o p c s\<close>, it returns
  the concatenation of the renderings and consumes one argument for each directive, provided
  each string argument ends within \<open>2 ^ 31\<close> bytes.
\<close>

theorem vsprintf_renders:
  assumes "\<forall>p \<in> set ps. wf_piece p" and "str_args_ok env 0 ps"
  shows "vsprintf env (concat (map unparse ps))
    = Inr \<lparr>out = render env 0 ps, arg_ix = directives ps, stores = []\<rparr>"
  using vsprintf_from_pieces[of ps env "\<lparr>out = [], arg_ix = 0, stores = []\<rparr>"] assms
  by (simp add: vsprintf_def)

theorem vsprintf_renders_witness:
  "map_sum id out (vsprintf \<lparr>args = (\<lambda>i. if i = 0 then 255 else 7), fbytes = (\<lambda>_. 0), buf_addr = 0, tmp_addr = 0\<rparr>
     ''0x%04x = %3d%%'') = Inr ''0x00ff =   7%''"
proof -
  let ?env = "\<lparr>args = (\<lambda>i. if i = 0 then 255 else 7), fbytes = (\<lambda>_. 0), buf_addr = 0, tmp_addr = 0\<rparr>"
  let ?ps = "[Text (CHR ''0''), Text (CHR ''x''), Directive ''0'' (Some 4) None Hex, Text (CHR '' ''),
    Text (CHR ''=''), Text (CHR '' ''), Directive [] (Some 3) None Dec, Percent]"
  have f: "concat (map unparse ?ps) = ''0x%04x = %3d%%''" by (simp add: digit_char_def)
  have d: "rev (radix_digits 16 255) = [15, 15]" "rev (radix_digits 10 7) = [7]" by (simp_all add: radix_digits.simps)
  have m: "rev (map g ds) = map g (rev ds)" for g :: "nat \<Rightarrow> char" and ds by (simp add: rev_map)
  have r: "replicate 2 c = [c, c]" for c :: char by (simp add: numeral_2_eq_2)
  have "number 16 4 (flag_bits ''0'' OR SMALL) 255 = ''00ff''" "number 10 3 (flag_bits [] OR SIGN) 7 = ''  7''"
    by (simp_all add: number_def flag_bits_def flag_bit_def flag_def itoa_sign_def itoa_prefix_def itoa_padding_def
        itoa_number_def itoa_magnitude_def m d r digit_chars_def)
  then have "render ?env 0 ?ps = ''0x00ff =   7%''" by (simp add: width_of_def)
  then show ?thesis using vsprintf_renders[of ?ps ?env] unfolding f by simp
qed

text \<open>
  A width given as \<^verbatim>\<open>*\<close> is not implemented: the star is looked at but never skipped, so
  \<^verbatim>\<open>%*d\<close> prints its own text and takes no argument.
\<close>

theorem vsprintf_star_width:
  "vsprintf env ''%*d'' = Inr \<lparr>out = ''%*d'', arg_ix = 0, stores = []\<rparr>"
proof -
  let ?s = "\<lparr>out = [], arg_ix = 0, stores = []\<rparr>"
  obtain w f where w: "fmt_width (args env 0) 0 ''*d'' = (w, f, ''*d'')"
    by (cases "sint (args env 0) < 0") (simp_all add: fmt_width_def is_digit_def)
  have "fmt_directive env ''*d'' ?s = Inr (emit ''%'' ?s, ''*d'')"
    using w by (simp add: fmt_directive_def fmt_precision_def fmt_qualifier_def fmt_convert_def)
  then show ?thesis by (simp add: vsprintf_def emit_def)
qed

end
