(* ===== verification/Ring_Buffer.thy ===== *)
theory Ring_Buffer
  imports Prelude
begin

text \<open>
  The bounded byte and message queues of the kernel: the scan-code buffers of the keyboard and
  mouse drivers (\<^verbatim>\<open>KB_BUFFER\<close>, \<^verbatim>\<open>MS_BUFFER\<close>) and the message queue of a process
  (\<^verbatim>\<open>msgHead\<close>, \<^verbatim>\<open>msgTail\<close>, \<^verbatim>\<open>msgCount\<close>, \<^verbatim>\<open>messages\<close>) are the same data structure, an array
  of 256 entries with two pointers into it and a counter. The pointers are indices here. The
  locale \<open>fifo\<close> is the contract their users rely on; the interpretations give it for both
  widths of the counter.
\<close>

section \<open>The contract of a bounded queue\<close>

datatype 'a queue_op = Put 'a | Take

locale fifo =
  fixes inv :: "'s \<Rightarrow> bool" and contents :: "'s \<Rightarrow> 'a list"
    and put :: "'a \<Rightarrow> 's \<Rightarrow> 's" and get :: "'s \<Rightarrow> 'a \<times> 's" and cap :: nat
  assumes put_room: "inv s \<Longrightarrow> length (contents s) < cap \<Longrightarrow> inv (put x s) \<and> contents (put x s) = contents s @ [x]"
    and put_full: "inv s \<Longrightarrow> length (contents s) = cap \<Longrightarrow> put x s = s"
    and get_first: "inv s \<Longrightarrow> contents s = x # xs \<Longrightarrow> fst (get s) = x \<and> inv (snd (get s)) \<and> contents (snd (get s)) = xs"
    and within: "inv s \<Longrightarrow> length (contents s) \<le> cap"
begin

lemma put_inv: "inv s \<Longrightarrow> inv (put x s)"
  using put_room[of s x] put_full[of s x] within[of s] by (cases "length (contents s) = cap") auto

lemma put_contents: "inv s \<Longrightarrow> contents (put x s) = (if length (contents s) < cap then contents s @ [x] else contents s)"
  using put_room[of s x] put_full[of s x] within[of s] by (cases "length (contents s) = cap") auto

text \<open>A history of operations: the entries taken, in order. Taking from an empty queue is not allowed.\<close>

fun run :: "'a queue_op list \<Rightarrow> 's \<Rightarrow> 'a list \<times> 's" where
  "run [] s = ([], s)"
| "run (Put x # ops) s = run ops (put x s)"
| "run (Take # ops) s = (let (x, s) = get s; (xs, s) = run ops s in (x # xs, s))"

fun fits :: "nat \<Rightarrow> 'a queue_op list \<Rightarrow> bool" where
  "fits n [] \<longleftrightarrow> True"
| "fits n (Put x # ops) \<longleftrightarrow> n < cap \<and> fits (n + 1) ops"
| "fits n (Take # ops) \<longleftrightarrow> 0 < n \<and> fits (n - 1) ops"

fun inputs :: "'a queue_op list \<Rightarrow> 'a list" where
  "inputs [] = []"
| "inputs (Put x # ops) = x # inputs ops"
| "inputs (Take # ops) = inputs ops"

text \<open>First in, first out: what was taken and what is left is what was there and what was put.\<close>

lemma run_fifo:
  "inv s \<Longrightarrow> fits (length (contents s)) ops \<Longrightarrow>
     inv (snd (run ops s)) \<and> fst (run ops s) @ contents (snd (run ops s)) = contents s @ inputs ops"
proof (induction ops arbitrary: s rule: inputs.induct)
  case (2 x ops)
  then show ?case using put_room[of s x] 2(1)[of "put x s"] by simp
next
  case (3 ops)
  then obtain x xs where c: "contents s = x # xs" by (cases "contents s") auto
  then show ?case
    using get_first[OF 3(2) c] 3 by (cases "get s") (auto simp: split_def Let_def)
qed simp

text \<open>Entries that all fit are kept in order.\<close>

lemma fold_put:
  "inv s \<Longrightarrow> length (contents s) + length xs \<le> cap \<Longrightarrow>
     inv (fold put xs s) \<and> contents (fold put xs s) = contents s @ xs"
proof (induction xs arbitrary: s)
  case (Cons x xs)
  then show ?case using put_room[of s x] Cons(1)[of "put x s"] by simp
qed simp

end

section \<open>The queues of the kernel\<close>

record ('a, 'c) ring_buf =
  buf :: "'a list"
  p_head :: nat
  p_tail :: nat
  count :: 'c

abbreviation (input) RING_SIZE :: nat where "RING_SIZE \<equiv> 0x100"

text \<open>Advancing a pointer wraps it at the end of the array.\<close>

definition ring_next :: "nat \<Rightarrow> nat" where
  "ring_next p = (if p + 1 = RING_SIZE then 0 else p + 1)"

definition ring_put :: "'a \<Rightarrow> ('a, 'w::len word) ring_buf \<Rightarrow> ('a, 'w word) ring_buf" where
  "ring_put x r =
     (if count r < of_nat RING_SIZE
      then r\<lparr>buf := (buf r)[p_head r := x], p_head := ring_next (p_head r), count := count r + 1\<rparr>
      else r)"

definition ring_get :: "('a, 'w::len word) ring_buf \<Rightarrow> 'a \<times> ('a, 'w word) ring_buf" where
  "ring_get r = (buf r ! p_tail r, r\<lparr>p_tail := ring_next (p_tail r), count := count r - 1\<rparr>)"

definition ring_clear :: "('a, 'w::len word) ring_buf \<Rightarrow> ('a, 'w word) ring_buf" where
  "ring_clear r = r\<lparr>p_tail := p_head r, count := 0\<rparr>"

definition ring_contents :: "('a, 'w::len word) ring_buf \<Rightarrow> 'a list" where
  "ring_contents r = map (\<lambda>i. buf r ! ((p_tail r + i) mod RING_SIZE)) [0..<unat (count r)]"

definition ring_inv :: "('a, 'w::len word) ring_buf \<Rightarrow> bool" where
  "ring_inv r \<longleftrightarrow> length (buf r) = RING_SIZE \<and> p_head r < RING_SIZE \<and> p_tail r < RING_SIZE \<and>
     unat (count r) \<le> RING_SIZE \<and> p_head r = (p_tail r + unat (count r)) mod RING_SIZE \<and> 9 \<le> LENGTH('w)"

lemma ring_next_mod: "p < RING_SIZE \<Longrightarrow> ring_next p = (p + 1) mod RING_SIZE"
  by (auto simp: ring_next_def)

lemma count_lt: "9 \<le> LENGTH('w) \<Longrightarrow> c < of_nat RING_SIZE \<longleftrightarrow> unat c < RING_SIZE" for c :: "'w::len word"
proof -
  assume w: "9 \<le> LENGTH('w)"
  have "(2 :: nat) ^ 9 \<le> 2 ^ LENGTH('w)" using w by (intro power_increasing) auto
  then have "unat (of_nat RING_SIZE :: 'w word) = RING_SIZE" by (intro unat_of_nat_small) simp
  then show ?thesis by (simp only: word_less_nat_alt)
qed

lemma count_room: "9 \<le> LENGTH('w) \<Longrightarrow> unat c < RING_SIZE \<Longrightarrow> unat (c + 1) = unat c + 1" for c :: "'w::len word"
proof -
  assume w: "9 \<le> LENGTH('w)" and c: "unat c < RING_SIZE"
  have "(2 :: nat) ^ 9 \<le> 2 ^ LENGTH('w)" using w by (intro power_increasing) auto
  then show ?thesis using c w by (subst unat_plus_small) auto
qed

lemma length_ring_contents [simp]: "length (ring_contents r) = unat (count r)"
  by (simp add: ring_contents_def)

lemma ring_put_room:
  assumes i: "ring_inv r" and c: "unat (count r) < RING_SIZE"
  shows "ring_inv (ring_put x r) \<and> ring_contents (ring_put x r) = ring_contents r @ [x]"
proof -
  have w: "9 \<le> LENGTH('b)" using i by (simp add: ring_inv_def)
  let ?n = "unat (count r)"
  have p: "ring_put x r = r\<lparr>buf := (buf r)[p_head r := x], p_head := ring_next (p_head r), count := count r + 1\<rparr>"
    using c count_lt[OF w, of "count r"] by (simp add: ring_put_def)
  have n: "unat (count r + 1) = ?n + 1" by (rule count_room[OF w c])
  have hd: "p_head r = (p_tail r + ?n) mod RING_SIZE" "p_head r < RING_SIZE" "length (buf r) = RING_SIZE"
    "p_tail r < RING_SIZE" using i by (auto simp: ring_inv_def)
  have "ring_next (p_head r) = (p_tail r + (?n + 1)) mod RING_SIZE"
    using hd by (simp add: ring_next_mod mod_Suc_eq)
  then have inv: "ring_inv (ring_put x r)" using i c hd unfolding p by (simp add: ring_inv_def n)
  have "(p_tail r + j) mod RING_SIZE \<noteq> p_head r" if "j < ?n" for j
  proof
    assume "(p_tail r + j) mod RING_SIZE = p_head r"
    then have "(p_tail r + j) mod RING_SIZE = (p_tail r + ?n) mod RING_SIZE" using hd(1) by simp
    with that c hd(4) show False by (auto simp: mod_if split: if_splits)
  qed
  then have "map (\<lambda>i. (buf r)[p_head r := x] ! ((p_tail r + i) mod RING_SIZE)) [0..<?n] = ring_contents r"
    unfolding ring_contents_def by (intro map_cong refl) (metis atLeastLessThan_iff nth_list_update_neq set_upt)
  moreover have "(buf r)[p_head r := x] ! ((p_tail r + ?n) mod RING_SIZE) = x" using hd by simp
  ultimately show ?thesis using inv unfolding p by (simp add: ring_contents_def n)
qed

lemma ring_put_full: "ring_inv r \<Longrightarrow> unat (count r) = RING_SIZE \<Longrightarrow> ring_put x r = r"
proof -
  assume i: "ring_inv r" and c: "unat (count r) = RING_SIZE"
  have "9 \<le> LENGTH('b)" using i by (simp add: ring_inv_def)
  from count_lt[OF this, of "count r"] c show ?thesis by (simp add: ring_put_def)
qed

lemma ring_get_first:
  assumes i: "ring_inv r" and c: "ring_contents r = x # xs"
  shows "fst (ring_get r) = x \<and> ring_inv (snd (ring_get r)) \<and> ring_contents (snd (ring_get r)) = xs"
proof -
  let ?n = "unat (count r)"
  have "length (ring_contents r) = Suc (length xs)" using c by simp
  then have n: "unat (count r) = Suc (length xs)" by simp
  then have "count r \<noteq> 0" by auto
  then have n1: "unat (count r - 1) = length xs" using n by (simp add: unat_minus_one)
  have hd: "p_head r = (p_tail r + ?n) mod RING_SIZE" "length (buf r) = RING_SIZE" "p_tail r < RING_SIZE"
    using i by (auto simp: ring_inv_def)
  have nx: "ring_next (p_tail r) = (p_tail r + 1) mod RING_SIZE" using hd by (rule_tac ring_next_mod)
  have sh: "(ring_next (p_tail r) + j) mod RING_SIZE = (p_tail r + Suc j) mod RING_SIZE" for j
    unfolding nx by (simp add: mod_add_left_eq)
  have all: "x # xs = map (\<lambda>i. buf r ! ((p_tail r + i) mod RING_SIZE)) [0..<Suc (length xs)]"
    using c n by (simp add: ring_contents_def)
  then have "x = buf r ! p_tail r" using hd(3) by (simp add: upt_conv_Cons del: upt_Suc)
  moreover have "xs = map (\<lambda>i. buf r ! ((p_tail r + Suc i) mod RING_SIZE)) [0..<length xs]"
    using all by (simp add: upt_conv_Cons map_Suc_upt[symmetric] o_def del: upt_Suc)
  then have "ring_contents (snd (ring_get r)) = xs" by (simp add: ring_get_def ring_contents_def n1 sh)
  moreover have "ring_inv (snd (ring_get r))"
    using i hd n sh[of "length xs"] unfolding ring_inv_def ring_get_def by (simp add: n1 nx)
  ultimately show ?thesis by (simp add: ring_get_def)
qed

lemma ring_clear_empty: "ring_inv r \<Longrightarrow> ring_inv (ring_clear r) \<and> ring_contents (ring_clear r) = []"
  by (simp add: ring_inv_def ring_clear_def ring_contents_def)

interpretation ring32: fifo "ring_inv :: ('a, u32) ring_buf \<Rightarrow> bool" ring_contents ring_put ring_get RING_SIZE
  by unfold_locales (auto simp: ring_put_room ring_put_full dest: ring_get_first, auto simp: ring_inv_def)

interpretation ring64: fifo "ring_inv :: ('a, u64) ring_buf \<Rightarrow> bool" ring_contents ring_put ring_get RING_SIZE
  by unfold_locales (auto simp: ring_put_room ring_put_full dest: ring_get_first, auto simp: ring_inv_def)

end
