(* ===== verification/Keyboard.thy ===== *)
theory Keyboard
  imports Ring_Buffer
begin

text \<open>
  The keyboard driver, \<^verbatim>\<open>kernel/driver/keyboard/keyboard.c\<close> and \<^verbatim>\<open>keyboard.h\<close>. The top half
  \<^verbatim>\<open>irq1_handler\<close> queues scan codes, the driver process \<^verbatim>\<open>keyboard_bottom\<close> decodes them to key
  messages for the window manager and keeps the shift and LED states. The first part models
  the buffer and its interplay with interrupts as a state machine, the second part the
  decoder as a function of the bytes that \<^verbatim>\<open>keyboard_read\<close> returns, in order, and of how many of the
  queued bytes each \<^verbatim>\<open>keyboard_clear\<close> throws away.
\<close>

section \<open>The scan-code buffer\<close>

text \<open>
  \<open>pending\<close> counts the hardware-interrupt messages in the driver's message queue, which holds
  at most 256: \<^verbatim>\<open>sendInterrupt\<close> drops one that does not fit.
\<close>

record keyboard_state =
  kb_buf :: "(u8, u32) ring_buf"
  pending :: nat

definition kb_buf_init :: "(u8, u32) ring_buf" where
  "kb_buf_init = \<lparr>buf = replicate RING_SIZE 0, p_head = 0, p_tail = 0, count = 0\<rparr>"

definition irq1_handler :: "u8 \<Rightarrow> keyboard_state \<Rightarrow> keyboard_state" where
  "irq1_handler scan_code s =
     (let s = s\<lparr>kb_buf := ring_put scan_code (kb_buf s)\<rparr>
      in if pending s < MAX_MESSAGE_COUNT then s\<lparr>pending := pending s + 1\<rparr> else s)"

text \<open>
  \<^verbatim>\<open>keyboard_read\<close> in its three parts, between which an interrupt can arrive: it takes an interrupt
  message (\<open>None\<close> is a process that is still waiting; other messages it throws away), takes the byte
  and moves the tail pointer, and decrements the counter in its critical section.
\<close>

definition keyboard_read_receive :: "keyboard_state \<Rightarrow> keyboard_state option" where
  "keyboard_read_receive s = (if pending s = 0 then None else Some (s\<lparr>pending := pending s - 1\<rparr>))"

definition keyboard_read_fetch :: "keyboard_state \<Rightarrow> u8 \<times> keyboard_state" where
  "keyboard_read_fetch s =
     (buf (kb_buf s) ! p_tail (kb_buf s), s\<lparr>kb_buf := (kb_buf s)\<lparr>p_tail := ring_next (p_tail (kb_buf s))\<rparr>\<rparr>)"

definition keyboard_read_leave :: "keyboard_state \<Rightarrow> keyboard_state" where
  "keyboard_read_leave s = s\<lparr>kb_buf := (kb_buf s)\<lparr>count := count (kb_buf s) - 1\<rparr>\<rparr>"

text \<open>The three parts with nothing in between.\<close>

definition keyboard_read :: "keyboard_state \<Rightarrow> (u8 \<times> keyboard_state) option" where
  "keyboard_read s =
     (case keyboard_read_receive s of
        None \<Rightarrow> None
      | Some s \<Rightarrow> let (scan_code, s) = keyboard_read_fetch s in Some (scan_code, keyboard_read_leave s))"

text \<open>
  \<^verbatim>\<open>keyboard_clear\<close> in its two parts, between which an interrupt can arrive: the exchange of a
  message with itself, which throws away the interrupt messages before it, and the reset of
  the buffer.
\<close>

definition keyboard_clear_receive :: "keyboard_state \<Rightarrow> keyboard_state option" where
  "keyboard_clear_receive s =
     (if pending s < MAX_MESSAGE_COUNT then Some (s\<lparr>pending := 0\<rparr>) else None)"

definition keyboard_clear_reset :: "keyboard_state \<Rightarrow> keyboard_state" where
  "keyboard_clear_reset s = s\<lparr>kb_buf := ring_clear (kb_buf s)\<rparr>"

section \<open>The key tables\<close>

definition keymap :: "u8 list" where
  "keymap =
   [0, 0x1B, 0x31, 0x32, 0x33, 0x34, 0x35, 0x36, 0x37, 0x38, 0x39, 0x30, 0x2D, 0x3D, 0x08, 0x09,
    0x71, 0x77, 0x65, 0x72, 0x74, 0x79, 0x75, 0x69, 0x6F, 0x70, 0x5B, 0x5D, 0x0D, 0x92, 0x61, 0x73,
    0x64, 0x66, 0x67, 0x68, 0x6A, 0x6B, 0x6C, 0x3B, 0x27, 0x60, 0x90, 0x5C, 0x7A, 0x78, 0x63, 0x76,
    0x62, 0x6E, 0x6D, 0x2C, 0x2E, 0x2F, 0x91, 0x2A, 0x94, 0x20, 0x8D, 0x81, 0x82, 0x83, 0x84, 0x85,
    0x86, 0x87, 0x88, 0x89, 0x8A, 0x8E, 0x8F, 0xA7, 0xA8, 0xA9, 0x99, 0xA4, 0xA5, 0xA6, 0x98, 0xA1,
    0xA2, 0xA3, 0xA0, 0x9A, 0, 0, 0, 0x8B, 0x8C, 0, 0, 0, 0, 0, 0, 0,
    0, 0, 0, 0, 0, 0, 0, 0, 0, 0, 0, 0, 0, 0, 0, 0,
    0, 0, 0, 0, 0, 0, 0, 0, 0, 0, 0, 0, 0, 0, 0, 0]"

definition keymapE0 :: "u8 list" where
  "keymapE0 =
   [0, 0, 0, 0, 0, 0, 0, 0, 0, 0, 0, 0, 0, 0, 0, 0,
    0xC1, 0, 0, 0, 0, 0, 0, 0, 0, 0xC0, 0, 0, 0x9B, 0x93, 0, 0,
    0xC4, 0, 0xC3, 0, 0xC2, 0, 0, 0, 0, 0, 0, 0, 0, 0, 0xC6, 0,
    0xC5, 0, 0, 0, 0, 0x9C, 0, 0xAE, 0x95, 0, 0, 0, 0, 0, 0, 0,
    0, 0, 0, 0, 0, 0, 0, 0xAA, 0xB0, 0xAC, 0, 0xB2, 0, 0xB3, 0, 0xAB,
    0xB1, 0xAD, 0x9F, 0x7F, 0, 0, 0, 0, 0, 0, 0, 0x96, 0x97, 0x9E, 0, 0,
    0, 0, 0, 0, 0, 0, 0, 0, 0, 0, 0, 0, 0, 0, 0, 0,
    0, 0, 0, 0, 0, 0, 0, 0, 0, 0, 0, 0, 0, 0, 0, 0]"

abbreviation (input) CAPS :: u8 where "CAPS \<equiv> 0x8D"
abbreviation (input) NUMLOCK :: u8 where "NUMLOCK \<equiv> 0x8E"
abbreviation (input) SCRLOCK :: u8 where "SCRLOCK \<equiv> 0x8F"
abbreviation (input) SHIFT_L :: u8 where "SHIFT_L \<equiv> 0x90"
abbreviation (input) SHIFT_R :: u8 where "SHIFT_R \<equiv> 0x91"
abbreviation (input) CTRL_L :: u8 where "CTRL_L \<equiv> 0x92"
abbreviation (input) CTRL_R :: u8 where "CTRL_R \<equiv> 0x93"
abbreviation (input) ALT_L :: u8 where "ALT_L \<equiv> 0x94"
abbreviation (input) ALT_R :: u8 where "ALT_R \<equiv> 0x95"
abbreviation (input) GUI_L :: u8 where "GUI_L \<equiv> 0x96"
abbreviation (input) GUI_R :: u8 where "GUI_R \<equiv> 0x97"
abbreviation (input) PAUSE :: u8 where "PAUSE \<equiv> 0xAF"
abbreviation (input) ACK :: u8 where "ACK \<equiv> 0xFA"
abbreviation (input) SET_LED :: u8 where "SET_LED \<equiv> 0xED"

section \<open>The decoder\<close>

record KEYBOARD_MSG =
  signature :: u32
  key_type :: u8
  key :: u8
  led :: u8
  shift :: u8

definition kb_msg_init :: KEYBOARD_MSG where
  "kb_msg_init = \<lparr>signature = 2, key_type = 0, key = 0, led = 0, shift = 0\<rparr>"

text \<open>
  The driver process: the bytes that are queued or will be, in the order in which \<^verbatim>\<open>keyboard_read\<close>
  returns them, how many of them are queued at the moment of each of the next calls of
  \<^verbatim>\<open>keyboard_clear\<close>, the bytes it wrote to the port, its message structure, and the messages it sent
  to the window manager.
\<close>

record driver =
  reads :: "u8 list"
  clears :: "nat list"
  port :: "u8 list"
  kb_msg :: KEYBOARD_MSG
  sent :: "KEYBOARD_MSG list"

definition read_byte :: "driver \<Rightarrow> (u8 \<times> driver) option" where
  "read_byte s = (case reads s of [] \<Rightarrow> None | c # cs \<Rightarrow> Some (c, s\<lparr>reads := cs\<rparr>))"

text \<open>
  \<^verbatim>\<open>keyboard_clear\<close> throws away the bytes that are queued; no interrupt arrives between its two parts
  (what happens otherwise is below).
\<close>

definition keyboard_clear :: "driver \<Rightarrow> driver" where
  "keyboard_clear s = (case clears s of [] \<Rightarrow> s | n # ns \<Rightarrow> s\<lparr>reads := drop n (reads s), clears := ns\<rparr>)"

definition io_out8 :: "u8 \<Rightarrow> driver \<Rightarrow> driver" where
  "io_out8 b s = s\<lparr>port := port s @ [b]\<rparr>"

definition keyboard_send :: "u8 \<Rightarrow> driver \<Rightarrow> (bool \<times> driver) option" where
  "keyboard_send command s =
     (case read_byte (io_out8 command (keyboard_clear s)) of
        None \<Rightarrow> None
      | Some (c, s) \<Rightarrow> Some (c = ACK, s))"

definition keyboard_sendBytes :: "u8 \<Rightarrow> u8 \<Rightarrow> driver \<Rightarrow> (bool \<times> driver) option" where
  "keyboard_sendBytes command sub s =
     (case read_byte (io_out8 command (keyboard_clear s)) of
        None \<Rightarrow> None
      | Some (c, s) \<Rightarrow>
          if c \<noteq> ACK then Some (False, s)
          else case read_byte (io_out8 sub s) of
                 None \<Rightarrow> None
               | Some (c, s) \<Rightarrow> Some (c = ACK, s))"

text \<open>The scan code and the key of the next event.\<close>

definition keyboard_scan :: "driver \<Rightarrow> (u8 \<times> u8 \<times> driver) option" where
  "keyboard_scan s =
     (case read_byte s of
        None \<Rightarrow> None
      | Some (c, s) \<Rightarrow>
          if c = 0xE0 then
            (case read_byte s of
               None \<Rightarrow> None
             | Some (c, s) \<Rightarrow> Some (c, keymapE0 ! unat (c AND 0x7F), s))
          else if c = 0xE1 then
            (case read_byte s of
               None \<Rightarrow> None
             | Some (_, s) \<Rightarrow>
                 (case read_byte s of
                    None \<Rightarrow> None
                  | Some (c, s) \<Rightarrow> Some (c, PAUSE, s)))
          else Some (c, keymap ! unat (c AND 0x7F), s))"

text \<open>The bit of the shift state that a modifier key has.\<close>

definition shift_bit :: "u8 \<Rightarrow> nat option" where
  "shift_bit k =
     (if k = CTRL_L then Some 0 else if k = CTRL_R then Some 1
      else if k = ALT_L then Some 2 else if k = ALT_R then Some 3
      else if k = SHIFT_L then Some 4 else if k = SHIFT_R then Some 5
      else if k = GUI_L then Some 6 else if k = GUI_R then Some 7 else None)"

definition led_bit :: "u8 \<Rightarrow> nat option" where
  "led_bit k =
     (if k = CAPS then Some 2 else if k = NUMLOCK then Some 1
      else if k = SCRLOCK then Some 0 else None)"

definition set_shift :: "(u8 \<Rightarrow> u8) \<Rightarrow> driver \<Rightarrow> driver" where
  "set_shift f s = s\<lparr>kb_msg := (kb_msg s)\<lparr>shift := f (shift (kb_msg s))\<rparr>\<rparr>"

text \<open>The two \<^verbatim>\<open>switch\<close> statements: a released key and a pressed key.\<close>

definition key_break :: "u8 \<Rightarrow> driver \<Rightarrow> driver option" where
  "key_break parsed s =
     (case shift_bit parsed of
        Some b \<Rightarrow> Some (set_shift (\<lambda>x. BIT_CLEAR x b) s)
      | None \<Rightarrow> Some s)"

definition key_make :: "u8 \<Rightarrow> driver \<Rightarrow> driver option" where
  "key_make parsed s =
     (case led_bit parsed of
        Some b \<Rightarrow>
          (let s = s\<lparr>kb_msg := (kb_msg s)\<lparr>led := BIT_SWITCH (led (kb_msg s)) b\<rparr>\<rparr>
           in map_option snd (keyboard_sendBytes SET_LED (led (kb_msg s)) s))
      | None \<Rightarrow>
          (case shift_bit parsed of
             Some b \<Rightarrow> Some (set_shift (\<lambda>x. BIT_SET x b) s)
           | None \<Rightarrow> Some s))"

text \<open>One round of the loop of \<^verbatim>\<open>keyboard_bottom\<close>; \<open>None\<close> is a process waiting for a byte.\<close>

definition keyboard_round :: "driver \<Rightarrow> driver option" where
  "keyboard_round s =
     (case keyboard_scan s of
        None \<Rightarrow> None
      | Some (scan_code, parsed, s) \<Rightarrow>
          if parsed = 0 then Some s
          else let make = scan_code AND 0x80 in
            case (if make \<noteq> 0 then key_break parsed s else key_make parsed s) of
              None \<Rightarrow> None
            | Some s \<Rightarrow>
                let m = (kb_msg s)\<lparr>key := parsed, key_type := make\<rparr>
                in Some (s\<lparr>kb_msg := m, sent := sent s @ [m]\<rparr>))"

text \<open>The rounds of the loop until the process waits for a byte: \<open>n\<close> rounds at most.\<close>

fun keyboard_rounds :: "nat \<Rightarrow> driver \<Rightarrow> driver" where
  "keyboard_rounds 0 s = s"
| "keyboard_rounds (Suc n) s =
     (case keyboard_round s of None \<Rightarrow> s | Some s \<Rightarrow> keyboard_rounds n s)"

section \<open>The buffer and its interrupts\<close>

text \<open>
  The steps of the handler and of the driver as they interleave: an interrupt with a byte, and the
  three parts of \<^verbatim>\<open>keyboard_read\<close>. The phase says how far the current read has come.
\<close>

datatype kb_op = Interrupt u8 | Receive | Fetch | Leave

datatype read_phase = Waiting | Received | Fetched

fun kb_step :: "kb_op \<Rightarrow> read_phase \<times> keyboard_state \<Rightarrow> (u8 list \<times> read_phase \<times> keyboard_state) option" where
  "kb_step (Interrupt c) (ph, s) = Some ([], ph, irq1_handler c s)"
| "kb_step Receive (Waiting, s) = map_option (\<lambda>s. ([], Received, s)) (keyboard_read_receive s)"
| "kb_step Fetch (Received, s) = (case keyboard_read_fetch s of (c, s) \<Rightarrow> Some ([c], Fetched, s))"
| "kb_step Leave (Fetched, s) = Some ([], Waiting, keyboard_read_leave s)"
| "kb_step _ _ = None"

text \<open>A history of such steps and the bytes that its reads take.\<close>

fun kb_history :: "kb_op list \<Rightarrow> read_phase \<times> keyboard_state \<Rightarrow> (u8 list \<times> read_phase \<times> keyboard_state) option" where
  "kb_history [] x = Some ([], x)"
| "kb_history (a # ops) x =
     (case kb_step a x of
        None \<Rightarrow> None
      | Some (cs, x) \<Rightarrow> map_option (\<lambda>(ds, x). (cs @ ds, x)) (kb_history ops x))"

text \<open>The bytes of a history that find room when the counter is \<open>n\<close> before it.\<close>

fun accepted :: "nat \<Rightarrow> kb_op list \<Rightarrow> u8 list" where
  "accepted n [] = []"
| "accepted n (Interrupt c # ops) = (if n < RING_SIZE then c # accepted (n + 1) ops else accepted n ops)"
| "accepted n (Leave # ops) = accepted (n - 1) ops"
| "accepted n (_ # ops) = accepted n ops"

text \<open>
  No overrun: while a read is under way (\<open>b\<close>) no byte arrives with the counter at 256.
\<close>

fun no_overrun :: "bool \<Rightarrow> nat \<Rightarrow> kb_op list \<Rightarrow> bool" where
  "no_overrun b n [] \<longleftrightarrow> True"
| "no_overrun b n (Interrupt c # ops) \<longleftrightarrow> (b \<longrightarrow> n < RING_SIZE) \<and> no_overrun b (if n < RING_SIZE then n + 1 else n) ops"
| "no_overrun b n (Leave # ops) \<longleftrightarrow> no_overrun False (n - 1) ops"
| "no_overrun b n (_ # ops) \<longleftrightarrow> no_overrun True n ops"

text \<open>
  The bytes queued: in the middle of a read, after the tail has moved, the counter still counts the
  byte that was taken. One interrupt message is pending for each byte queued, but for the one whose
  message has been taken.
\<close>

fun queue_of :: "read_phase \<Rightarrow> keyboard_state \<Rightarrow> (u8, u32) ring_buf" where
  "queue_of Fetched s = (kb_buf s)\<lparr>count := count (kb_buf s) - 1\<rparr>"
| "queue_of _ s = kb_buf s"

abbreviation queued :: "read_phase \<Rightarrow> keyboard_state \<Rightarrow> u8 list" where
  "queued ph s \<equiv> ring_contents (queue_of ph s)"

definition kb_inv :: "read_phase \<Rightarrow> keyboard_state \<Rightarrow> bool" where
  "kb_inv ph s \<longleftrightarrow> ring_inv (queue_of ph s) \<and>
     unat (count (kb_buf s)) = length (queued ph s) + (if ph = Fetched then 1 else 0) \<and> unat (count (kb_buf s)) \<le> RING_SIZE \<and>
     pending s + (if ph = Received then 1 else 0) = length (queued ph s)"

lemma irq1_handler_ok:
  assumes "kb_inv ph s" and no: "ph \<noteq> Waiting \<Longrightarrow> unat (count (kb_buf s)) < RING_SIZE"
  shows "kb_inv ph (irq1_handler c s) \<and> queued ph (irq1_handler c s) =
      (if unat (count (kb_buf s)) < RING_SIZE then queued ph s @ [c] else queued ph s) \<and>
    unat (count (kb_buf (irq1_handler c s))) =
      (if unat (count (kb_buf s)) < RING_SIZE then unat (count (kb_buf s)) + 1 else unat (count (kb_buf s)))"
proof -
  have i: "ring_inv (queue_of ph s)" and n: "unat (count (kb_buf s)) = length (queued ph s) + (if ph = Fetched then 1 else 0)"
    and le: "unat (count (kb_buf s)) \<le> RING_SIZE" and p: "pending s + (if ph = Received then 1 else 0) = length (queued ph s)"
    using assms(1) unfolding kb_inv_def by blast+
  show ?thesis
  proof (cases "unat (count (kb_buf s)) < RING_SIZE")
    case True
    have c1: "unat (count (kb_buf s) + 1) = unat (count (kb_buf s)) + 1" by (rule count_room[OF _ True]) simp
    have put: "ring_put c (kb_buf s) = (kb_buf s)\<lparr>buf := (buf (kb_buf s))[p_head (kb_buf s) := c],
        p_head := ring_next (p_head (kb_buf s)), count := count (kb_buf s) + 1\<rparr>"
      using True count_lt[of "count (kb_buf s)"] by (simp add: ring_put_def)
    have q: "queue_of ph (irq1_handler c s) = ring_put c (queue_of ph s)"
    proof (cases ph)
      case Fetched
      have nz: "unat (count (kb_buf s)) \<noteq> 0" using n Fetched by simp
      then have "unat (count (kb_buf s) - 1) = unat (count (kb_buf s)) - 1" by (simp add: unat_minus_one unat_eq_zero)
      then have "unat (count (kb_buf s) - 1) < RING_SIZE" using True by simp
      then have "count (kb_buf s) - 1 < of_nat RING_SIZE" using count_lt[of "count (kb_buf s) - 1"] by simp
      then show ?thesis using Fetched put by (simp add: irq1_handler_def Let_def ring_put_def)
    qed (simp_all add: irq1_handler_def Let_def)
    have l: "length (queued ph s) < RING_SIZE" using n True by (simp split: if_splits)
    have r: "ring_inv (ring_put c (queue_of ph s))" "ring_contents (ring_put c (queue_of ph s)) = queued ph s @ [c]"
      using ring32.put_room[OF i l] by blast+
    have "count (kb_buf (irq1_handler c s)) = count (kb_buf s) + 1" by (simp add: irq1_handler_def Let_def put)
    then have u: "unat (count (kb_buf (irq1_handler c s))) = unat (count (kb_buf s)) + 1" using c1 by simp
    have "pending (irq1_handler c s) = pending s + 1" using p l by (simp add: irq1_handler_def Let_def del: length_ring_contents split: if_splits)
    then show ?thesis using r u n p True unfolding kb_inv_def q by (simp del: length_ring_contents)
  next
    case False
    then have w: "ph = Waiting" using no by blast
    have f: "length (queued ph s) = RING_SIZE" using n le False w by simp
    have "ring_put c (kb_buf s) = kb_buf s" using ring32.put_full[OF i f] w by simp
    moreover have "\<not> pending s < MAX_MESSAGE_COUNT" using p f w by simp
    ultimately have "irq1_handler c s = s" by (simp add: irq1_handler_def Let_def)
    then show ?thesis using assms(1) False by simp
  qed
qed

lemma read_step_ok:
  assumes "kb_inv ph s" and st: "kb_step a (ph, s) = Some (cs, ph', s')" and a: "a \<in> {Receive, Fetch, Leave}"
  shows "kb_inv ph' s' \<and> queued ph s = cs @ queued ph' s' \<and>
    unat (count (kb_buf s')) = (if a = Leave then unat (count (kb_buf s)) - 1 else unat (count (kb_buf s)))"
proof -
  have i: "ring_inv (queue_of ph s)" and n: "unat (count (kb_buf s)) = length (queued ph s) + (if ph = Fetched then 1 else 0)"
    and le: "unat (count (kb_buf s)) \<le> RING_SIZE" and p: "pending s + (if ph = Received then 1 else 0) = length (queued ph s)"
    using assms(1) unfolding kb_inv_def by blast+
  show ?thesis
  proof (cases ph)
    case Waiting
    then have "a = Receive" "cs = []" "ph' = Received" "pending s \<noteq> 0" "s' = s\<lparr>pending := pending s - 1\<rparr>"
      using st a by (auto simp: keyboard_read_receive_def split: if_splits)
    then show ?thesis using i n le p Waiting by (simp add: kb_inv_def del: length_ring_contents)
  next
    case Received
    then have s': "a = Fetch" "ph' = Fetched" "cs = [buf (kb_buf s) ! p_tail (kb_buf s)]"
        "s' = s\<lparr>kb_buf := (kb_buf s)\<lparr>p_tail := ring_next (p_tail (kb_buf s))\<rparr>\<rparr>"
      using st a by (auto simp: keyboard_read_fetch_def)
    have "queued ph s \<noteq> []" using p Received by (metis One_nat_def add_is_0 list.size(3) zero_neq_one)
    then obtain x xs where q: "ring_contents (kb_buf s) = x # xs" using Received by (auto simp: neq_Nil_conv)
    have g: "ring_get (kb_buf s) = (buf (kb_buf s) ! p_tail (kb_buf s), queue_of Fetched s')"
      by (simp add: ring_get_def s')
    have f: "buf (kb_buf s) ! p_tail (kb_buf s) = x" "ring_inv (queue_of Fetched s')" "queued Fetched s' = xs"
      using ring32.get_first[of "kb_buf s", OF _ q] i Received unfolding g by simp_all
    have "unat (count (kb_buf s)) = Suc (length xs)" "pending s = length xs" using n p q Received by (simp_all del: length_ring_contents)
    then show ?thesis using f le q Received s' by (simp add: kb_inv_def del: length_ring_contents queue_of.simps) simp
  next
    case Fetched
    then have s': "a = Leave" "ph' = Waiting" "cs = []" "s' = keyboard_read_leave s" using st a by auto
    have b: "queue_of Waiting s' = queue_of Fetched s" by (simp add: s' keyboard_read_leave_def)
    have "unat (count (kb_buf s)) \<noteq> 0" using n Fetched by simp
    then have u: "unat (count (kb_buf s) - 1) = unat (count (kb_buf s)) - 1" by (simp add: unat_minus_one unat_eq_zero)
    have c: "count (kb_buf s') = count (kb_buf s) - 1" "pending s' = pending s" by (simp_all add: s' keyboard_read_leave_def)
    show ?thesis unfolding kb_inv_def s'(2,3) b using i n le p Fetched c u s'(1) by (simp del: length_ring_contents queue_of.simps)
  qed
qed

lemma kb_history_fifo:
  "kb_inv ph s \<Longrightarrow> no_overrun (ph \<noteq> Waiting) (unat (count (kb_buf s))) ops \<Longrightarrow> kb_history ops (ph, s) = Some (cs, ph', s') \<Longrightarrow>
     kb_inv ph' s' \<and> cs @ queued ph' s' = queued ph s @ accepted (unat (count (kb_buf s))) ops"
proof (induction ops arbitrary: ph s cs)
  case (Cons a ops)
  let ?n = "unat (count (kb_buf s))"
  obtain c1 ph1 s1 where 1: "kb_step a (ph, s) = Some (c1, ph1, s1)" using Cons.prems(3) by (auto split: option.splits)
  obtain c2 where 2: "kb_history ops (ph1, s1) = Some (c2, ph', s')" "cs = c1 @ c2" using Cons.prems(3) 1 by auto
  show ?case
  proof (cases a)
    case (Interrupt c)
    then have s1: "c1 = []" "ph1 = ph" "s1 = irq1_handler c s" using 1 by simp_all
    have no: "ph \<noteq> Waiting \<Longrightarrow> ?n < RING_SIZE" using Cons.prems(2) Interrupt by simp
    note k = irq1_handler_ok[OF Cons.prems(1) no, of c]
    have "no_overrun (ph1 \<noteq> Waiting) (unat (count (kb_buf s1))) ops"
      using Cons.prems(2) k unfolding s1 Interrupt by simp
    from Cons.IH[OF _ this 2(1)] k show ?thesis unfolding s1 2(2) Interrupt by (simp split: if_splits del: queue_of.simps)
  next
    case Receive
    then have w: "ph = Waiting" "ph1 = Received" "a \<in> {Receive, Fetch, Leave}" using 1 by (cases ph; auto)+
    note k = read_step_ok[OF Cons.prems(1) 1 w(3)]
    have "no_overrun (ph1 \<noteq> Waiting) (unat (count (kb_buf s1))) ops" using Cons.prems(2) k w Receive by simp
    from Cons.IH[OF _ this 2(1)] k show ?thesis unfolding 2(2) using Receive by (simp del: queue_of.simps)
  next
    case Fetch
    then have w: "ph = Received" "ph1 = Fetched" "a \<in> {Receive, Fetch, Leave}" using 1 by (cases ph; auto split: prod.splits)+
    note k = read_step_ok[OF Cons.prems(1) 1 w(3)]
    have "no_overrun (ph1 \<noteq> Waiting) (unat (count (kb_buf s1))) ops" using Cons.prems(2) k w Fetch by simp
    from Cons.IH[OF _ this 2(1)] k show ?thesis unfolding 2(2) using Fetch by (simp del: queue_of.simps)
  next
    case Leave
    then have w: "ph = Fetched" "ph1 = Waiting" "a \<in> {Receive, Fetch, Leave}" using 1 by (cases ph; auto)+
    note k = read_step_ok[OF Cons.prems(1) 1 w(3)]
    have "no_overrun (ph1 \<noteq> Waiting) (unat (count (kb_buf s1))) ops" using Cons.prems(2) k w Leave by simp
    from Cons.IH[OF _ this 2(1)] k show ?thesis unfolding 2(2) using Leave by (simp del: queue_of.simps)
  qed
qed simp

section \<open>The decoder on well-formed scan codes\<close>

text \<open>
  A key event as the keyboard sends it: the bytes before the code (none, \<open>0xE0\<close>, or \<open>0xE1\<close> and one
  more byte), the code, and whether the key was released. A pressed lock key makes the driver send
  the LED command: \<open>lost\<close> are the bytes that are queued at that moment, which \<^verbatim>\<open>keyboard_clear\<close>
  throws away, and after them come the two acknowledgements of the command.
\<close>

record key_event =
  lead :: "u8 list"
  code :: u8
  released :: bool
  lost :: "u8 list"

definition wf_event :: "key_event \<Rightarrow> bool" where
  "wf_event e \<longleftrightarrow> code e < 0x80 \<and>
     (case lead e of
        [] \<Rightarrow> code e \<noteq> 0x60 \<and> code e \<noteq> 0x61
      | [l] \<Rightarrow> l = 0xE0
      | [l, _] \<Rightarrow> l = 0xE1
      | _ \<Rightarrow> False)"

definition event_key :: "key_event \<Rightarrow> u8" where
  "event_key e =
     (case lead e of
        [] \<Rightarrow> keymap ! unat (code e)
      | [_] \<Rightarrow> keymapE0 ! unat (code e)
      | _ \<Rightarrow> PAUSE)"

definition locks :: "key_event \<Rightarrow> bool" where
  "locks e \<longleftrightarrow> \<not> released e \<and> led_bit (event_key e) \<noteq> None"

definition event_bytes :: "key_event \<Rightarrow> u8 list" where
  "event_bytes e =
     lead e @ [if released e then code e OR 0x80 else code e] @ (if locks e then lost e @ [ACK, ACK] else [])"

definition event_clears :: "key_event \<Rightarrow> nat list" where
  "event_clears e = (if locks e then [length (lost e)] else [])"

text \<open>What an event does to the message structure.\<close>

definition event_msg :: "key_event \<Rightarrow> KEYBOARD_MSG \<Rightarrow> KEYBOARD_MSG" where
  "event_msg e m =
     (let k = event_key e;
          sh = (case shift_bit k of
                  None \<Rightarrow> shift m
                | Some b \<Rightarrow> if released e then BIT_CLEAR (shift m) b else BIT_SET (shift m) b);
          ld = (if locks e then BIT_SWITCH (led m) (the (led_bit k)) else led m)
      in if k = 0 then m
         else m\<lparr>key_type := (if released e then 0x80 else 0), key := k, shift := sh, led := ld\<rparr>)"

lemma code_bits:
  "c < 0x80 \<Longrightarrow> (c OR 0x80) AND 0x7F = c \<and> c AND 0x7F = c \<and> (c OR 0x80) AND 0x80 = 0x80 \<and> c AND 0x80 = 0
     \<and> (c OR 0x80 = 0xE0 \<longleftrightarrow> c = 0x60) \<and> (c OR 0x80 = 0xE1 \<longleftrightarrow> c = 0x61)" for c :: u8
proof -
  have "\<forall>c :: u8. c < 0x80 \<longrightarrow> (c OR 0x80) AND 0x7F = c \<and> c AND 0x7F = c \<and> (c OR 0x80) AND 0x80 = 0x80 \<and> c AND 0x80 = 0
     \<and> (c OR 0x80 = 0xE0 \<longleftrightarrow> c = 0x60) \<and> (c OR 0x80 = 0xE1 \<longleftrightarrow> c = 0x61)"
    unfolding all_u8 by code_simp
  then show "c < 0x80 \<Longrightarrow> ?thesis" by blast
qed

lemma keyboard_scan_event:
  assumes "wf_event e"
  shows "keyboard_scan (s\<lparr>reads := event_bytes e @ rest\<rparr>)
    = Some (if released e then code e OR 0x80 else code e, event_key e,
            s\<lparr>reads := (if locks e then lost e @ [ACK, ACK] else []) @ rest\<rparr>)"
proof -
  have c: "code e < 0x80" using assms by (simp add: wf_event_def)
  then have n: "code e \<noteq> 0xE0" "code e \<noteq> 0xE1" by auto
  consider "lead e = []" "code e \<noteq> 0x60" "code e \<noteq> 0x61" | "lead e = [0xE0]" | x where "lead e = [0xE1, x]"
    using assms by (auto simp: wf_event_def split: list.splits)
  then show ?thesis
    by cases (use n code_bits[OF c] in \<open>auto simp: keyboard_scan_def read_byte_def event_bytes_def event_key_def\<close>)
qed

lemma led_bits: "led_bit k = Some b \<Longrightarrow> shift_bit k = None \<and> k \<noteq> 0 \<and> b < 8"
  by (auto simp: led_bit_def shift_bit_def split: if_splits)

lemma shift_bits: "shift_bit k = Some b \<Longrightarrow> b < 8 \<and> k \<noteq> 0"
  by (auto simp: shift_bit_def split: if_splits)

lemma keyboard_round_event:
  assumes "wf_event e"
  shows "keyboard_round (s\<lparr>reads := event_bytes e @ rest, clears := event_clears e @ cl\<rparr>)
    = Some (s\<lparr>reads := rest, clears := cl, kb_msg := event_msg e (kb_msg s),
         port := port s @ (if locks e then [SET_LED, led (event_msg e (kb_msg s))] else []),
         sent := sent s @ (if event_key e = 0 then [] else [event_msg e (kb_msg s)])\<rparr>)"
proof -
  have b: "(code e OR 0x80) AND 0x80 = 0x80" "code e AND 0x80 = 0"
    using assms code_bits by (auto simp: wf_event_def)
  let ?s = "s\<lparr>clears := event_clears e @ cl\<rparr>"
  have x: "s\<lparr>reads := event_bytes e @ rest, clears := event_clears e @ cl\<rparr> = ?s\<lparr>reads := event_bytes e @ rest\<rparr>" by simp
  note sc = keyboard_scan_event[OF assms, where s = ?s and rest = rest]
  show ?thesis
  proof (cases "event_key e = 0")
    case True
    then have "\<not> locks e" by (auto simp: locks_def led_bit_def)
    with True show ?thesis unfolding keyboard_round_def x sc by (simp add: event_msg_def event_clears_def)
  next
    case False
    show ?thesis
    proof (cases "locks e")
      case True
      then obtain b where l: "led_bit (event_key e) = Some b" "\<not> released e" "shift_bit (event_key e) = None"
        using led_bits by (auto simp: locks_def)
      show ?thesis
        unfolding keyboard_round_def x sc
        using False True l b
        by (simp add: key_make_def keyboard_sendBytes_def keyboard_clear_def read_byte_def io_out8_def event_msg_def
            event_clears_def Let_def)
    next
      case nl: False
      then have l: "\<not> released e \<Longrightarrow> led_bit (event_key e) = None" by (simp add: locks_def)
      show ?thesis
        unfolding keyboard_round_def x sc
        using False nl l b
        by (cases "released e"; cases "shift_bit (event_key e)")
          (simp_all add: key_make_def key_break_def set_shift_def event_msg_def event_clears_def Let_def)
    qed
  qed
qed

text \<open>A whole stream of events.\<close>

fun event_msgs :: "key_event list \<Rightarrow> KEYBOARD_MSG \<Rightarrow> KEYBOARD_MSG list" where
  "event_msgs [] m = []"
| "event_msgs (e # es) m =
     (if event_key e = 0 then [] else [event_msg e m]) @ event_msgs es (event_msg e m)"

lemma keyboard_rounds_events:
  assumes "\<forall>e \<in> set es. wf_event e" "reads s = concat (map event_bytes es) @ rest"
    "clears s = concat (map event_clears es) @ cl"
  shows "reads (keyboard_rounds (length es) s) = rest
    \<and> kb_msg (keyboard_rounds (length es) s) = fold event_msg es (kb_msg s)
    \<and> sent (keyboard_rounds (length es) s) = sent s @ event_msgs es (kb_msg s)"
  using assms
proof (induction es arbitrary: s)
  case (Cons e es)
  let ?r = "concat (map event_bytes es) @ rest" and ?c = "concat (map event_clears es) @ cl"
  let ?s = "s\<lparr>reads := ?r, clears := ?c, kb_msg := event_msg e (kb_msg s),
         port := port s @ (if locks e then [SET_LED, led (event_msg e (kb_msg s))] else []),
         sent := sent s @ (if event_key e = 0 then [] else [event_msg e (kb_msg s)])\<rparr>"
  have "s = s\<lparr>reads := event_bytes e @ ?r, clears := event_clears e @ ?c\<rparr>" using Cons.prems(2,3) by simp
  then have "keyboard_round s = Some ?s"
    using keyboard_round_event[where e = e and s = s and rest = ?r and cl = ?c] Cons.prems(1) by simp
  then show ?case using Cons.IH[of ?s] Cons.prems(1) by simp
qed simp

text \<open>The messages, by the events of known keys.\<close>

abbreviation known :: "key_event list \<Rightarrow> key_event list" where
  "known es \<equiv> filter (\<lambda>e. event_key e \<noteq> 0) es"

lemma event_msg_unknown: "event_key e = 0 \<Longrightarrow> event_msg e m = m"
  by (simp add: event_msg_def)

lemma event_msg_own:
  "event_key e \<noteq> 0 \<Longrightarrow> key (event_msg e m) = event_key e \<and>
     key_type (event_msg e m) = (if released e then 0x80 else 0) \<and> signature (event_msg e m) = signature m"
  by (simp add: event_msg_def Let_def)

lemma event_msgs_nth:
  "length (event_msgs es m) = length (known es) \<and>
   (\<forall>i < length (known es). event_msgs es m ! i = fold event_msg (take (Suc i) (known es)) m)"
proof (induction es arbitrary: m)
  case (Cons e es)
  show ?case
  proof (cases "event_key e = 0")
    case True
    then show ?thesis using Cons[of m] by (simp add: event_msg_unknown)
  next
    case False
    note ih = Cons[of "event_msg e m"]
    have "event_msgs (e # es) m ! i = fold event_msg (take (Suc i) (known (e # es))) m" if "i < length (known (e # es))" for i
      using ih False that by (cases i) simp_all
    then show ?thesis using ih False by simp
  qed
qed simp

lemma fold_event_own:
  assumes "i < length (known es)"
  shows "key (fold event_msg (take (Suc i) (known es)) m) = event_key (known es ! i) \<and>
    key_type (fold event_msg (take (Suc i) (known es)) m) = (if released (known es ! i) then 0x80 else 0)"
proof -
  have "event_key (known es ! i) \<noteq> 0" using assms nth_mem[of i "known es"] by auto
  then show ?thesis using event_msg_own[of "known es ! i"] assms by (simp add: take_Suc_conv_app_nth)
qed

text \<open>
  What a stream of events says of a modifier key and of a lock key: whether the modifier was last
  pressed or released, and how often the lock key was pressed.
\<close>

definition held :: "u8 \<Rightarrow> key_event list \<Rightarrow> bool \<Rightarrow> bool" where
  "held k es before = (let hs = filter (\<lambda>e. event_key e = k) es in if hs = [] then before else \<not> released (last hs))"

definition toggled :: "u8 \<Rightarrow> key_event list \<Rightarrow> bool \<Rightarrow> bool" where
  "toggled k es before = (before \<noteq> odd (length (filter (\<lambda>e. event_key e = k \<and> \<not> released e) es)))"

text \<open>The final shift and LED states.\<close>

lemma bit_tests:
  fixes x :: u8
  assumes "b < 8"
  shows "BIT_TEST (BIT_SET x b) c \<longleftrightarrow> b = c \<or> BIT_TEST x c"
    "BIT_TEST (BIT_CLEAR x b) c \<longleftrightarrow> b \<noteq> c \<and> BIT_TEST x c"
    "BIT_TEST (BIT_SWITCH x b) c \<longleftrightarrow> (if b = c then \<not> BIT_TEST x c else BIT_TEST x c)"
  using assms by (auto simp: bit_macro_simps)

lemma event_msg_shift:
  assumes "shift_bit k = Some b"
  shows "BIT_TEST (shift (event_msg e m)) b
    = (if event_key e = k then \<not> released e else BIT_TEST (shift m) b)"
proof -
  have inj: "shift_bit k' = Some b \<Longrightarrow> k' = k" for k'
    using assms by (auto simp: shift_bit_def split: if_splits)
  show ?thesis
  proof (cases "shift_bit (event_key e)")
    case None
    then have "event_key e \<noteq> k" using assms by auto
    with None show ?thesis by (simp add: event_msg_def Let_def)
  next
    case (Some b')
    then have b': "b' < 8" "event_key e \<noteq> 0" "b' = b \<longleftrightarrow> event_key e = k"
      using shift_bits[OF Some] inj[of "event_key e"] assms by auto
    with Some show ?thesis by (simp add: event_msg_def Let_def bit_tests)
  qed
qed

lemma fold_event_shift:
  assumes "shift_bit k = Some b"
  shows "BIT_TEST (shift (fold event_msg es m)) b = held k es (BIT_TEST (shift m) b)"
  by (induction es arbitrary: m) (auto simp: event_msg_shift[OF assms] held_def Let_def)

lemma event_msg_led:
  assumes "led_bit k = Some b"
  shows "BIT_TEST (led (event_msg e m)) b = (BIT_TEST (led m) b \<noteq> (event_key e = k \<and> \<not> released e))"
proof -
  have inj: "led_bit k' = Some b \<Longrightarrow> k' = k" for k'
    using assms by (auto simp: led_bit_def split: if_splits)
  show ?thesis
  proof (cases "locks e")
    case False
    then show ?thesis using assms by (auto simp: event_msg_def Let_def locks_def)
  next
    case True
    then obtain b' where "led_bit (event_key e) = Some b'" by (auto simp: locks_def)
    then have "b' < 8" "event_key e \<noteq> 0" "b' = b \<longleftrightarrow> event_key e = k" "led_bit (event_key e) = Some b'"
      using led_bits inj[of "event_key e"] assms by auto
    with True show ?thesis by (auto simp: event_msg_def Let_def locks_def bit_tests)
  qed
qed

lemma fold_event_led:
  assumes "led_bit k = Some b"
  shows "BIT_TEST (led (fold event_msg es m)) b = toggled k es (BIT_TEST (led m) b)"
  by (induction es arbitrary: m) (auto simp: event_msg_led[OF assms] toggled_def)

section \<open>Properties\<close>

lemma kb_inv_init: "kb_inv Waiting \<lparr>kb_buf = kb_buf_init, pending = 0\<rparr>" "ring_contents kb_buf_init = []"
  by (simp_all add: kb_inv_def ring_inv_def kb_buf_init_def ring_contents_def)

text \<open>
  C29. The scan-code buffer is first in, first out under any interleaving of interrupts with the
  steps of the reads (an interrupt can come between any two of them): if no byte arrives
  at a full buffer while a read is under way, the bytes read, followed by those still queued, are
  the bytes queued before followed by the bytes that arrived when the counter was below 256, and one
  interrupt message is pending for each queued byte, but for the one that a read has taken already.
  A byte that arrives at a full buffer between two reads is dropped with its message.
\<close>

theorem keyboard_buffer_fifo:
  assumes "ring_inv (kb_buf s)" and "pending s = length (ring_contents (kb_buf s))"
    and "no_overrun False (length (ring_contents (kb_buf s))) ops"
    and "kb_history ops (Waiting, s) = Some (cs, ph, s')"
  shows "cs @ ring_contents (queue_of ph s')
           = ring_contents (kb_buf s) @ accepted (length (ring_contents (kb_buf s))) ops \<and>
         ring_inv (queue_of ph s') \<and>
         pending s' + (if ph = Received then 1 else 0) = length (ring_contents (queue_of ph s'))"
proof -
  have "unat (count (kb_buf s)) \<le> RING_SIZE" using assms(1) by (simp add: ring_inv_def)
  then have i: "kb_inv Waiting s" using assms(1,2) by (simp add: kb_inv_def)
  show ?thesis using kb_history_fifo[OF i _ assms(4)] assms(3) unfolding kb_inv_def by simp
qed

theorem keyboard_buffer_fifo_witness:
  "\<exists>s'. kb_history [Interrupt 30, Receive, Interrupt 158, Fetch, Interrupt 31, Leave, Receive]
       (Waiting, \<lparr>kb_buf = kb_buf_init, pending = 0\<rparr>) = Some ([30], Received, s') \<and>
     ring_contents (kb_buf s') = [158, 31] \<and> pending s' = 1"
proof -
  let ?s = "\<lparr>kb_buf = kb_buf_init, pending = 0\<rparr>"
  let ?ops = "[Interrupt 30, Receive, Interrupt 158, Fetch, Interrupt 31, Leave, Receive]"
  have "length (replicate RING_SIZE (0 :: u8)) = RING_SIZE" by simp
  then obtain b bs where r: "replicate RING_SIZE (0 :: u8) = b # bs" by (cases "replicate RING_SIZE (0 :: u8)") auto
  obtain s' where h: "kb_history ?ops (Waiting, ?s) = Some ([30], Received, s')"
    by (simp add: keyboard_read_receive_def keyboard_read_fetch_def keyboard_read_leave_def irq1_handler_def Let_def
        ring_put_def ring_next_def kb_buf_init_def r)
  have "ring_inv (kb_buf ?s)" "pending ?s = length (ring_contents (kb_buf ?s))"
    using kb_inv_init unfolding kb_inv_def by simp_all
  moreover have "no_overrun False (length (ring_contents (kb_buf ?s))) ?ops" by (simp add: kb_buf_init_def)
  ultimately have c: "[30] @ ring_contents (queue_of Received s')
        = ring_contents (kb_buf ?s) @ accepted (length (ring_contents (kb_buf ?s))) ?ops"
      "pending s' + (if Received = Received then 1 else 0) = length (ring_contents (queue_of Received s'))"
    using keyboard_buffer_fifo[OF _ _ _ h] by blast+
  have "ring_contents (kb_buf s') = [158, 31]" using c(1) kb_inv_init(2) by (simp add: kb_buf_init_def)
  moreover from this have "pending s' = 1" using c(2) by simp
  ultimately show ?thesis using h by blast
qed

text \<open>
  The case left out: with a full buffer, a byte that arrives in the middle of a read, after the driver
  took its message and before it decremented the counter, is dropped, but its message is queued,
  for there is room for it. From then on there is a message more than bytes: when the driver has
  read the bytes, the next read does not wait, takes a byte that was not queued and wraps the
  counter.
\<close>

lemma kb_reads:
  "n \<le> pending s \<Longrightarrow> \<exists>cs s'. kb_history (concat (replicate n [Receive, Fetch, Leave])) (Waiting, s) = Some (cs, Waiting, s') \<and>
     length cs = n \<and> count (kb_buf s') = count (kb_buf s) - of_nat n"
proof (induction n arbitrary: s)
  case (Suc n)
  define s1 where "s1 = keyboard_read_leave (snd (keyboard_read_fetch (s\<lparr>pending := pending s - 1\<rparr>)))"
  have s1: "pending s1 = pending s - 1" "count (kb_buf s1) = count (kb_buf s) - 1"
    by (simp_all add: s1_def keyboard_read_leave_def keyboard_read_fetch_def)
  have n: "n \<le> pending s1" using Suc.prems s1 by simp
  obtain cs s' where h: "kb_history (concat (replicate n [Receive, Fetch, Leave])) (Waiting, s1) = Some (cs, Waiting, s')"
      "length cs = n" "count (kb_buf s') = count (kb_buf s1) - of_nat n"
    using Suc.IH[OF n] by blast
  have "pending s \<noteq> 0" using Suc.prems by simp
  moreover have "keyboard_read_leave (snd (keyboard_read_fetch (s\<lparr>pending := pending s - Suc 0\<rparr>))) = s1" by (simp add: s1_def)
  ultimately show ?case using h s1 by (simp add: keyboard_read_receive_def split_def diff_diff_eq)
qed simp

lemma keyboard_read_overrun:
  assumes "kb_inv Waiting s" "length (ring_contents (kb_buf s)) = RING_SIZE"
  shows "\<exists>c s1 cs s2. kb_history [Receive, Interrupt b, Fetch, Leave] (Waiting, s) = Some ([c], Waiting, s1) \<and>
    kb_history (concat (replicate RING_SIZE [Receive, Fetch, Leave])) (Waiting, s1) = Some (cs, Waiting, s2) \<and>
    count (kb_buf s2) = 0xFFFFFFFF"
proof -
  have p: "pending s = 256" and c: "unat (count (kb_buf s)) = 256"
    using assms unfolding kb_inv_def by simp_all
  have c': "count (kb_buf s) = 256" using c by (simp add: word_unat_eq_iff)
  have f: "irq1_handler b (s\<lparr>pending := 255\<rparr>) = s" using p c' by (simp add: irq1_handler_def ring_put_def)
  let ?s1 = "keyboard_read_leave (snd (keyboard_read_fetch s))"
  have 1: "kb_history [Receive, Interrupt b, Fetch, Leave] (Waiting, s) = Some ([fst (keyboard_read_fetch s)], Waiting, ?s1)"
    using p f by (simp add: keyboard_read_receive_def split_def)
  have s1: "pending ?s1 = 256" "count (kb_buf ?s1) = 255"
    using p c' by (simp_all add: keyboard_read_leave_def keyboard_read_fetch_def)
  show ?thesis using 1 kb_reads[of RING_SIZE ?s1] s1 by auto
qed

text \<open>
  C30. \<^verbatim>\<open>keyboard_clear\<close> races with the interrupt handler: if a byte arrives after the driver
  drained its messages and before it resets the buffer, the next \<^verbatim>\<open>keyboard_read\<close> takes a byte
  that is no longer queued, the counter wraps to \<open>0xFFFFFFFF\<close>, and from then on every byte
  that arrives is dropped.
\<close>

theorem keyboard_clear_race:
  assumes "ring_inv (kb_buf s)" and "pending s < 256"
  shows "\<exists>s1 c s2. keyboard_clear_receive s = Some s1 \<and>
           keyboard_read (keyboard_clear_reset (irq1_handler b s1)) = Some (c, s2) \<and>
           count (kb_buf s2) = 0xFFFFFFFF \<and> (\<forall>bs. kb_buf (fold irq1_handler bs s2) = kb_buf s2)"
proof -
  let ?s1 = "s\<lparr>pending := 0\<rparr>"
  let ?s = "keyboard_clear_reset (irq1_handler b ?s1)"
  have r: "keyboard_clear_receive s = Some ?s1" using assms by (simp add: keyboard_clear_receive_def)
  have p: "pending ?s = 1" "count (kb_buf ?s) = 0"
    by (simp_all add: keyboard_clear_reset_def irq1_handler_def ring_clear_def)
  obtain c s2 where g: "keyboard_read ?s = Some (c, s2)" "count (kb_buf s2) = 0xFFFFFFFF"
    using p by (simp add: keyboard_read_def keyboard_read_receive_def keyboard_read_fetch_def keyboard_read_leave_def)
  have full: "kb_buf (irq1_handler x t) = kb_buf t" if "count (kb_buf t) = 0xFFFFFFFF" for x t
    using that by (simp add: irq1_handler_def ring_put_def)
  have stay: "kb_buf (fold irq1_handler bs t) = kb_buf t" if "count (kb_buf t) = 0xFFFFFFFF" for bs t
    using that by (induction bs arbitrary: t) (simp_all add: full)
  show ?thesis using r g stay by blast
qed

theorem keyboard_clear_race_witness:
  "\<exists>c s2. keyboard_read (keyboard_clear_reset (irq1_handler 58 \<lparr>kb_buf = kb_buf_init, pending = 0\<rparr>)) = Some (c, s2) \<and>
     (\<forall>bs. kb_buf (fold irq1_handler bs s2) = kb_buf s2)"
proof -
  let ?s = "\<lparr>kb_buf = kb_buf_init, pending = 0\<rparr>"
  have "ring_inv (kb_buf ?s)" "pending ?s < 256" using kb_inv_init(1) unfolding kb_inv_def by simp_all
  from keyboard_clear_race[OF this, of 58] obtain s1 c s2 where
    "keyboard_clear_receive ?s = Some s1" "keyboard_read (keyboard_clear_reset (irq1_handler 58 s1)) = Some (c, s2)"
    "\<forall>bs. kb_buf (fold irq1_handler bs s2) = kb_buf s2" by blast
  moreover have "keyboard_clear_receive ?s = Some ?s" by (simp add: keyboard_clear_receive_def)
  ultimately show ?thesis by auto
qed

text \<open>
  No two keys of the two tables share a code, and each table has an entry for every 7-bit
  scan code, so the lookup never leaves the array.
\<close>

theorem keymaps_injective:
  "length keymap = 0x80 \<and> length keymapE0 = 0x80 \<and> distinct (filter (\<lambda>k. k \<noteq> 0) (keymap @ keymapE0)) \<and>
   unat (c AND 0x7F :: u8) < 0x80"
proof -
  have "length keymap = 0x80 \<and> length keymapE0 = 0x80 \<and> distinct (filter (\<lambda>k. k \<noteq> 0) (keymap @ keymapE0))"
    by code_simp
  moreover have "c AND 0x7F \<le> 0x7F" by (rule word_and_le1)
  then have "unat (c AND 0x7F) < 0x80" by (simp add: word_le_nat_alt)
  ultimately show ?thesis by blast
qed

text \<open>
  C27. On any stream of key events the driver consumes exactly the events' bytes and sends one
  message for each event of a known key, in order: its key, whether the key was released, in each
  shift bit whether that modifier key is held down after the event (the bit of the start if it had no
  event yet), and each LED bit of the start switched once for each press of its lock key up to the event. An event is a
  plain, an \<open>0xE0\<close> or an \<open>0xE1\<close> code, pressed or released. A pressed lock key
  sends the LED command, which first throws away what is queued: these bytes are in the stream and
  reach no message. The keyboard acknowledges the LED command, and no byte arrives between the two
  parts of \<^verbatim>\<open>keyboard_clear\<close>.
\<close>

theorem keyboard_decodes_events:
  assumes "\<forall>e \<in> set es. wf_event e" and "reads s = concat (map event_bytes es)"
    and "clears s = map (\<lambda>e. length (lost e)) (filter locks es)"
  shows "let t = keyboard_rounds (length es) s; known = filter (\<lambda>e. event_key e \<noteq> 0) es in
     reads t = [] \<and>
     (\<exists>ms. sent t = sent s @ ms \<and> length ms = length known \<and>
        (\<forall>i < length known.
           key (ms ! i) = event_key (known ! i) \<and>
           key_type (ms ! i) = (if released (known ! i) then 0x80 else 0) \<and>
           (\<forall>k b. shift_bit k = Some b \<longrightarrow>
              BIT_TEST (shift (ms ! i)) b = held k (take (Suc i) known) (BIT_TEST (shift (kb_msg s)) b)) \<and>
           (\<forall>k b. led_bit k = Some b \<longrightarrow>
              BIT_TEST (led (ms ! i)) b = toggled k (take (Suc i) known) (BIT_TEST (led (kb_msg s)) b)))) \<and>
     (\<forall>k b. shift_bit k = Some b \<longrightarrow> BIT_TEST (shift (kb_msg t)) b = held k es (BIT_TEST (shift (kb_msg s)) b)) \<and>
     (\<forall>k b. led_bit k = Some b \<longrightarrow> BIT_TEST (led (kb_msg t)) b = toggled k es (BIT_TEST (led (kb_msg s)) b))"
proof -
  have r: "reads s = concat (map event_bytes es) @ []" using assms(2) by simp
  have "map (\<lambda>e. length (lost e)) (filter locks es) = concat (map event_clears es)"
    by (induction es) (simp_all add: event_clears_def)
  then have c: "clears s = concat (map event_clears es) @ []" using assms(3) by simp
  note rs = keyboard_rounds_events[OF assms(1) r c]
  show ?thesis
    unfolding Let_def
    using rs event_msgs_nth[of es "kb_msg s"] fold_event_own[of _ es "kb_msg s"] fold_event_shift fold_event_led by auto
qed

theorem keyboard_decodes_events_witness:
  "\<exists>m1 m2 m3. sent (keyboard_rounds 3 \<lparr>reads = [0x2A, 0x3A, 0x1E, 0xFA, 0xFA, 0xAA], clears = [1], port = [],
       kb_msg = kb_msg_init, sent = []\<rparr>) = [m1, m2, m3] \<and>
     key m1 = SHIFT_L \<and> key m2 = CAPS \<and> BIT_TEST (shift m2) 4 \<and> BIT_TEST (led m2) 2 \<and>
     key m3 = SHIFT_L \<and> key_type m3 = 0x80 \<and> \<not> BIT_TEST (shift m3) 4 \<and> BIT_TEST (led m3) 2"
proof -
  define e1 where "e1 = \<lparr>lead = [], code = 0x2A, released = False, lost = []\<rparr>"
  define e2 where "e2 = \<lparr>lead = [], code = 0x3A, released = False, lost = [0x1E]\<rparr>"
  define e3 where "e3 = \<lparr>lead = [], code = 0x2A, released = True, lost = []\<rparr>"
  let ?s = "\<lparr>reads = [0x2A, 0x3A, 0x1E, 0xFA, 0xFA, 0xAA], clears = [1], port = [], kb_msg = kb_msg_init, sent = []\<rparr>"
  let ?es = "[e1, e2, e3]"
  have k: "event_key e1 = SHIFT_L" "event_key e2 = CAPS" "event_key e3 = SHIFT_L"
    "\<not> released e1" "\<not> released e2" "released e3"
    by (simp_all add: event_key_def keymap_def e1_def e2_def e3_def)
  then have l: "\<not> locks e1" "locks e2" "\<not> locks e3" by (simp_all add: locks_def led_bit_def)
  have "event_bytes e1 = [0x2A]" "event_bytes e2 = [0x3A, 0x1E, 0xFA, 0xFA]" "event_bytes e3 = [0xAA]"
    using l by (simp_all add: event_bytes_def e1_def e2_def e3_def)
  then have r: "reads ?s = concat (map event_bytes ?es)" by simp
  have c: "clears ?s = map (\<lambda>e. length (lost e)) (filter locks ?es)" using l by (simp add: e2_def)
  have w: "\<forall>e \<in> set ?es. wf_event e" by (simp add: wf_event_def e1_def e2_def e3_def)
  have f: "filter (\<lambda>e. event_key e \<noteq> 0) ?es = ?es" using k by simp
  from keyboard_decodes_events[OF w r c, unfolded Let_def f] obtain ms where
    ms: "sent (keyboard_rounds (length ?es) ?s) = sent ?s @ ms" "length ms = length ?es" and
    m: "\<forall>i < length ?es. key (ms ! i) = event_key (?es ! i) \<and>
           key_type (ms ! i) = (if released (?es ! i) then 0x80 else 0) \<and>
           (\<forall>k b. shift_bit k = Some b \<longrightarrow>
              BIT_TEST (shift (ms ! i)) b = held k (take (Suc i) ?es) (BIT_TEST (shift (kb_msg ?s)) b)) \<and>
           (\<forall>k b. led_bit k = Some b \<longrightarrow>
              BIT_TEST (led (ms ! i)) b = toggled k (take (Suc i) ?es) (BIT_TEST (led (kb_msg ?s)) b))" by blast
  have "length ms = 3" using ms(2) by simp
  then obtain m1 m2 m3 where e: "ms = [m1, m2, m3]" by (auto simp: numeral_3_eq_3 length_Suc_conv)
  have b: "shift_bit SHIFT_L = Some 4" "led_bit CAPS = Some 2" by (simp_all add: shift_bit_def led_bit_def)
  have i: "BIT_TEST (led (kb_msg ?s)) 2 = False" by (simp add: kb_msg_init_def BIT_TEST_def)
  have "key m1 = SHIFT_L" using m[rule_format, of 0] k by (simp add: e)
  moreover have "key m2 = CAPS" "BIT_TEST (shift m2) 4" "BIT_TEST (led m2) 2"
    using m[rule_format, of 1] k b i by (simp_all add: e held_def toggled_def)
  moreover have "key m3 = SHIFT_L" "key_type m3 = 0x80" "\<not> BIT_TEST (shift m3) 4" "BIT_TEST (led m3) 2"
    using m[rule_format, of 2] k b i by (simp_all add: e held_def toggled_def)
  moreover have "length ?es = 3" "sent ?s @ ms = [m1, m2, m3]" using e by simp_all
  then have "sent (keyboard_rounds 3 ?s) = [m1, m2, m3]" using ms(1) by (simp only:)
  ultimately show ?thesis by blast
qed

end
