(* ===== verification/Mouse.thy ===== *)
theory Mouse
  imports Ring_Buffer
begin

text \<open>
  The mouse driver, \<^verbatim>\<open>kernel/driver/mouse/mouse.c\<close> and \<^verbatim>\<open>mouse.h\<close>: the byte buffer filled by
  \<^verbatim>\<open>irq12_handler\<close>, the set-up of a wheel mouse and the decoder of movement packets. As for the
  keyboard, the driver process is a function of the bytes that \<^verbatim>\<open>mouse_read\<close> returns. The code of
  the buffer is the keyboard's with other names; a read and a clear are one step here, and what an
  interrupt in the middle of them does is shown with the keyboard.
\<close>

section \<open>The byte buffer\<close>

record mouse_state =
  ms_buf :: "(u8, u32) ring_buf"
  ms_pending :: nat

definition irq12_handler :: "u8 \<Rightarrow> mouse_state \<Rightarrow> mouse_state" where
  "irq12_handler scan_code s =
     (let s = s\<lparr>ms_buf := ring_put scan_code (ms_buf s)\<rparr>
      in if ms_pending s < MAX_MESSAGE_COUNT then s\<lparr>ms_pending := ms_pending s + 1\<rparr> else s)"

definition mouse_read :: "mouse_state \<Rightarrow> (u8 \<times> mouse_state) option" where
  "mouse_read s =
     (if ms_pending s = 0 then None
      else let (scan_code, b) = ring_get (ms_buf s)
           in Some (scan_code, s\<lparr>ms_buf := b, ms_pending := ms_pending s - 1\<rparr>))"

definition mouse_clear :: "mouse_state \<Rightarrow> mouse_state option" where
  "mouse_clear s =
     (if ms_pending s < MAX_MESSAGE_COUNT
      then Some (s\<lparr>ms_pending := 0, ms_buf := ring_clear (ms_buf s)\<rparr>) else None)"

section \<open>The driver process\<close>

record MOUSE_MSG =
  signature :: u32
  x :: u8
  y :: u8
  button :: u8
  scroll :: u8

text \<open>
  As for the keyboard: the bytes that are queued or will be, and how many of them are queued when
  each of the next commands clears the buffer.
\<close>

record mouse_driver =
  reads :: "u8 list"
  clears :: "nat list"
  ports :: "(u32 \<times> u8) list"
  ms_msg :: MOUSE_MSG
  sent :: "MOUSE_MSG list"

abbreviation (input) PS2_PORT :: u32 where "PS2_PORT \<equiv> 0x60"
abbreviation (input) CTL_PORT :: u32 where "CTL_PORT \<equiv> 0x64"
abbreviation (input) MOUSE_PREFIX :: u8 where "MOUSE_PREFIX \<equiv> 0xD4"
abbreviation (input) ACK :: u8 where "ACK \<equiv> 0xFA"
abbreviation (input) START_STREAMING :: u8 where "START_STREAMING \<equiv> 0xF4"
abbreviation (input) SET_SAMPLE_RATE :: u8 where "SET_SAMPLE_RATE \<equiv> 0xF3"

definition out_byte :: "u32 \<Rightarrow> u8 \<Rightarrow> mouse_driver \<Rightarrow> mouse_driver" where
  "out_byte p b s = s\<lparr>ports := ports s @ [(p, b)]\<rparr>"

definition next_byte :: "mouse_driver \<Rightarrow> (u8 \<times> mouse_driver) option" where
  "next_byte s = (case reads s of [] \<Rightarrow> None | c # cs \<Rightarrow> Some (c, s\<lparr>reads := cs\<rparr>))"

definition clear_bytes :: "mouse_driver \<Rightarrow> mouse_driver" where
  "clear_bytes s = (case clears s of [] \<Rightarrow> s | n # ns \<Rightarrow> s\<lparr>reads := drop n (reads s), clears := ns\<rparr>)"

definition mouse_send :: "u8 \<Rightarrow> mouse_driver \<Rightarrow> (bool \<times> mouse_driver) option" where
  "mouse_send command s =
     (case next_byte (out_byte PS2_PORT command (out_byte CTL_PORT MOUSE_PREFIX (clear_bytes s))) of
        None \<Rightarrow> None
      | Some (c, s) \<Rightarrow> Some (c = ACK, s))"

definition mouse_sendBytes :: "u8 \<Rightarrow> u8 \<Rightarrow> mouse_driver \<Rightarrow> (bool \<times> mouse_driver) option" where
  "mouse_sendBytes command sub s =
     (case next_byte (out_byte PS2_PORT command (out_byte CTL_PORT MOUSE_PREFIX (clear_bytes s))) of
        None \<Rightarrow> None
      | Some (c, s) \<Rightarrow>
          if c \<noteq> ACK then Some (False, s)
          else case next_byte (out_byte PS2_PORT sub s) of
                 None \<Rightarrow> None
               | Some (c, s) \<Rightarrow> Some (c = ACK, s))"

definition mouse_rate :: "u8 \<Rightarrow> mouse_driver option \<Rightarrow> mouse_driver option" where
  "mouse_rate rate r =
     Option.bind r (\<lambda>s. map_option snd (mouse_sendBytes SET_SAMPLE_RATE rate s))"

definition ms_msg_init :: MOUSE_MSG where
  "ms_msg_init = \<lparr>signature = 1, x = 0, y = 0, button = 0, scroll = 0\<rparr>"

text \<open>The part of \<^verbatim>\<open>mouse_bottom\<close> before the loop: whether the mouse has a wheel.\<close>

definition mouse_setup :: "mouse_driver \<Rightarrow> (bool \<times> mouse_driver) option" where
  "mouse_setup s =
     (let s = out_byte PS2_PORT 0x47 (out_byte CTL_PORT 0x60 (out_byte CTL_PORT 0xA8 s));
          r = map_option snd (mouse_send START_STREAMING s);
          r = mouse_rate 100 (mouse_rate 80 (mouse_rate 100 (mouse_rate 200 r)));
          r = Option.bind r (\<lambda>s. map_option snd (mouse_send 0xF2 s))
      in Option.bind r (\<lambda>s. map_option (\<lambda>(c, s). (c = 3, s)) (next_byte s)))"

text \<open>One round of the loop; \<open>None\<close> is a process that waits for a byte.\<close>

definition mouse_round :: "bool \<Rightarrow> mouse_driver \<Rightarrow> mouse_driver option" where
  "mouse_round fb s =
     Option.bind (next_byte s) (\<lambda>(b1, s).
       if \<not> BIT_TEST b1 3 then Some s
       else if BIT_TEST b1 6 \<and> BIT_TEST b1 7 then Some s
       else Option.bind (next_byte s) (\<lambda>(dx, s).
            Option.bind (next_byte (s\<lparr>ms_msg := (ms_msg s)\<lparr>x := dx\<rparr>\<rparr>)) (\<lambda>(dy, s).
            let s = s\<lparr>ms_msg := (ms_msg s)\<lparr>y := dy\<rparr>\<rparr> in
            Option.bind
              (if fb then map_option (\<lambda>(z, s). s\<lparr>ms_msg := (ms_msg s)\<lparr>scroll := z\<rparr>\<rparr>) (next_byte s)
               else Some s) (\<lambda>s.
            let m = (ms_msg s)\<lparr>button := b1 AND 0b111\<rparr>
            in Some (s\<lparr>ms_msg := m, sent := sent s @ [m]\<rparr>)))))"

fun mouse_rounds :: "bool \<Rightarrow> nat \<Rightarrow> mouse_driver \<Rightarrow> mouse_driver" where
  "mouse_rounds fb 0 s = s"
| "mouse_rounds fb (Suc n) s =
     (case mouse_round fb s of None \<Rightarrow> s | Some s \<Rightarrow> mouse_rounds fb n s)"

section \<open>Movement packets\<close>

record packet =
  first :: u8
  dx :: u8
  dy :: u8
  dz :: u8

definition wf_packet :: "packet \<Rightarrow> bool" where
  "wf_packet p \<longleftrightarrow> BIT_TEST (first p) 3 \<and> \<not> (BIT_TEST (first p) 6 \<and> BIT_TEST (first p) 7)"

definition packet_bytes :: "bool \<Rightarrow> packet \<Rightarrow> u8 list" where
  "packet_bytes fb p = [first p, dx p, dy p] @ (if fb then [dz p] else [])"

lemma mouse_round_packet:
  assumes "wf_packet p"
  shows "mouse_round fb (s\<lparr>reads := packet_bytes fb p @ rest\<rparr>) =
    (let m = (ms_msg s)\<lparr>x := dx p, y := dy p, scroll := (if fb then dz p else scroll (ms_msg s)),
          button := first p AND 0b111\<rparr>
     in Some (s\<lparr>reads := rest, ms_msg := m, sent := sent s @ [m]\<rparr>))"
  using assms
  by (cases fb) (auto simp: mouse_round_def next_byte_def packet_bytes_def wf_packet_def Let_def)

lemma mouse_rounds_packets:
  assumes "\<forall>p \<in> set ps. wf_packet p" "reads s = concat (map (packet_bytes fb) ps) @ rest"
  shows "reads (mouse_rounds fb (length ps) s) = rest \<and>
    (\<exists>ms. sent (mouse_rounds fb (length ps) s) = sent s @ ms \<and>
       map (\<lambda>m. (x m, y m, button m)) ms = map (\<lambda>p. (dx p, dy p, first p AND 0b111)) ps \<and>
       (fb \<longrightarrow> map scroll ms = map dz ps))"
  using assms
proof (induction ps arbitrary: s)
  case (Cons p ps)
  let ?r = "concat (map (packet_bytes fb) ps) @ rest"
  define m where "m = (ms_msg s)\<lparr>x := dx p, y := dy p, scroll := (if fb then dz p else scroll (ms_msg s)),
          button := first p AND 0b111\<rparr>"
  let ?s = "s\<lparr>reads := ?r, ms_msg := m, sent := sent s @ [m]\<rparr>"
  have "s = s\<lparr>reads := packet_bytes fb p @ ?r\<rparr>" using Cons.prems(2) by simp
  then have rd: "mouse_round fb s = Some ?s"
    using mouse_round_packet[where p = p and s = s and rest = ?r and fb = fb] Cons.prems(1)
    by (simp add: m_def Let_def)
  obtain ms where ms: "reads (mouse_rounds fb (length ps) ?s) = rest"
      "sent (mouse_rounds fb (length ps) ?s) = sent ?s @ ms"
      "map (\<lambda>m. (x m, y m, button m)) ms = map (\<lambda>p. (dx p, dy p, first p AND 0b111)) ps"
      "fb \<longrightarrow> map scroll ms = map dz ps"
    using Cons.IH[of ?s] Cons.prems(1) by auto
  show ?case using rd ms by (auto simp: m_def intro!: exI[of _ "m # ms"])
qed simp

section \<open>Properties\<close>

text \<open>
  From any stream of well-formed packets the mouse driver sends one message for each packet,
  in order, with its movement, its buttons and, for a wheel mouse, its wheel movement, and it
  consumes exactly the bytes of the packets.
\<close>

theorem mouse_decodes_packets:
  assumes "\<forall>p \<in> set ps. wf_packet p" and "reads s = concat (map (packet_bytes fb) ps)"
  shows "reads (mouse_rounds fb (length ps) s) = [] \<and>
    (\<exists>ms. sent (mouse_rounds fb (length ps) s) = sent s @ ms \<and>
       map (\<lambda>m. (x m, y m, button m)) ms = map (\<lambda>p. (dx p, dy p, first p AND 0b111)) ps \<and>
       (fb \<longrightarrow> map scroll ms = map dz ps))"
  using mouse_rounds_packets[of ps s fb "[]"] assms by simp

theorem mouse_decodes_packets_witness:
  "\<exists>ms. sent (mouse_rounds True 1 \<lparr>reads = [0x09, 5, 0xFB, 1], clears = [], ports = [], ms_msg = ms_msg_init, sent = []\<rparr>) = ms \<and>
     map (\<lambda>m. (x m, y m, button m)) ms = [(5, 0xFB, 1)] \<and> map scroll ms = [1]"
  using mouse_decodes_packets[of "[\<lparr>first = 0x09, dx = 5, dy = 0xFB, dz = 1\<rparr>]"
      "\<lparr>reads = [0x09, 5, 0xFB, 1], clears = [], ports = [], ms_msg = ms_msg_init, sent = []\<rparr>" True]
  by (simp add: wf_packet_def packet_bytes_def BIT_TEST_def)

text \<open>
  With a mouse that acknowledges every command, the set-up enables the second port and data
  reporting, sends the sample rates 200, 100, 80 and 100, asks for the identity, and takes the
  mouse for a wheel mouse exactly if the identity is 3. Each of the six commands first throws away
  the bytes \<open>ls ! i\<close> that are queued then.
\<close>

theorem mouse_setup_detects_wheel:
  assumes "clears s = map length [l1, l2, l3, l4, l5, l6]"
    and "reads s = l1 @ [ACK] @ l2 @ [ACK, ACK] @ l3 @ [ACK, ACK] @ l4 @ [ACK, ACK] @ l5 @ [ACK, ACK] @ l6 @ [ACK, ident] @ rest"
  shows "mouse_setup s = Some (ident = 3, s\<lparr>reads := rest, clears := [], ports := ports s @
     [(CTL_PORT, 0xA8), (CTL_PORT, 0x60), (PS2_PORT, 0x47), (CTL_PORT, MOUSE_PREFIX), (PS2_PORT, START_STREAMING)] @
     concat (map (\<lambda>r. [(CTL_PORT, MOUSE_PREFIX), (PS2_PORT, SET_SAMPLE_RATE), (PS2_PORT, r)]) [200, 100, 80, 100]) @
     [(CTL_PORT, MOUSE_PREFIX), (PS2_PORT, 0xF2)]\<rparr>)"
  using assms
  by (simp add: mouse_setup_def mouse_send_def mouse_sendBytes_def mouse_rate_def next_byte_def out_byte_def clear_bytes_def)

theorem mouse_setup_detects_wheel_witness:
  "map_option fst (mouse_setup \<lparr>reads = [9, ACK] @ concat (replicate 4 [ACK, ACK]) @ [ACK, 3], clears = [1, 0, 0, 0, 0, 0],
     ports = [], ms_msg = ms_msg_init, sent = []\<rparr>) = Some True"
  using mouse_setup_detects_wheel[of "\<lparr>reads = [9, ACK] @ concat (replicate 4 [ACK, ACK]) @ [ACK, 3], clears = [1, 0, 0, 0, 0, 0],
     ports = [], ms_msg = ms_msg_init, sent = []\<rparr>" "[9]" "[]" "[]" "[]" "[]" "[]" 3 "[]"]
  by (simp add: numeral_eq_Suc)

end
