(* ===== verification/Windows.thy ===== *)
theory Windows
  imports Keyboard Mouse
begin

text \<open>
  The window manager process, \<^verbatim>\<open>kernel/windows.c\<close>: how a message from the input drivers becomes
  console output. Key codes are bytes; the translation applies Caps Lock, the keypad digits and
  the shifted symbols of the US layout in the order of the code.
\<close>

section \<open>Translation of a key\<close>

abbreviation (input) PAD_0 :: u8 where "PAD_0 \<equiv> 0xA0"
abbreviation (input) PAD_9 :: u8 where "PAD_9 \<equiv> 0xA9"

text \<open>The \<^verbatim>\<open>switch\<close> for the shifted keys.\<close>

definition win_shifted :: "u8 \<Rightarrow> u8" where
  "win_shifted c =
     (if 0x61 \<le> c \<and> c \<le> 0x7A then c - 0x20
      else if 0x41 \<le> c \<and> c \<le> 0x5A then c + 0x20
      else if c = 0x60 then 0x7E
      else if c = 0x30 then 0x29 else if c = 0x31 then 0x21 else if c = 0x32 then 0x40
      else if c = 0x33 then 0x23 else if c = 0x34 then 0x24 else if c = 0x35 then 0x25
      else if c = 0x36 then 0x5E else if c = 0x37 then 0x26 else if c = 0x38 then 0x2A
      else if c = 0x39 then 0x28
      else if c = 0x2D then 0x5F else if c = 0x3D then 0x2B
      else if c = 0x5B then 0x7B else if c = 0x5D then 0x7D
      else if c = 0x5C then 0x7C
      else if c = 0x3B then 0x3A else if c = 0x27 then 0x22
      else if c = 0x2C then 0x3C else if c = 0x2E then 0x3E else if c = 0x2F then 0x3F
      else c)"

definition win_key :: "KEYBOARD_MSG \<Rightarrow> u8" where
  "win_key m =
     (let c = key m;
          c = (if 0x61 \<le> c \<and> c \<le> 0x7A \<and> BIT_TEST (led m) 2 then c - 0x20 else c);
          c = (if PAD_0 \<le> c \<and> c \<le> PAD_9 then c - (PAD_0 - 0x30) else c)
      in if BIT_TEST (shift m) 4 \<or> BIT_TEST (shift m) 5 then win_shifted c else c)"

definition bytes_of :: "string \<Rightarrow> u8 list" where
  "bytes_of s = map of_char s"

text \<open>What the manager writes for a key, between erasing and redrawing its cursor.\<close>

definition win_echo :: "u8 \<Rightarrow> u8 list" where
  "win_echo output =
     (if output < 0x80 then
        (if output = 0x7F then [0x20, 0x20, 8, 8]
         else if output = 0x0D then [0x0D, 0x0A]
         else if output = 8 then [8]
         else [output])
      else if output = 0xB0 then [1]
      else if output = 0xB1 then [0x0A]
      else if output = 0xB2 then [8]
      else if output = 0xB3 then [0x20]
      else if output = 0x8C then [0x0C]
      else if output = 0x81 then
        bytes_of ''Copyright (C) Gary '' @ [0x80, 0x81, 0x82, 0x83] @ bytes_of '', All Right Reserved. ''
      else if output = 0xC5 then bytes_of ''Volumne Up''
      else [])"

datatype win_message = Mouse_message MOUSE_MSG | Keyboard_message KEYBOARD_MSG | Other_message u32

definition windows_message :: "win_message \<Rightarrow> u8 list" where
  "windows_message msg =
     (case msg of
        Mouse_message m \<Rightarrow> bytes_of ''No moving.'' @ replicate 10 8
      | Keyboard_message m \<Rightarrow>
          if key_type m \<noteq> 0 then []
          else [8, 0x20, 8] @ win_echo (win_key m) @ [0x84]
      | Other_message s \<Rightarrow> [])"

section \<open>Properties\<close>

lemma letters_u8:
  "\<forall>c :: u8. 0x61 \<le> c \<and> c \<le> 0x7A \<longrightarrow> \<not> PAD_0 \<le> c - 0x20 \<and> \<not> PAD_0 \<le> c \<and>
     win_shifted c = c - 0x20 \<and> win_shifted (c - 0x20) = c"
  unfolding all_u8 by code_simp

text \<open>
  A letter key types a capital letter exactly when one of Caps Lock and the shift keys is
  active and the other is not.
\<close>

theorem windows_letter_case:
  assumes "0x61 \<le> key m" and "key m \<le> 0x7A"
  shows "win_key m = (if BIT_TEST (led m) 2 \<noteq> (BIT_TEST (shift m) 4 \<or> BIT_TEST (shift m) 5)
                      then key m - 0x20 else key m)"
  using assms letters_u8[rule_format, of "key m"] by (simp add: win_key_def Let_def)

theorem windows_letter_case_witness:
  "win_key (kb_msg_init\<lparr>key := 0x61, led := 4\<rparr>) = 0x41"
  using windows_letter_case[of "kb_msg_init\<lparr>key := 0x61, led := 4\<rparr>"]
  by (simp add: BIT_TEST_def kb_msg_init_def)

text \<open>
  The printable keys follow the US layout: unshifted they type themselves and the keypad
  digits type digits; with a shift key held each symbol key types its upper symbol. A release
  types nothing.
\<close>

theorem windows_us_layout:
  "let symbols = bytes_of ''`1234567890-=[]'' @ [0x5C] @ bytes_of '';'' @ [0x27] @ bytes_of '',./'';
       pad = map (\<lambda>n. 0xA0 + of_nat n) [0..<10];
       typed = (\<lambda>sh k. win_key (kb_msg_init\<lparr>key := k, shift := sh\<rparr>))
   in map (typed 0) symbols = symbols \<and>
      map (typed 0) pad = bytes_of ''0123456789'' \<and>
      map (\<lambda>sh. map (typed sh) symbols) [0x10, 0x20, 0x30]
        = replicate 3 (bytes_of ''~!@#$%^&*()_+{}|:'' @ [0x22] @ bytes_of ''<>?'')"
  by code_simp

end
