(* ===== verification/Page.thy ===== *)
theory Page
  imports Memory
begin

text \<open>
  The page tables of a process, \<^verbatim>\<open>kernel/process/page.c\<close>, over the words of the memory
  model: a page directory and its tables are pages of the allocator, entry \<open>i\<close> is the word at
  \<open>4 * i\<close>. A routine that takes a \<^verbatim>\<open>Process*\<close> reads only its \<^verbatim>\<open>cr3\<close> (and a \<^verbatim>\<open>Thread*\<close> its
  \<^verbatim>\<open>stacktop\<close>), so those are the arguments here. The lemmas give the translation function the
  tables represent, what mapping a page does to it, and which pages the recycling routines
  give back.
\<close>

section \<open>Tables\<close>

abbreviation (input) PAGE_PRESENT :: u32 where "PAGE_PRESENT \<equiv> 0b11111"
abbreviation (input) STACK_TOP :: u32 where "STACK_TOP \<equiv> PAGE_OFFSET"
abbreviation (input) STACK_BOTTOM :: u32 where "STACK_BOTTOM \<equiv> 0xB8000000"

definition load_entry :: "u32 \<Rightarrow> u32 \<Rightarrow> kmem \<Rightarrow> u32" where
  "load_entry t i s = mem s (t + 4 * i)"

definition store_entry :: "u32 \<Rightarrow> u32 \<Rightarrow> u32 \<Rightarrow> kmem \<Rightarrow> kmem" where
  "store_entry t i v s = s\<lparr>mem := (mem s)(t + 4 * i := v)\<rparr>"

definition table_of :: "u32 \<Rightarrow> u32" where
  "table_of e = pa2va (e AND NOT 0xFFF)"

text \<open>\<^verbatim>\<open>memset\<close> with 0 and \<^verbatim>\<open>memcpy\<close> on whole words.\<close>

fun fill_words :: "u32 \<Rightarrow> nat \<Rightarrow> kmem \<Rightarrow> kmem" where
  "fill_words a 0 s = s"
| "fill_words a (Suc n) s = fill_words (a + 4) n (s\<lparr>mem := (mem s)(a := 0)\<rparr>)"

fun copy_words :: "u32 \<Rightarrow> u32 \<Rightarrow> nat \<Rightarrow> kmem \<Rightarrow> kmem" where
  "copy_words dst src 0 s = s"
| "copy_words dst src (Suc n) s =
     copy_words (dst + 4) (src + 4) n (s\<lparr>mem := (mem s)(dst := mem s src)\<rparr>)"

section \<open>The operations\<close>

definition allocPhysicalPage :: "kmem \<Rightarrow> kerror + (u32 \<times> kmem)" where
  "allocPhysicalPage s = and_then (memory_alloc 12 s) (\<lambda>(a, s). Inr (va2pa a, s))"

definition recyclePhysicalPage :: "u32 \<Rightarrow> kmem \<Rightarrow> kerror + kmem" where
  "recyclePhysicalPage addr s = memory_block_free (pa2va addr) 12 s"

definition createProcessPDE :: "u32 \<Rightarrow> kmem \<Rightarrow> kerror + (u32 \<times> kmem)" where
  "createProcessPDE cr3Copy s =
     and_then (memory_alloc 12 s) (\<lambda>(pde, s).
     let offset = va2pde PAGE_OFFSET;
         s = fill_words pde (unat offset) s;
         s = copy_words (pde + 4 * offset) (pa2va (cr3Copy AND NOT 0xFFF) + 4 * offset)
               (unat (PAGE_SIZE - offset * 4) div 4) s
     in Inr (va2pa pde, s))"

text \<open>The loop over the 1024 entries of a table that recycles the pages they name.\<close>

function recycle_entries :: "(u32 \<Rightarrow> bool) \<Rightarrow> u32 \<Rightarrow> nat \<Rightarrow> kmem \<Rightarrow> kerror + kmem" where
  "recycle_entries keep pte i s =
     (if 1024 \<le> i then Inr s
      else let e = load_entry pte (of_nat i) s in
        and_then (if e \<noteq> 0 \<and> \<not> keep e then recyclePhysicalPage (e AND NOT 0xFFF) s else Inr s)
          (recycle_entries keep pte (i + 1)))"
  by pat_completeness auto
termination by (relation "measure (\<lambda>(keep, pte, i, s). 1024 - i)") auto

declare recycle_entries.simps [simp del]

function recycle_tables :: "u32 \<Rightarrow> nat \<Rightarrow> kmem \<Rightarrow> kerror + kmem" where
  "recycle_tables pde i s =
     (if unat (va2pde STACK_TOP) \<le> i then Inr s
      else let e = load_entry pde (of_nat i) s in
        and_then
          (if e \<noteq> 0 then
             let pte = table_of e in
             and_then (recycle_entries (\<lambda>x. x AND PAGE_TYPE_PHY \<noteq> 0) pte 0 s) (memory_block_free pte 12)
           else Inr s)
          (recycle_tables pde (i + 1)))"
  by pat_completeness auto
termination by (relation "measure (\<lambda>(pde, i, s). unat (va2pde STACK_TOP) - i)") auto

declare recycle_tables.simps [simp del]

definition recycleProcessPDE :: "u32 \<Rightarrow> kmem \<Rightarrow> kerror + kmem" where
  "recycleProcessPDE cr3 s =
     and_then (recycle_tables (table_of cr3) 0 s) (memory_block_free (pa2va cr3) 12)"

definition recycle_stack_table :: "u32 \<Rightarrow> kmem \<Rightarrow> kerror + kmem" where
  "recycle_stack_table pte s = and_then (recycle_entries (\<lambda>_. False) pte 0 s) (memory_block_free pte 12)"

definition recycleThreadStack :: "u32 \<Rightarrow> u32 \<Rightarrow> kmem \<Rightarrow> kerror + kmem" where
  "recycleThreadStack cr3 stacktop s =
     (let pde = table_of cr3;
          pdeEntry = va2pde (stacktop - 1) div 2 * 2 + 1
      in and_then (recycle_stack_table (table_of (load_entry pde pdeEntry s)) s) (\<lambda>s.
         and_then
           (if load_entry pde (pdeEntry - 1) s \<noteq> 0
            then and_then (recycle_stack_table (table_of (load_entry pde (pdeEntry - 1) s)) s)
                   (\<lambda>s. Inr (store_entry pde (pdeEntry - 1) 0 s))
            else Inr s) (\<lambda>s.
         Inr (store_entry pde pdeEntry 0 s))))"

text \<open>The downward search for a free pair of page-directory entries in the stack area.\<close>

function stack_slot :: "u32 \<Rightarrow> u32 \<Rightarrow> kmem \<Rightarrow> u32" where
  "stack_slot pde pdeEntry s =
     (if va2pde STACK_BOTTOM < pdeEntry
      then if load_entry pde pdeEntry s = 0 then pdeEntry else stack_slot pde (pdeEntry - 2) s
      else pdeEntry)"
  by pat_completeness auto
termination
proof (relation "measure (\<lambda>(pde, i, s). unat i)")
  fix pde pdeEntry :: u32 and s :: kmem
  assume "va2pde STACK_BOTTOM < pdeEntry"
  then have "2 \<le> pdeEntry" by (simp add: va2pde_def word_less_nat_alt word_le_nat_alt)
  then show "((pde, pdeEntry - 2, s), pde, pdeEntry, s) \<in> measure (\<lambda>(pde, i, s). unat i)"
    by (simp add: unat_minus_le word_le_nat_alt)
qed simp

declare stack_slot.simps [simp del]

definition allocThreadStack :: "u32 \<Rightarrow> kmem \<Rightarrow> kerror + (u32 \<times> kmem)" where
  "allocThreadStack cr3 s =
     (let pde = table_of cr3;
          pdeEntry = stack_slot pde (va2pde STACK_TOP - 1) s
      in if va2pde STACK_BOTTOM < pdeEntry then
           and_then (memory_alloc 12 s) (\<lambda>(stack, s).
           let s = fill_words stack 1023 s in
           and_then (allocPhysicalPage s) (\<lambda>(page, s).
           let s = store_entry stack (1024 - 1) (page OR PAGE_PRESENT) s;
               s = store_entry pde pdeEntry (va2pa stack OR PAGE_PRESENT) s
           in Inr ((pdeEntry + 1) * PAGE_SIZE * 1024, s)))
         else Inr (0, s))"

text \<open>\<^verbatim>\<open>open_physical_page\<close> and \<^verbatim>\<open>pageFaultHandler\<close> both begin by giving an empty directory entry a table.\<close>

definition ensure_table :: "u32 \<Rightarrow> u32 \<Rightarrow> kmem \<Rightarrow> kerror + kmem" where
  "ensure_table dir i s =
     (if load_entry dir i s = 0
      then and_then (memory_alloc 12 s) (\<lambda>(newpde, s).
        Inr (store_entry dir i (va2pa newpde OR PAGE_PRESENT) (fill_words newpde 1024 s)))
      else Inr s)"

definition open_physical_page :: "u32 \<Rightarrow> u32 \<Rightarrow> u32 \<Rightarrow> u32 \<Rightarrow> kmem \<Rightarrow> kerror + (u32 \<times> kmem)" where
  "open_physical_page cr3 phyaddr linearAddr flag s =
     (let dir = pa2va cr3; i = va2pde linearAddr in
      and_then (ensure_table dir i s) (\<lambda>s.
      let ptes = table_of (load_entry dir i s) in
      if load_entry ptes (va2pte linearAddr) s \<noteq> 0 then Inr (-1, s)
      else Inr (0, store_entry ptes (va2pte linearAddr) (phyaddr OR PAGE_PRESENT OR flag) s)))"

function open_physical_memory ::
  "u32 \<Rightarrow> u32 \<Rightarrow> u32 \<Rightarrow> u32 \<Rightarrow> u32 \<Rightarrow> kmem \<Rightarrow> kerror + (u32 \<times> kmem)" where
  "open_physical_memory cr3 phyaddr linearAddr pages flag s =
     (if pages = 0 then Inr (0, s)
      else and_then (open_physical_page cr3 phyaddr linearAddr flag s) (\<lambda>(r, s).
        if r = -1 then Inr (-1, s)
        else open_physical_memory cr3 (phyaddr + PAGE_SIZE) (linearAddr + PAGE_SIZE) (pages - 1) flag s))"
  by pat_completeness auto
termination
  by (relation "measure (\<lambda>(cr3, phyaddr, linearAddr, pages, flag, s). unat pages)") (auto intro: measure_unat)

declare open_physical_memory.simps [simp del]

text \<open>The stack expansion of \<^verbatim>\<open>pageFaultHandler\<close>.\<close>

definition expand_stack :: "u32 \<Rightarrow> u32 \<Rightarrow> kmem \<Rightarrow> kerror + kmem" where
  "expand_stack cr3 pageAddr s =
     (let pde = table_of cr3; pdeEntry = va2pde pageAddr in
      and_then (ensure_table pde pdeEntry s) (\<lambda>s.
      and_then (allocPhysicalPage s) (\<lambda>(page, s').
      Inr (store_entry (table_of (load_entry pde pdeEntry s)) (va2pte pageAddr) (page OR PAGE_PRESENT) s'))))"

section \<open>Pages and entries\<close>

lemma entry_addr:
  assumes "good_block t 12" "unat i < 1024"
  shows "unat (t + 4 * i) = unat t + 4 * unat i"
proof -
  have "unat (4 * i) = 4 * unat i" using assms(2) by (simp add: unat_word_ariths)
  moreover have "unat t + 2 ^ 12 \<le> 0xF0000000" using assms(1) by (simp add: good_block_def)
  ultimately show ?thesis using assms(2) by (simp add: unat_plus_small)
qed

lemma entry_in_block: "good_block t 12 \<Longrightarrow> unat i < 1024 \<Longrightarrow> unat (t + 4 * i) \<in> block t 12"
  by (simp add: entry_addr block_def)

lemma page_blocks_disjoint:
  assumes "good_block a 12" "good_block b 12" "a \<noteq> b"
  shows "block a 12 \<inter> block b 12 = {}"
proof -
  have "unat a \<noteq> unat b" using assms(3) by (simp add: word_unat_eq_iff)
  moreover have "4096 dvd unat a" "4096 dvd unat b" using assms(1,2) by (auto simp: good_block_def)
  then obtain k l where "unat a = 4096 * k" "unat b = 4096 * l" by (auto elim!: dvdE)
  ultimately show ?thesis by (auto simp: block_def)
qed

lemma entry_eq_iff:
  assumes "good_block t 12" "good_block u 12" "unat i < 1024" "unat j < 1024"
  shows "t + 4 * i = u + 4 * j \<longleftrightarrow> t = u \<and> i = j"
proof
  assume eq: "t + 4 * i = u + 4 * j"
  have "unat (t + 4 * i) \<in> block t 12" "unat (t + 4 * i) \<in> block u 12"
    using entry_in_block[OF assms(1,3)] entry_in_block[OF assms(2,4)] eq by auto
  then have "t = u" using page_blocks_disjoint[OF assms(1,2)] by blast
  moreover have "unat i = unat j"
    using entry_addr[OF assms(1,3)] entry_addr[OF assms(2,4)] eq \<open>t = u\<close> by simp
  ultimately show "t = u \<and> i = j" by (simp add: word_unat_eq_iff)
qed simp

lemma load_store_entry:
  "good_block t 12 \<Longrightarrow> good_block u 12 \<Longrightarrow> unat i < 1024 \<Longrightarrow> unat j < 1024 \<Longrightarrow>
    load_entry t i (store_entry u j v s) = (if t = u \<and> i = j then v else load_entry t i s)"
  by (simp add: load_entry_def store_entry_def entry_eq_iff)

lemma unat_va2pde: "unat (va2pde x) = unat x div 2 ^ 22"
  unfolding va2pde_def drop_bit_eq_div by (simp add: unat_div_distrib)

lemma AND_mask_22: "x AND 0x3FFFFF = take_bit 22 x" for x :: u32
proof -
  have "(0x3FFFFF :: u32) = mask 22" by (simp add: mask_eq_exp_minus_1)
  then show ?thesis by (simp only: take_bit_eq_mask)
qed

lemma AND_mask_12: "x AND 0xFFF = take_bit 12 x" for x :: u32
proof -
  have "(0xFFF :: u32) = mask 12" by (simp add: mask_eq_exp_minus_1)
  then show ?thesis by (simp only: take_bit_eq_mask)
qed

lemma unat_va2pte: "unat (va2pte x) = unat x mod 2 ^ 22 div 2 ^ 12"
proof -
  have "unat (take_bit 22 x) = unat x mod 2 ^ 22" unfolding unsigned_take_bit_eq by (simp add: take_bit_eq_mod)
  then show ?thesis unfolding va2pte_def AND_mask_22 drop_bit_eq_div by (simp add: unat_div_distrib)
qed

lemma va2pde_bound: "unat (va2pde x) < 1024"
proof -
  have "unat x < 2 ^ 32" using unsigned_less[of x, where ?'a=nat] by simp
  then show ?thesis unfolding unat_va2pde by simp
qed

lemma va2pte_bound: "unat (va2pte x) < 1024"
  unfolding unat_va2pte by (simp add: less_mult_imp_div_less)

lemma user_pde: "la < PAGE_OFFSET \<Longrightarrow> unat (va2pde la) < 768"
  unfolding unat_va2pde word_less_nat_alt by simp

text \<open>The two indices determine the page of a linear address.\<close>

lemma page_index:
  "va2pde x = va2pde y \<and> va2pte x = va2pte y \<longleftrightarrow> va2flat_pte x = va2flat_pte y"
proof -
  have u: "unat (va2flat_pte z) = unat z div 2 ^ 12" for z :: u32
    unfolding va2flat_pte_def drop_bit_eq_div by (simp add: unat_div_distrib)
  have d: "a div 2 ^ 22 = a div 2 ^ 12 div 2 ^ 10" "a mod 2 ^ 22 div 2 ^ 12 = a div 2 ^ 12 mod 2 ^ 10" for a :: nat
    using div_mult2_eq[of a "2 ^ 12" "2 ^ 10"] mod_mult2_eq[of a "2 ^ 12" "2 ^ 10"] by simp_all
  have "a div 2 ^ 22 = b div 2 ^ 22 \<and> a mod 2 ^ 22 div 2 ^ 12 = b mod 2 ^ 22 div 2 ^ 12
      \<longleftrightarrow> a div 2 ^ 12 = b div (2 ^ 12 :: nat)" for a b :: nat
    unfolding d by (metis div_mult_mod_eq)
  then show ?thesis by (simp only: word_unat_eq_iff unat_va2pde unat_va2pte u)
qed

text \<open>A page-table entry names the page it was made of.\<close>

lemma page_aligned_iff: "x AND 0xFFF = 0 \<longleftrightarrow> 4096 dvd unat x" for x :: u32
proof -
  have "unat (take_bit 12 x) = unat x mod 4096" unfolding unsigned_take_bit_eq by (simp add: take_bit_eq_mod)
  then show ?thesis unfolding AND_mask_12 by (metis dvd_eq_mod_eq_0 unat_eq_zero)
qed

lemma va2pa_aligned: "good_block a 12 \<Longrightarrow> va2pa a AND 0xFFF = 0"
proof -
  assume g: "good_block a 12"
  then have "unat (va2pa a) = unat a - 0xC0000000"
    by (simp add: va2pa_def good_block_def unat_minus_le word_le_nat_alt)
  then show ?thesis unfolding page_aligned_iff using g by (auto simp: good_block_def)
qed

lemma or_and_not: "p AND m = 0 \<Longrightarrow> f AND NOT m = 0 \<Longrightarrow> (p OR f) AND NOT m = p" for p f m :: u32
  by (simp add: bit_eq_iff bit_simps) blast

lemma entry_page:
  "p AND 0xFFF = 0 \<Longrightarrow> f AND NOT 0xFFF = 0 \<Longrightarrow> (p OR f) AND NOT 0xFFF = p" for p f :: u32
  by (rule or_and_not)

lemma table_of_entry [simp]: "good_block a 12 \<Longrightarrow> table_of (va2pa a OR 31) = a"
  using entry_page[OF va2pa_aligned, of a 31] by (simp add: table_of_def)

lemma table_of_aligned: "cr3 AND 0xFFF = 0 \<Longrightarrow> table_of cr3 = pa2va cr3"
  using entry_page[of cr3 0] by (simp add: table_of_def)

lemma entry_nonzero [simp]: "x OR 31 \<noteq> 0" "x OR (31 OR y) \<noteq> 0" "x OR 31 OR y \<noteq> 0" for x y :: u32
proof -
  have "bit (x OR 31) 0" "bit (x OR (31 OR y)) 0" "bit (x OR 31 OR y) 0" by (simp_all add: bit_simps)
  then show "x OR 31 \<noteq> 0" "x OR (31 OR y) \<noteq> 0" "x OR 31 OR y \<noteq> 0" by auto
qed

section \<open>Allocating and filling a page\<close>

lemma free_inv_write:
  assumes "free_inv s F" "unat a \<notin> free_area F"
  shows "free_inv (s\<lparr>mem := (mem s)(a := v)\<rparr>) F"
proof -
  have "a \<notin> set (F b)" for b using assms(2) free_areaI[of a F b "unat a"] block_self[of a b] by blast
  then show ?thesis using assms(1) links_write[of s F a] by (auto simp: free_inv_iff)
qed

definition has_page :: "(nat \<Rightarrow> u32 list) \<Rightarrow> bool" where
  "has_page F \<longleftrightarrow> (\<exists>b \<ge> 12. F b \<noteq> [])"

lemma alloc_page:
  assumes "free_inv s F" "has_page F"
  obtains a s' F' where "memory_alloc 12 s = Inr (a, s')" "good_block a 12" "block a 12 \<subseteq> free_area F"
    "free_inv s' F'" "free_area F' = free_area F - block a 12"
    "\<And>x. unat x \<notin> free_area F' \<Longrightarrow> mem s' x = mem s x"
  using memory_alloc_ok(1)[OF assms(1), of 12] assms(2) that unfolding has_page_def allocates_def by auto

lemma no_page: "free_inv s F \<Longrightarrow> \<not> has_page F \<Longrightarrow> memory_alloc 12 s = Inl Halt"
  using memory_alloc_ok(2)[of s F 12] by (simp add: has_page_def)

text \<open>Filling \<open>n\<close> words from \<open>a\<close> on.\<close>

lemma mem_fill_words:
  assumes "unat a + 4 * n < 2 ^ 32"
  shows "mem (fill_words a n s) x = (if \<exists>i < n. x = a + 4 * of_nat i then 0 else mem s x)"
  using assms
proof (induction n arbitrary: a s)
  case (Suc n)
  have u: "unat (a + 4) = unat a + 4" using Suc.prems by (simp add: unat_plus_small)
  have "(\<exists>i < Suc n. x = a + 4 * of_nat i) \<longleftrightarrow> x = a \<or> (\<exists>i < n. x = a + 4 + 4 * of_nat i)"
    by (simp add: less_Suc_eq_0_disj) (auto simp: algebra_simps)
  then show ?case using Suc.IH[of "a + 4"] Suc.prems u by auto
qed simp

lemma fill_words_inv:
  assumes "free_inv s F" "unat a + 4 * n < 2 ^ 32" "{unat a ..< unat a + 4 * n} \<inter> free_area F = {}"
  shows "free_inv (fill_words a n s) F"
  using assms
proof (induction n arbitrary: a s)
  case (Suc n)
  have u: "unat (a + 4) = unat a + 4" using Suc.prems by (simp add: unat_plus_small)
  have "unat a \<in> {unat a ..< unat a + 4 * Suc n}" by simp
  then have "unat a \<notin> free_area F" using Suc.prems(3) by blast
  then have "free_inv (s\<lparr>mem := (mem s)(a := 0)\<rparr>) F" by (rule free_inv_write[OF Suc.prems(1)])
  moreover have "{unat (a + 4) ..< unat (a + 4) + 4 * n} \<subseteq> {unat a ..< unat a + 4 * Suc n}" using u by auto
  then have "{unat (a + 4) ..< unat (a + 4) + 4 * n} \<inter> free_area F = {}" using Suc.prems(3) by blast
  ultimately show ?case using Suc.IH[of _ "a + 4"] Suc.prems(2) u by simp
qed simp

lemma good_page_room: "good_block a 12 \<Longrightarrow> n \<le> 1024 \<Longrightarrow> unat a + 4 * n < 2 ^ 32"
  by (simp add: good_block_def)

lemma fill_page_inv:
  assumes "free_inv s F" "good_block a 12" "block a 12 \<inter> free_area F = {}" "n \<le> 1024"
  shows "free_inv (fill_words a n s) F"
proof (rule fill_words_inv[OF assms(1) good_page_room[OF assms(2,4)]])
  have "{unat a ..< unat a + 4 * n} \<subseteq> block a 12" using assms(4) by (auto simp: block_def)
  then show "{unat a ..< unat a + 4 * n} \<inter> free_area F = {}" using assms(3) by blast
qed

lemma load_fill_page:
  assumes "good_block a 12" "good_block t 12" "unat i < 1024" "n \<le> 1024"
  shows "load_entry t i (fill_words a n s) = (if t = a \<and> unat i < n then 0 else load_entry t i s)"
proof -
  have "(\<exists>k < n. t + 4 * i = a + 4 * of_nat k) \<longleftrightarrow> t = a \<and> unat i < n"
  proof
    assume "\<exists>k < n. t + 4 * i = a + 4 * of_nat k"
    then obtain k where k: "k < n" "t + 4 * i = a + 4 * of_nat k" by blast
    have u: "unat (of_nat k :: u32) = k" using k(1) assms(4) by (intro unat_of_nat_small) simp
    then have "t = a \<and> i = of_nat k" using k assms by (subst (asm) entry_eq_iff) auto
    then show "t = a \<and> unat i < n" using u k by simp
  next
    assume "t = a \<and> unat i < n"
    then show "\<exists>k < n. t + 4 * i = a + 4 * of_nat k" by (intro exI[of _ "unat i"]) simp
  qed
  then show ?thesis using mem_fill_words[OF good_page_room[OF assms(1,4)]] by (simp add: load_entry_def)
qed

section \<open>Address spaces\<close>

text \<open>
  The abstract view of a page directory: \<open>walk\<close> gives the entry of each user page (0 when it is
  not mapped), \<open>owned\<close> names every page the process holds by its role: the directory, the table
  of each directory entry, and the page of each entry that is not \<^verbatim>\<open>PAGE_TYPE_PHY\<close>.
\<close>

datatype page_role = Directory | Table u32 | Leaf u32 u32

definition user_entry :: "u32 \<Rightarrow> bool" where
  "user_entry i \<longleftrightarrow> unat i < 768"

definition walk :: "kmem \<Rightarrow> u32 \<Rightarrow> u32 \<times> u32 \<Rightarrow> u32" where
  "walk s cr3 = (\<lambda>(i, j).
     let e = load_entry (pa2va cr3) i s
     in if user_entry i \<and> unat j < 1024 \<and> e \<noteq> 0 then load_entry (table_of e) j s else 0)"

definition leaf_page :: "u32 \<Rightarrow> u32 option" where
  "leaf_page e = (if e \<noteq> 0 \<and> e AND PAGE_TYPE_PHY = 0 then Some (table_of e) else None)"

fun owned :: "kmem \<Rightarrow> u32 \<Rightarrow> page_role \<Rightarrow> u32 option" where
  "owned s cr3 Directory = Some (pa2va cr3)"
| "owned s cr3 (Table i) =
     (let e = load_entry (pa2va cr3) i s in if user_entry i \<and> e \<noteq> 0 then Some (table_of e) else None)"
| "owned s cr3 (Leaf i j) = leaf_page (walk s cr3 (i, j))"

definition kernel_half :: "kmem \<Rightarrow> u32 \<Rightarrow> u32 \<Rightarrow> u32" where
  "kernel_half s cr3 i = (if \<not> user_entry i \<and> unat i < 1024 then load_entry (pa2va cr3) i s else 0)"

text \<open>The pages are whole pages outside \<open>A\<close>, and no page has two roles.\<close>

definition pages_ok :: "(page_role \<Rightarrow> u32 option) \<Rightarrow> nat set \<Rightarrow> bool" where
  "pages_ok m A \<longleftrightarrow> (\<forall>r a. m r = Some a \<longrightarrow> good_block a 12 \<and> block a 12 \<inter> A = {}) \<and>
     (\<forall>r q a. m r = Some a \<longrightarrow> m q = Some a \<longrightarrow> r = q)"

definition footprint :: "(page_role \<Rightarrow> u32 option) \<Rightarrow> nat set" where
  "footprint m = (\<Union>a \<in> ran m. block a 12)"

definition address_space :: "kmem \<Rightarrow> (nat \<Rightarrow> u32 list) \<Rightarrow> u32 \<Rightarrow> bool" where
  "address_space s F cr3 \<longleftrightarrow> cr3 AND 0xFFF = 0 \<and> pages_ok (owned s cr3) (free_area F)"

lemma pages_okD:
  assumes "pages_ok m A" "m r = Some a"
  shows "good_block a 12" "block a 12 \<inter> A = {}" "\<And>q. m q = Some a \<Longrightarrow> q = r"
  using assms unfolding pages_ok_def by blast+

lemma pages_ok_mono: "pages_ok m A \<Longrightarrow> B \<subseteq> A \<Longrightarrow> pages_ok m B"
  unfolding pages_ok_def by (meson disjoint_iff subsetD)

lemma footprintI: "m r = Some a \<Longrightarrow> x \<in> block a 12 \<Longrightarrow> x \<in> footprint m"
  unfolding footprint_def ran_def by blast

lemma footprintE:
  assumes "x \<in> footprint m" obtains r a where "m r = Some a" "x \<in> block a 12"
  using assms unfolding footprint_def ran_def by blast

lemma footprint_disjoint: "pages_ok m A \<Longrightarrow> footprint m \<inter> A = {}"
  by (auto elim!: footprintE dest: pages_okD(2))

lemma fresh_page:
  assumes "pages_ok m A" "block a 12 \<subseteq> A"
  shows "m r \<noteq> Some a"
  using pages_okD(2)[OF assms(1), of r a] assms(2) block_self[of a 12] by blast

lemma pages_ok_upd:
  assumes "pages_ok m A" "good_block a 12" "block a 12 \<inter> A = {}" "\<And>r. m r \<noteq> Some a"
  shows "pages_ok (m(r \<mapsto> a)) A"
  using assms unfolding pages_ok_def by (auto split: if_splits)

lemma footprint_upd: "m r = None \<Longrightarrow> footprint (m(r \<mapsto> a)) = footprint m \<union> block a 12"
  by (auto simp: footprint_def)

text \<open>An address space depends only on the words of its own pages.\<close>

lemma same_space:
  assumes ok: "pages_ok (owned s cr3) A" and same: "\<And>x. unat x \<notin> A \<Longrightarrow> mem s' x = mem s x"
  shows "owned s' cr3 = owned s cr3" "walk s' cr3 = walk s cr3" "kernel_half s' cr3 = kernel_half s cr3"
    and "unat i < 1024 \<Longrightarrow> load_entry (pa2va cr3) i s' = load_entry (pa2va cr3) i s"
proof -
  have ld: "load_entry a i s' = load_entry a i s" if "owned s cr3 r = Some a" "unat i < 1024" for a r i
  proof -
    have "unat (a + 4 * i) \<in> block a 12" using pages_okD(1)[OF ok that(1)] that(2) by (rule entry_in_block)
    then have "unat (a + 4 * i) \<notin> A" using pages_okD(2)[OF ok that(1)] by blast
    then show ?thesis using same by (simp add: load_entry_def)
  qed
  show dir: "unat i < 1024 \<Longrightarrow> load_entry (pa2va cr3) i s' = load_entry (pa2va cr3) i s" for i
    by (rule ld[of Directory]) simp_all
  show w: "walk s' cr3 = walk s cr3"
  proof (rule ext, clarify)
    fix i j
    let ?e = "load_entry (pa2va cr3) i s"
    show "walk s' cr3 (i, j) = walk s cr3 (i, j)"
    proof (cases "user_entry i \<and> ?e \<noteq> 0 \<and> unat j < 1024")
      case True
      then have "load_entry (table_of ?e) j s' = load_entry (table_of ?e) j s"
        by (intro ld[of "Table i"]) (simp_all add: Let_def)
      then show ?thesis using dir[of i] True by (simp add: walk_def user_entry_def)
    next
      case False
      then show ?thesis using dir[of i] by (auto simp: walk_def user_entry_def Let_def)
    qed
  qed
  show "owned s' cr3 = owned s cr3"
  proof
    fix r
    show "owned s' cr3 r = owned s cr3 r"
      using dir by (cases r) (auto simp: w user_entry_def Let_def)
  qed
  show "kernel_half s' cr3 = kernel_half s cr3"
    using dir by (auto simp: kernel_half_def)
qed

text \<open>Giving an empty directory entry a zeroed table.\<close>

lemma set_table:
  assumes ok: "pages_ok (owned s cr3) A" and i: "user_entry i" "load_entry (pa2va cr3) i s = 0"
    and n: "good_block n 12" "block n 12 \<inter> A = {}" "\<And>r. owned s cr3 r \<noteq> Some n"
    and z: "\<And>j. unat j < 1024 \<Longrightarrow> load_entry n j s = 0"
  defines "s' \<equiv> store_entry (pa2va cr3) i (va2pa n OR 31) s"
  shows "owned s' cr3 = (owned s cr3)(Table i \<mapsto> n)" "walk s' cr3 = walk s cr3"
    "kernel_half s' cr3 = kernel_half s cr3" "pages_ok (owned s' cr3) A"
proof -
  have i': "unat i < 1024" using i by (simp add: user_entry_def)
  have g: "good_block (pa2va cr3) 12" using pages_okD(1)[OF ok, of Directory] by simp
  have nd: "n \<noteq> pa2va cr3" using n(3)[of Directory] by simp
  have dir: "load_entry (pa2va cr3) k s' = (if k = i then va2pa n OR 31 else load_entry (pa2va cr3) k s)"
    if "unat k < 1024" for k
    using that g i' by (simp add: s'_def load_store_entry)
  have other: "load_entry t j s' = load_entry t j s"
    if "good_block t 12" "t \<noteq> pa2va cr3" "unat j < 1024" for t j
    using that g i' by (simp add: s'_def load_store_entry)
  have tab: "good_block (table_of (load_entry (pa2va cr3) k s)) 12 \<and> table_of (load_entry (pa2va cr3) k s) \<noteq> pa2va cr3"
    if "user_entry k" "load_entry (pa2va cr3) k s \<noteq> 0" for k
  proof -
    have o: "owned s cr3 (Table k) = Some (table_of (load_entry (pa2va cr3) k s))" using that by simp
    then have "table_of (load_entry (pa2va cr3) k s) \<noteq> pa2va cr3"
      using pages_okD(3)[OF ok o, of Directory] by fastforce
    then show ?thesis using pages_okD(1)[OF ok o] by simp
  qed
  show w: "walk s' cr3 = walk s cr3"
  proof (rule ext, clarify)
    fix k j
    show "walk s' cr3 (k, j) = walk s cr3 (k, j)"
    proof (cases "user_entry k \<and> unat j < 1024")
      case True
      then have "unat k < 1024" by (simp add: user_entry_def)
      then show ?thesis
        using True dir[of k] i n(1) nd z other tab by (auto simp: walk_def Let_def)
    qed (auto simp: walk_def Let_def)
  qed
  show o: "owned s' cr3 = (owned s cr3)(Table i \<mapsto> n)"
  proof
    fix r
    show "owned s' cr3 r = ((owned s cr3)(Table i \<mapsto> n)) r"
    proof (cases r)
      case (Table k)
      then show ?thesis using dir[of k] i n(1) by (auto simp: user_entry_def Let_def)
    qed (auto simp: w)
  qed
  show "kernel_half s' cr3 = kernel_half s cr3"
    using dir i by (auto simp: kernel_half_def)
  show "pages_ok (owned s' cr3) A" unfolding o by (rule pages_ok_upd[OF ok n])
qed

text \<open>Writing the entry of one page.\<close>

lemma set_leaf:
  fixes v :: u32
  assumes ok: "pages_ok (owned s cr3) A" and i: "user_entry i" "load_entry (pa2va cr3) i s \<noteq> 0"
    and j: "unat j < 1024"
  defines "s' \<equiv> store_entry (table_of (load_entry (pa2va cr3) i s)) j v s"
  shows "walk s' cr3 = (walk s cr3)((i, j) := v)" "owned s' cr3 = (owned s cr3)(Leaf i j := leaf_page v)"
    "kernel_half s' cr3 = kernel_half s cr3"
proof -
  let ?t = "\<lambda>k. table_of (load_entry (pa2va cr3) k s)"
  have g: "good_block (pa2va cr3) 12" using pages_okD(1)[OF ok, of Directory] by simp
  have tab: "good_block (?t k) 12 \<and> ?t k \<noteq> pa2va cr3"
    if "user_entry k" "load_entry (pa2va cr3) k s \<noteq> 0" for k
  proof -
    have o: "owned s cr3 (Table k) = Some (?t k)" using that by simp
    then have "?t k \<noteq> pa2va cr3" using pages_okD(3)[OF ok o, of Directory] by fastforce
    then show ?thesis using pages_okD(1)[OF ok o] by simp
  qed
  have inj: "k = i" if "user_entry k" "load_entry (pa2va cr3) k s \<noteq> 0" "?t k = ?t i" for k
    using pages_okD(3)[OF ok, of "Table i" "?t i" "Table k"] that i by simp
  have dir: "load_entry (pa2va cr3) k s' = load_entry (pa2va cr3) k s" if "unat k < 1024" for k
    using that g tab[OF i] j by (auto simp: s'_def load_store_entry)
  have other: "load_entry (?t k) l s' = (if k = i \<and> l = j then v else load_entry (?t k) l s)"
    if "user_entry k" "load_entry (pa2va cr3) k s \<noteq> 0" "unat l < 1024" for k l
    using that tab[OF i] tab[OF that(1,2)] inj[OF that(1,2)] j by (auto simp: s'_def load_store_entry)
  have uk: "user_entry k \<Longrightarrow> unat k < 1024" for k by (simp add: user_entry_def)
  show w: "walk s' cr3 = (walk s cr3)((i, j) := v)"
  proof (rule ext, clarify)
    fix k l
    show "walk s' cr3 (k, l) = ((walk s cr3)((i, j) := v)) (k, l)"
      using i j uk dir[of k] other[of k l] by (auto simp: walk_def Let_def)
  qed
  show "owned s' cr3 = (owned s cr3)(Leaf i j := leaf_page v)"
  proof
    fix r
    show "owned s' cr3 r = ((owned s cr3)(Leaf i j := leaf_page v)) r"
    proof (cases r)
      case (Table k)
      then show ?thesis using dir[of k] by (auto simp: user_entry_def Let_def)
    qed (simp_all add: w)
  qed
  show "kernel_half s' cr3 = kernel_half s cr3"
    using dir by (auto simp: kernel_half_def)
qed

section \<open>What the operations do to an address space\<close>

text \<open>
  From a state \<open>s\<close> with free chains \<open>F\<close> the operation leads to \<open>s'\<close>, \<open>F'\<close>: the allocator's
  invariant and the address space are kept, the kernel's half of the directory is not touched,
  the free bytes and the process's pages together have gained exactly \<open>P\<close>, and no other word
  of memory is written.
\<close>

definition space_step ::
  "kmem \<Rightarrow> (nat \<Rightarrow> u32 list) \<Rightarrow> u32 \<Rightarrow> nat set \<Rightarrow> kmem \<Rightarrow> (nat \<Rightarrow> u32 list) \<Rightarrow> bool" where
  "space_step s F cr3 P s' F' \<longleftrightarrow> free_inv s' F' \<and> address_space s' F' cr3 \<and>
     kernel_half s' cr3 = kernel_half s cr3 \<and>
     free_area F' \<union> footprint (owned s' cr3) = free_area F \<union> footprint (owned s cr3) \<union> P \<and>
     (\<forall>x. unat x \<notin> free_area F \<union> footprint (owned s cr3) \<longrightarrow> mem s' x = mem s x)"

lemma space_step_refl: "free_inv s F \<Longrightarrow> address_space s F cr3 \<Longrightarrow> space_step s F cr3 {} s F"
  by (simp add: space_step_def)

lemma space_step_trans:
  assumes "space_step s F cr3 {} s1 F1" "space_step s1 F1 cr3 P s2 F2"
  shows "space_step s F cr3 P s2 F2"
  using assms unfolding space_step_def by (metis (no_types, lifting) Un_empty_right order_trans)

lemma address_spaceD:
  assumes "address_space s F cr3"
  shows "cr3 AND 0xFFF = 0" "pages_ok (owned s cr3) (free_area F)" "good_block (pa2va cr3) 12"
    "block (pa2va cr3) 12 \<inter> free_area F = {}" "table_of cr3 = pa2va cr3"
  using assms pages_okD(1,2)[of "owned s cr3" "free_area F" Directory]
  by (auto simp: address_space_def table_of_aligned)

lemma entry_written:
  assumes "owned s cr3 r = Some t" "good_block t 12" "unat i < 1024" "unat x \<notin> footprint (owned s cr3)"
  shows "mem (store_entry t i v s') x = mem s' x"
proof -
  have "x \<noteq> t + 4 * i" using footprintI[of "owned s cr3" r t] entry_in_block[of t i] assms by blast
  then show ?thesis by (simp add: store_entry_def)
qed

text \<open>The number of pages the allocator can hand out.\<close>

definition room :: "(nat \<Rightarrow> u32 list) \<Rightarrow> nat" where
  "room F = card {a. good_block a 12 \<and> block a 12 \<subseteq> free_area F}"

lemma has_page_room:
  assumes inv: "free_inv s F" and r: "0 < room F"
  shows "has_page F"
proof -
  have "{a. good_block a 12 \<and> block a 12 \<subseteq> free_area F} \<noteq> {}"
  proof
    assume e: "{a. good_block a 12 \<and> block a 12 \<subseteq> free_area F} = {}"
    show False using r unfolding room_def e by simp
  qed
  then obtain a where a: "good_block a 12" "block a 12 \<subseteq> free_area F" by blast
  have "2 ^ 12 dvd unat a" using a(1) by (simp add: good_block_def)
  then obtain b c where "12 \<le> b" "c \<in> set (F b)"
    using free_block_covered[of F 12 a] inv a(2) by (auto simp: free_inv_def)
  then show ?thesis unfolding has_page_def by (metis empty_iff list.set(1))
qed

lemma room_alloc:
  assumes "good_block a 12" "block a 12 \<subseteq> free_area F" "free_area F' = free_area F - block a 12"
  shows "room F = Suc (room F')"
proof -
  let ?P = "\<lambda>A. {a. good_block a 12 \<and> block a 12 \<subseteq> A}"
  have "c \<in> ?P (free_area F) \<longleftrightarrow> c = a \<or> c \<in> ?P (free_area F')" for c
    using assms page_blocks_disjoint[of c a] by (cases "c = a") blast+
  then have "?P (free_area F) = insert a (?P (free_area F'))" by blast
  moreover have "a \<notin> ?P (free_area F')" using assms(3) block_self[of a 12] by blast
  ultimately show ?thesis by (simp add: room_def)
qed

text \<open>A page taken from the allocator and zeroed.\<close>

lemma zeroed_page:
  assumes inv: "free_inv s F" and as: "address_space s F cr3" and p: "has_page F"
  obtains n s1 s' F' where "memory_alloc 12 s = Inr (n, s1)" "s' = fill_words n 1024 s1"
    "good_block n 12" "block n 12 \<subseteq> free_area F" "free_inv s' F'"
    "free_area F' = free_area F - block n 12" "\<And>x. unat x \<notin> free_area F \<Longrightarrow> mem s' x = mem s x"
    "\<And>j. unat j < 1024 \<Longrightarrow> load_entry n j s' = 0"
proof -
  obtain n s1 F' where n: "memory_alloc 12 s = Inr (n, s1)" "good_block n 12" "block n 12 \<subseteq> free_area F"
      "free_inv s1 F'" "free_area F' = free_area F - block n 12"
      "\<And>x. unat x \<notin> free_area F' \<Longrightarrow> mem s1 x = mem s x"
    using alloc_page[OF inv p] by metis
  let ?s = "fill_words n 1024 s1"
  have "free_inv ?s F'" using n by (intro fill_page_inv) auto
  moreover have "mem ?s x = mem s x" if "unat x \<notin> free_area F" for x
  proof -
    have "x \<noteq> n + 4 * of_nat i" if "i < 1024" for i
    proof
      assume x: "x = n + 4 * of_nat i"
      have "unat (of_nat i :: u32) < 1024" using that by (simp add: unat_of_nat_small)
      then have "unat x \<in> block n 12" using entry_in_block[OF n(2)] x by simp
      then show False using n(3) \<open>unat x \<notin> free_area F\<close> by blast
    qed
    then have "mem ?s x = mem s1 x" using mem_fill_words[OF good_page_room[OF n(2)], of 1024] by auto
    moreover have "unat x \<notin> free_area F'" using that n(5) by blast
    ultimately show ?thesis using n(6) by simp
  qed
  moreover have "load_entry n j ?s = 0" if "unat j < 1024" for j
    using load_fill_page[OF n(2) n(2) that, of 1024] that by simp
  ultimately show ?thesis using that[OF n(1) refl n(2,3)] n(5) by blast
qed

lemma ensure_table_ok:
  assumes inv: "free_inv s F" and as: "address_space s F cr3" and i: "user_entry i"
    and p: "load_entry (pa2va cr3) i s = 0 \<Longrightarrow> has_page F"
  obtains s' F' where "ensure_table (pa2va cr3) i s = Inr s'" "space_step s F cr3 {} s' F'"
    "walk s' cr3 = walk s cr3" "load_entry (pa2va cr3) i s' \<noteq> 0"
    "load_entry (pa2va cr3) i s \<noteq> 0 \<Longrightarrow> s' = s \<and> F' = F" "room F \<le> Suc (room F')"
    "load_entry (pa2va cr3) i s = 0 \<Longrightarrow> BIT_TEST (load_entry (pa2va cr3) i s') 0"
    "\<And>r. r \<noteq> Table i \<Longrightarrow> owned s' cr3 r = owned s cr3 r"
proof (cases "load_entry (pa2va cr3) i s = 0")
  case False
  then have "ensure_table (pa2va cr3) i s = Inr s" by (simp add: ensure_table_def)
  then show ?thesis using that[of s F] False space_step_refl[OF inv as] by simp
next
  case True
  note asd = address_spaceD[OF as]
  obtain n s1 s2 F' where n: "memory_alloc 12 s = Inr (n, s1)" "s2 = fill_words n 1024 s1"
      "good_block n 12" "block n 12 \<subseteq> free_area F" "free_inv s2 F'"
      "free_area F' = free_area F - block n 12" "\<And>x. unat x \<notin> free_area F \<Longrightarrow> mem s2 x = mem s x"
      "\<And>j. unat j < 1024 \<Longrightarrow> load_entry n j s2 = 0"
    using zeroed_page[OF inv as p[OF True]] by metis
  let ?s = "store_entry (pa2va cr3) i (va2pa n OR 31) s2"
  have i': "unat i < 1024" using i by (simp add: user_entry_def)
  have same: "owned s2 cr3 = owned s cr3" "walk s2 cr3 = walk s cr3" "kernel_half s2 cr3 = kernel_half s cr3"
    using same_space(1-3)[OF asd(2)] n(7) by blast+
  have e0: "load_entry (pa2va cr3) i s2 = 0" using same_space(4)[OF asd(2), of s2 i] n(7) i' True by simp
  have nf: "owned s cr3 r \<noteq> Some n" for r by (rule fresh_page[OF asd(2) n(4)])
  have sub: "free_area F' \<subseteq> free_area F" and nA: "block n 12 \<inter> free_area F' = {}" using n(6) by auto
  have ok: "pages_ok (owned s2 cr3) (free_area F')" using pages_ok_mono[OF asd(2) sub] same(1) by simp
  note st = set_table[OF ok i e0 n(3) nA _ n(8)]
  have own: "owned ?s cr3 = (owned s cr3)(Table i \<mapsto> n)" and wlk: "walk ?s cr3 = walk s cr3"
    and kh: "kernel_half ?s cr3 = kernel_half s cr3" and ok': "pages_ok (owned ?s cr3) (free_area F')"
    using st nf same by simp_all
  have "unat (pa2va cr3 + 4 * i) \<notin> free_area F'"
    using entry_in_block[OF asd(3) i'] asd(4) sub by blast
  then have inv': "free_inv ?s F'" using free_inv_write[OF n(5)] by (simp add: store_entry_def)
  have tn: "owned s cr3 (Table i) = None" using True by simp
  have area: "free_area F' \<union> footprint (owned ?s cr3) = free_area F \<union> footprint (owned s cr3)"
    unfolding own footprint_upd[of "owned s cr3" "Table i" n, OF tn] using n(4,6) by blast
  have fr: "mem ?s x = mem s x" if "unat x \<notin> free_area F \<union> footprint (owned s cr3)" for x
    using that entry_written[of s cr3 Directory "pa2va cr3" i x "va2pa n OR 31" s2] asd(3) i' n(7) by simp
  have "space_step s F cr3 {} ?s F'"
    unfolding space_step_def address_space_def using inv' ok' kh area fr sub asd(1) by simp
  moreover have "load_entry (pa2va cr3) i ?s = va2pa n OR 31" using asd(3) i' by (simp add: load_store_entry)
  then have "load_entry (pa2va cr3) i ?s \<noteq> 0" "BIT_TEST (load_entry (pa2va cr3) i ?s) 0"
    by (simp_all add: BIT_TEST_bit bit_or_iff)
  moreover have "ensure_table (pa2va cr3) i s = Inr ?s" using True n(1,2) by (simp add: ensure_table_def)
  moreover have "room F \<le> Suc (room F')" using room_alloc[OF n(3,4,6)] by simp
  moreover have "owned ?s cr3 r = owned s cr3 r" if "r \<noteq> Table i" for r
    unfolding own using that by (rule fun_upd_other)
  ultimately show ?thesis using that[of ?s F'] wlk True by blast
qed

text \<open>Writing a table entry, when the page it names is no page of the process and not free.\<close>

definition new_page :: "kmem \<Rightarrow> (nat \<Rightarrow> u32 list) \<Rightarrow> u32 \<Rightarrow> u32 option \<Rightarrow> bool" where
  "new_page s F cr3 p \<longleftrightarrow> (\<forall>a. p = Some a \<longrightarrow> good_block a 12 \<and>
     block a 12 \<inter> (free_area F \<union> footprint (owned s cr3)) = {})"

lemma new_page_step:
  "new_page s F cr3 p \<Longrightarrow> space_step s F cr3 {} s' F' \<Longrightarrow> new_page s' F' cr3 p"
  unfolding new_page_def space_step_def by (metis Un_empty_right)

definition page_bytes :: "u32 option \<Rightarrow> nat set" where
  "page_bytes p = (case p of None \<Rightarrow> {} | Some a \<Rightarrow> block a 12)"

lemma set_leaf_step:
  assumes inv: "free_inv s F" and as: "address_space s F cr3"
    and i: "user_entry i" "load_entry (pa2va cr3) i s \<noteq> 0" and j: "unat j < 1024"
    and e: "walk s cr3 (i, j) = 0" and v: "new_page s F cr3 (leaf_page v)"
  defines "s' \<equiv> store_entry (table_of (load_entry (pa2va cr3) i s)) j v s"
  shows "space_step s F cr3 (page_bytes (leaf_page v)) s' F" "walk s' cr3 = (walk s cr3)((i, j) := v)"
proof -
  note asd = address_spaceD[OF as]
  let ?t = "table_of (load_entry (pa2va cr3) i s)"
  note sl = set_leaf[OF asd(2) i j, of v, folded s'_def]
  have o: "owned s cr3 (Table i) = Some ?t" using i by simp
  have g: "good_block ?t 12" "block ?t 12 \<inter> free_area F = {}" using pages_okD(1,2)[OF asd(2) o] .
  have "unat (?t + 4 * j) \<notin> free_area F" using entry_in_block[OF g(1) j] g(2) by blast
  then have inv': "free_inv s' F" using free_inv_write[OF inv] by (simp add: s'_def store_entry_def)
  have none: "owned s cr3 (Leaf i j) = None" by (simp add: e leaf_page_def)
  have ok: "pages_ok (owned s' cr3) (free_area F) \<and>
      footprint (owned s' cr3) = footprint (owned s cr3) \<union> page_bytes (leaf_page v)"
  proof (cases "leaf_page v")
    case None
    then have "owned s' cr3 = owned s cr3" unfolding sl(2) using none by (metis fun_upd_triv)
    then show ?thesis using asd(2) None by (simp add: page_bytes_def)
  next
    case (Some a)
    then have a: "good_block a 12" "block a 12 \<inter> (free_area F \<union> footprint (owned s cr3)) = {}"
      using v by (auto simp: new_page_def)
    have "owned s cr3 r \<noteq> Some a" for r
      using a(2) footprintI[of "owned s cr3" r a "unat a"] block_self[of a 12] by blast
    then show ?thesis unfolding sl(2) Some
      using pages_ok_upd[OF asd(2) a(1)] a(2) footprint_upd[of "owned s cr3", OF none]
      by (simp add: page_bytes_def Int_Un_distrib)
  qed
  have fr: "mem s' x = mem s x" if "unat x \<notin> free_area F \<union> footprint (owned s cr3)" for x
    using that entry_written[OF o g(1) j] by (simp add: s'_def)
  show "space_step s F cr3 (page_bytes (leaf_page v)) s' F"
    unfolding space_step_def address_space_def using inv' ok sl(3) fr asd(1) by auto
  show "walk s' cr3 = (walk s cr3)((i, j) := v)" by (rule sl(1))
qed

lemma walk_entry:
  "user_entry i \<Longrightarrow> unat j < 1024 \<Longrightarrow> load_entry (pa2va cr3) i s \<noteq> 0 \<Longrightarrow>
    load_entry (table_of (load_entry (pa2va cr3) i s)) j s = walk s cr3 (i, j)"
  by (simp add: walk_def)

text \<open>The two indices of a linear address.\<close>

definition page_ix :: "u32 \<Rightarrow> u32 \<times> u32" where
  "page_ix la = (va2pde la, va2pte la)"

lemma user_page: "la < PAGE_OFFSET \<Longrightarrow> user_entry (va2pde la)"
  unfolding user_entry_def by (rule user_pde)

lemma open_physical_page_ok:
  assumes inv: "free_inv s F" and as: "address_space s F cr3" and la: "la < PAGE_OFFSET"
    and p: "load_entry (pa2va cr3) (va2pde la) s = 0 \<Longrightarrow> has_page F"
    and v: "new_page s F cr3 (leaf_page (phy OR 31 OR flag))"
  shows "walk s cr3 (page_ix la) \<noteq> 0 \<Longrightarrow> open_physical_page cr3 phy la flag s = Inr (-1, s)"
    and "walk s cr3 (page_ix la) = 0 \<Longrightarrow> \<exists>s' F'. open_physical_page cr3 phy la flag s = Inr (0, s') \<and>
      space_step s F cr3 (page_bytes (leaf_page (phy OR 31 OR flag))) s' F' \<and>
      walk s' cr3 = (walk s cr3)(page_ix la := phy OR 31 OR flag)"
proof -
  note up = user_page[OF la]
  obtain s1 F1 where 1: "ensure_table (pa2va cr3) (va2pde la) s = Inr s1" "space_step s F cr3 {} s1 F1"
    "walk s1 cr3 = walk s cr3" "load_entry (pa2va cr3) (va2pde la) s1 \<noteq> 0"
    "load_entry (pa2va cr3) (va2pde la) s \<noteq> 0 \<Longrightarrow> s1 = s \<and> F1 = F"
    using ensure_table_ok[OF inv as up p] by metis
  have w: "load_entry (table_of (load_entry (pa2va cr3) (va2pde la) s1)) (va2pte la) s1 = walk s cr3 (page_ix la)"
    using walk_entry[OF up va2pte_bound 1(4)] 1(3) by (simp add: page_ix_def)
  have eq: "open_physical_page cr3 phy la flag s =
     (if walk s cr3 (page_ix la) \<noteq> 0 then Inr (-1, s1)
      else Inr (0, store_entry (table_of (load_entry (pa2va cr3) (va2pde la) s1)) (va2pte la) (phy OR 31 OR flag) s1))"
    unfolding open_physical_page_def Let_def 1(1) and_then_simps w ..
  show "walk s cr3 (page_ix la) \<noteq> 0 \<Longrightarrow> open_physical_page cr3 phy la flag s = Inr (-1, s)"
  proof -
    assume m: "walk s cr3 (page_ix la) \<noteq> 0"
    then have "load_entry (pa2va cr3) (va2pde la) s \<noteq> 0" by (auto simp: walk_def page_ix_def Let_def)
    then show ?thesis using eq m 1(5) by simp
  qed
  assume z: "walk s cr3 (page_ix la) = 0"
  have s1: "free_inv s1 F1" "address_space s1 F1 cr3" using 1(2) by (auto simp: space_step_def)
  have z1: "walk s1 cr3 (va2pde la, va2pte la) = 0" using z 1(3) by (simp add: page_ix_def)
  note sl = set_leaf_step[OF s1 up 1(4) va2pte_bound z1 new_page_step[OF v 1(2)]]
  show "\<exists>s' F'. open_physical_page cr3 phy la flag s = Inr (0, s') \<and>
      space_step s F cr3 (page_bytes (leaf_page (phy OR 31 OR flag))) s' F' \<and>
      walk s' cr3 = (walk s cr3)(page_ix la := phy OR 31 OR flag)"
    using eq z space_step_trans[OF 1(2) sl(1)] sl(2) 1(3) by (auto simp: page_ix_def)
qed

text \<open>A page from the allocator that is then mapped.\<close>

lemma alloc_new_page:
  assumes inv: "free_inv s F" and as: "address_space s F cr3" and p: "0 < room F"
  obtains a s1 F1 where "allocPhysicalPage s = Inr (va2pa a, s1)" "good_block a 12"
    "free_inv s1 F1" "address_space s1 F1 cr3" "owned s1 cr3 = owned s cr3" "walk s1 cr3 = walk s cr3"
    "kernel_half s1 cr3 = kernel_half s cr3" "new_page s1 F1 cr3 (Some a)"
    "free_area F = free_area F1 \<union> block a 12" "\<And>x. unat x \<notin> free_area F1 \<Longrightarrow> mem s1 x = mem s x"
    "\<And>i. unat i < 1024 \<Longrightarrow> load_entry (pa2va cr3) i s1 = load_entry (pa2va cr3) i s"
    "room F = Suc (room F1)"
proof -
  note asd = address_spaceD[OF as]
  obtain a s1 F1 where n: "memory_alloc 12 s = Inr (a, s1)" "good_block a 12" "block a 12 \<subseteq> free_area F"
      "free_inv s1 F1" "free_area F1 = free_area F - block a 12"
      "\<And>x. unat x \<notin> free_area F1 \<Longrightarrow> mem s1 x = mem s x"
    using alloc_page[OF inv has_page_room[OF inv p]] by metis
  have sub: "free_area F1 \<subseteq> free_area F" using n(5) by auto
  have ok: "pages_ok (owned s cr3) (free_area F1)" by (rule pages_ok_mono[OF asd(2) sub])
  have same: "owned s1 cr3 = owned s cr3" "walk s1 cr3 = walk s cr3" "kernel_half s1 cr3 = kernel_half s cr3"
    "\<And>i. unat i < 1024 \<Longrightarrow> load_entry (pa2va cr3) i s1 = load_entry (pa2va cr3) i s"
    using same_space[OF ok] n(6) by blast+
  have "footprint (owned s cr3) \<inter> free_area F = {}" using footprint_disjoint[OF asd(2)] .
  then have "new_page s1 F1 cr3 (Some a)" unfolding new_page_def same using n(2,3,5) by auto
  moreover have "address_space s1 F1 cr3" unfolding address_space_def same using ok asd(1) by blast
  moreover have "allocPhysicalPage s = Inr (va2pa a, s1)" using n(1) by (simp add: allocPhysicalPage_def)
  moreover have "free_area F = free_area F1 \<union> block a 12" using n(3,5) by blast
  ultimately show ?thesis using that n(2,4,6) same room_alloc[OF n(2,3,5)] by blast
qed

lemma alloc_then_step:
  assumes "space_step s1 F1 cr3 (block a 12) s' F'" "owned s1 cr3 = owned s cr3"
    "kernel_half s1 cr3 = kernel_half s cr3" "free_area F = free_area F1 \<union> block a 12"
    "\<And>x. unat x \<notin> free_area F1 \<Longrightarrow> mem s1 x = mem s x"
  shows "space_step s F cr3 {} s' F'"
  using assms unfolding space_step_def by (auto simp: Un_ac)

lemma leaf_page_entry [simp]: "good_block a 12 \<Longrightarrow> leaf_page (va2pa a OR 31) = Some a"
proof -
  assume g: "good_block a 12"
  have "(va2pa a OR 31) AND 0x200 = (va2pa a AND 0xFFF) AND 0x200"
    by (simp add: bit.conj_disj_distrib2 and.assoc)
  then have "(va2pa a OR 31) AND 0x200 = 0" unfolding va2pa_aligned[OF g] by simp
  then show ?thesis using g by (simp add: leaf_page_def)
qed

lemma expand_stack_ok:
  assumes inv: "free_inv s F" and as: "address_space s F cr3" and la: "la < PAGE_OFFSET"
    and p: "2 \<le> room F" and z: "walk s cr3 (page_ix la) = 0"
  shows "\<exists>a s' F'. expand_stack cr3 la s = Inr s' \<and> space_step s F cr3 {} s' F' \<and> good_block a 12 \<and>
    walk s' cr3 = (walk s cr3)(page_ix la := va2pa a OR 31) \<and> room F \<le> room F' + 2 \<and>
    (load_entry (pa2va cr3) (va2pde la) s = 0 \<longrightarrow> BIT_TEST (load_entry (pa2va cr3) (va2pde la) s') 0) \<and>
    (\<forall>r. r \<noteq> Table (va2pde la) \<and> r \<noteq> Leaf (va2pde la) (va2pte la) \<longrightarrow> owned s' cr3 r = owned s cr3 r)"
proof -
  note up = user_page[OF la]
  obtain s1 F1 where 1: "ensure_table (pa2va cr3) (va2pde la) s = Inr s1" "space_step s F cr3 {} s1 F1"
    "walk s1 cr3 = walk s cr3" "load_entry (pa2va cr3) (va2pde la) s1 \<noteq> 0" "room F \<le> Suc (room F1)"
    "load_entry (pa2va cr3) (va2pde la) s = 0 \<Longrightarrow> BIT_TEST (load_entry (pa2va cr3) (va2pde la) s1) 0"
    "\<And>r. r \<noteq> Table (va2pde la) \<Longrightarrow> owned s1 cr3 r = owned s cr3 r"
    using ensure_table_ok[OF inv as up has_page_room[OF inv]] p by (metis less_le_trans zero_less_numeral)
  have s1: "free_inv s1 F1" "address_space s1 F1 cr3" using 1(2) by (auto simp: space_step_def)
  have "0 < room F1" using 1(5) p by simp
  then obtain a s2 F2 where 2: "allocPhysicalPage s1 = Inr (va2pa a, s2)" "good_block a 12"
    "free_inv s2 F2" "address_space s2 F2 cr3" "owned s2 cr3 = owned s1 cr3" "walk s2 cr3 = walk s1 cr3"
    "kernel_half s2 cr3 = kernel_half s1 cr3" "new_page s2 F2 cr3 (Some a)"
    "free_area F1 = free_area F2 \<union> block a 12" "\<And>x. unat x \<notin> free_area F2 \<Longrightarrow> mem s2 x = mem s1 x"
    "\<And>i. unat i < 1024 \<Longrightarrow> load_entry (pa2va cr3) i s2 = load_entry (pa2va cr3) i s1" "room F1 = Suc (room F2)"
    using alloc_new_page[OF s1] by metis
  note e = 2(11)[OF va2pde_bound, of la]
  have n2: "load_entry (pa2va cr3) (va2pde la) s2 \<noteq> 0" using e 1(4) by simp
  have z2: "walk s2 cr3 (va2pde la, va2pte la) = 0" using z 1(3) 2(6) by (simp add: page_ix_def)
  have np: "new_page s2 F2 cr3 (leaf_page (va2pa a OR 31))" using 2(2,8) by simp
  note sl = set_leaf_step[OF 2(3,4) up n2 va2pte_bound z2 np]
  have "space_step s1 F1 cr3 {} (store_entry (table_of (load_entry (pa2va cr3) (va2pde la) s2)) (va2pte la) (va2pa a OR 31) s2) F2"
    using sl(1) 2(2) by (intro alloc_then_step[OF _ 2(5,7,9,10)]) (simp_all add: page_bytes_def)
  note st = space_step_trans[OF 1(2) this]
  have "expand_stack cr3 la s = Inr (store_entry (table_of (load_entry (pa2va cr3) (va2pde la) s2)) (va2pte la) (va2pa a OR 31) s2)"
    unfolding expand_stack_def Let_def address_spaceD(5)[OF as] 1(1) and_then_simps 2(1) prod.case e ..
  moreover have "load_entry (pa2va cr3) (va2pde la)
      (store_entry (table_of (load_entry (pa2va cr3) (va2pde la) s2)) (va2pte la) (va2pa a OR 31) s2) =
      load_entry (pa2va cr3) (va2pde la) s1"
  proof -
    have o: "owned s2 cr3 (Table (va2pde la)) = Some (table_of (load_entry (pa2va cr3) (va2pde la) s2))"
      using up n2 by simp
    have "table_of (load_entry (pa2va cr3) (va2pde la) s2) \<noteq> pa2va cr3"
      using pages_okD(3)[OF address_spaceD(2)[OF 2(4)] o, of Directory] by fastforce
    then show ?thesis
      using load_store_entry[OF address_spaceD(3)[OF as] pages_okD(1)[OF address_spaceD(2)[OF 2(4)] o] va2pde_bound va2pte_bound]
        e by metis
  qed
  moreover have "room F \<le> room F2 + 2" using 1(5) 2(12) by simp
  moreover have "\<forall>r. r \<noteq> Table (va2pde la) \<and> r \<noteq> Leaf (va2pde la) (va2pte la) \<longrightarrow>
      owned (store_entry (table_of (load_entry (pa2va cr3) (va2pde la) s2)) (va2pte la) (va2pa a OR 31) s2) cr3 r = owned s cr3 r"
    unfolding set_leaf(2)[OF address_spaceD(2)[OF 2(4)] up n2 va2pte_bound] 2(5) using 1(7) by (simp del: owned.simps)
  ultimately show ?thesis using st sl(2) 1(3,6) 2(2,6) by (auto simp: page_ix_def simp del: owned.simps)
qed

section \<open>Creating and recycling a directory\<close>

lemma mem_copy_words:
  assumes "unat d + 4 * n < 2 ^ 32"
    and "\<And>i j. i < n \<Longrightarrow> j < n \<Longrightarrow> d + 4 * of_nat i \<noteq> p + 4 * of_nat j"
  shows "mem (copy_words d p n s) x =
    (if \<exists>i < n. x = d + 4 * of_nat i then mem s (p + (x - d)) else mem s x)"
  using assms
proof (induction n arbitrary: d p s)
  case (Suc n)
  let ?s = "s\<lparr>mem := (mem s)(d := mem s p)\<rparr>"
  have u: "unat (d + 4) = unat d + 4" using Suc.prems(1) by (simp add: unat_plus_small)
  have shift: "a + 4 + 4 * of_nat k = a + 4 * of_nat (Suc k)" for a :: u32 and k by (simp add: algebra_simps)
  have dj: "d + 4 + 4 * of_nat i \<noteq> p + 4 + 4 * of_nat j" if "i < n" "j < n" for i j
    unfolding shift using that by (intro Suc.prems(2)) auto
  have IH: "mem (copy_words (d + 4) (p + 4) n ?s) x =
      (if \<exists>i < n. x = d + 4 + 4 * of_nat i then mem ?s (p + 4 + (x - (d + 4))) else mem ?s x)"
    using Suc.prems(1) u dj by (intro Suc.IH) simp_all
  have ex: "(\<exists>i < Suc n. x = d + 4 * of_nat i) \<longleftrightarrow> x = d \<or> (\<exists>i < n. x = d + 4 + 4 * of_nat i)"
    by (simp add: less_Suc_eq_0_disj) (auto simp: algebra_simps)
  have nd: "d \<noteq> d + 4 + 4 * of_nat i" if "i < n" for i
  proof -
    have "unat (4 * of_nat i :: u32) = 4 * i"
      using Suc.prems(1) that by (simp add: unat_word_ariths unat_of_nat)
    then have "unat (d + 4 + 4 * of_nat i) = unat d + 4 + 4 * i"
      using Suc.prems(1) that u by (simp add: unat_plus_small)
    then show ?thesis by (metis add_eq_self_zero add.assoc add_is_0 zero_neq_numeral)
  qed
  have src: "p + 4 + (x - (d + 4)) = p + (x - d)" by simp
  have same: "mem ?s (p + (x - d)) = mem s (p + (x - d))" if "i < n" "x = d + 4 + 4 * of_nat i" for i
  proof -
    have "p + (x - d) = p + 4 * of_nat (Suc i)" using that by (simp add: algebra_simps)
    moreover have "d + 4 * of_nat 0 \<noteq> p + 4 * of_nat (Suc i)" using that by (intro Suc.prems(2)) auto
    ultimately show ?thesis by simp
  qed
  show ?case
    unfolding copy_words.simps IH ex src using same nd by auto
qed simp

text \<open>The pages a list names, freed one after another.\<close>

fun free_pages :: "u32 list \<Rightarrow> kmem \<Rightarrow> kerror + kmem" where
  "free_pages [] s = Inr s"
| "free_pages (a # as) s = and_then (memory_block_free a 12 s) (free_pages as)"

definition pages_bytes :: "u32 list \<Rightarrow> nat set" where
  "pages_bytes as = (\<Union>a \<in> set as. block a 12)"

definition spare_pages :: "u32 list \<Rightarrow> nat set \<Rightarrow> bool" where
  "spare_pages as A \<longleftrightarrow> distinct as \<and> (\<forall>a \<in> set as. good_block a 12 \<and> block a 12 \<inter> A = {})"

lemma pages_bytes_simps [simp]:
  "pages_bytes [] = {}" "pages_bytes (a # as) = block a 12 \<union> pages_bytes as"
  "pages_bytes (as @ bs) = pages_bytes as \<union> pages_bytes bs"
  by (auto simp: pages_bytes_def)

lemma and_then_assoc: "and_then (and_then r f) g = and_then r (\<lambda>x. and_then (f x) g)"
  by (cases r) simp_all

lemma free_pages_append: "free_pages (as @ bs) s = and_then (free_pages as s) (free_pages bs)"
proof (induction as arbitrary: s)
  case (Cons a as)
  then show ?case by (cases "memory_block_free a 12 s") simp_all
qed simp

lemma spare_pages_Cons:
  assumes "spare_pages (a # as) A"
  shows "good_block a 12" "block a 12 \<inter> A = {}" "block a 12 \<inter> pages_bytes as = {}"
    "spare_pages as (A \<union> block a 12)"
proof -
  show a: "good_block a 12" "block a 12 \<inter> A = {}" using assms by (auto simp: spare_pages_def)
  have "block c 12 \<inter> block a 12 = {}" if "c \<in> set as" for c
    using that assms page_blocks_disjoint[of c a] by (auto simp: spare_pages_def)
  then show "block a 12 \<inter> pages_bytes as = {}" "spare_pages as (A \<union> block a 12)"
    using assms by (auto simp: spare_pages_def pages_bytes_def Int_Un_distrib)
qed

lemma spare_pages_append:
  "spare_pages (as @ bs) A \<Longrightarrow> spare_pages as A"
  "spare_pages (as @ bs) A \<Longrightarrow> spare_pages bs (A \<union> pages_bytes as)"
proof -
  show "spare_pages (as @ bs) A \<Longrightarrow> spare_pages as A" by (auto simp: spare_pages_def)
  show "spare_pages (as @ bs) A \<Longrightarrow> spare_pages bs (A \<union> pages_bytes as)"
  proof (induction as arbitrary: A)
    case (Cons a as)
    then have "spare_pages bs (A \<union> block a 12 \<union> pages_bytes as)" using spare_pages_Cons(4) by simp
    then show ?case by (simp add: Un_assoc)
  qed simp
qed

lemma free_pages_ok:
  "free_inv s F \<Longrightarrow> spare_pages as (free_area F) \<Longrightarrow> frees s (free_area F \<union> pages_bytes as) (free_pages as s)"
proof (induction as arbitrary: s F)
  case Nil
  then show ?case by (simp add: frees_refl)
next
  case (Cons a as)
  note sp = spare_pages_Cons[OF Cons.prems(2)]
  obtain s1 F1 where 1: "memory_block_free a 12 s = Inr s1" "free_inv s1 F1"
      "free_area F1 = free_area F \<union> block a 12"
    and f1: "frees s (free_area F \<union> block a 12) (Inr s1)"
    using memory_block_free_ok[OF Cons.prems(1) sp(1,2)] unfolding frees_def by metis
  have "frees s1 (free_area F1 \<union> pages_bytes as) (free_pages as s1)"
    using Cons.IH[OF 1(2)] sp(4) 1(3) by simp
  then show ?case using frees_trans[OF f1] 1(1,3) by (auto simp: Un_assoc)
qed

lemma frees_framed: "frees s A (Inr s') \<Longrightarrow> unat x \<notin> A \<Longrightarrow> mem s' x = mem s x"
  by (auto simp: frees_def)

text \<open>The loops of the recycling routines free the pages they find, the table itself untouched.\<close>

definition entry_pages :: "(u32 \<Rightarrow> bool) \<Rightarrow> u32 \<Rightarrow> nat \<Rightarrow> kmem \<Rightarrow> u32 list" where
  "entry_pages keep pte i s =
     map (\<lambda>j. table_of (load_entry pte (of_nat j) s))
       (filter (\<lambda>j. load_entry pte (of_nat j) s \<noteq> 0 \<and> \<not> keep (load_entry pte (of_nat j) s)) [i..<1024])"

lemma entry_pages_step:
  "i < 1024 \<Longrightarrow> entry_pages keep pte i s =
     (let e = load_entry pte (of_nat i) s in if e \<noteq> 0 \<and> \<not> keep e then [table_of e] else []) @ entry_pages keep pte (Suc i) s"
  by (simp add: entry_pages_def upt_conv_Cons)

lemma entry_pages_same:
  assumes "\<And>i. unat i < 1024 \<Longrightarrow> load_entry pte i s' = load_entry pte i s"
  shows "entry_pages keep pte i s' = entry_pages keep pte i s"
proof -
  have "load_entry pte (of_nat j) s' = load_entry pte (of_nat j) s" if "j < 1024" for j
    using assms[of "of_nat j"] that by (simp add: unat_of_nat_small)
  then show ?thesis unfolding entry_pages_def by (intro arg_cong2[where f = map] filter_cong map_cong) auto
qed

lemma load_outside:
  assumes "good_block t 12" "block t 12 \<inter> A = {}" "\<And>x. unat x \<notin> A \<Longrightarrow> mem s' x = mem s x" "unat i < 1024"
  shows "load_entry t i s' = load_entry t i s"
  using entry_in_block[OF assms(1,4)] assms(2,3) unfolding load_entry_def by blast

lemma recycle_entries_eq:
  assumes "free_inv s F" "good_block pte 12" "block pte 12 \<inter> free_area F = {}"
    and "spare_pages (entry_pages keep pte i s) (free_area F)"
    and "pte \<notin> set (entry_pages keep pte i s)"
  shows "recycle_entries keep pte i s = free_pages (entry_pages keep pte i s) s"
  using assms
proof (induction "1024 - i" arbitrary: i s F)
  case 0
  then show ?case by (simp add: recycle_entries.simps[of _ _ i] entry_pages_def)
next
  case (Suc n)
  then have i: "i < 1024" and n: "n = 1024 - Suc i" by auto
  let ?e = "load_entry pte (of_nat i) s"
  show ?case
  proof (cases "?e \<noteq> 0 \<and> \<not> keep ?e")
    case False
    then have ep: "entry_pages keep pte i s = entry_pages keep pte (Suc i) s"
      using entry_pages_step[OF i] by (auto simp: Let_def)
    then show ?thesis using Suc.hyps(1)[OF n Suc.prems(1-3)] Suc.prems(4,5) i False
      by (subst recycle_entries.simps) (auto simp: Let_def)
  next
    case True
    then have ep: "entry_pages keep pte i s = table_of ?e # entry_pages keep pte (Suc i) s"
      using entry_pages_step[OF i] by (simp add: Let_def)
    note sp = spare_pages_Cons[OF Suc.prems(4)[unfolded ep]]
    obtain s1 F1 where 1: "memory_block_free (table_of ?e) 12 s = Inr s1" "free_inv s1 F1"
        "free_area F1 = free_area F \<union> block (table_of ?e) 12"
        "\<And>x. unat x \<notin> free_area F1 \<Longrightarrow> mem s1 x = mem s x"
      using freesD[OF memory_block_free_ok[OF Suc.prems(1) sp(1,2)]] by metis
    have pd: "block pte 12 \<inter> free_area F1 = {}"
      using Suc.prems(3,5) page_blocks_disjoint[OF Suc.prems(2) sp(1)] 1(3) ep by auto
    have same: "entry_pages keep pte (Suc i) s1 = entry_pages keep pte (Suc i) s"
      using load_outside[OF Suc.prems(2) pd 1(4)] by (intro entry_pages_same) blast
    have "recycle_entries keep pte (Suc i) s1 = free_pages (entry_pages keep pte (Suc i) s) s1"
      using Suc.hyps(1)[OF n 1(2) Suc.prems(2) pd] sp(4) Suc.prems(5) 1(3) ep same by simp
    then show ?thesis using i True 1(1) ep
      by (subst recycle_entries.simps) (simp add: Let_def recyclePhysicalPage_def table_of_def)
  qed
qed

definition is_phy :: "u32 \<Rightarrow> bool" where
  "is_phy x \<longleftrightarrow> x AND PAGE_TYPE_PHY \<noteq> 0"

definition table_pages :: "u32 \<Rightarrow> nat \<Rightarrow> kmem \<Rightarrow> u32 list" where
  "table_pages pde i s = concat (map (\<lambda>k.
     let e = load_entry pde (of_nat k) s
     in if e \<noteq> 0 then entry_pages is_phy (table_of e) 0 s @ [table_of e] else []) [i..<768])"

lemma table_pages_step:
  "i < 768 \<Longrightarrow> table_pages pde i s =
     (let e = load_entry pde (of_nat i) s
      in if e \<noteq> 0 then entry_pages is_phy (table_of e) 0 s @ [table_of e] else []) @ table_pages pde (Suc i) s"
  by (simp add: table_pages_def upt_conv_Cons)

lemma table_pages_same:
  assumes sp: "spare_pages (table_pages pde i s) A" and d: "good_block pde 12" "block pde 12 \<inter> A = {}"
    and same: "\<And>x. unat x \<notin> A \<Longrightarrow> mem s' x = mem s x"
  shows "table_pages pde i s' = table_pages pde i s"
proof -
  have "(let e = load_entry pde (of_nat k) s'
      in if e \<noteq> 0 then entry_pages is_phy (table_of e) 0 s' @ [table_of e] else []) =
    (let e = load_entry pde (of_nat k) s
      in if e \<noteq> 0 then entry_pages is_phy (table_of e) 0 s @ [table_of e] else [])"
    if k: "k \<in> set [i..<768]" for k
  proof -
    let ?e = "load_entry pde (of_nat k) s"
    have e: "load_entry pde (of_nat k) s' = ?e"
      using load_outside[OF d same, of "of_nat k"] k by (simp add: unat_of_nat_small)
    show ?thesis
    proof (cases "?e = 0")
      case False
      have "table_of ?e \<in> set (table_pages pde i s)"
        unfolding table_pages_def set_concat set_map using k False by (auto intro!: bexI[of _ k] simp: Let_def)
      then have t: "good_block (table_of ?e) 12" "block (table_of ?e) 12 \<inter> A = {}"
        using sp by (auto simp: spare_pages_def)
      have "entry_pages is_phy (table_of ?e) 0 s' = entry_pages is_phy (table_of ?e) 0 s"
        using load_outside[OF t same] by (intro entry_pages_same) blast
      then show ?thesis unfolding e Let_def by simp
    qed (simp add: e)
  qed
  then show ?thesis unfolding table_pages_def by (intro arg_cong[where f = concat] map_cong refl) blast
qed

lemma va2pde_STACK_TOP [simp]: "unat (va2pde STACK_TOP) = 768"
  unfolding unat_va2pde by simp

lemma recycle_tables_eq:
  assumes "free_inv s F" "good_block pde 12" "block pde 12 \<inter> free_area F = {}"
    and "spare_pages (table_pages pde i s) (free_area F)"
    and "pde \<notin> set (table_pages pde i s)"
  shows "recycle_tables pde i s = free_pages (table_pages pde i s) s"
  using assms
proof (induction "768 - i" arbitrary: i s F)
  case 0
  then show ?case by (simp add: recycle_tables.simps[of _ i] table_pages_def)
next
  case (Suc n)
  then have i: "i < 768" and n: "n = 768 - Suc i" by auto
  let ?e = "load_entry pde (of_nat i) s"
  let ?t = "table_of ?e"
  show ?case
  proof (cases "?e = 0")
    case True
    then have "table_pages pde i s = table_pages pde (Suc i) s"
      using table_pages_step[OF i] by (simp add: Let_def)
    then show ?thesis using Suc.hyps(1)[OF n Suc.prems(1-3)] Suc.prems(4,5) i True
      by (subst recycle_tables.simps) (simp add: Let_def)
  next
    case False
    let ?as = "entry_pages is_phy ?t 0 s" and ?rest = "table_pages pde (Suc i) s"
    have tp: "table_pages pde i s = (?as @ [?t]) @ ?rest"
      using table_pages_step[OF i] False by (simp add: Let_def)
    note sp1 = spare_pages_append(1)[OF Suc.prems(4)[unfolded tp]]
    note sp2 = spare_pages_append(2)[OF Suc.prems(4)[unfolded tp]]
    have t: "good_block ?t 12" "block ?t 12 \<inter> free_area F = {}" "?t \<notin> set ?as"
      using sp1 by (auto simp: spare_pages_def)
    have ent: "recycle_entries is_phy ?t 0 s = free_pages ?as s"
      using recycle_entries_eq[OF Suc.prems(1) t(1,2) spare_pages_append(1)[OF sp1] t(3)] .
    obtain s1 F1 where 1: "free_pages (?as @ [?t]) s = Inr s1" "free_inv s1 F1"
        "free_area F1 = free_area F \<union> pages_bytes (?as @ [?t])"
        "\<And>x. unat x \<notin> free_area F1 \<Longrightarrow> mem s1 x = mem s x"
      using freesD[OF free_pages_ok[OF Suc.prems(1) sp1]] by metis
    have sp3: "spare_pages ?rest (free_area F1)" using sp2 1(3) by simp
    have pd: "block pde 12 \<inter> free_area F1 = {}"
    proof -
      have "block pde 12 \<inter> block a 12 = {}" if "a \<in> set (?as @ [?t])" for a
        using that page_blocks_disjoint[OF Suc.prems(2), of a] sp1 Suc.prems(5) tp
        by (auto simp: spare_pages_def)
      then show ?thesis using Suc.prems(3) unfolding 1(3) pages_bytes_def by blast
    qed
    note same = table_pages_same[OF sp3 Suc.prems(2) pd 1(4)]
    have "recycle_tables pde (Suc i) s1 = free_pages ?rest s1"
      using Suc.hyps(1)[OF n 1(2) Suc.prems(2) pd] sp3 Suc.prems(5) tp same by simp
    moreover have "and_then (recycle_entries is_phy ?t 0 s) (memory_block_free ?t 12) = Inr s1"
      using 1(1) unfolding ent free_pages_append by (cases "free_pages ?as s") (auto simp: and_then_eq_Inr)
    ultimately show ?thesis using i False 1(1)
      unfolding tp free_pages_append[of "?as @ [?t]"]
      by (subst recycle_tables.simps) (simp add: Let_def is_phy_def[abs_def])
  qed
qed

text \<open>The pages freed are the pages of the address space, one for each role.\<close>

definition roles :: "page_role list" where
  "roles = concat (map (\<lambda>k. map (\<lambda>j. Leaf (of_nat k) (of_nat j)) [0..<1024] @ [Table (of_nat k)]) [0..<768])
     @ [Directory]"

declare upt_rec_numeral [simp del]

lemma of_nat_u32_eq: "i < 2 ^ 32 \<Longrightarrow> j < 2 ^ 32 \<Longrightarrow> (of_nat i :: u32) = of_nat j \<longleftrightarrow> i = j"
proof -
  assume "i < 2 ^ 32" "j < 2 ^ 32"
  then have u: "unat (of_nat i :: u32) = i" "unat (of_nat j :: u32) = j" by (simp_all add: unat_of_nat_small)
  show ?thesis by (metis u)
qed

lemma map_filter_concat: "List.map_filter f (concat xss) = concat (map (List.map_filter f) xss)"
  by (induction xss) (simp_all add: List.map_filter_def)

lemma map_filter_append: "List.map_filter f (xs @ ys) = List.map_filter f xs @ List.map_filter f ys"
  by (simp add: List.map_filter_def)

lemma distinct_roles: "distinct roles"
proof -
  let ?b = "\<lambda>k. map (\<lambda>j. Leaf (of_nat k) (of_nat j)) [0..<1024] @ [Table (of_nat k)]"
  have inj: "inj_on (\<lambda>j. Leaf (of_nat k) (of_nat j)) {0..<1024}" for k
  proof (rule inj_onI)
    fix i j assume "i \<in> {0..<1024}" "j \<in> {0..<1024}" "Leaf (of_nat k) (of_nat i) = Leaf (of_nat k) (of_nat j)"
    then show "i = j" using of_nat_u32_eq[of i j] by simp
  qed
  have d1: "distinct (?b k)" for k using inj by (simp add: distinct_map image_iff)
  have dj: "set (?b k) \<inter> set (?b l) = {}" if "k < 768" "l < 768" "k \<noteq> l" for k l
  proof -
    have "(of_nat k :: u32) \<noteq> of_nat l" using that of_nat_u32_eq[of k l] by simp
    then show ?thesis by auto
  qed
  have "distinct (concat (map ?b [m..<768]))" for m
  proof (induction "768 - m" arbitrary: m)
    case (Suc n)
    then have m: "m < 768" and IH: "distinct (concat (map ?b [Suc m..<768]))" by auto
    have "set (?b m) \<inter> set (?b l) = {}" if "l \<in> set [Suc m..<768]" for l
      using that m by (intro dj) auto
    then have "set (?b m) \<inter> set (concat (map ?b [Suc m..<768])) = {}"
      unfolding set_concat set_map by blast
    with d1[of m] IH have "distinct (?b m @ concat (map ?b [Suc m..<768]))"
      unfolding distinct_append[of "?b m"] by (intro conjI)
    then show ?case unfolding upt_conv_Cons[OF m] list.map concat.simps .
  qed simp
  moreover have "Directory \<notin> set (concat (map ?b [0..<768]))" by auto
  ultimately show ?thesis unfolding roles_def by simp
qed

lemma owned_in_roles: "owned s cr3 r = Some a \<Longrightarrow> r \<in> set roles"
proof -
  assume o: "owned s cr3 r = Some a"
  have w: "x = of_nat (unat x)" for x :: u32 by simp
  show "r \<in> set roles"
  proof (cases r)
    case Directory
    then show ?thesis by (simp add: roles_def)
  next
    case (Table k)
    then have "unat k < 768" using o by (auto simp: Let_def user_entry_def split: if_splits)
    then show ?thesis unfolding roles_def Table
      by (auto intro!: bexI[of _ "unat k"])
  next
    case (Leaf k j)
    then have "unat k < 768 \<and> unat j < 1024"
      using o by (auto simp: Let_def user_entry_def walk_def leaf_page_def split: if_splits)
    then show ?thesis unfolding roles_def Leaf
      by (auto intro!: bexI[of _ "unat k"] image_eqI[of _ _ "unat j"])
  qed
qed

definition space_pages :: "kmem \<Rightarrow> u32 \<Rightarrow> u32 list" where
  "space_pages s cr3 = table_pages (pa2va cr3) 0 s @ [pa2va cr3]"

text \<open>The pages of one row of the directory, a table and the pages it names.\<close>

definition row_roles :: "u32 \<Rightarrow> page_role list" where
  "row_roles k = map (\<lambda>j. Leaf k (of_nat j)) [0..<1024] @ [Table k]"

lemma row_pages:
  assumes k: "user_entry k"
  shows "List.map_filter (owned s cr3) (row_roles k) =
     (let e = load_entry (pa2va cr3) k s
      in if e \<noteq> 0 then entry_pages is_phy (table_of e) 0 s @ [table_of e] else [])"
proof (cases "load_entry (pa2va cr3) k s = 0")
  case True
  then show ?thesis by (simp add: row_roles_def List.map_filter_def walk_def leaf_page_def comp_def)
next
  case False
  let ?t = "table_of (load_entry (pa2va cr3) k s)"
  have l: "owned s cr3 (Leaf k (of_nat j)) = leaf_page (load_entry ?t (of_nat j) s)" if "j \<in> set [0..<1024]" for j
    using that k False by (simp add: walk_def unat_of_nat_small)
  have "List.map_filter (owned s cr3) (map (\<lambda>j. Leaf k (of_nat j)) [0..<1024]) = entry_pages is_phy ?t 0 s"
    unfolding List.map_filter_def filter_map map_map entry_pages_def
  proof (rule map_cong)
    show "filter ((\<lambda>x. owned s cr3 x \<noteq> None) \<circ> (\<lambda>j. Leaf k (of_nat j))) [0..<1024] =
       filter (\<lambda>j. load_entry ?t (of_nat j) s \<noteq> 0 \<and> \<not> is_phy (load_entry ?t (of_nat j) s)) [0..<1024]"
      unfolding comp_def using l by (intro filter_cong refl) (simp add: leaf_page_def is_phy_def del: owned.simps)
    fix j assume "j \<in> set (filter (\<lambda>j. load_entry ?t (of_nat j) s \<noteq> 0 \<and> \<not> is_phy (load_entry ?t (of_nat j) s)) [0..<1024])"
    then show "(the \<circ> owned s cr3 \<circ> (\<lambda>j. Leaf k (of_nat j))) j = table_of (load_entry ?t (of_nat j) s)"
      using l[of j] by (simp add: leaf_page_def is_phy_def del: owned.simps)
  qed
  moreover have "owned s cr3 (Table k) = Some ?t" using k False by simp
  ultimately show ?thesis using False by (simp add: row_roles_def List.map_filter_def Let_def del: owned.simps)
qed

lemma space_pages_roles: "space_pages s cr3 = List.map_filter (owned s cr3) roles"
proof -
  have "concat (map (\<lambda>k. List.map_filter (owned s cr3) (row_roles (of_nat k))) [0..<768]) =
      table_pages (pa2va cr3) 0 s"
    unfolding table_pages_def
    using row_pages by (intro arg_cong[where f = concat] map_cong refl) (simp add: user_entry_def unat_of_nat_small)
  then have "List.map_filter (owned s cr3) (concat (map (\<lambda>k. row_roles (of_nat k)) [0..<768])) =
      table_pages (pa2va cr3) 0 s"
    unfolding map_filter_concat map_map comp_def .
  then show ?thesis
    unfolding space_pages_def roles_def row_roles_def map_filter_append by (simp add: List.map_filter_def)
qed

text \<open>Distinct roles have distinct pages.\<close>

lemma map_filter_spare:
  assumes ok: "pages_ok m A" and d: "distinct rs"
  shows "spare_pages (List.map_filter m rs) A"
    and "pages_bytes (List.map_filter m rs) = footprint (m |` set rs)"
proof -
  have st: "set (List.map_filter m rs) = ran (m |` set rs)"
    unfolding List.map_filter_def by (force simp: ran_def restrict_map_def)
  have "inj_on (the \<circ> m) (set (filter (\<lambda>r. m r \<noteq> None) rs))"
    using ok by (intro inj_onI) (auto simp: pages_ok_def)
  then have "distinct (List.map_filter m rs)"
    unfolding List.map_filter_def distinct_map using d by simp
  then show "spare_pages (List.map_filter m rs) A"
    unfolding spare_pages_def st using ok by (auto simp: pages_ok_def ran_def restrict_map_def)
  show "pages_bytes (List.map_filter m rs) = footprint (m |` set rs)"
    by (simp add: pages_bytes_def footprint_def st)
qed

lemma space_pages_spare:
  assumes "pages_ok (owned s cr3) A"
  shows "spare_pages (space_pages s cr3) A" "pages_bytes (space_pages s cr3) = footprint (owned s cr3)"
proof -
  have "owned s cr3 |` set roles = owned s cr3"
  proof
    fix r show "(owned s cr3 |` set roles) r = owned s cr3 r"
      using owned_in_roles[of s cr3 r] by (cases "owned s cr3 r") (auto simp: restrict_map_def)
  qed
  then show "spare_pages (space_pages s cr3) A" "pages_bytes (space_pages s cr3) = footprint (owned s cr3)"
    using map_filter_spare[OF assms distinct_roles] by (simp_all add: space_pages_roles)
qed

lemma recycleProcessPDE_ok:
  assumes inv: "free_inv s F" and as: "address_space s F cr3"
  shows "frees s (free_area F \<union> footprint (owned s cr3)) (recycleProcessPDE cr3 s)"
proof -
  note asd = address_spaceD[OF as]
  note sp = space_pages_spare(1)[OF asd(2), unfolded space_pages_def]
  have nd: "pa2va cr3 \<notin> set (table_pages (pa2va cr3) 0 s)" using sp by (auto simp: spare_pages_def)
  have "recycleProcessPDE cr3 s = free_pages (space_pages s cr3) s"
    unfolding recycleProcessPDE_def asd(5) space_pages_def free_pages_append
      recycle_tables_eq[OF inv asd(3,4) spare_pages_append(1)[OF sp] nd]
    by (cases "free_pages (table_pages (pa2va cr3) 0 s) s")
      (simp_all add: and_then_def split: sum.splits)
  then show ?thesis
    using free_pages_ok[OF inv space_pages_spare(1)[OF asd(2)]] space_pages_spare(2)[OF asd(2)] by simp
qed

lemma copy_words_inv:
  assumes "free_inv s F" "unat d + 4 * n < 2 ^ 32" "{unat d ..< unat d + 4 * n} \<inter> free_area F = {}"
  shows "free_inv (copy_words d p n s) F"
  using assms
proof (induction n arbitrary: d p s)
  case (Suc n)
  have u: "unat (d + 4) = unat d + 4" using Suc.prems by (simp add: unat_plus_small)
  have "unat d \<in> {unat d ..< unat d + 4 * Suc n}" by simp
  then have "unat d \<notin> free_area F" using Suc.prems(3) by blast
  then have "free_inv (s\<lparr>mem := (mem s)(d := mem s p)\<rparr>) F" by (rule free_inv_write[OF Suc.prems(1)])
  moreover have "{unat (d + 4) ..< unat (d + 4) + 4 * n} \<subseteq> {unat d ..< unat d + 4 * Suc n}" using u by auto
  then have "{unat (d + 4) ..< unat (d + 4) + 4 * n} \<inter> free_area F = {}" using Suc.prems(3) by blast
  ultimately show ?case using Suc.IH[of _ "d + 4"] Suc.prems(2) u by simp
qed simp

text \<open>Copying the last entries of a table.\<close>

lemma load_copy_entries:
  assumes t: "good_block d 12" "good_block p 12" "d \<noteq> p" and u: "good_block u 12" "unat i < 1024"
    and m: "m + n = 1024"
  shows "load_entry u i (copy_words (d + 4 * of_nat m) (p + 4 * of_nat m) n s) =
    (if u = d \<and> m \<le> unat i then load_entry p i s else load_entry u i s)"
proof -
  have ix: "a + 4 * of_nat m + 4 * of_nat k = a + 4 * of_nat (m + k)" for a :: u32 and k
    by (simp add: algebra_simps)
  have b: "unat (of_nat (m + k) :: u32) = m + k" if "k < n" for k
    using that m by (intro unat_of_nat_small) simp
  show ?thesis
  proof (cases "n = 0")
    case True
    then show ?thesis using m u by simp
  next
    case False
    have um: "unat (of_nat m :: u32) = m" using b[of 0] False by simp
    have room: "unat (d + 4 * of_nat m) + 4 * n < 2 ^ 32"
      using entry_addr[OF t(1), of "of_nat m"] um m False t(1) by (simp add: good_block_def)
    have apart: "d + 4 * of_nat m + 4 * of_nat k \<noteq> p + 4 * of_nat m + 4 * of_nat l" if "k < n" "l < n" for k l
      unfolding ix using entry_eq_iff[OF t(1,2), of "of_nat (m + k)" "of_nat (m + l)"] b that m t(3)
      by (simp del: of_nat_add)
    have ex: "(\<exists>k < n. u + 4 * i = d + 4 * of_nat m + 4 * of_nat k) \<longleftrightarrow> u = d \<and> m \<le> unat i"
    proof
      assume "\<exists>k < n. u + 4 * i = d + 4 * of_nat m + 4 * of_nat k"
      then obtain k where k: "k < n" "u + 4 * i = d + 4 * of_nat (m + k)" unfolding ix by blast
      then have "u = d \<and> i = of_nat (m + k)" 
        using entry_eq_iff[OF u(1) t(1) u(2), of "of_nat (m + k)"] b[OF k(1)] k(1) m by (simp del: of_nat_add)
      then show "u = d \<and> m \<le> unat i" using b[OF k(1)] by simp
    next
      assume a: "u = d \<and> m \<le> unat i"
      then have "u + 4 * i = d + 4 * of_nat m + 4 * of_nat (unat i - m)" unfolding ix by simp
      then show "\<exists>k < n. u + 4 * i = d + 4 * of_nat m + 4 * of_nat k"
        using a u(2) m by (intro exI[of _ "unat i - m"]) auto
    qed
    have src: "p + 4 * of_nat m + (d + 4 * i - (d + 4 * of_nat m)) = p + 4 * i" by simp
    have cp: "mem (copy_words (d + 4 * of_nat m) (p + 4 * of_nat m) n s) x =
      (if \<exists>i < n. x = d + 4 * of_nat m + 4 * of_nat i
       then mem s (p + 4 * of_nat m + (x - (d + 4 * of_nat m))) else mem s x)" for x
      by (rule mem_copy_words[OF room]) (rule apart)
    show ?thesis unfolding load_entry_def cp ex using src by auto
  qed
qed

lemma copy_written:
  assumes "good_block d 12" "m + n = 1024" "unat x \<notin> block d 12" "good_block p 12" "d \<noteq> p"
  shows "mem (copy_words (d + 4 * of_nat m) (p + 4 * of_nat m) n s) x = mem s x"
proof (cases "n = 0")
  case False
  have ix: "a + 4 * of_nat m + 4 * of_nat k = a + 4 * of_nat (m + k)" for a :: u32 and k
    by (simp add: algebra_simps)
  have b: "unat (of_nat (m + k) :: u32) = m + k" if "k < n" for k
    using that assms(2) by (intro unat_of_nat_small) simp
  have um: "unat (of_nat m :: u32) = m" using b[of 0] False by simp
  have room: "unat (d + 4 * of_nat m) + 4 * n < 2 ^ 32"
    using entry_addr[OF assms(1), of "of_nat m"] um assms(2) False assms(1) by (simp add: good_block_def)
  have apart: "d + 4 * of_nat m + 4 * of_nat k \<noteq> p + 4 * of_nat m + 4 * of_nat l" if "k < n" "l < n" for k l
    unfolding ix using entry_eq_iff[OF assms(1,4), of "of_nat (m + k)" "of_nat (m + l)"] b that assms(2,5)
    by (simp del: of_nat_add)
  have cp: "mem (copy_words (d + 4 * of_nat m) (p + 4 * of_nat m) n s) x =
      (if \<exists>i < n. x = d + 4 * of_nat m + 4 * of_nat i
       then mem s (p + 4 * of_nat m + (x - (d + 4 * of_nat m))) else mem s x)"
    by (rule mem_copy_words[OF room]) (rule apart)
  have "\<not> (\<exists>k < n. x = d + 4 * of_nat (m + k))"
  proof (clarify)
    fix k assume k: "k < n" "x = d + 4 * of_nat (m + k)"
    then show False using entry_in_block[OF assms(1), of "of_nat (m + k)"] b[OF k(1)] assms(2,3)
      by (simp del: of_nat_add)
  qed
  with cp[unfolded ix] show ?thesis by (simp only: if_False)
qed simp

lemma fill_written:
  assumes "good_block a 12" "n \<le> 1024" "unat x \<notin> block a 12"
  shows "mem (fill_words a n s) x = mem s x"
proof -
  have "x \<noteq> a + 4 * of_nat k" if "k < n" for k
  proof -
    have "unat (of_nat k :: u32) < 1024" using that assms(2) by (simp add: unat_of_nat_small)
    then show ?thesis using entry_in_block[OF assms(1)] assms(3) by blast
  qed
  then show ?thesis using mem_fill_words[OF good_page_room[OF assms(1,2)]] by auto
qed

lemma createProcessPDE_ok:
  assumes inv: "free_inv s F" and r: "0 < room F"
    and k: "good_block (table_of cr3Copy) 12" "block (table_of cr3Copy) 12 \<inter> free_area F = {}"
  shows "\<exists>cr3 s' F'. createProcessPDE cr3Copy s = Inr (cr3, s') \<and> free_inv s' F' \<and> address_space s' F' cr3 \<and>
    walk s' cr3 = (\<lambda>_. 0) \<and> owned s' cr3 = [Directory \<mapsto> pa2va cr3] \<and>
    (\<forall>i. 768 \<le> unat i \<and> unat i < 1024 \<longrightarrow> kernel_half s' cr3 i = load_entry (table_of cr3Copy) i s) \<and>
    free_area F' = free_area F - block (pa2va cr3) 12 \<and> block (pa2va cr3) 12 \<subseteq> free_area F \<and>
    (\<forall>x. unat x \<notin> free_area F \<longrightarrow> mem s' x = mem s x)"
proof -
  obtain a s1 F1 where a: "memory_alloc 12 s = Inr (a, s1)" "good_block a 12" "block a 12 \<subseteq> free_area F"
      "free_inv s1 F1" "free_area F1 = free_area F - block a 12"
      "\<And>x. unat x \<notin> free_area F1 \<Longrightarrow> mem s1 x = mem s x"
    using alloc_page[OF inv has_page_room[OF inv r]] by metis
  let ?src = "table_of cr3Copy"
  let ?s2 = "fill_words a 768 s1"
  define s3 where s3: "s3 = copy_words (a + 4 * of_nat 768) (?src + 4 * of_nat 768) 256 ?s2"
  have off: "va2pde PAGE_OFFSET = 768" by (simp add: va2pde_def)
  have create: "createProcessPDE cr3Copy s = Inr (va2pa a, s3)"
    unfolding createProcessPDE_def a(1) and_then_simps prod.case Let_def off
    by (simp add: table_of_def s3)
  have ne: "a \<noteq> ?src" using k(2) a(3) block_self[of a 12] by blast
  have dis: "block a 12 \<inter> free_area F1 = {}" using a(5) by blast
  have inv2: "free_inv ?s2 F1" using a(4) by (intro fill_page_inv[OF _ a(2) dis]) auto
  have u768: "unat (a + 4 * of_nat 768) = unat a + 3072" using entry_addr[OF a(2), of 768] by simp
  have inv3: "free_inv s3 F1"
    unfolding s3
  proof (rule copy_words_inv[OF inv2])
    show "unat (a + 4 * of_nat 768) + 4 * 256 < 2 ^ 32" using u768 a(2) by (simp add: good_block_def)
    have "{unat (a + 4 * of_nat 768) ..< unat (a + 4 * of_nat 768) + 4 * 256} \<subseteq> block a 12"
      unfolding u768 by (auto simp: block_def)
    then show "{unat (a + 4 * of_nat 768) ..< unat (a + 4 * of_nat 768) + 4 * 256} \<inter> free_area F1 = {}"
      using dis by blast
  qed
  have ld: "load_entry a i s3 = (if unat i < 768 then 0 else load_entry ?src i s)" if i: "unat i < 1024" for i
  proof -
    have "load_entry ?src i ?s2 = load_entry ?src i s1"
      using load_fill_page[OF a(2) k(1) i, of 768] ne by simp
    also have "\<dots> = load_entry ?src i s"
    proof (rule load_outside[OF k(1) _ a(6) i])
      show "block ?src 12 \<inter> free_area F1 = {}" using k(2) a(5) by blast
    qed
    finally show ?thesis
      using load_copy_entries[OF a(2) k(1) ne a(2) i, of 768 256 ?s2] load_fill_page[OF a(2) a(2) i, of 768]
      unfolding s3 by auto
  qed
  have z: "load_entry a i s3 = 0" if "user_entry i" for i using ld[of i] that by (simp add: user_entry_def)
  have w: "walk s3 (va2pa a) = (\<lambda>_. 0)" unfolding walk_def by (rule ext) (auto simp: z Let_def split: prod.split)
  have o: "owned s3 (va2pa a) = [Directory \<mapsto> a]"
  proof
    fix r show "owned s3 (va2pa a) r = [Directory \<mapsto> a] r"
      by (cases r) (auto simp: w z leaf_page_def Let_def)
  qed
  have as: "address_space s3 F1 (va2pa a)"
    unfolding address_space_def o using va2pa_aligned[OF a(2)] a(2) dis by (auto simp: pages_ok_def)
  have fr: "mem s3 x = mem s x" if "unat x \<notin> free_area F" for x
  proof -
    have n: "unat x \<notin> block a 12" "unat x \<notin> free_area F1" using that a(3,5) by blast+
    show ?thesis using copy_written[OF a(2) _ n(1) k(1) ne, of 768 256] fill_written[OF a(2) _ n(1), of 768] a(6)[OF n(2)]
      unfolding s3 by simp
  qed
  have kh: "kernel_half s3 (va2pa a) i = load_entry ?src i s" if "768 \<le> unat i" "unat i < 1024" for i
    using that ld[of i] by (simp add: kernel_half_def user_entry_def)
  show ?thesis
    by (rule exI[of _ "va2pa a"], rule exI[of _ s3], rule exI[of _ F1])
      (use create inv3 as w o kh fr a(3,5) in simp)
qed

section \<open>Thread stacks\<close>

lemma va2pde_STACK_BOTTOM: "va2pde STACK_BOTTOM = 736"
  by (simp add: va2pde_def)

lemma stack_slot_from:
  "k \<le> 16 \<Longrightarrow> \<exists>j \<le> k. stack_slot pde (of_nat (735 + 2 * k)) s = of_nat (735 + 2 * j) \<and>
     (0 < j \<longrightarrow> load_entry pde (of_nat (735 + 2 * j)) s = 0) \<and>
     (\<forall>m. j < m \<and> m \<le> k \<longrightarrow> load_entry pde (of_nat (735 + 2 * m)) s \<noteq> 0)"
proof (induction k)
  case 0
  show ?case by (subst stack_slot.simps) (simp add: va2pde_STACK_BOTTOM)
next
  case (Suc k)
  let ?w = "of_nat (735 + 2 * Suc k) :: u32"
  have u: "unat ?w = 735 + 2 * Suc k" using Suc.prems by (intro unat_of_nat_small) simp
  have gt: "va2pde STACK_BOTTOM < ?w" unfolding va2pde_STACK_BOTTOM word_less_nat_alt u by simp
  have dec: "?w - 2 = of_nat (735 + 2 * k)" by (simp add: algebra_simps)
  show ?case
  proof (cases "load_entry pde ?w s = 0")
    case True
    then have "stack_slot pde ?w s = ?w" using gt by (subst stack_slot.simps) (simp del: of_nat_Suc of_nat_add of_nat_mult)
    then show ?thesis using True by (intro exI[of _ "Suc k"]) (auto simp del: of_nat_Suc of_nat_add of_nat_mult)
  next
    case False
    then have eq: "stack_slot pde ?w s = stack_slot pde (of_nat (735 + 2 * k)) s"
      using gt by (subst stack_slot.simps) (simp only: dec if_True if_False)
    obtain j where "j \<le> k" "stack_slot pde (of_nat (735 + 2 * k)) s = of_nat (735 + 2 * j)"
        "0 < j \<longrightarrow> load_entry pde (of_nat (735 + 2 * j)) s = 0"
        "\<forall>m. j < m \<and> m \<le> k \<longrightarrow> load_entry pde (of_nat (735 + 2 * m)) s \<noteq> 0"
      using Suc.IH Suc.prems by auto
    then show ?thesis unfolding eq using False by (intro exI[of _ j]) (auto simp: le_Suc_eq)
  qed
qed

text \<open>The entries \<open>767, 765, \<dots>, 737\<close> are the stack slots; the search takes the highest empty one.\<close>

definition slot_entry :: "nat \<Rightarrow> u32" where
  "slot_entry j = of_nat (735 + 2 * j)"

lemma slot_entry_facts:
  assumes "j \<le> 16"
  shows "unat (slot_entry j) = 735 + 2 * j" "user_entry (slot_entry j)"
    "va2pde STACK_BOTTOM < slot_entry j \<longleftrightarrow> 0 < j"
proof -
  show u: "unat (slot_entry j) = 735 + 2 * j"
    unfolding slot_entry_def using assms by (intro unat_of_nat_small) simp
  show "user_entry (slot_entry j)" unfolding user_entry_def u using assms by simp
  show "va2pde STACK_BOTTOM < slot_entry j \<longleftrightarrow> 0 < j"
    unfolding va2pde_STACK_BOTTOM word_less_nat_alt u by auto
qed

lemma stack_slot_ok:
  obtains j where "j \<le> 16" "stack_slot pde (va2pde STACK_TOP - 1) s = slot_entry j"
    "0 < j \<Longrightarrow> load_entry pde (slot_entry j) s = 0"
    "\<And>m. j < m \<Longrightarrow> m \<le> 16 \<Longrightarrow> load_entry pde (slot_entry m) s \<noteq> 0"
proof -
  have "va2pde STACK_TOP - 1 = of_nat (735 + 2 * 16)" by (simp add: va2pde_def)
  then show ?thesis using stack_slot_from[of 16 pde s] that unfolding slot_entry_def by auto
qed

lemma last_of_block:
  fixes M :: nat
  assumes "0 < M"
  shows "(Suc n * M - 1) div M = n" "(Suc n * M - 1) mod M = M - 1"
proof -
  have e: "Suc n * M - 1 = (M - 1) + n * M" using assms by (cases M) auto
  show "(Suc n * M - 1) div M = n" using assms unfolding e by (subst div_mult_self1) (simp_all add: div_less)
  show "(Suc n * M - 1) mod M = M - 1" using assms unfolding e by (subst mod_mult_self1) simp
qed

lemma slot_top:
  assumes "0 < j" "j \<le> 16"
  shows "unat ((slot_entry j + 1) * 0x1000 * 1024) = (736 + 2 * j) * 2 ^ 22"
    "page_ix ((slot_entry j + 1) * 0x1000 * 1024 - 1) = (slot_entry j, 1023)"
proof -
  note u = slot_entry_facts(1)[OF assms(2)]
  have "(slot_entry j + 1) * 0x1000 * 1024 = of_nat ((736 + 2 * j) * 2 ^ 22)"
    by (simp add: slot_entry_def algebra_simps)
  then show t: "unat ((slot_entry j + 1) * 0x1000 * 1024) = (736 + 2 * j) * 2 ^ 22"
    using assms by (simp only:) (intro unat_of_nat_small, simp)
  have ge: "1 \<le> (736 + 2 * j) * (2 :: nat) ^ 22" by simp
  have m: "unat ((slot_entry j + 1) * 0x1000 * 1024 - 1) = (736 + 2 * j) * 2 ^ 22 - 1"
    using t ge by (subst unat_minus_le) (simp_all only: word_le_nat_alt unat_1)
  have suc: "736 + 2 * j = Suc (735 + 2 * j)" by simp
  have "unat (va2pde ((slot_entry j + 1) * 0x1000 * 1024 - 1)) = 735 + 2 * j"
    unfolding unat_va2pde m suc by (rule last_of_block) simp
  moreover have "unat (va2pte ((slot_entry j + 1) * 0x1000 * 1024 - 1)) = 1023"
  proof -
    have "(Suc (735 + 2 * j) * 2 ^ 22 - 1) mod 2 ^ 22 = (2 ^ 22 - 1 :: nat)" by (rule last_of_block) simp
    then show ?thesis unfolding unat_va2pte m suc by simp
  qed
  ultimately show "page_ix ((slot_entry j + 1) * 0x1000 * 1024 - 1) = (slot_entry j, 1023)"
    unfolding page_ix_def using u by (simp add: word_unat_eq_iff)
qed

lemma store_twice: "store_entry t i v (store_entry t i w s) = store_entry t i v s"
  by (simp add: store_entry_def)

lemma store_swap:
  "good_block t 12 \<Longrightarrow> good_block u 12 \<Longrightarrow> unat i < 1024 \<Longrightarrow> unat k < 1024 \<Longrightarrow> t \<noteq> u \<Longrightarrow>
    store_entry t i v (store_entry u k w s) = store_entry u k w (store_entry t i v s)"
  using entry_eq_iff[of t u i k] by (simp add: store_entry_def fun_upd_twist)

lemma store_entry_inv:
  "free_inv s F \<Longrightarrow> good_block t 12 \<Longrightarrow> block t 12 \<inter> free_area F = {} \<Longrightarrow> unat i < 1024 \<Longrightarrow>
    free_inv (store_entry t i v s) F"
  using free_inv_write entry_in_block unfolding store_entry_def by blast

lemma store_outside:
  "good_block t 12 \<Longrightarrow> unat i < 1024 \<Longrightarrow> unat x \<notin> block t 12 \<Longrightarrow> mem (store_entry t i v s) x = mem s x"
  using entry_in_block[of t i] by (auto simp: store_entry_def)

lemma allocThreadStack_ok:
  assumes inv: "free_inv s F" and as: "address_space s F cr3" and r: "2 \<le> room F"
    and i: "stack_slot (pa2va cr3) (va2pde STACK_TOP - 1) s = i" "va2pde STACK_BOTTOM < i"
    and u: "user_entry i" "load_entry (pa2va cr3) i s = 0"
  shows "\<exists>p a s' F'. allocThreadStack cr3 s = Inr ((i + 1) * 0x1000 * 1024, s') \<and> good_block p 12 \<and>
    space_step s F cr3 {} s' F' \<and> walk s' cr3 = (walk s cr3)((i, 1023) := va2pa p OR 31) \<and>
    owned s' cr3 = (owned s cr3)(Table i \<mapsto> a, Leaf i 1023 \<mapsto> p) \<and>
    load_entry (pa2va cr3) i s' \<noteq> 0 \<and> room F = room F' + 2 \<and> free_area F' \<subseteq> free_area F"
proof -
  note asd = address_spaceD[OF as]
  let ?d = "pa2va cr3"
  have i': "unat i < 1024" using u by (simp add: user_entry_def)
  obtain a s1 F1 where a: "memory_alloc 12 s = Inr (a, s1)" "good_block a 12" "block a 12 \<subseteq> free_area F"
      "free_inv s1 F1" "free_area F1 = free_area F - block a 12"
      "\<And>x. unat x \<notin> free_area F1 \<Longrightarrow> mem s1 x = mem s x"
    using alloc_page[OF inv has_page_room[OF inv]] r by (metis less_le_trans zero_less_numeral)
  define s2 where "s2 = fill_words a 1023 s1"
  have nf: "owned s cr3 q \<noteq> Some a" for q by (rule fresh_page[OF asd(2) a(3)])
  have ad: "a \<noteq> ?d" using nf[of Directory] by simp
  have dis: "block a 12 \<inter> free_area F1 = {}" using a(5) by blast
  have inv2: "free_inv s2 F1" unfolding s2_def using a(4) by (intro fill_page_inv[OF _ a(2) dis]) auto
  have m2: "mem s2 x = mem s x" if "unat x \<notin> free_area F" for x
    using that a(3,5,6) fill_written[OF a(2), of 1023 x s1] unfolding s2_def by auto
  have same2: "owned s2 cr3 = owned s cr3" "walk s2 cr3 = walk s cr3" "kernel_half s2 cr3 = kernel_half s cr3"
    using same_space(1-3)[OF asd(2)] m2 by blast+
  have "free_area F1 \<subseteq> free_area F" using a(5) by blast
  then have as2: "address_space s2 F1 cr3"
    unfolding address_space_def same2 using asd(1) pages_ok_mono[OF asd(2)] by blast
  have "0 < room F1" using room_alloc[OF a(2,3,5)] r by simp
  then obtain p s3 F3 where p: "allocPhysicalPage s2 = Inr (va2pa p, s3)" "good_block p 12"
    "free_inv s3 F3" "address_space s3 F3 cr3" "owned s3 cr3 = owned s2 cr3" "walk s3 cr3 = walk s2 cr3"
    "kernel_half s3 cr3 = kernel_half s2 cr3" "free_area F1 = free_area F3 \<union> block p 12"
    "\<And>x. unat x \<notin> free_area F3 \<Longrightarrow> mem s3 x = mem s2 x"
    "new_page s3 F3 cr3 (Some p)"
    "\<And>k. unat k < 1024 \<Longrightarrow> load_entry ?d k s3 = load_entry ?d k s2" "room F1 = Suc (room F3)"
    using alloc_new_page[OF inv2 as2] by metis
  have dis3: "block a 12 \<inter> free_area F3 = {}" "block p 12 \<inter> block a 12 = {}" using dis p(8) by blast+
  have fp: "footprint (owned s cr3) \<inter> free_area F = {}" by (rule footprint_disjoint[OF asd(2)])
  define s4 where "s4 = store_entry a 1023 0 s3"
  have inv4: "free_inv s4 F3" unfolding s4_def by (rule store_entry_inv[OF p(3) a(2) dis3(1)]) simp
  have z: "load_entry a k s4 = 0" if k: "unat k < 1024" for k
  proof (cases "k = 1023")
    case False
    then have "unat k \<noteq> unat (1023 :: u32)" unfolding word_unat_eq_iff .
    then have k3: "unat k < 1023" using k by simp
    have "load_entry a k s3 = load_entry a k s2" by (rule load_outside[OF a(2) dis3(1) p(9) k])
    then show ?thesis using k3 False load_fill_page[OF a(2) a(2) k, of 1023 s1] a(2) k
      by (simp add: s4_def s2_def load_store_entry)
  qed (use a(2) in \<open>simp add: s4_def load_store_entry\<close>)
  have m4: "mem s4 x = mem s x" if "unat x \<notin> free_area F" for x
  proof -
    have n: "unat x \<notin> block a 12" "unat x \<notin> free_area F3" using that a(3,5) p(8) by blast+
    show ?thesis using store_outside[OF a(2) _ n(1), of 1023] p(9)[OF n(2)] m2[OF that] by (simp add: s4_def)
  qed
  have same4: "owned s4 cr3 = owned s cr3" "walk s4 cr3 = walk s cr3" "kernel_half s4 cr3 = kernel_half s cr3"
    using same_space(1-3)[OF asd(2)] m4 by blast+
  have e4: "load_entry ?d i s4 = 0" using same_space(4)[OF asd(2), of s4 i] m4 i' u(2) by simp
  define s5 where "s5 = store_entry ?d i (va2pa a OR 31) s4"
  have ok4: "pages_ok (owned s4 cr3) (free_area F3)"
    unfolding same4 using pages_ok_mono[OF asd(2)] a(5) p(8) by blast
  have nf4: "owned s4 cr3 q \<noteq> Some a" for q unfolding same4 by (rule nf)
  note st = set_table[OF ok4 u(1) e4 a(2) dis3(1) nf4 z, folded s5_def]
  have "block ?d 12 \<inter> free_area F3 = {}" using asd(4) a(5) p(8) by blast
  then have inv5: "free_inv s5 F3" unfolding s5_def by (rule store_entry_inv[OF inv4 asd(3) _ i'])
  have as5: "address_space s5 F3 cr3" unfolding address_space_def using asd(1) st(4) by blast
  have e5: "load_entry ?d i s5 = va2pa a OR 31" unfolding s5_def using asd(3) i' by (simp add: load_store_entry)
  have w5: "walk s5 cr3 = walk s cr3" using st(2) same4 by simp
  have z5: "walk s5 cr3 (i, 1023) = 0" unfolding w5 by (simp add: walk_def u(2))
  have o5: "owned s5 cr3 = (owned s cr3)(Table i \<mapsto> a)" using st(1) same4 by simp
  have tn: "owned s cr3 (Table i) = None" using u(2) by simp
  have f5: "footprint (owned s5 cr3) = footprint (owned s cr3) \<union> block a 12"
    unfolding o5 by (rule footprint_upd[where m = "owned s cr3" and r = "Table i", OF tn])
  have np: "new_page s5 F3 cr3 (leaf_page (va2pa p OR 31))"
    using p(2,8,10) dis3(2) unfolding new_page_def f5 p(5) same2 by (auto simp: Int_Un_distrib p(2))
  have b: "unat (1023 :: u32) < 1024" by simp
  have n5: "load_entry ?d i s5 \<noteq> 0" unfolding e5 by simp
  define s6 where "s6 = store_entry a 1023 (va2pa p OR 31) s5"
  note sl = set_leaf_step[OF inv5 as5 u(1) n5 b z5 np, unfolded e5 table_of_entry[OF a(2)], folded s6_def]
  have step: "space_step s F cr3 {} s6 F3"
  proof -
    have fr: "mem s6 x = mem s x" if x: "unat x \<notin> free_area F \<union> footprint (owned s cr3)" for x
    proof -
      have "unat x \<notin> block a 12" "unat x \<notin> block ?d 12"
        using x a(3) footprintI[of "owned s cr3" Directory ?d] by auto
      then show ?thesis
        using x m4 store_outside[OF a(2) b] store_outside[OF asd(3) i'] by (simp add: s6_def s5_def)
    qed
    have "free_area F3 \<union> footprint (owned s6 cr3) = free_area F \<union> footprint (owned s cr3)"
      using sl(1) a(3,5) p(2,8) unfolding space_step_def f5 by (auto simp: page_bytes_def)
    then show ?thesis
      using sl(1) st(3) same4(3) fr unfolding space_step_def by simp
  qed
  have comm: "s6 = store_entry ?d i (va2pa a OR 31) (store_entry a 1023 (va2pa p OR 31) s3)"
    unfolding s6_def s5_def s4_def
    using store_swap[OF a(2) asd(3) b i' ad] store_twice by metis
  have "allocThreadStack cr3 s = Inr ((i + 1) * 0x1000 * 1024, s6)"
    using i unfolding allocThreadStack_def Let_def asd(5) comm
    by (simp add: a(1) p(1) s2_def[symmetric])
  moreover have "load_entry ?d i s6 \<noteq> 0"
    unfolding s6_def using n5 load_store_entry[OF asd(3) a(2) i' b] ad by simp
  moreover have "owned s6 cr3 = (owned s cr3)(Table i \<mapsto> a, Leaf i 1023 \<mapsto> p)"
    using set_leaf(2)[OF address_spaceD(2)[OF as5] u(1) n5 b, of "va2pa p OR 31"] p(2)
    unfolding e5 table_of_entry[OF a(2)] s6_def[symmetric] o5 by simp
  moreover have "room F = room F3 + 2" using room_alloc[OF a(2,3,5)] p(12) by simp
  moreover have "free_area F3 \<subseteq> free_area F" using a(5) p(8) by blast
  ultimately show ?thesis using step sl(2) w5 p(2) by auto
qed

fun row_of :: "page_role \<Rightarrow> u32 option" where
  "row_of Directory = None"
| "row_of (Table k) = Some k"
| "row_of (Leaf k j) = Some k"

lemma row_rolesD: "r \<in> set (row_roles k) \<Longrightarrow> row_of r = Some k"
  by (auto simp: row_roles_def)

lemma distinct_row_roles: "distinct (row_roles k)"
proof -
  have "inj_on (\<lambda>j. Leaf k (of_nat j)) {0..<1024}"
  proof (rule inj_onI)
    fix i j assume "i \<in> {0..<1024}" "j \<in> {0..<1024}" "Leaf k (of_nat i) = Leaf k (of_nat j)"
    then show "i = j" using of_nat_u32_eq[of i j] by simp
  qed
  then show ?thesis by (simp add: row_roles_def distinct_map image_iff)
qed

lemma row_rolesI: "owned s cr3 r = Some a \<Longrightarrow> row_of r = Some k \<Longrightarrow> r \<in> set (row_roles k)"
proof -
  assume o: "owned s cr3 r = Some a" and k: "row_of r = Some k"
  show ?thesis
  proof (cases r)
    case (Leaf k' j)
    then have "unat j < 1024" using o by (auto simp: Let_def walk_def leaf_page_def split: if_splits)
    then show ?thesis using k Leaf unfolding row_roles_def by (auto intro!: image_eqI[of _ _ "unat j"])
  qed (use k in \<open>auto simp: row_roles_def\<close>)
qed

text \<open>
  The rows of the directory in \<open>K\<close> are cleared, and memory has changed only at pages of those
  rows (and of \<open>A\<close>, outside the address space).
\<close>

lemma clear_rows:
  assumes ok: "pages_ok (owned s cr3) A"
    and rest: "\<And>r a. owned s cr3 r = Some a \<Longrightarrow> row_of r \<notin> Some ` K \<Longrightarrow> r \<noteq> Directory \<Longrightarrow>
        (\<And>j. unat j < 1024 \<Longrightarrow> load_entry a j s' = load_entry a j s)"
    and dir: "\<And>k. unat k < 1024 \<Longrightarrow> load_entry (pa2va cr3) k s' = (if k \<in> K then 0 else load_entry (pa2va cr3) k s)"
    and K: "\<And>k. k \<in> K \<Longrightarrow> user_entry k"
  shows "walk s' cr3 = (\<lambda>(k, j). if k \<in> K then 0 else walk s cr3 (k, j))"
    "owned s' cr3 = (\<lambda>r. if row_of r \<in> Some ` K then None else owned s cr3 r)"
    "kernel_half s' cr3 = kernel_half s cr3"
proof -
  show w: "walk s' cr3 = (\<lambda>(k, j). if k \<in> K then 0 else walk s cr3 (k, j))"
  proof (rule ext, clarify)
    fix k j
    show "walk s' cr3 (k, j) = (if k \<in> K then 0 else walk s cr3 (k, j))"
    proof (cases "user_entry k \<and> unat j < 1024 \<and> k \<notin> K \<and> load_entry (pa2va cr3) k s \<noteq> 0")
      case True
      then have o: "owned s cr3 (Table k) = Some (table_of (load_entry (pa2va cr3) k s))" by simp
      have "load_entry (table_of (load_entry (pa2va cr3) k s)) j s' = load_entry (table_of (load_entry (pa2va cr3) k s)) j s"
        using True by (intro rest[OF o]) auto
      then show ?thesis using True dir[of k] by (simp add: walk_def user_entry_def)
    next
      case False
      then show ?thesis using dir[of k] by (auto simp: walk_def user_entry_def Let_def)
    qed
  qed
  show "owned s' cr3 = (\<lambda>r. if row_of r \<in> Some ` K then None else owned s cr3 r)"
  proof
    fix r
    show "owned s' cr3 r = (if row_of r \<in> Some ` K then None else owned s cr3 r)"
      using dir by (cases r) (auto simp: w user_entry_def leaf_page_def Let_def)
  qed
  show "kernel_half s' cr3 = kernel_half s cr3"
    using dir K by (auto simp: kernel_half_def)
qed

text \<open>The stack's tables hold no page mapped with \<^verbatim>\<open>PAGE_TYPE_PHY\<close>.\<close>

definition plain_row :: "kmem \<Rightarrow> u32 \<Rightarrow> u32 \<Rightarrow> bool" where
  "plain_row s cr3 k \<longleftrightarrow> (\<forall>j. \<not> is_phy (walk s cr3 (k, j)))"

definition row_list :: "kmem \<Rightarrow> u32 \<Rightarrow> u32 \<Rightarrow> u32 list" where
  "row_list s cr3 k = List.map_filter (owned s cr3) (row_roles k)"

lemma row_list_eq:
  assumes "user_entry k" "load_entry (pa2va cr3) k s \<noteq> 0" "plain_row s cr3 k"
  shows "row_list s cr3 k = entry_pages (\<lambda>_. False) (table_of (load_entry (pa2va cr3) k s)) 0 s
    @ [table_of (load_entry (pa2va cr3) k s)]"
proof -
  let ?t = "table_of (load_entry (pa2va cr3) k s)"
  have np: "\<not> is_phy (load_entry ?t (of_nat j) s)" if "j \<in> set [0..<1024]" for j
  proof -
    have "load_entry ?t (of_nat j) s = walk s cr3 (k, of_nat j)"
      using that by (intro walk_entry assms) (simp add: unat_of_nat_small)
    then show ?thesis using assms(3) by (simp add: plain_row_def)
  qed
  have "entry_pages is_phy ?t 0 s = entry_pages (\<lambda>_. False) ?t 0 s"
    unfolding entry_pages_def using np by (intro arg_cong2[where f = map] filter_cong refl) simp
  then show ?thesis using row_pages[OF assms(1), of s cr3] assms(2) by (simp add: row_list_def Let_def)
qed

lemma recycle_stack_table_eq:
  assumes inv: "free_inv s F" and sp: "spare_pages (entry_pages (\<lambda>_. False) t 0 s @ [t]) (free_area F)"
  shows "recycle_stack_table t s = free_pages (entry_pages (\<lambda>_. False) t 0 s @ [t]) s"
proof -
  have t: "good_block t 12" "block t 12 \<inter> free_area F = {}" "t \<notin> set (entry_pages (\<lambda>_. False) t 0 s)"
    using sp by (auto simp: spare_pages_def)
  show ?thesis
    unfolding recycle_stack_table_def recycle_entries_eq[OF inv t(1,2) spare_pages_append(1)[OF sp] t(3)] free_pages_append
    by (cases "free_pages (entry_pages (\<lambda>_. False) t 0 s) s") (simp_all add: and_then_def split: sum.splits)
qed

lemma row_list_empty: "user_entry k \<Longrightarrow> load_entry (pa2va cr3) k s = 0 \<Longrightarrow> row_list s cr3 k = []"
  by (simp add: row_list_def row_pages)

lemma recycle_rows:
  assumes inv: "free_inv s F" and as: "address_space s F cr3" and i: "user_entry i" "odd (unat i)"
    and e: "load_entry (pa2va cr3) i s \<noteq> 0" and pl: "plain_row s cr3 i" "plain_row s cr3 (i - 1)"
    and st: "va2pde (stacktop - 1) = i"
    and sp: "spare_pages (row_list s cr3 i @ row_list s cr3 (i - 1)) (free_area F)"
    and nd: "pa2va cr3 \<notin> set (row_list s cr3 i @ row_list s cr3 (i - 1))"
  obtains s2 F2 where "free_inv s2 F2"
    "free_area F2 = free_area F \<union> pages_bytes (row_list s cr3 i @ row_list s cr3 (i - 1))"
    "\<And>x. unat x \<notin> free_area F2 \<Longrightarrow> mem s2 x = mem s x"
    "recycleThreadStack cr3 stacktop s = Inr (store_entry (pa2va cr3) i 0
       (if load_entry (pa2va cr3) (i - 1) s \<noteq> 0 then store_entry (pa2va cr3) (i - 1) 0 s2 else s2))"
proof -
  note asd = address_spaceD[OF as]
  let ?d = "pa2va cr3"
  let ?t = "table_of (load_entry ?d i s)" and ?u = "table_of (load_entry ?d (i - 1) s)"
  have one: "1 \<le> i" using i(2) by (auto simp: word_le_nat_alt intro: Suc_leI odd_pos)
  have i0: "user_entry (i - 1)" "unat (i - 1) < 1024"
    using i(1) unat_minus_le[OF one] by (auto simp: user_entry_def)
  have ent: "va2pde (stacktop - 1) div 2 * 2 + 1 = i"
  proof -
    have "unat (i div 2) = unat i div 2" by (simp add: unat_div_distrib)
    then have "unat (i div 2 * 2) = unat i div 2 * 2" using i(1) by (simp add: user_entry_def unat_word_ariths)
    then have "unat (i div 2 * 2 + 1) = unat i div 2 * 2 + 1" using i(1) by (simp add: user_entry_def unat_plus_small)
    then show ?thesis using i(2) unfolding st by (simp add: word_unat_eq_iff odd_two_times_div_two_succ mult.commute)
  qed
  note sp1 = spare_pages_append(1)[OF sp] and sp2 = spare_pages_append(2)[OF sp]
  note l1 = row_list_eq[OF i(1) e pl(1)]
  obtain s1 F1 where 1: "free_pages (row_list s cr3 i) s = Inr s1" "free_inv s1 F1"
      "free_area F1 = free_area F \<union> pages_bytes (row_list s cr3 i)"
      "\<And>x. unat x \<notin> free_area F1 \<Longrightarrow> mem s1 x = mem s x"
    using freesD[OF free_pages_ok[OF inv sp1]] by metis
  have r1: "recycle_stack_table ?t s = Inr s1"
    using recycle_stack_table_eq[OF inv, of ?t] sp1 1(1) unfolding l1 by simp
  have d1: "block ?d 12 \<inter> free_area F1 = {}"
  proof -
    have "block ?d 12 \<inter> block a 12 = {}" if "a \<in> set (row_list s cr3 i)" for a
      using that nd sp1 page_blocks_disjoint[OF asd(3), of a] by (auto simp: spare_pages_def)
    then show ?thesis using asd(4) unfolding 1(3) pages_bytes_def by blast
  qed
  have e1: "load_entry ?d (i - 1) s1 = load_entry ?d (i - 1) s"
    by (rule load_outside[OF asd(3) d1 1(4) i0(2)])
  show ?thesis
  proof (cases "load_entry ?d (i - 1) s = 0")
    case True
    then have "recycleThreadStack cr3 stacktop s = Inr (store_entry ?d i 0 s1)"
      unfolding recycleThreadStack_def Let_def asd(5) ent r1 using e1 by simp
    then show ?thesis using that[OF 1(2)] 1(3,4) True row_list_empty[OF i0(1) True] by simp
  next
    case False
    note l2 = row_list_eq[OF i0(1) False pl(2)]
    have u: "good_block ?u 12" "block ?u 12 \<inter> free_area F1 = {}"
      using sp2 unfolding l2 1(3) by (auto simp: spare_pages_def)
    have same: "entry_pages (\<lambda>_. False) ?u 0 s1 = entry_pages (\<lambda>_. False) ?u 0 s"
      using load_outside[OF u 1(4)] by (intro entry_pages_same) blast
    have sp2': "spare_pages (row_list s cr3 (i - 1)) (free_area F1)" using sp2 1(3) by simp
    obtain s2 F2 where 2: "free_pages (row_list s cr3 (i - 1)) s1 = Inr s2" "free_inv s2 F2"
        "free_area F2 = free_area F1 \<union> pages_bytes (row_list s cr3 (i - 1))"
        "\<And>x. unat x \<notin> free_area F2 \<Longrightarrow> mem s2 x = mem s1 x"
      using freesD[OF free_pages_ok[OF 1(2) sp2']] by metis
    have r2: "recycle_stack_table ?u s1 = Inr s2"
      using recycle_stack_table_eq[OF 1(2), of ?u] sp2' 2(1) unfolding same l2 by simp
    have eq: "recycleThreadStack cr3 stacktop s = Inr (store_entry ?d i 0 (store_entry ?d (i - 1) 0 s2))"
      unfolding recycleThreadStack_def Let_def asd(5) ent r1 and_then_simps e1 using False r2 by simp
    show ?thesis
    proof (rule that[OF 2(2)])
      show "free_area F2 = free_area F \<union> pages_bytes (row_list s cr3 i @ row_list s cr3 (i - 1))"
        using 1(3) 2(3) by auto
      show "mem s2 x = mem s x" if "unat x \<notin> free_area F2" for x
        using that 1(4) 2(3,4) by auto
    qed (use eq False in simp)
  qed
qed

lemma ran_restrict: "ran (m |` S) = {a. \<exists>r. m r = Some a \<and> r \<in> S}"
  by (auto simp: ran_def restrict_map_def)

lemma recycleThreadStack_ok:
  assumes inv: "free_inv s F" and as: "address_space s F cr3" and i: "user_entry i" "odd (unat i)"
    and e: "load_entry (pa2va cr3) i s \<noteq> 0" and pl: "plain_row s cr3 i" "plain_row s cr3 (i - 1)"
    and st: "va2pde (stacktop - 1) = i"
  shows "\<exists>s' F'. recycleThreadStack cr3 stacktop s = Inr s' \<and> space_step s F cr3 {} s' F' \<and>
    walk s' cr3 = (\<lambda>(k, j). if k = i \<or> k = i - 1 then 0 else walk s cr3 (k, j)) \<and>
    owned s' cr3 = (\<lambda>r. if row_of r = Some i \<or> row_of r = Some (i - 1) then None else owned s cr3 r)"
proof -
  note asd = address_spaceD[OF as]
  let ?d = "pa2va cr3"
  let ?K = "{i, i - 1}"
  let ?R = "row_roles i @ row_roles (i - 1)"
  let ?L = "row_list s cr3 i @ row_list s cr3 (i - 1)"
  have one: "1 \<le> i" using i(2) by (auto simp: word_le_nat_alt intro: Suc_leI odd_pos)
  have i0: "user_entry (i - 1)" "unat (i - 1) < 1024" "unat i < 1024"
    using i(1) unat_minus_le[OF one] by (auto simp: user_entry_def)
  have ne: "i \<noteq> i - 1" by simp
  have dR: "distinct ?R"
  proof -
    have "r \<notin> set (row_roles (i - 1))" if "r \<in> set (row_roles i)" for r
      using row_rolesD[OF that] row_rolesD[of r "i - 1"] ne by auto
    then show ?thesis unfolding distinct_append using distinct_row_roles by blast
  qed
  have L: "?L = List.map_filter (owned s cr3) ?R" by (simp add: row_list_def map_filter_append)
  note sp = map_filter_spare(1)[OF asd(2) dR, folded L]
  have setR: "r \<in> set ?R \<longleftrightarrow> row_of r \<in> Some ` ?K" if "owned s cr3 r = Some a" for r a
  proof
    assume "r \<in> set ?R"
    then have "row_of r = Some i \<or> row_of r = Some (i - 1)" by (auto dest: row_rolesD)
    then show "row_of r \<in> Some ` ?K" by (elim disjE) simp_all
  next
    assume "row_of r \<in> Some ` ?K"
    then have "row_of r = Some i \<or> row_of r = Some (i - 1)" by blast
    then show "r \<in> set ?R" using row_rolesI[OF that] unfolding set_append by blast
  qed
  have bytes: "pages_bytes ?L = (\<Union>a \<in> {a. \<exists>r. owned s cr3 r = Some a \<and> row_of r \<in> Some ` ?K}. block a 12)"
  proof -
    have "ran (owned s cr3 |` set ?R) = {a. \<exists>r. owned s cr3 r = Some a \<and> row_of r \<in> Some ` ?K}"
      unfolding ran_restrict by (intro Collect_cong ex_cong1 conj_cong refl setR)
    then show ?thesis unfolding L map_filter_spare(2)[OF asd(2) dR] footprint_def by (rule arg_cong)
  qed
  have keepL: "block a 12 \<inter> pages_bytes ?L = {}" if o: "owned s cr3 r = Some a" "row_of r \<notin> Some ` ?K" for r a
  proof -
    have "block a 12 \<inter> block c 12 = {}" if "owned s cr3 q = Some c" "row_of q \<in> Some ` ?K" for q c
      using page_blocks_disjoint pages_okD[OF asd(2) o(1)] pages_okD[OF asd(2) that(1)] o that by metis
    then show ?thesis unfolding bytes by blast
  qed
  have dirL: "block ?d 12 \<inter> pages_bytes ?L = {}" by (rule keepL[of Directory]) auto
  have nd: "?d \<notin> set ?L" using dirL block_self[of ?d 12] unfolding pages_bytes_def by blast
  obtain s2 F2 where 2: "free_inv s2 F2" "free_area F2 = free_area F \<union> pages_bytes ?L"
    "\<And>x. unat x \<notin> free_area F2 \<Longrightarrow> mem s2 x = mem s x"
    "recycleThreadStack cr3 stacktop s = Inr (store_entry ?d i 0
       (if load_entry ?d (i - 1) s \<noteq> 0 then store_entry ?d (i - 1) 0 s2 else s2))"
    using recycle_rows[OF inv as i e pl st sp nd] by metis
  define s' where "s' = store_entry ?d i 0 (if load_entry ?d (i - 1) s \<noteq> 0 then store_entry ?d (i - 1) 0 s2 else s2)"
  have d2: "block ?d 12 \<inter> free_area F2 = {}" using asd(4) dirL 2(2) by blast
  have inv': "free_inv s' F2" unfolding s'_def using store_entry_inv[OF _ asd(3) d2] 2(1) i0 by simp
  have ld: "load_entry a j s' = load_entry a j s2" if "good_block a 12" "a \<noteq> ?d" "unat j < 1024" for a j
    using that asd(3) i0 by (simp add: s'_def load_store_entry)
  have dir: "load_entry ?d k s' = (if k \<in> ?K then 0 else load_entry ?d k s)" if "unat k < 1024" for k
    using that asd(3) i0 load_outside[OF asd(3) d2 2(3) that] by (auto simp: s'_def load_store_entry)
  have rest: "load_entry a j s' = load_entry a j s"
    if o: "owned s cr3 r = Some a" "row_of r \<notin> Some ` ?K" "r \<noteq> Directory" and j: "unat j < 1024" for r a j
  proof -
    have "a \<noteq> ?d" using pages_okD(3)[OF asd(2) o(1), of Directory] o(3) by fastforce
    moreover have "block a 12 \<inter> free_area F2 = {}"
      using keepL[OF o(1,2)] pages_okD(2)[OF asd(2) o(1)] 2(2) by blast
    ultimately show ?thesis
      using ld load_outside[OF pages_okD(1)[OF asd(2) o(1)] _ 2(3) j] pages_okD(1)[OF asd(2) o(1)] j by simp
  qed
  have uK: "\<And>k. k \<in> ?K \<Longrightarrow> user_entry k" using i(1) i0(1) by auto
  have cl1: "walk s' cr3 = (\<lambda>(k, j). if k \<in> ?K then 0 else walk s cr3 (k, j))"
    by (rule clear_rows(1)[OF asd(2)]) (use rest dir uK in blast)+
  have own: "owned s' cr3 = (\<lambda>r. if row_of r \<in> Some ` ?K then None else owned s cr3 r)"
    by (rule clear_rows(2)[OF asd(2)]) (use rest dir uK in blast)+
  have cl3: "kernel_half s' cr3 = kernel_half s cr3"
    by (rule clear_rows(3)[OF asd(2), where K = ?K]) (use rest dir uK in blast)+
  have ok': "pages_ok (owned s' cr3) (free_area F2)"
    unfolding pages_ok_def
  proof (intro conjI allI impI)
    fix r q a
    have sub: "owned s cr3 r = Some a \<and> row_of r \<notin> Some ` ?K" if "owned s' cr3 r = Some a" for r
      using that unfolding own by (metis option.distinct(1))
    assume r: "owned s' cr3 r = Some a"
    note o = conjunct1[OF sub[OF r]]
    show "good_block a 12" by (rule pages_okD(1)[OF asd(2) o])
    show "block a 12 \<inter> free_area F2 = {}"
      using pages_okD(2)[OF asd(2) o] keepL[OF o conjunct2[OF sub[OF r]]] 2(2) by blast
    show "r = q" if "owned s' cr3 q = Some a"
      using pages_okD(3)[OF asd(2) o] sub[OF that] by blast
  qed
  have fp: "footprint (owned s cr3) = footprint (owned s' cr3) \<union> pages_bytes ?L"
    unfolding own bytes footprint_def ran_def by (auto split: if_splits simp del: owned.simps)
  have fr: "mem s' x = mem s x" if x: "unat x \<notin> free_area F \<union> footprint (owned s cr3)" for x
  proof -
    have "unat x \<notin> block ?d 12" using x footprintI[of "owned s cr3" Directory ?d] by auto
    then show ?thesis using x store_outside[OF asd(3)] i0 2(2,3) fp unfolding s'_def by auto
  qed
  have "space_step s F cr3 {} s' F2"
    unfolding space_step_def address_space_def using inv' asd(1) ok' cl3 fp 2(2) fr by auto
  then show ?thesis using 2(4) cl1 own unfolding s'_def by auto
qed

section \<open>Properties\<close>

lemma space_stepD:
  assumes "space_step s F cr3 {} s' F'"
  shows "free_inv s' F'" "address_space s' F' cr3"
    "free_area F' \<union> footprint (owned s' cr3) = free_area F \<union> footprint (owned s cr3)"
  using assms by (auto simp: space_step_def)

lemma same_free_area:
  assumes "space_step s F cr3 {} s' F'" "address_space s F cr3" "owned s' cr3 = owned s cr3"
  shows "free_area F' = free_area F"
  using space_stepD[OF assms(1)] footprint_disjoint[OF address_spaceD(2)[OF assms(2)]]
    footprint_disjoint[OF address_spaceD(2)[OF space_stepD(2)[OF assms(1)]]] assms(3) by auto

text \<open>A heap of \<open>2 ^ n\<close> pages, all other memory 0.\<close>

lemma heap_pages:
  assumes "n \<le> 8"
  obtains s F where "free_inv s F" "free_area F = {0xC0100000 ..< 0xC0100000 + 2 ^ (12 + n)}" "2 ^ n \<le> room F"
    "\<And>x. unat x \<notin> {0xC0100000 ..< 0xC0100000 + 2 ^ (12 + n)} \<Longrightarrow> mem s x = 0"
proof -
  have "(2 :: nat) ^ n \<le> 2 ^ 8" by (rule power_increasing) (use assms in simp_all)
  then have n: "(2 :: nat) ^ n \<le> 256" by simp
  have "(2 :: nat) ^ (12 + n) dvd 2 ^ 20" by (rule le_imp_power_dvd) (use assms in simp)
  then have "(2 :: nat) ^ (12 + n) dvd 2 ^ 20 * 0xC01" by (rule dvd_mult2)
  then have g: "good_block 0xC0100000 (12 + n)" using assms n by (simp add: good_block_def power_add)
  have b: "free_area (\<lambda>_. []) \<union> block 0xC0100000 (12 + n) = {0xC0100000 ..< 0xC0100000 + 2 ^ (12 + n)}"
    by (simp add: block_def boot_inv(2))
  have "block 0xC0100000 (12 + n) \<inter> free_area (\<lambda>_. []) = {}" by (simp add: boot_inv(2))
  from freesD[OF memory_block_free_ok[OF boot_inv(1)[of "\<lambda>_. 0"] g this], unfolded b]
  obtain s F where s: "free_inv s F" "free_area F = {0xC0100000 ..< 0xC0100000 + 2 ^ (12 + n)}"
    "\<And>x. unat x \<notin> free_area F \<Longrightarrow> mem s x = 0" by (auto simp: boot_memory_def)
  let ?p = "\<lambda>k :: nat. (0xC0100000 + 0x1000 * of_nat k :: u32)"
  have u: "unat (?p k) = 0xC0100000 + 0x1000 * k" if "k < 2 ^ n" for k
  proof -
    have "?p k = of_nat (0xC0100000 + 0x1000 * k)" by simp
    moreover have "0xC0100000 + 0x1000 * k < 2 ^ 32" using that n by simp
    ultimately show ?thesis by (simp only:) (rule unat_of_nat_small, simp)
  qed
  have inj: "inj_on ?p {0..<2 ^ n}"
  proof (rule inj_onI)
    fix i j assume ij: "i \<in> {0..<2 ^ n}" "j \<in> {0..<2 ^ n}" "?p i = ?p j"
    then have "unat (?p i) = unat (?p j)" by simp
    then show "i = j" using u[of i] u[of j] ij(1,2) by simp
  qed
  have "?p ` {0..<2 ^ n} \<subseteq> {a. good_block a 12 \<and> block a 12 \<subseteq> free_area F}"
  proof (clarify)
    fix k :: nat assume k: "k \<in> {0..<2 ^ n}"
    then have uk: "unat (?p k) = 0xC0100000 + 0x1000 * k" using u by simp
    have "0x1000 * k + 0x1000 \<le> 2 ^ (12 + n)" using k by (simp add: power_add)
    then show "good_block (?p k) 12 \<and> block (?p k) 12 \<subseteq> free_area F"
      unfolding good_block_def block_def uk s(2) using k n by auto
  qed
  then have "card (?p ` {0..<2 ^ n}) \<le> room F" unfolding room_def by (intro card_mono) simp_all
  then have "2 ^ n \<le> room F" using card_image[OF inj] by simp
  then show ?thesis using that s by auto
qed

lemma heap_16_pages:
  obtains s F where "free_inv s F" "free_area F = {0xC0100000 ..< 0xC0110000}" "16 \<le> room F"
    "\<And>x. unat x \<notin> {0xC0100000 ..< 0xC0110000} \<Longrightarrow> mem s x = 0"
  by (rule heap_pages[of 4]) simp_all

text \<open>A new process on that heap.\<close>

lemma demo_space:
  obtains s F cr3 where "free_inv s F" "address_space s F cr3" "walk s cr3 = (\<lambda>_. 0)"
    "owned s cr3 = [Directory \<mapsto> pa2va cr3]" "15 \<le> room F"
proof -
  obtain s F where s: "free_inv s F" "free_area F = {0xC0100000 ..< 0xC0110000}" "16 \<le> room F"
    by (rule heap_16_pages)
  have "table_of 0x200000 = 0xC0200000" by (simp add: table_of_def pa2va_def)
  then have t: "good_block (table_of 0x200000) 12" "block (table_of 0x200000) 12 \<inter> free_area F = {}"
    unfolding s(2) by (auto simp: good_block_def block_def)
  have r: "0 < room F" using s(3) by simp
  obtain cr3 s1 F1 where c: "free_inv s1 F1" "address_space s1 F1 cr3" "walk s1 cr3 = (\<lambda>_. 0)"
    "owned s1 cr3 = [Directory \<mapsto> pa2va cr3]"
    "free_area F1 = free_area F - block (pa2va cr3) 12" "block (pa2va cr3) 12 \<subseteq> free_area F"
    using createProcessPDE_ok[OF s(1) r t] by blast
  have "15 \<le> room F1" using room_alloc[OF address_spaceD(3)[OF c(2)] c(6,5)] s(3) by simp
  then show ?thesis using that c(1-4) by blast
qed

text \<open>
  C5. \<^verbatim>\<open>open_physical_page\<close> on a user page that is mapped already returns \<open>-1\<close> and changes
  nothing; on an unmapped one it returns 0 and maps exactly that page to the physical page given,
  with the present, user and write bits and the caller's flags. A missing page table is taken
  from the allocator and zeroed; no other page's entry and no kernel entry changes, the
  allocator's invariant and the ownership of the pages hold, and no byte is lost.
\<close>

theorem open_physical_page_maps:
  assumes "free_inv s F" "address_space s F cr3" "linearAddr < PAGE_OFFSET" "1 \<le> room F"
    and "new_page s F cr3 (leaf_page (phyaddr OR 0b11111 OR flag))"
  shows "if walk s cr3 (page_ix linearAddr) \<noteq> 0
     then open_physical_page cr3 phyaddr linearAddr flag s = Inr (-1, s)
     else \<exists>s' F'. open_physical_page cr3 phyaddr linearAddr flag s = Inr (0, s') \<and>
       space_step s F cr3 (page_bytes (leaf_page (phyaddr OR 0b11111 OR flag))) s' F' \<and>
       walk s' cr3 = (walk s cr3)(page_ix linearAddr := phyaddr OR 0b11111 OR flag)"
  using open_physical_page_ok[OF assms(1-3) has_page_room[OF assms(1)] assms(5)] assms(4) by simp

theorem open_physical_page_maps_witness:
  "\<exists>s F cr3 s' F'. free_inv s F \<and> address_space s F cr3 \<and>
     open_physical_page cr3 0xB8000 0x400000 0x200 s = Inr (0, s') \<and>
     walk s' cr3 (page_ix 0x400000) = 0xB821F \<and> address_space s' F' cr3"
proof -
  obtain s F cr3 where d: "free_inv s F" "address_space s F cr3" "walk s cr3 = (\<lambda>_. 0)" "15 \<le> room F"
    using demo_space by metis
  have r: "1 \<le> room F" using d(4) by simp
  have n: "new_page s F cr3 (leaf_page (0xB8000 OR 0b11111 OR 0x200))" by (simp add: new_page_def leaf_page_def)
  have l: "(0x400000 :: u32) < PAGE_OFFSET" by simp
  obtain s' F' where o: "open_physical_page cr3 0xB8000 0x400000 0x200 s = Inr (0, s')"
      "space_step s F cr3 (page_bytes (leaf_page (0xB8000 OR 0b11111 OR 0x200))) s' F'"
      "walk s' cr3 = (walk s cr3)(page_ix 0x400000 := 0xB8000 OR 0b11111 OR 0x200)"
    using open_physical_page_maps[OF d(1,2) l r n] d(3) by auto
  have "walk s' cr3 (page_ix 0x400000) = 0xB821F" unfolding o(3) by simp
  then show ?thesis using d(1,2) o(1,2) unfolding space_step_def by blast
qed

text \<open>
  C4. \<^verbatim>\<open>createProcessPDE\<close> makes an address space with an empty user half and the kernel half of
  the directory it copies; whatever maps, unmaps and stack expansions the process then makes,
  \<^verbatim>\<open>recycleProcessPDE\<close> returns and gives back every page, so that the free bytes are those there
  were before the process was created.
\<close>

theorem process_pages_roundtrip:
  assumes "free_inv s F" "1 \<le> room F" "good_block (table_of cr3Copy) 12"
    and "block (table_of cr3Copy) 12 \<inter> free_area F = {}"
  shows "\<exists>cr3 s1 F1. createProcessPDE cr3Copy s = Inr (cr3, s1) \<and> free_inv s1 F1 \<and> address_space s1 F1 cr3 \<and>
    (\<forall>la. walk s1 cr3 la = 0) \<and>
    (\<forall>i. 768 \<le> unat i \<and> unat i < 1024 \<longrightarrow> kernel_half s1 cr3 i = load_entry (table_of cr3Copy) i s) \<and>
    (\<forall>s2 F2. space_step s1 F1 cr3 {} s2 F2 \<longrightarrow>
      (\<exists>s3 F3. recycleProcessPDE cr3 s2 = Inr s3 \<and> free_inv s3 F3 \<and> free_area F3 = free_area F))"
proof -
  have r: "0 < room F" using assms(2) by simp
  obtain cr3 s1 F1 where c: "createProcessPDE cr3Copy s = Inr (cr3, s1)" "free_inv s1 F1"
    "address_space s1 F1 cr3" "walk s1 cr3 = (\<lambda>_. 0)" "owned s1 cr3 = [Directory \<mapsto> pa2va cr3]"
    "\<forall>i. 768 \<le> unat i \<and> unat i < 1024 \<longrightarrow> kernel_half s1 cr3 i = load_entry (table_of cr3Copy) i s"
    "free_area F1 = free_area F - block (pa2va cr3) 12" "block (pa2va cr3) 12 \<subseteq> free_area F"
    using createProcessPDE_ok[OF assms(1) r assms(3,4)] by blast
  have all: "free_area F1 \<union> footprint (owned s1 cr3) = free_area F"
    unfolding c(5) using c(7,8) by (auto simp: footprint_def)
  have "\<exists>s3 F3. recycleProcessPDE cr3 s2 = Inr s3 \<and> free_inv s3 F3 \<and> free_area F3 = free_area F"
    if st: "space_step s1 F1 cr3 {} s2 F2" for s2 F2
    using freesD[OF recycleProcessPDE_ok[OF space_stepD(1,2)[OF st]]] space_stepD(3)[OF st] all by metis
  then show ?thesis using c by auto
qed

theorem process_pages_roundtrip_witness:
  "\<exists>s F cr3 s1 s3 F3. free_inv s F \<and> free_area F = {0xC0100000 ..< 0xC0110000} \<and>
     createProcessPDE 0x200000 s = Inr (cr3, s1) \<and> recycleProcessPDE cr3 s1 = Inr s3 \<and>
     free_inv s3 F3 \<and> free_area F3 = {0xC0100000 ..< 0xC0110000}"
proof -
  obtain s F where s: "free_inv s F" "free_area F = {0xC0100000 ..< 0xC0110000}" "16 \<le> room F"
    by (rule heap_16_pages)
  have "table_of 0x200000 = 0xC0200000" by (simp add: table_of_def pa2va_def)
  then have t: "good_block (table_of 0x200000) 12" "block (table_of 0x200000) 12 \<inter> free_area F = {}"
    unfolding s(2) by (auto simp: good_block_def block_def)
  have r: "1 \<le> room F" using s(3) by simp
  obtain cr3 s1 F1 where c: "createProcessPDE 0x200000 s = Inr (cr3, s1)" "free_inv s1 F1" "address_space s1 F1 cr3"
    "\<forall>s2 F2. space_step s1 F1 cr3 {} s2 F2 \<longrightarrow>
      (\<exists>s3 F3. recycleProcessPDE cr3 s2 = Inr s3 \<and> free_inv s3 F3 \<and> free_area F3 = free_area F)"
    using process_pages_roundtrip[OF s(1) r t] by blast
  obtain s3 F3 where "recycleProcessPDE cr3 s1 = Inr s3" "free_inv s3 F3" "free_area F3 = free_area F"
    using c(4) space_step_refl[OF c(2,3)] by blast
  then show ?thesis using s(1,2) c(1) by blast
qed

text \<open>A stack that grows: one page fault of its thread after the other, each at an address not mapped yet.\<close>

fun grow_stack :: "u32 \<Rightarrow> u32 list \<Rightarrow> kmem \<Rightarrow> kerror + kmem" where
  "grow_stack cr3 [] s = Inr s"
| "grow_stack cr3 (la # las) s = and_then (expand_stack cr3 la s) (grow_stack cr3 las)"

lemma grow_stack_ok:
  assumes "free_inv s F" "address_space s F cr3" "distinct (map page_ix las)" "2 * length las \<le> room F"
    and "\<And>la. la \<in> set las \<Longrightarrow> la < PAGE_OFFSET \<and> va2pde la \<in> K \<and> walk s cr3 (page_ix la) = 0"
  shows "\<exists>s' F'. grow_stack cr3 las s = Inr s' \<and> space_step s F cr3 {} s' F' \<and>
    (\<forall>r. row_of r \<notin> Some ` K \<longrightarrow> owned s' cr3 r = owned s cr3 r) \<and>
    (\<forall>x. x \<notin> page_ix ` set las \<longrightarrow> walk s' cr3 x = walk s cr3 x) \<and>
    (\<forall>la \<in> set las. \<exists>a. good_block a 12 \<and> walk s' cr3 (page_ix la) = va2pa a OR 31)"
  using assms
proof (induction las arbitrary: s F)
  case Nil
  then show ?case using space_step_refl[OF Nil(1,2)] by (intro exI[of _ s] exI[of _ F]) (simp del: owned.simps)
next
  case (Cons la las)
  have la: "la < PAGE_OFFSET" "va2pde la \<in> K" "walk s cr3 (page_ix la) = 0" using Cons.prems(5)[of la] by simp_all
  have r: "2 \<le> room F" using Cons.prems(4) by simp
  obtain a s1 F1 where 1: "expand_stack cr3 la s = Inr s1" "space_step s F cr3 {} s1 F1" "good_block a 12"
    "walk s1 cr3 = (walk s cr3)(page_ix la := va2pa a OR 31)" "room F \<le> room F1 + 2"
    "\<And>r. r \<noteq> Table (va2pde la) \<Longrightarrow> r \<noteq> Leaf (va2pde la) (va2pte la) \<Longrightarrow> owned s1 cr3 r = owned s cr3 r"
    using expand_stack_ok[OF Cons.prems(1,2) la(1) r la(3)] by blast
  have p: "la' < PAGE_OFFSET \<and> va2pde la' \<in> K \<and> walk s1 cr3 (page_ix la') = 0" if "la' \<in> set las" for la'
    using Cons.prems(5)[of la'] Cons.prems(3) that unfolding 1(4) by (auto simp: image_iff)
  have d: "distinct (map page_ix las)" "2 * length las \<le> room F1" using Cons.prems(3,4) 1(5) by simp_all
  obtain s2 F2 where 2: "grow_stack cr3 las s1 = Inr s2" "space_step s1 F1 cr3 {} s2 F2"
    "\<forall>r. row_of r \<notin> Some ` K \<longrightarrow> owned s2 cr3 r = owned s1 cr3 r"
    "\<forall>x. x \<notin> page_ix ` set las \<longrightarrow> walk s2 cr3 x = walk s1 cr3 x"
    "\<forall>la \<in> set las. \<exists>a. good_block a 12 \<and> walk s2 cr3 (page_ix la) = va2pa a OR 31"
    using Cons.IH[OF space_stepD(1,2)[OF 1(2)] d p] by blast
  have "owned s2 cr3 r = owned s cr3 r" if "row_of r \<notin> Some ` K" for r
  proof -
    have "r \<noteq> Table (va2pde la)" "r \<noteq> Leaf (va2pde la) (va2pte la)" using that la(2) by auto
    then show ?thesis using 1(6) 2(3) that by metis
  qed
  moreover have "walk s2 cr3 (page_ix la) = va2pa a OR 31"
  proof -
    have "page_ix la \<notin> page_ix ` set las" using Cons.prems(3) by simp
    then show ?thesis using 2(4) unfolding 1(4) by (metis fun_upd_same)
  qed
  moreover have "walk s2 cr3 x = walk s cr3 x" if "x \<notin> page_ix ` set (la # las)" for x
  proof -
    have "x \<notin> page_ix ` set las" "x \<noteq> page_ix la" using that by simp_all
    then show ?thesis using 2(4) unfolding 1(4) by (metis fun_upd_other)
  qed
  moreover have "grow_stack cr3 (la # las) s = Inr s2" using 1(1) 2(1) by simp
  ultimately show ?case using space_step_trans[OF 1(2) 2(2)] 2(5) 1(3)
    by (intro exI[of _ s2] exI[of _ F2]) (simp del: owned.simps, blast)
qed

lemma stack_rows:
  assumes j: "0 < j" "j \<le> 16" and sp: "unat sp = (736 + 2 * j) * 2 ^ 22" and la: "sp - 0x7FF000 \<le> la" "la < sp"
  shows "la < PAGE_OFFSET" "va2pde la = slot_entry j \<or> va2pde la = slot_entry j - 1"
proof -
  have le: "0x7FF000 \<le> sp" unfolding word_le_nat_alt sp by simp
  have lo: "(736 + 2 * j) * 2 ^ 22 - 0x7FF000 \<le> unat la"
    using la(1) unat_minus_le[OF le] sp unfolding word_le_nat_alt[of "sp - 0x7FF000"] by simp
  have hi: "unat la < (736 + 2 * j) * 2 ^ 22" using la(2) sp unfolding word_less_nat_alt by simp
  have "(736 + 2 * j) * 2 ^ 22 \<le> (768 :: nat) * 2 ^ 22" using j(2) by simp
  then have "unat la < unat PAGE_OFFSET" using hi by simp
  then show "la < PAGE_OFFSET" unfolding word_less_nat_alt .
  have d1: "unat la div 2 ^ 22 < 736 + 2 * j" using hi by (simp add: less_mult_imp_div_less)
  have d2: "734 + 2 * j \<le> unat la div 2 ^ 22"
  proof -
    have "(734 + 2 * j) * 2 ^ 22 \<le> unat la" using lo by simp
    then show ?thesis by (simp add: less_eq_div_iff_mult_less_eq)
  qed
  have one: "1 \<le> slot_entry j" unfolding word_le_nat_alt slot_entry_facts(1)[OF j(2)] by simp
  have "unat (va2pde la) = unat (slot_entry j) \<or> unat (va2pde la) = unat (slot_entry j - 1)"
    unfolding unat_va2pde unat_minus_le[OF one] slot_entry_facts(1)[OF j(2)] unat_1 using d1 d2 by linarith
  then show "va2pde la = slot_entry j \<or> va2pde la = slot_entry j - 1" by (simp only: word_unat_eq_iff)
qed

lemma entry_31: "good_block a 12 \<Longrightarrow> \<not> is_phy (va2pa a OR 31)"
  using leaf_page_entry[of a] unfolding leaf_page_def is_phy_def by (metis option.distinct(1))

text \<open>Growing a new stack and recycling it, from the state in which its slot and guard area were empty.\<close>

lemma grown_stack_recycled:
  assumes inv: "free_inv s F" "address_space s F cr3" and j: "0 < j" "j \<le> 16"
    and e: "load_entry (pa2va cr3) (slot_entry j) s = 0" "load_entry (pa2va cr3) (slot_entry j - 1) s = 0"
    and sp: "unat sp = (736 + 2 * j) * 2 ^ 22" "page_ix (sp - 1) = (slot_entry j, 1023)"
    and s1: "space_step s F cr3 {} s1 F1" "walk s1 cr3 = (walk s cr3)((slot_entry j, 1023) := va2pa p OR 31)" "good_block p 12"
      "\<And>r. row_of r \<noteq> Some (slot_entry j) \<Longrightarrow> owned s1 cr3 r = owned s cr3 r"
    and las: "distinct (map page_ix ((sp - 1) # las))" "2 * length las \<le> room F1"
      "\<And>la. la \<in> set las \<Longrightarrow> sp - 0x7FF000 \<le> la \<and> la < sp"
  shows "\<exists>s2 F2 s3 F3. grow_stack cr3 las s1 = Inr s2 \<and> space_step s1 F1 cr3 {} s2 F2 \<and>
    (\<forall>la \<in> set las. \<exists>a. good_block a 12 \<and> walk s2 cr3 (page_ix la) = va2pa a OR 31) \<and>
    (\<forall>x. x \<notin> page_ix ` set las \<longrightarrow> walk s2 cr3 x = walk s1 cr3 x) \<and>
    recycleThreadStack cr3 sp s2 = Inr s3 \<and> space_step s2 F2 cr3 {} s3 F3 \<and>
    walk s3 cr3 = walk s cr3 \<and> owned s3 cr3 = owned s cr3 \<and> free_area F3 = free_area F"
proof -
  let ?i = "slot_entry j"
  let ?K = "{?i, ?i - 1}"
  note sl = slot_entry_facts[OF j(2)]
  have od: "odd (unat ?i)" unfolding sl(1) by simp
  have vi: "va2pde (sp - 1) = ?i" using sp(2) by (simp add: page_ix_def)
  have w0: "walk s cr3 (?i, l) = 0" "walk s cr3 (?i - 1, l) = 0" for l using e by (simp_all add: walk_def)
  have g: "la < PAGE_OFFSET \<and> va2pde la \<in> ?K \<and> walk s1 cr3 (page_ix la) = 0" if "la \<in> set las" for la
  proof -
    have r: "la < PAGE_OFFSET" "va2pde la \<in> ?K" using stack_rows[OF j sp(1)] las(3)[OF that] by blast+
    have ne: "page_ix la \<noteq> (?i, 1023)" using las(1) that sp(2) by (metis distinct.simps(2) image_eqI image_set list.simps(9))
    have "walk s cr3 (page_ix la) = 0" using r(2) w0 unfolding page_ix_def by auto
    then show ?thesis using r ne unfolding s1(2) by simp
  qed
  have d: "distinct (map page_ix las)" using las(1) by simp
  obtain s2 F2 where 2: "grow_stack cr3 las s1 = Inr s2" "space_step s1 F1 cr3 {} s2 F2"
    "\<forall>r. row_of r \<notin> Some ` ?K \<longrightarrow> owned s2 cr3 r = owned s1 cr3 r"
    "\<forall>x. x \<notin> page_ix ` set las \<longrightarrow> walk s2 cr3 x = walk s1 cr3 x"
    "\<forall>la \<in> set las. \<exists>a. good_block a 12 \<and> walk s2 cr3 (page_ix la) = va2pa a OR 31"
    using grow_stack_ok[OF space_stepD(1,2)[OF s1(1)] d las(2) g] by blast
  have "walk s2 cr3 (?i, 1023) = walk s1 cr3 (?i, 1023)" using 2(4) las(1) sp(2) by auto
  then have "walk s2 cr3 (?i, 1023) \<noteq> 0" unfolding s1(2) by simp
  then have e2: "load_entry (pa2va cr3) ?i s2 \<noteq> 0" by (auto simp: walk_def Let_def)
  have pl: "plain_row s2 cr3 k" if k: "k \<in> ?K" for k
    unfolding plain_row_def
  proof
    fix l
    show "\<not> is_phy (walk s2 cr3 (k, l))"
    proof (cases "(k, l) \<in> page_ix ` set las")
      case True
      then show ?thesis using 2(5) entry_31 by (metis imageE)
    next
      case False
      then have "walk s2 cr3 (k, l) = walk s1 cr3 (k, l)" using 2(4) by blast
      moreover have "walk s cr3 (k, l) = 0" using k w0 by blast
      ultimately show ?thesis using entry_31[OF s1(3)] unfolding s1(2) by (cases "(k, l) = (?i, 1023)") (auto simp: is_phy_def)
    qed
  qed
  obtain s3 F3 where 3: "recycleThreadStack cr3 sp s2 = Inr s3" "space_step s2 F2 cr3 {} s3 F3"
    "walk s3 cr3 = (\<lambda>(k, l). if k = ?i \<or> k = ?i - 1 then 0 else walk s2 cr3 (k, l))"
    "owned s3 cr3 = (\<lambda>r. if row_of r = Some ?i \<or> row_of r = Some (?i - 1) then None else owned s2 cr3 r)"
    using recycleThreadStack_ok[OF space_stepD(1,2)[OF 2(2)] sl(2) od e2 pl pl vi] by blast
  have w3: "walk s3 cr3 = walk s cr3"
  proof (rule ext, clarify)
    fix k l
    show "walk s3 cr3 (k, l) = walk s cr3 (k, l)"
    proof (cases "k = ?i \<or> k = ?i - 1")
      case True
      then show ?thesis unfolding 3(3) using w0 by auto
    next
      case False
      then have "(k, l) \<notin> page_ix ` set las" using g by (auto simp: page_ix_def)
      then show ?thesis using False 2(4) unfolding 3(3) s1(2) by auto
    qed
  qed
  have o0: "owned s cr3 r = None" if "row_of r = Some ?i \<or> row_of r = Some (?i - 1)" for r
    using that w0 e by (cases r) (auto simp: leaf_page_def)
  have o3: "owned s3 cr3 = owned s cr3"
  proof
    fix r
    show "owned s3 cr3 r = owned s cr3 r"
    proof (cases "row_of r = Some ?i \<or> row_of r = Some (?i - 1)")
      case False
      then have "owned s2 cr3 r = owned s1 cr3 r" using 2(3) by auto
      then show ?thesis using False s1(4) unfolding 3(4) by (simp del: owned.simps)
    qed (use o0 in \<open>simp add: 3(4) del: owned.simps\<close>)
  qed
  have fa: "free_area F3 = free_area F"
    by (rule same_free_area[OF space_step_trans[OF s1(1) space_step_trans[OF 2(2) 3(2), simplified], simplified] inv(2) o3])
  show ?thesis using 2(1,2,4,5) 3(1,2) w3 o3 fa by blast
qed

text \<open>
  C13. \<^verbatim>\<open>allocThreadStack\<close> returns 0 and changes nothing when the 16 stack slots are taken.
  Otherwise it returns the top of the highest free slot and maps the page just below it. The stack
  may then grow by any sequence of page faults (\<^verbatim>\<open>expand_stack\<close>) at addresses of its 8 MB not mapped
  yet, as far as there are free pages: each maps one fresh page and nothing else. Whatever it has
  grown to, \<^verbatim>\<open>recycleThreadStack\<close> of a thread with that stack brings back the address space and the
  free bytes there were before the allocation. A free slot is required to have nothing mapped in its
  lower half either, as is the case when the stacks only grew below their own tops; the stacks of
  other threads may have grown.
\<close>

theorem thread_stack_roundtrip:
  assumes inv: "free_inv s F" "address_space s F cr3" "2 \<le> room F"
    and guard: "\<forall>m. 0 < m \<and> m \<le> 16 \<and> load_entry (pa2va cr3) (slot_entry m) s = 0 \<longrightarrow>
      load_entry (pa2va cr3) (slot_entry m - 1) s = 0"
  shows "(\<forall>m. 0 < m \<and> m \<le> 16 \<longrightarrow> load_entry (pa2va cr3) (slot_entry m) s \<noteq> 0) \<and> allocThreadStack cr3 s = Inr (0, s) \<or>
    (\<exists>j sp p s1 F1. 0 < j \<and> j \<le> 16 \<and> load_entry (pa2va cr3) (slot_entry j) s = 0 \<and>
      (\<forall>m. j < m \<and> m \<le> 16 \<longrightarrow> load_entry (pa2va cr3) (slot_entry m) s \<noteq> 0) \<and>
      allocThreadStack cr3 s = Inr (sp, s1) \<and> unat sp = (736 + 2 * j) * 2 ^ 22 \<and>
      space_step s F cr3 {} s1 F1 \<and> good_block p 12 \<and>
      walk s1 cr3 = (walk s cr3)(page_ix (sp - 1) := va2pa p OR 0b11111) \<and>
      (\<forall>las. distinct (map page_ix ((sp - 1) # las)) \<and> 2 + 2 * length las \<le> room F \<and>
          (\<forall>la \<in> set las. sp - 0x7FF000 \<le> la \<and> la < sp) \<longrightarrow>
        (\<exists>s2 F2 s3 F3. grow_stack cr3 las s1 = Inr s2 \<and> space_step s1 F1 cr3 {} s2 F2 \<and>
          (\<forall>la \<in> set las. \<exists>a. good_block a 12 \<and> walk s2 cr3 (page_ix la) = va2pa a OR 0b11111) \<and>
          (\<forall>x. x \<notin> page_ix ` set las \<longrightarrow> walk s2 cr3 x = walk s1 cr3 x) \<and>
          recycleThreadStack cr3 sp s2 = Inr s3 \<and> space_step s2 F2 cr3 {} s3 F3 \<and>
          walk s3 cr3 = walk s cr3 \<and> owned s3 cr3 = owned s cr3 \<and> free_area F3 = free_area F)))"
proof -
  note asd = address_spaceD[OF inv(2)]
  obtain j where j: "j \<le> 16" "stack_slot (pa2va cr3) (va2pde STACK_TOP - 1) s = slot_entry j"
    "0 < j \<Longrightarrow> load_entry (pa2va cr3) (slot_entry j) s = 0"
    "\<And>m. j < m \<Longrightarrow> m \<le> 16 \<Longrightarrow> load_entry (pa2va cr3) (slot_entry m) s \<noteq> 0"
    using stack_slot_ok by blast
  note sl = slot_entry_facts[OF j(1)]
  show ?thesis
  proof (cases "j = 0")
    case True
    then have "\<not> va2pde STACK_BOTTOM < slot_entry j" using sl(3) by simp
    then have "allocThreadStack cr3 s = Inr (0, s)"
      unfolding allocThreadStack_def Let_def asd(5) j(2) by simp
    then show ?thesis using j(4) True by auto
  next
    case False
    let ?i = "slot_entry j"
    define sp where sp: "sp = (?i + 1) * 0x1000 * 1024"
    have lt: "va2pde STACK_BOTTOM < ?i" using sl(3) False by simp
    have e: "load_entry (pa2va cr3) ?i s = 0" using j(3) False by simp
    obtain p a s1 F1 where 1: "allocThreadStack cr3 s = Inr (sp, s1)" "good_block p 12"
      "space_step s F cr3 {} s1 F1" "walk s1 cr3 = (walk s cr3)((?i, 1023) := va2pa p OR 31)"
      "load_entry (pa2va cr3) ?i s1 \<noteq> 0"
      "owned s1 cr3 = (owned s cr3)(Table ?i \<mapsto> a, Leaf ?i 1023 \<mapsto> p)" "room F = room F1 + 2"
      using allocThreadStack_ok[OF inv j(2) lt sl(2) e] unfolding sp[symmetric] by metis
    have top: "unat sp = (736 + 2 * j) * 2 ^ 22" and pi: "page_ix (sp - 1) = (?i, 1023)"
      using slot_top[OF _ j(1)] False unfolding sp[symmetric] by blast+
    have j0: "0 < j" using False by simp
    have o1: "owned s1 cr3 r = owned s cr3 r" if "row_of r \<noteq> Some ?i" for r
      using that unfolding 1(6) by (cases r) (simp_all del: owned.simps)
    have e': "load_entry (pa2va cr3) (?i - 1) s = 0" using guard j0 j(1) e by blast
    note gr = grown_stack_recycled[OF inv(1,2) j0 j(1) e e' top pi 1(3,4,2) o1]
    show ?thesis
      by (intro disjI2 exI[of _ j] exI[of _ sp] exI[of _ p] exI[of _ s1] exI[of _ F1] conjI allI impI gr)
        (use j0 j(1,4) e 1(1-4,7) top pi in simp_all)
  qed
qed

theorem thread_stack_roundtrip_witness:
  "\<exists>s F cr3 s1 s2 s3 F3. free_inv s F \<and> address_space s F cr3 \<and> allocThreadStack cr3 s = Inr (0xC0000000, s1) \<and>
     walk s1 cr3 (page_ix 0xBFFFFFFF) \<noteq> 0 \<and> grow_stack cr3 [0xBFFFE000] s1 = Inr s2 \<and>
     walk s2 cr3 (page_ix 0xBFFFE000) \<noteq> 0 \<and> recycleThreadStack cr3 0xC0000000 s2 = Inr s3 \<and>
     free_inv s3 F3 \<and> free_area F3 = free_area F"
proof -
  obtain s F cr3 where d: "free_inv s F" "address_space s F cr3" "owned s cr3 = [Directory \<mapsto> pa2va cr3]" "15 \<le> room F"
    using demo_space by metis
  have r: "2 \<le> room F" using d(4) by simp
  have z: "load_entry (pa2va cr3) i s = 0" if "user_entry i" for i
    using fun_cong[OF d(3), of "Table i"] that by (auto simp: Let_def split: if_splits)
  have g: "load_entry (pa2va cr3) (slot_entry m - 1) s = 0"
    if "0 < m" "m \<le> 16" "load_entry (pa2va cr3) (slot_entry m) s = 0" for m
  proof (rule z)
    note u = slot_entry_facts(1)[OF that(2)]
    have "1 \<le> slot_entry m" unfolding word_le_nat_alt u by simp
    then show "user_entry (slot_entry m - 1)" using that u by (simp add: user_entry_def unat_minus_le)
  qed
  have top: "load_entry (pa2va cr3) (slot_entry 16) s = 0" using slot_entry_facts(2)[of 16] z by simp
  have "\<forall>m. 0 < m \<and> m \<le> 16 \<and> load_entry (pa2va cr3) (slot_entry m) s = 0 \<longrightarrow>
      load_entry (pa2va cr3) (slot_entry m - 1) s = 0" using g by blast
  from thread_stack_roundtrip[OF d(1,2) r this] show ?thesis
  proof (elim disjE exE conjE)
    assume "\<forall>m. 0 < m \<and> m \<le> 16 \<longrightarrow> load_entry (pa2va cr3) (slot_entry m) s \<noteq> 0"
    then show ?thesis using top by auto
  next
    fix j sp p s1 F1
    assume c: "0 < j" "j \<le> 16" "\<forall>m. j < m \<and> m \<le> 16 \<longrightarrow> load_entry (pa2va cr3) (slot_entry m) s \<noteq> 0"
      "allocThreadStack cr3 s = Inr (sp, s1)"
      "unat sp = (736 + 2 * j) * 2 ^ 22" "walk s1 cr3 = (walk s cr3)(page_ix (sp - 1) := va2pa p OR 0b11111)"
      "\<forall>las. distinct (map page_ix ((sp - 1) # las)) \<and> 2 + 2 * length las \<le> room F \<and>
          (\<forall>la \<in> set las. sp - 0x7FF000 \<le> la \<and> la < sp) \<longrightarrow>
        (\<exists>s2 F2 s3 F3. grow_stack cr3 las s1 = Inr s2 \<and> space_step s1 F1 cr3 {} s2 F2 \<and>
          (\<forall>la \<in> set las. \<exists>a. good_block a 12 \<and> walk s2 cr3 (page_ix la) = va2pa a OR 0b11111) \<and>
          (\<forall>x. x \<notin> page_ix ` set las \<longrightarrow> walk s2 cr3 x = walk s1 cr3 x) \<and>
          recycleThreadStack cr3 sp s2 = Inr s3 \<and> space_step s2 F2 cr3 {} s3 F3 \<and>
          walk s3 cr3 = walk s cr3 \<and> owned s3 cr3 = owned s cr3 \<and> free_area F3 = free_area F)"
    have "j = 16" using c(1-3) top by (metis le_neq_implies_less order.refl)
    then have "unat sp = unat (0xC0000000 :: u32)" using c(5) by simp
    then have sp: "sp = 0xC0000000" by (simp only: word_unat_eq_iff)
    have cond: "distinct (map page_ix ((sp - 1) # [0xBFFFE000])) \<and> 2 + 2 * length [0xBFFFE000 :: u32] \<le> room F \<and>
        (\<forall>la \<in> set [0xBFFFE000]. sp - 0x7FF000 \<le> la \<and> la < sp)"
      using d(4) unfolding sp by (simp add: page_ix_def va2pde_def va2pte_def)
    obtain s2 F2 s3 F3 where e: "grow_stack cr3 [0xBFFFE000] s1 = Inr s2"
        "\<forall>la \<in> set [0xBFFFE000]. \<exists>a. good_block a 12 \<and> walk s2 cr3 (page_ix la) = va2pa a OR 31"
        "recycleThreadStack cr3 sp s2 = Inr s3" "space_step s2 F2 cr3 {} s3 F3" "free_area F3 = free_area F"
      using c(7)[rule_format, OF cond] by blast
    have "walk s1 cr3 (page_ix 0xBFFFFFFF) \<noteq> 0" unfolding c(6) sp by simp
    moreover have "walk s2 cr3 (page_ix 0xBFFFE000) \<noteq> 0" using e(2) by auto
    ultimately show ?thesis using d(1,2) c(4) e(1,3,5) space_stepD(1)[OF e(4)] unfolding sp by blast
  qed
qed
end
