(* ===== verification/Process.thy ===== *)
theory Process
  imports Page Linked_List Ring_Buffer
begin

text \<open>
  Processes, threads, scheduling and the system calls, \<^verbatim>\<open>kernel/process/proc.c\<close>, with the
  exception handlers of \<^verbatim>\<open>page.c\<close> and \<^verbatim>\<open>int.c\<close> and the timer interrupt of \<^verbatim>\<open>timer.c\<close>. The
  \<^verbatim>\<open>Process\<close> and \<^verbatim>\<open>Thread\<close> structures are records in two stores keyed by their addresses, the
  \<^verbatim>\<open>LinkedList\<close> nodes inside them are the nodes of a list store, and page tables and the
  allocator are the memory of the page component. Console output is left out.
\<close>

section \<open>State (type.h)\<close>

record stack_frame =
  reg_gs :: u32
  reg_fs :: u32
  reg_es :: u32
  reg_ds :: u32
  reg_di :: u32
  reg_si :: u32
  reg_bp :: u32
  reg_ignored :: u32
  reg_bx :: u32
  reg_dx :: u32
  reg_cx :: u32
  reg_ax :: u32
  returnAddress :: u32
  reg_ip :: u32
  reg_cs :: u32
  reg_flags :: u32
  reg_sp :: u32
  reg_ss :: u32

record thread =
  t_process :: u32
  threadID :: u32
  t_flag :: u32
  stacktop :: u32
  regs :: stack_frame

record process =
  p_cr3 :: u32
  p_current :: u32
  avl_thread :: u32
  p_flag :: u32
  ticks :: u32
  priority :: u32
  pid :: u32
  privilege :: u32
  receiving :: u32
  messages :: "(u64, u64) ring_buf"
  p_name :: "u8 list"

text \<open>
  The \<^verbatim>\<open>LinkedList\<close> nodes: the \<^verbatim>\<open>list\<close> field of a process, its \<^verbatim>\<open>thread\<close> field (the head of
  its thread list), the \<^verbatim>\<open>list\<close> field of a thread, and the local variable \<^verbatim>\<open>ll\<close> of
  \<^verbatim>\<open>init_proc\<close>. \<^verbatim>\<open>list_entry\<close> goes back from a node to its structure; the code applies it to
  nodes of that structure only, the value elsewhere stands for a meaningless pointer.
\<close>

datatype node = Proc_List u32 | Thread_Head u32 | Thread_List u32 | Local_Head

fun proc_entry :: "node \<Rightarrow> u32" where
  "proc_entry (Proc_List p) = p"
| "proc_entry _ = 0"

fun thread_entry :: "node \<Rightarrow> u32" where
  "thread_entry (Thread_List t) = t"
| "thread_entry _ = 0"

text \<open>
  The state of the kernel on one processor: the globals \<^verbatim>\<open>scheduleLock\<close> and \<^verbatim>\<open>processTable\<close>, and of
  \<^verbatim>\<open>KernelPage\<close> the current process and thread and the \<^verbatim>\<open>esp0\<close> of the TSS.
\<close>

record system =
  heap :: kmem
  procs :: "u32 \<Rightarrow> process"
  threads :: "u32 \<Rightarrow> thread"
  lists :: "node links"
  processTable :: node
  scheduleLock :: u32
  current_proc :: u32
  current_thread :: u32
  esp0 :: u32

definition upd_proc :: "u32 \<Rightarrow> (process \<Rightarrow> process) \<Rightarrow> system \<Rightarrow> system" where
  "upd_proc p f s = s\<lparr>procs := (procs s)(p := f (procs s p))\<rparr>"

definition upd_thread :: "u32 \<Rightarrow> (thread \<Rightarrow> thread) \<Rightarrow> system \<Rightarrow> system" where
  "upd_thread t f s = s\<lparr>threads := (threads s)(t := f (threads s t))\<rparr>"

definition set_ax :: "u32 \<Rightarrow> u32 \<Rightarrow> system \<Rightarrow> system" where
  "set_ax t v = upd_thread t (\<lambda>th. th\<lparr>regs := (regs th)\<lparr>reg_ax := v\<rparr>\<rparr>)"

definition on_lists :: "(node links \<Rightarrow> node links) \<Rightarrow> system \<Rightarrow> system" where
  "on_lists f s = s\<lparr>lists := f (lists s)\<rparr>"

text \<open>A memory routine run on the heap.\<close>

definition on_heap :: "(kmem \<Rightarrow> kerror + kmem) \<Rightarrow> system \<Rightarrow> kerror + system" where
  "on_heap f s = and_then (f (heap s)) (\<lambda>h. Inr (s\<lparr>heap := h\<rparr>))"

definition with_heap :: "(kmem \<Rightarrow> kerror + ('a \<times> kmem)) \<Rightarrow> system \<Rightarrow> kerror + ('a \<times> system)" where
  "with_heap f s = and_then (f (heap s)) (\<lambda>(x, h). Inr (x, s\<lparr>heap := h\<rparr>))"

definition enter_critical :: "system \<Rightarrow> kerror + system" where
  "enter_critical s = and_then (spin_lock (scheduleLock s)) (\<lambda>l. Inr (s\<lparr>scheduleLock := l\<rparr>))"

definition leave_critical :: "system \<Rightarrow> system" where
  "leave_critical s = s\<lparr>scheduleLock := spin_unlock (scheduleLock s)\<rparr>"

section \<open>Scheduling\<close>

text \<open>
  One pass of the inner loop of \<^verbatim>\<open>schedule\<close> from the node \<open>ll\<close> on: the ready process with the
  most ticks above \<open>greatest\<close>, the first such one in the table. A \<^verbatim>\<open>NULL\<close> \<^verbatim>\<open>p_ready\<close> is
  \<open>None\<close>.
\<close>

partial_function (option) pick_ready ::
  "(u32 \<Rightarrow> process) \<Rightarrow> node \<Rightarrow> node links \<Rightarrow> node \<Rightarrow> u32 \<Rightarrow> u32 option \<Rightarrow> (u32 \<times> u32 option) option" where
  "pick_ready ps table h ll greatest ready =
     (let p = proc_entry ll;
          (greatest, ready) =
            (if p_flag (ps p) = 0 \<and> sint greatest < sint (ticks (ps p)) then (ticks (ps p), Some p)
             else (greatest, ready));
          ll = nxt h ll
      in if ll = table then Some (greatest, ready) else pick_ready ps table h ll greatest ready)"

text \<open>The pass that gives every ready process its ticks back.\<close>

partial_function (option) refill_ticks ::
  "node \<Rightarrow> node links \<Rightarrow> node \<Rightarrow> (u32 \<Rightarrow> process) \<Rightarrow> (u32 \<Rightarrow> process) option" where
  "refill_ticks table h ll ps =
     (let p = proc_entry ll;
          ps = (if p_flag (ps p) = 0 then ps(p := (ps p)\<lparr>ticks := priority (ps p)\<rparr>) else ps);
          ll = nxt h ll
      in if ll = table then Some ps else refill_ticks table h ll ps)"

text \<open>The loop \<^verbatim>\<open>while(p_ready==NULL)\<close>; \<open>None\<close> is a loop that never ends.\<close>

partial_function (option) schedule_loop ::
  "node \<Rightarrow> node links \<Rightarrow> u32 \<Rightarrow> (u32 \<Rightarrow> process) \<Rightarrow> (u32 \<times> (u32 \<Rightarrow> process)) option" where
  "schedule_loop table h greatest ps =
     (case pick_ready ps table h table greatest None of
        None \<Rightarrow> None
      | Some (greatest, Some p) \<Rightarrow> Some (p, ps)
      | Some (greatest, None) \<Rightarrow>
          (case refill_ticks table h table ps of
             None \<Rightarrow> None
           | Some ps \<Rightarrow> schedule_loop table h greatest ps))"

definition schedule :: "u32 \<Rightarrow> system \<Rightarrow> kerror + system" where
  "schedule flag s =
     (let crpde = load_entry (pa2va (p_cr3 (procs s (current_proc s)))) (va2pde PAGE_OFFSET) (heap s) in
      and_then (enter_critical s) (\<lambda>s.
      let s = upd_proc (current_proc s) (\<lambda>p. p\<lparr>p_flag := flag\<rparr>) s in
      case schedule_loop (processTable s) (lists s) 0 (procs s) of
        None \<Rightarrow> Inl Spin
      | Some (p_ready, ps) \<Rightarrow>
          let s = s\<lparr>procs := ps, current_proc := p_ready\<rparr>;
              s = upd_proc (current_proc s) (\<lambda>p. p\<lparr>p_flag := 2\<rparr>) s;
              s = leave_critical s;
              s = s\<lparr>heap := store_entry (pa2va (p_cr3 (procs s (current_proc s)))) (va2pde PAGE_OFFSET) crpde (heap s)\<rparr>;
              s = s\<lparr>current_thread := p_current (procs s (current_proc s))\<rparr>
          in Inr (s\<lparr>esp0 := current_thread s + 0x1000\<rparr>)))"

section \<open>Sleeping and waking\<close>

definition processSleep :: "u32 \<Rightarrow> system \<Rightarrow> kerror + system" where
  "processSleep t s =
     (let s = upd_proc t (\<lambda>p. p\<lparr>p_flag := 1\<rparr>) s
      in if current_proc s = t then schedule 1 s else Inr s)"

text \<open>The condition of the inner \<^verbatim>\<open>if\<close> is the assignment \<^verbatim>\<open>cpuPage.current_thread=t\<close> (proc.c:54).\<close>

definition threadSleep :: "u32 \<Rightarrow> system \<Rightarrow> kerror + system" where
  "threadSleep t s =
     (let p = t_process (threads s t);
          s = upd_thread t (\<lambda>th. th\<lparr>t_flag := 1\<rparr>) s;
          s = upd_proc p (\<lambda>pr. pr\<lparr>avl_thread := avl_thread pr - 1\<rparr>) s
      in if avl_thread (procs s p) = 0 then processSleep p s
         else
           let s = upd_proc p (\<lambda>pr. pr\<lparr>p_flag := 0\<rparr>) s;
               s = s\<lparr>current_thread := t\<rparr>
           in if current_thread s \<noteq> 0 then schedule 1 s else Inr s)"

definition threadAwake :: "u32 \<Rightarrow> system \<Rightarrow> system" where
  "threadAwake t s =
     (let p = t_process (threads s t);
          s = upd_thread t (\<lambda>th. th\<lparr>t_flag := 0\<rparr>) s;
          s = upd_proc p (\<lambda>pr. pr\<lparr>avl_thread := avl_thread pr + 1\<rparr>) s
      in if p_flag (procs s p) = 1 then upd_proc p (\<lambda>pr. pr\<lparr>p_flag := 0\<rparr>) s else s)"

section \<open>Creating threads and processes\<close>

text \<open>
  The search for an identifier: \<^verbatim>\<open>list_for_each\<close> with a counter that stops at the first entry
  whose identifier is not the counter. The result is the node where the loop stopped (the head
  at the end of the list) and the counter.
\<close>

partial_function (option) first_gap ::
  "(node \<Rightarrow> u32) \<Rightarrow> node \<Rightarrow> node \<Rightarrow> node links \<Rightarrow> u32 \<Rightarrow> (node \<times> u32) option" where
  "first_gap ident entry head h n =
     (if entry = head then Some (head, n)
      else if ident entry \<noteq> n then Some (entry, n)
      else first_gap ident (nxt h entry) head h (n + 1))"

definition user_regs :: "u32 \<Rightarrow> u32 \<Rightarrow> u32 \<Rightarrow> stack_frame \<Rightarrow> stack_frame" where
  "user_regs ip stack priv r = r\<lparr>reg_cs := 24 OR 3, reg_ds := 32 OR 3, reg_es := 32 OR 3, reg_fs := 32 OR 3,
     reg_ss := 32 OR 3, reg_gs := 32 OR 3, reg_ip := ip, reg_sp := stack,
     reg_flags := (if priv = 0 then 0x3202 else 0x202)\<rparr>"

definition createThread :: "u32 \<Rightarrow> u32 \<Rightarrow> system \<Rightarrow> kerror + (u32 \<times> system)" where
  "createThread proc ip s =
     and_then (with_heap (allocThreadStack (p_cr3 (procs s proc))) s) (\<lambda>(stack, s).
     if stack = 0 then Inr (0, s)
     else and_then (with_heap (memory_alloc 12) s) (\<lambda>(thread, s).
       let s = upd_thread thread (\<lambda>t. t\<lparr>regs := user_regs ip stack (privilege (procs s proc)) (regs t),
                 stacktop := stack\<rparr>) s;
           s = upd_thread thread (\<lambda>t. t\<lparr>t_process := proc\<rparr>) s
       in and_then (enter_critical s) (\<lambda>s.
         case first_gap (\<lambda>n. threadID (threads s (thread_entry n))) (nxt (lists s) (Thread_Head proc))
                (Thread_Head proc) (lists s) 0 of
           None \<Rightarrow> Inl Spin
         | Some (entry, tid) \<Rightarrow>
             let s = upd_thread thread (\<lambda>t. t\<lparr>threadID := tid\<rparr>) s;
                 s = on_lists (list_add_tail (Thread_List thread) entry) s;
                 s = leave_critical s;
                 s = upd_proc proc (\<lambda>p. p\<lparr>avl_thread := avl_thread p + 1\<rparr>) s;
                 s = upd_thread thread (\<lambda>t. t\<lparr>t_flag := 0\<rparr>) s
             in Inr (thread, s))))"

text \<open>\<open>name\<close> is the 16 bytes at the pointer the caller passes; 2132 is \<^verbatim>\<open>sizeof(Process)\<close>.\<close>

definition newProcess :: "u32 \<Rightarrow> u32 \<Rightarrow> u32 \<Rightarrow> u8 list \<Rightarrow> u32 \<Rightarrow> system \<Rightarrow> kerror + (u32 \<times> system)" where
  "newProcess cr3 ip priv name prio s =
     and_then (with_heap (malloc 2132) s) (\<lambda>(proc, s).
     let s = upd_proc proc (\<lambda>p. p\<lparr>p_cr3 := cr3, privilege := priv, avl_thread := 0\<rparr>) s;
         s = on_lists (init_list (Thread_Head proc)) s
     in and_then (createThread proc ip s) (\<lambda>(t1, s).
       let s = upd_proc proc (\<lambda>p. p\<lparr>p_current := t1\<rparr>) s;
           s = upd_proc proc (\<lambda>p. p\<lparr>p_flag := 0,
                 messages := (messages p)\<lparr>count := 0, p_head := 0, p_tail := 0\<rparr>,
                 receiving := 0, p_name := name, priority := prio, ticks := prio\<rparr>) s
       in and_then (enter_critical s) (\<lambda>s.
         case first_gap (\<lambda>n. pid (procs s (proc_entry n))) (nxt (lists s) (processTable s))
                (processTable s) (lists s) 1 of
           None \<Rightarrow> Inl Spin
         | Some (entry, i) \<Rightarrow>
             let s = upd_proc proc (\<lambda>p. p\<lparr>pid := i\<rparr>) s;
                 s = on_lists (list_add_tail (Proc_List proc) entry) s
             in Inr (proc, leave_critical s))))"

definition createProcess :: "u32 \<Rightarrow> u32 \<Rightarrow> u8 list \<Rightarrow> u32 \<Rightarrow> system \<Rightarrow> kerror + (u32 \<times> system)" where
  "createProcess ip priv name prio s =
     and_then (with_heap (createProcessPDE (p_cr3 (procs s (current_proc s)))) s) (\<lambda>(cr3, s).
     newProcess cr3 ip priv name prio s)"

text \<open>
  \<^verbatim>\<open>init_proc\<close>: \<open>kernelPDE\<close> is the directory that \<^verbatim>\<open>init_paging\<close> made and \<open>init_ip\<close> the address of
  \<^verbatim>\<open>Init\<close>. The first process gets PID 0 and its node becomes the head of the process table.
\<close>

definition init_proc :: "u32 \<Rightarrow> u32 \<Rightarrow> u8 list \<Rightarrow> system \<Rightarrow> kerror + system" where
  "init_proc kernelPDE init_ip name s =
     (let s = on_lists (init_list Local_Head) s;
          s = s\<lparr>processTable := Local_Head\<rparr>
      in and_then (with_heap (memory_alloc 12) s) (\<lambda>(pde, s).
        let s = s\<lparr>heap := copy_words pde kernelPDE 1024 (heap s)\<rparr>
        in and_then (newProcess (va2pa pde) init_ip 0 name 1 s) (\<lambda>(init, s).
          let s = upd_proc init (\<lambda>p. p\<lparr>pid := 0\<rparr>) s;
              s = on_lists (set_prev (Proc_List init) (Proc_List init)) s;
              s = on_lists (set_next (Proc_List init) (Proc_List init)) s;
              s = s\<lparr>processTable := Proc_List init\<rparr>;
              s = upd_proc init (\<lambda>p. p\<lparr>p_flag := 2\<rparr>) s;
              s = s\<lparr>current_proc := init\<rparr>;
              s = s\<lparr>current_thread := p_current (procs s init)\<rparr>
          in Inr (s\<lparr>esp0 := current_thread s + 0x1000\<rparr>))))"

text \<open>\<^verbatim>\<open>init_proc_ap\<close> on a further processor; the fields of \<open>system\<close> are then that processor's page.\<close>

definition init_proc_ap :: "u32 \<Rightarrow> u32 \<Rightarrow> u8 list \<Rightarrow> system \<Rightarrow> kerror + system" where
  "init_proc_ap kernelPDE init_ip name s =
     and_then (with_heap (memory_alloc 12) s) (\<lambda>(pde, s).
     let s = s\<lparr>heap := copy_words pde kernelPDE 1024 (heap s)\<rparr>
     in and_then (newProcess (va2pa pde) init_ip 0 name 1 s) (\<lambda>(init, s).
       let s = upd_proc init (\<lambda>p. p\<lparr>p_flag := 2\<rparr>) s;
           s = s\<lparr>current_proc := init\<rparr>;
           s = s\<lparr>current_thread := p_current (procs s init)\<rparr>
       in Inr (s\<lparr>esp0 := current_thread s + 0x1000\<rparr>)))"

section \<open>Disposing of threads and processes\<close>

text \<open>The loop that recycles the pages of the messages nobody received.\<close>

partial_function (option) drop_messages :: "u32 \<Rightarrow> system \<Rightarrow> (kerror + system) option" where
  "drop_messages proc s =
     (let m = messages (procs s proc) in
      if count m = 0 then Some (Inr s)
      else case on_heap (recyclePhysicalPage (ucast (buf m ! p_tail m) AND NOT 0xFFF)) s of
        Inl e \<Rightarrow> Some (Inl e)
      | Inr s \<Rightarrow> drop_messages proc (upd_proc proc (\<lambda>p. p\<lparr>messages := snd (ring_get (messages p))\<rparr>) s))"

text \<open>\<^verbatim>\<open>disposeProcess\<close> of a process without threads, its \<^verbatim>\<open>else\<close> branch.\<close>

definition dispose_empty :: "u32 \<Rightarrow> system \<Rightarrow> kerror + system" where
  "dispose_empty proc s =
     and_then (if current_proc s = proc then schedule 2 s else Inr s) (\<lambda>s.
     and_then (enter_critical s) (\<lambda>s.
     let s = on_lists (list_hide (Proc_List proc)) s in
     and_then (on_heap (recycleProcessPDE (p_cr3 (procs s proc))) s) (\<lambda>s.
     and_then (case drop_messages proc s of None \<Rightarrow> Inl Spin | Some r \<Rightarrow> r) (\<lambda>s.
     and_then (on_heap (free proc) s) (\<lambda>s.
     Inr (leave_critical s))))))"

definition disposeThread :: "u32 \<Rightarrow> system \<Rightarrow> kerror + system" where
  "disposeThread thread s =
     (let proc = t_process (threads s thread) in
      and_then (enter_critical s) (\<lambda>s.
      let s = on_lists (list_hide (Thread_List thread)) s;
          s = (if t_flag (threads s thread) = 2
               then upd_proc proc (\<lambda>p. p\<lparr>receiving := receiving p - 1\<rparr>) s else s);
          s = leave_critical s
      in and_then (on_heap (recycleThreadStack (p_cr3 (procs s proc)) (stacktop (threads s thread))) s) (\<lambda>s.
      let s = (if t_flag (threads s thread) = 0
               then upd_proc proc (\<lambda>p. p\<lparr>avl_thread := avl_thread p - 1\<rparr>) s else s)
      in and_then
        (if \<not> list_empty (Thread_Head proc) (lists s) then
           if p_current (procs s proc) = thread then
             schedule 0 (upd_proc proc
               (\<lambda>p. p\<lparr>p_current := thread_entry (nxt (lists s) (Thread_Head proc))\<rparr>) s)
           else Inr s
         else dispose_empty proc s)
        (on_heap (memory_block_free thread 12)))))"

partial_function (option) dispose_threads :: "u32 \<Rightarrow> system \<Rightarrow> (kerror + system) option" where
  "dispose_threads proc s =
     (case disposeThread (p_current (procs s proc)) s of
        Inl e \<Rightarrow> Some (Inl e)
      | Inr s \<Rightarrow> if \<not> list_empty (Thread_Head proc) (lists s) then dispose_threads proc s else Some (Inr s))"

definition disposeProcess :: "u32 \<Rightarrow> system \<Rightarrow> kerror + system" where
  "disposeProcess proc s =
     (if \<not> list_empty (Thread_Head proc) (lists s)
      then case dispose_threads proc s of None \<Rightarrow> Inl Spin | Some r \<Rightarrow> r
      else dispose_empty proc s)"

text \<open>The exception handler of \<^verbatim>\<open>int.c\<close>: the table of messages has 23 entries.\<close>

definition inner_exception_handler :: "u32 \<Rightarrow> u32 \<Rightarrow> system \<Rightarrow> kerror + system" where
  "inner_exception_handler vec_no err_code s =
     (let p = current_proc s in
      and_then (schedule 2 s) (\<lambda>s.
      let vec_no = (if vec_no = -1 then 15 else vec_no)
      in if 23 \<le> vec_no then Inl Bad_Index else disposeProcess p s))"

definition unknown_irq :: "u32 \<Rightarrow> system \<Rightarrow> kerror + system" where
  "unknown_irq irq s = inner_exception_handler 21 irq s"

text \<open>\<open>cr2\<close> is the register that holds the faulting address.\<close>

definition pageFaultHandler :: "u32 \<Rightarrow> system \<Rightarrow> kerror + system" where
  "pageFaultHandler cr2 s =
     (let p = current_proc s;
          t = current_thread s;
          top = stacktop (threads s t)
      in if top - 0x800000 < cr2 \<and> cr2 < top \<and> \<not> cr2 < top - 0x800000 + 0x1000
         then on_heap (expand_stack (p_cr3 (procs s p)) cr2) s
         else and_then (schedule 2 s) (disposeProcess p))"

section \<open>Messages and system calls\<close>

text \<open>
  The thread of \<open>p\<close> that waits for a message, as \<^verbatim>\<open>sendInterrupt\<close> and \<^verbatim>\<open>SYSCALL_SEND\<close> look for
  it: the first one with flag 2; when there is none \<^verbatim>\<open>pentry\<close> is the last thread of the list.
\<close>

definition waiting_thread :: "u32 \<Rightarrow> system \<Rightarrow> u32 option" where
  "waiting_thread p s =
     map_option (\<lambda>n. thread_entry (if n = Thread_Head p then prv (lists s) n else n))
       (list_find (\<lambda>n. t_flag (threads s (thread_entry n)) = 2) (Thread_Head p) (lists s))"

definition getProcessById :: "u32 \<Rightarrow> system \<Rightarrow> u32 option option" where
  "getProcessById i s =
     map_option (\<lambda>n. if n = processTable s then None else Some (proc_entry n))
       (list_find (\<lambda>n. pid (procs s (proc_entry n)) = i) (processTable s) (lists s))"

definition put_message :: "u32 \<Rightarrow> u64 \<Rightarrow> system \<Rightarrow> system" where
  "put_message p m = upd_proc p (\<lambda>pr. pr\<lparr>messages := ring_put m (messages pr)\<rparr>)"

definition sendInterrupt :: "u32 \<Rightarrow> system \<Rightarrow> kerror + system" where
  "sendInterrupt p s =
     and_then (enter_critical s) (\<lambda>s.
     and_then
       (if receiving (procs s p) \<noteq> 0 then
          let s = upd_proc p (\<lambda>pr. pr\<lparr>receiving := receiving pr - 1\<rparr>) s in
          case waiting_thread p s of
            None \<Rightarrow> Inl Spin
          | Some t \<Rightarrow>
              let s = set_ax t (-1) s in
              and_then (with_heap allocPhysicalPage s) (\<lambda>(page, s).
              and_then (with_heap (open_physical_memory (p_cr3 (procs s p)) page (reg_cx (regs (threads s t))) 1 0) s)
                (\<lambda>(r, s). Inr (threadAwake t s)))
        else if count (messages (procs s p)) < of_nat MAX_MESSAGE_COUNT then
          and_then (with_heap allocPhysicalPage s) (\<lambda>(page, s).
          Inr (put_message p (0xFFFFFFFF00000000 OR ucast page) s))
        else Inr s)
       (\<lambda>s. Inr (leave_critical s)))"

definition syscall_send :: "u32 \<Rightarrow> u32 \<Rightarrow> u32 \<Rightarrow> system \<Rightarrow> kerror + system" where
  "syscall_send edx ecx ebx s =
     (let cur = current_proc s;
          ebx = (if ebx = 0 then pid (procs s cur) else ebx);
          pde = table_of (p_cr3 (procs s cur));
          pte = table_of (load_entry pde (va2pde ecx) (heap s));
          page = load_entry pte (va2pte ecx) (heap s)
      in if ecx < PAGE_OFFSET \<and> ecx AND 0xFFF = 0 \<and> BIT_TEST (load_entry pde (va2pde ecx) (heap s)) 0
            \<and> BIT_TEST page 0 \<and> page AND PAGE_TYPE_PHY = 0
         then and_then (enter_critical s) (\<lambda>s.
           case getProcessById edx s of
             None \<Rightarrow> Inl Spin
           | Some None \<Rightarrow> Inr (leave_critical (set_ax (current_thread s) (-1) s))
           | Some (Some p) \<Rightarrow>
               if receiving (procs s p) \<noteq> 0 then
                 let s = upd_proc p (\<lambda>pr. pr\<lparr>receiving := receiving pr - 1\<rparr>) s in
                 case waiting_thread p s of
                   None \<Rightarrow> Inl Spin
                 | Some t \<Rightarrow>
                     let s = set_ax t ebx s in
                     and_then (with_heap (open_physical_memory (p_cr3 (procs s p)) (page AND NOT 0xFFF)
                                 (reg_cx (regs (threads s t))) 1 0) s) (\<lambda>(r, s).
                     and_then (with_heap allocPhysicalPage s) (\<lambda>(new, s).
                     let s = s\<lparr>heap := store_entry pte (va2pte ecx) (new OR PAGE_PRESENT) (heap s)\<rparr>;
                         s = threadAwake t s
                     in Inr (leave_critical (set_ax (current_thread s) 1 s))))
               else if count (messages (procs s p)) < of_nat MAX_MESSAGE_COUNT then
                 let m = push_bit 32 (ucast ebx) OR ucast page in
                 and_then (with_heap allocPhysicalPage s) (\<lambda>(new, s).
                 let s = s\<lparr>heap := store_entry pte (va2pte ecx) (new OR PAGE_PRESENT) (heap s)\<rparr>;
                     s = put_message p m s
                 in Inr (leave_critical (set_ax (current_thread s) 1 s)))
               else Inr (leave_critical (set_ax (current_thread s) 0 s)))
         else Inr (set_ax (current_thread s) (-2) s))"

definition syscall_receive :: "u32 \<Rightarrow> system \<Rightarrow> kerror + system" where
  "syscall_receive ecx s =
     (let p = current_proc s;
          t = current_thread s;
          pde = table_of (p_cr3 (procs s p));
          pte = table_of (load_entry pde (va2pde ecx) (heap s));
          page = load_entry pte (va2pte ecx) (heap s);
          mapped = (BIT_TEST (load_entry pde (va2pde ecx) (heap s)) 0 \<and> BIT_TEST page 0)
      in if \<not> (ecx < PAGE_OFFSET \<and> ecx AND 0xFFF = 0) then Inr (set_ax t (-2) s)
         else if mapped \<and> page AND PAGE_TYPE_PHY \<noteq> 0 then Inr (set_ax t (-2) s)
         else and_then
           (if mapped
            then and_then (on_heap (recyclePhysicalPage (page AND NOT 0xFFF)) s)
                   (\<lambda>s. Inr (s\<lparr>heap := store_entry pte (va2pte ecx) 0 (heap s)\<rparr>))
            else Inr s) (\<lambda>s.
         and_then (enter_critical s) (\<lambda>s.
         if count (messages (procs s p)) = 0 then
           and_then (threadSleep t (leave_critical s)) (\<lambda>s.
           let s = upd_thread t (\<lambda>th. th\<lparr>t_flag := 2\<rparr>) s
           in Inr (upd_proc p (\<lambda>pr. pr\<lparr>receiving := receiving pr + 1\<rparr>) s))
         else
           let msg = fst (ring_get (messages (procs s p)));
               s = upd_proc p (\<lambda>pr. pr\<lparr>messages := snd (ring_get (messages pr))\<rparr>) s
           in and_then (with_heap (open_physical_memory (p_cr3 (procs s p)) (ucast msg AND NOT 0xFFF) ecx 1 0) s)
             (\<lambda>(r, s). Inr (leave_critical (set_ax (current_thread s) (ucast (drop_bit 32 msg)) s))))))"

text \<open>
  \<^verbatim>\<open>system_call\<close>. After \<^verbatim>\<open>SYSCALL_DISPOSE_THREAD\<close> the code restarts the current thread instead
  of returning, which is the same state.
\<close>

definition system_call :: "u32 \<Rightarrow> u32 \<Rightarrow> u32 \<Rightarrow> u32 \<Rightarrow> system \<Rightarrow> kerror + system" where
  "system_call eax edx ecx ebx s =
     (if eax = 0 then syscall_send edx ecx ebx s
      else if eax = 1 then syscall_receive ecx s
      else if eax = 2 then
        and_then (createThread (current_proc s) edx s) (\<lambda>(t, s). Inr (set_ax (current_thread s) t s))
      else if eax = 3 then disposeThread (if edx \<noteq> 0 then edx else current_thread s) s
      else if eax = 4 then
        and_then (with_heap (open_physical_memory (p_cr3 (procs s (current_proc s))) edx ecx ebx PAGE_TYPE_PHY) s)
          (\<lambda>(r, s). Inr (set_ax (current_thread s) r s))
      else if eax = 5 then
        and_then (with_heap allocPhysicalPage s) (\<lambda>(phy, s).
        and_then (with_heap (open_physical_memory (p_cr3 (procs s (current_proc s))) phy ecx ebx 0) s) (\<lambda>(r, s).
        let s = set_ax (current_thread s) r s
        in if r = -1 then on_heap (recyclePhysicalPage phy) s else Inr s))
      else if eax = 6 then
        let proc = current_proc s
        in and_then (schedule 2 s) (\<lambda>s. Inr (upd_proc proc (\<lambda>p. p\<lparr>p_flag := 0\<rparr>) s))
      else inner_exception_handler 22 (-1) s)"

section \<open>The timer (timer.c)\<close>

definition irq0_handler :: "system \<Rightarrow> kerror + system" where
  "irq0_handler s =
     and_then (enter_critical s) (\<lambda>s.
     let s = upd_proc (current_proc s) (\<lambda>p. p\<lparr>ticks := ticks p - 1\<rparr>) s
     in schedule 0 (leave_critical s))"

definition irq0_handler_bsp :: "u64 \<Rightarrow> system \<Rightarrow> u64 \<times> (kerror + system)" where
  "irq0_handler_bsp wallClock s = (wallClock + 10, irq0_handler s)"

section \<open>What the scheduler chooses\<close>

text \<open>The process table holds the processes \<open>ps\<close>, the first of them at its head node.\<close>

fun table_of_procs :: "node links \<Rightarrow> node \<Rightarrow> u32 list \<Rightarrow> bool" where
  "table_of_procs h table [] = False"
| "table_of_procs h table (p # ps) \<longleftrightarrow> table = Proc_List p \<and> ring h table (map Proc_List ps)"

definition ready :: "process \<Rightarrow> bool" where
  "ready p \<longleftrightarrow> p_flag p = 0"

definition positive :: "u32 \<Rightarrow> bool" where
  "positive x \<longleftrightarrow> 0 < sint x"

text \<open>The process chosen: ready, with ticks left, and the first of those with the most ticks.\<close>

definition is_choice :: "(u32 \<Rightarrow> process) \<Rightarrow> u32 list \<Rightarrow> u32 \<Rightarrow> bool" where
  "is_choice P ps p \<longleftrightarrow> (\<exists>xs ys. ps = xs @ p # ys \<and> ready (P p) \<and> positive (ticks (P p)) \<and>
     (\<forall>q \<in> set xs. ready (P q) \<longrightarrow> sint (ticks (P q)) < sint (ticks (P p))) \<and>
     (\<forall>q \<in> set ys. ready (P q) \<longrightarrow> sint (ticks (P q)) \<le> sint (ticks (P p))))"

definition refilled :: "u32 list \<Rightarrow> (u32 \<Rightarrow> process) \<Rightarrow> u32 \<Rightarrow> process" where
  "refilled ps P = (\<lambda>q. if q \<in> set ps \<and> ready (P q) then (P q)\<lparr>ticks := priority (P q)\<rparr> else P q)"

definition pick_step :: "(u32 \<Rightarrow> process) \<Rightarrow> u32 \<times> u32 option \<Rightarrow> u32 \<Rightarrow> u32 \<times> u32 option" where
  "pick_step P gr p = (if p_flag (P p) = 0 \<and> sint (fst gr) < sint (ticks (P p)) then (ticks (P p), Some p) else gr)"

definition refill_step :: "(u32 \<Rightarrow> process) \<Rightarrow> u32 \<Rightarrow> u32 \<Rightarrow> process" where
  "refill_step P p = (if p_flag (P p) = 0 then P(p := (P p)\<lparr>ticks := priority (P p)\<rparr>) else P)"

lemma pick_ready_linked:
  "linked h (Proc_List p) (map Proc_List qs) table \<Longrightarrow> table \<notin> set (map Proc_List qs) \<Longrightarrow>
    pick_ready P table h (Proc_List p) g r = Some (foldl (pick_step P) (g, r) (p # qs))"
proof (induction qs arbitrary: p g r)
  case Nil
  then show ?case by (subst pick_ready.simps) (simp add: pick_step_def Let_def)
next
  case (Cons q qs)
  then have n: "nxt h (Proc_List p) = Proc_List q" "Proc_List q \<noteq> table" by auto
  have IH: "pick_ready P table h (Proc_List q) g r = Some (foldl (pick_step P) (g, r) (q # qs))" for g r
    using Cons by auto
  show ?case by (subst pick_ready.simps) (simp add: n IH pick_step_def Let_def)
qed

lemma refill_ticks_linked:
  "linked h (Proc_List p) (map Proc_List qs) table \<Longrightarrow> table \<notin> set (map Proc_List qs) \<Longrightarrow>
    refill_ticks table h (Proc_List p) P = Some (foldl refill_step P (p # qs))"
proof (induction qs arbitrary: p P)
  case Nil
  then show ?case by (subst refill_ticks.simps) (simp add: refill_step_def Let_def)
next
  case (Cons q qs)
  then have n: "nxt h (Proc_List p) = Proc_List q" "Proc_List q \<noteq> table" by auto
  have IH: "refill_ticks table h (Proc_List q) P = Some (foldl refill_step P (q # qs))" for P
    using Cons by auto
  show ?case by (subst refill_ticks.simps) (simp add: n IH refill_step_def Let_def)
qed

lemma foldl_refill: "distinct ps \<Longrightarrow> foldl refill_step P ps = refilled ps P"
proof (induction ps arbitrary: P)
  case (Cons p ps)
  then show ?case by (auto simp: refilled_def refill_step_def ready_def fun_eq_iff)
qed (simp add: refilled_def)

lemma pick_choice:
  "foldl (pick_step P) (0, None) ps = (0, None) \<and> (\<forall>q \<in> set ps. ready (P q) \<longrightarrow> \<not> positive (ticks (P q))) \<or>
   (\<exists>p. foldl (pick_step P) (0, None) ps = (ticks (P p), Some p) \<and> is_choice P ps p)"
proof (induction ps rule: rev_induct)
  case (snoc q ps)
  let ?s = "foldl (pick_step P) (0, None) ps"
  have step: "foldl (pick_step P) (0, None) (ps @ [q]) = pick_step P ?s q" by simp
  from snoc consider "?s = (0, None)" "\<forall>q \<in> set ps. ready (P q) \<longrightarrow> \<not> positive (ticks (P q))"
    | p where "?s = (ticks (P p), Some p)" "is_choice P ps p" by blast
  then show ?case
  proof cases
    case 1
    show ?thesis
    proof (cases "ready (P q) \<and> positive (ticks (P q))")
      case True
      have "is_choice P (ps @ [q]) q"
        unfolding is_choice_def using True 1(2) by (intro exI[of _ ps] exI[of _ "[]"]) (auto simp: positive_def)
      then show ?thesis unfolding step using True 1(1) by (simp add: pick_step_def ready_def positive_def)
    next
      case False
      then show ?thesis unfolding step using 1 by (auto simp: pick_step_def ready_def positive_def)
    qed
  next
    case (2 p)
    then obtain xs ys where p: "ps = xs @ p # ys" "ready (P p)" "positive (ticks (P p))"
      "\<forall>q \<in> set xs. ready (P q) \<longrightarrow> sint (ticks (P q)) < sint (ticks (P p))"
      "\<forall>q \<in> set ys. ready (P q) \<longrightarrow> sint (ticks (P q)) \<le> sint (ticks (P p))"
      unfolding is_choice_def by blast
    show ?thesis
    proof (cases "ready (P q) \<and> sint (ticks (P p)) < sint (ticks (P q))")
      case True
      have "is_choice P (ps @ [q]) q"
        unfolding is_choice_def using True p by (intro exI[of _ ps] exI[of _ "[]"]) (fastforce simp: positive_def)
      then show ?thesis unfolding step using True 2(1) by (simp add: pick_step_def ready_def)
    next
      case False
      have "is_choice P (ps @ [q]) p"
        unfolding is_choice_def using False p by (intro exI[of _ xs] exI[of _ "ys @ [q]"]) auto
      then show ?thesis unfolding step using False 2(1) by (auto simp: pick_step_def ready_def)
    qed
  qed
qed simp

lemma table_pass:
  assumes "table_of_procs h table ps"
  shows "pick_ready P table h table g r = Some (foldl (pick_step P) (g, r) ps)"
    "refill_ticks table h table P = Some (refilled ps P)"
proof -
  obtain p qs where ps: "ps = p # qs" "table = Proc_List p" "ring h table (map Proc_List qs)"
    using assms by (cases ps) auto
  then have l: "linked h (Proc_List p) (map Proc_List qs) table" "table \<notin> set (map Proc_List qs)"
    and d: "distinct (p # qs)" by (auto simp: ring_def distinct_map)
  show "pick_ready P table h table g r = Some (foldl (pick_step P) (g, r) ps)"
    using pick_ready_linked[OF l] ps by simp
  show "refill_ticks table h table P = Some (refilled ps P)"
    using refill_ticks_linked[OF l] foldl_refill[OF d] ps by simp
qed

definition can_run :: "process \<Rightarrow> bool" where
  "can_run p \<longleftrightarrow> ready p \<and> (positive (ticks p) \<or> positive (priority p))"

definition next_round :: "u32 list \<Rightarrow> (u32 \<Rightarrow> process) \<Rightarrow> u32 \<Rightarrow> process" where
  "next_round ps P = (if \<exists>q \<in> set ps. ready (P q) \<and> positive (ticks (P q)) then P else refilled ps P)"

lemma choiceD: "is_choice P ps p \<Longrightarrow> p \<in> set ps \<and> ready (P p) \<and> positive (ticks (P p))"
  by (auto simp: is_choice_def)

lemma schedule_loop_round:
  assumes "table_of_procs h table ps" "\<exists>q \<in> set ps. ready (P q) \<and> positive (ticks (P q))"
  shows "\<exists>p. is_choice P ps p \<and> schedule_loop table h 0 P = Some (p, P)"
  using pick_choice[of P ps] assms(2) table_pass(1)[OF assms(1), of P 0 None]
  by (subst schedule_loop.simps) auto

lemma schedule_loop_again:
  assumes "table_of_procs h table ps" "\<not> (\<exists>q \<in> set ps. ready (P q) \<and> positive (ticks (P q)))"
  shows "schedule_loop table h 0 P = schedule_loop table h 0 (refilled ps P)"
proof -
  have "foldl (pick_step P) (0, None) ps = (0, None)"
    using pick_choice[of P ps] assms(2) choiceD by blast
  then show ?thesis using table_pass[OF assms(1), of P] by (subst schedule_loop.simps) simp
qed

lemma schedule_loop_ok:
  assumes "table_of_procs h table ps" "\<exists>q \<in> set ps. can_run (P q)"
  shows "\<exists>p. is_choice (next_round ps P) ps p \<and> schedule_loop table h 0 P = Some (p, next_round ps P)"
proof (cases "\<exists>q \<in> set ps. ready (P q) \<and> positive (ticks (P q))")
  case True
  then show ?thesis using schedule_loop_round[OF assms(1) True] by (simp add: next_round_def)
next
  case False
  then obtain q where q: "q \<in> set ps" "ready (P q)" "positive (priority (P q))"
    using assms(2) by (auto simp: can_run_def)
  then have "\<exists>q \<in> set ps. ready (refilled ps P q) \<and> positive (ticks (refilled ps P q))"
    by (intro bexI[of _ q]) (auto simp: refilled_def ready_def)
  from schedule_loop_round[OF assms(1) this] schedule_loop_again[OF assms(1) False]
  show ?thesis unfolding next_round_def if_not_P[OF False] by simp
qed

lemma schedule_loop_spins:
  assumes t: "table_of_procs h table ps" and stuck: "\<not> (\<exists>q \<in> set ps. can_run (P q))"
  shows "schedule_loop table h 0 P = None"
proof -
  let ?Q = "\<lambda>table' h' g P' y. \<not> (table' = table \<and> h' = h \<and> g = 0 \<and> \<not> (\<exists>q \<in> set ps. can_run (P' q)))"
  have "?Q table' h' g P' y" if "schedule_loop table' h' g P' = Some y" for table' h' g P' y
    using _ that
  proof (rule schedule_loop.raw_induct[where P = ?Q])
    fix f table' h' g P' y
    assume IH: "\<And>t h g b y. f t h g b = Some y \<Longrightarrow> ?Q t h g b y"
      and body: "(case pick_ready P' table' h' table' g None of None \<Rightarrow> None
        | Some (greatest, Some p) \<Rightarrow> Some (p, P')
        | Some (greatest, None) \<Rightarrow> (case refill_ticks table' h' table' P' of None \<Rightarrow> None
            | Some ps \<Rightarrow> f table' h' greatest ps)) = Some y"
    show "?Q table' h' g P' y"
    proof
      assume a: "table' = table \<and> h' = h \<and> g = 0 \<and> \<not> (\<exists>q \<in> set ps. can_run (P' q))"
      then have "\<not> (\<exists>q \<in> set ps. ready (P' q) \<and> positive (ticks (P' q)))" by (auto simp: can_run_def)
      then have "foldl (pick_step P') (0, None) ps = (0, None)"
        using pick_choice[of P' ps] choiceD by blast
      then have "f table h 0 (refilled ps P') = Some y"
        using body a table_pass[OF t, of P'] by simp
      from IH[OF this] have "\<exists>q \<in> set ps. can_run (refilled ps P' q)" by blast
      then show False using a by (auto simp: refilled_def can_run_def ready_def split: if_splits)
    qed
  qed
  then show ?thesis using stuck by (cases "schedule_loop table h 0 P") blast+
qed

lemma critical [simp]:
  "scheduleLock s = 0 \<Longrightarrow> enter_critical s = Inr (s\<lparr>scheduleLock := 1\<rparr>)"
  "leave_critical s = s\<lparr>scheduleLock := 0\<rparr>"
  by (simp_all add: enter_critical_def leave_critical_def)

definition with_flag :: "u32 \<Rightarrow> system \<Rightarrow> u32 \<Rightarrow> process" where
  "with_flag flag s = (procs s)(current_proc s := (procs s (current_proc s))\<lparr>p_flag := flag\<rparr>)"

text \<open>
  The state after the switch to \<open>p\<close>: the entry of the directory that maps the kernel's own page
  is carried over, so that this processor keeps its \<^verbatim>\<open>KernelPage\<close>.
\<close>

definition switched :: "u32 \<Rightarrow> (u32 \<Rightarrow> process) \<Rightarrow> system \<Rightarrow> system" where
  "switched p P s = s\<lparr>procs := P(p := (P p)\<lparr>p_flag := 2\<rparr>), current_proc := p,
     heap := store_entry (pa2va (p_cr3 (P p))) (va2pde PAGE_OFFSET)
       (load_entry (pa2va (p_cr3 (procs s (current_proc s)))) (va2pde PAGE_OFFSET) (heap s)) (heap s),
     current_thread := p_current (P p), esp0 := p_current (P p) + 0x1000\<rparr>"

lemma switched_simps [simp]:
  "procs (switched p P s) = P(p := (P p)\<lparr>p_flag := 2\<rparr>)" "current_proc (switched p P s) = p"
  "current_thread (switched p P s) = p_current (P p)" "lists (switched p P s) = lists s"
  "processTable (switched p P s) = processTable s" "scheduleLock (switched p P s) = scheduleLock s"
  "threads (switched p P s) = threads s"
  by (simp_all add: switched_def)

lemma schedule_eq:
  assumes "scheduleLock s = 0"
  shows "schedule flag s = (case schedule_loop (processTable s) (lists s) 0 (with_flag flag s) of
     None \<Rightarrow> Inl Spin | Some (p, P) \<Rightarrow> Inr (switched p P s))"
  using assms by (auto simp: schedule_def with_flag_def switched_def upd_proc_def Let_def split: option.splits)

lemma schedule_ok:
  assumes l: "scheduleLock s = 0" and t: "table_of_procs (lists s) (processTable s) ps"
  shows "\<exists>q \<in> set ps. can_run (with_flag flag s q) \<Longrightarrow>
      \<exists>p. is_choice (next_round ps (with_flag flag s)) ps p \<and>
        schedule flag s = Inr (switched p (next_round ps (with_flag flag s)) s)"
    and "\<not> (\<exists>q \<in> set ps. can_run (with_flag flag s q)) \<Longrightarrow> schedule flag s = Inl Spin"
  using schedule_loop_ok[OF t, of "with_flag flag s"] schedule_loop_spins[OF t, of "with_flag flag s"]
  unfolding schedule_eq[OF l] by auto

section \<open>The timer gives every ready process its turn\<close>

fun timer_run :: "nat \<Rightarrow> system \<Rightarrow> kerror + system" where
  "timer_run 0 s = Inr s"
| "timer_run (Suc n) s = and_then (irq0_handler s) (timer_run n)"

definition tick_total :: "u32 list \<Rightarrow> system \<Rightarrow> nat" where
  "tick_total ps s = (\<Sum>p \<in> set ps. nat (sint (ticks (procs s p))))"

lemma sint_dec: "positive t \<Longrightarrow> sint (t - 1) = sint t - 1"
proof -
  assume "positive t"
  then have "- (2 ^ 31) \<le> sint t - 1" "sint t - 1 < 2 ^ 31"
    using sint_lt[of t] by (auto simp: positive_def)
  then have "sint (word_of_int (sint t - 1) :: u32) = sint t - 1" by (rule sint_word_of_int_small)
  moreover have "word_of_int (sint t - 1) = t - 1" by simp
  ultimately show ?thesis by simp
qed

definition ticked :: "system \<Rightarrow> u32 \<Rightarrow> process" where
  "ticked s = (procs s)(current_proc s :=
     (procs s (current_proc s))\<lparr>p_flag := 0, ticks := ticks (procs s (current_proc s)) - 1\<rparr>)"

lemma irq0_ok:
  assumes l: "scheduleLock s = 0" and t: "table_of_procs (lists s) (processTable s) ps"
    and q: "q \<in> set ps" "q \<noteq> current_proc s" "ready (procs s q)" "positive (ticks (procs s q))"
  obtains p s' where "irq0_handler s = Inr s'" "current_proc s' = p" "is_choice (ticked s) ps p"
    "procs s' = (ticked s)(p := (ticked s p)\<lparr>p_flag := 2\<rparr>)"
    "lists s' = lists s" "processTable s' = processTable s" "scheduleLock s' = 0"
proof -
  let ?s = "(upd_proc (current_proc s) (\<lambda>p. p\<lparr>ticks := ticks p - 1\<rparr>) s)\<lparr>scheduleLock := 0\<rparr>"
  have w: "with_flag 0 ?s = ticked s" by (auto simp: with_flag_def ticked_def upd_proc_def)
  have run: "ready (ticked s q) \<and> positive (ticks (ticked s q))" using q by (simp add: ticked_def)
  then have ex: "\<exists>q \<in> set ps. can_run (with_flag 0 ?s q)" unfolding w using q(1) by (auto simp: can_run_def)
  have nr: "next_round ps (ticked s) = ticked s" using run q(1) by (auto simp: next_round_def)
  have irq: "irq0_handler s = schedule 0 ?s"
    using l by (simp add: irq0_handler_def upd_proc_def Let_def)
  obtain p where p: "is_choice (ticked s) ps p" "schedule 0 ?s = Inr (switched p (ticked s) ?s)"
    using schedule_ok(1)[of ?s ps 0] t ex nr w by (auto simp: upd_proc_def)
  show ?thesis
    by (rule that[of "switched p (ticked s) ?s" p]) (use irq p in \<open>simp_all add: upd_proc_def\<close>)
qed

lemma tick_total_less:
  assumes "current_proc s \<in> set ps" "positive (ticks (procs s (current_proc s)))"
    and "procs s' = (ticked s)(p := (ticked s p)\<lparr>p_flag := 2\<rparr>)"
  shows "tick_total ps s' < tick_total ps s"
proof -
  have same: "ticks (procs s' x) = ticks (ticked s x)" for x using assms(3) by simp
  let ?c = "current_proc s"
  have "nat (sint (ticks (procs s' x))) \<le> nat (sint (ticks (procs s x)))" for x
    unfolding same using sint_dec[OF assms(2)] by (auto simp: ticked_def)
  moreover have "nat (sint (ticks (procs s' ?c))) < nat (sint (ticks (procs s ?c)))"
    unfolding same using sint_dec[OF assms(2)] assms(2) by (simp add: ticked_def positive_def)
  ultimately show ?thesis unfolding tick_total_def by (intro sum_strict_mono_ex1) (use assms(1) in auto)
qed

lemma timer_reaches:
  assumes "scheduleLock s = 0" "table_of_procs (lists s) (processTable s) ps" "current_proc s \<in> set ps"
    and "positive (ticks (procs s (current_proc s)))"
    and "q \<in> set ps" "q = current_proc s \<or> ready (procs s q)" "positive (ticks (procs s q))"
  shows "\<exists>n s'. n \<le> tick_total ps s \<and> timer_run n s = Inr s' \<and> current_proc s' = q \<and>
    p_flag (procs s' q) = (if n = 0 then p_flag (procs s q) else 2)"
  using assms
proof (induction "tick_total ps s" arbitrary: s rule: less_induct)
  case less
  note l = less.prems(1) and t = less.prems(2) and c = less.prems(3,4) and q = less.prems(5-7)
  show ?case
  proof (cases "q = current_proc s")
    case True
    then show ?thesis by (intro exI[of _ 0] exI[of _ s]) simp
  next
    case False
    then have r: "ready (procs s q)" using q(2) by simp
    obtain p s1 where 1: "irq0_handler s = Inr s1" "current_proc s1 = p" "is_choice (ticked s) ps p"
      "procs s1 = (ticked s)(p := (ticked s p)\<lparr>p_flag := 2\<rparr>)"
      "lists s1 = lists s" "processTable s1 = processTable s" "scheduleLock s1 = 0"
      using irq0_ok[OF l t q(1) False r q(3)] .
    have less1: "tick_total ps s1 < tick_total ps s" by (rule tick_total_less[OF c 1(4)])
    have tq: "ticked s q = procs s q" using False by (simp add: ticked_def)
    show ?thesis
    proof (cases "p = q")
      case True
      then show ?thesis using 1 less1 by (intro exI[of _ 1] exI[of _ s1]) simp
    next
      case False
      have cp: "current_proc s1 \<in> set ps" "positive (ticks (procs s1 (current_proc s1)))"
        using choiceD[OF 1(3)] 1(2,4) by simp_all
      have qp: "q = current_proc s1 \<or> ready (procs s1 q)" "positive (ticks (procs s1 q))"
        using False r q(3) tq 1(4) by simp_all
      obtain n s' where "n \<le> tick_total ps s1" "timer_run n s1 = Inr s'" "current_proc s' = q"
          "p_flag (procs s' q) = (if n = 0 then p_flag (procs s1 q) else 2)"
        using less.hyps[OF less1 1(7) _ cp q(1) qp] t 1(5,6) by auto
      moreover have "n \<noteq> 0"
      proof
        assume "n = 0"
        then have "current_proc s1 = q" using \<open>timer_run n s1 = Inr s'\<close> \<open>current_proc s' = q\<close> by simp
        then show False using False 1(2) by simp
      qed
      ultimately show ?thesis using 1(1) less1 by (intro exI[of _ "Suc n"] exI[of _ s']) simp
    qed
  qed
qed

lemma sint_dec_le:
  fixes t :: u32
  assumes "sint t \<noteq> - (2 ^ 31)"
  shows "nat (sint (t - 1)) + (if positive t then 1 else 0) = nat (sint t)"
proof -
  have "- (2 ^ 31) \<le> sint t" "sint t < 2 ^ 31" using sint_ge[of t] sint_lt[of t] by auto
  then have "- (2 ^ 31) \<le> sint t - 1" "sint t - 1 < 2 ^ 31" using assms by auto
  then have "sint (word_of_int (sint t - 1) :: u32) = sint t - 1" by (rule sint_word_of_int_small)
  moreover have "word_of_int (sint t - 1) = t - 1" by simp
  ultimately have "sint (t - 1) = sint t - 1" by simp
  then show ?thesis by (simp add: positive_def Suc_nat_eq_nat_zadd1)
qed

definition priority_total :: "u32 list \<Rightarrow> system \<Rightarrow> nat" where
  "priority_total ps s = (\<Sum>p \<in> set ps. nat (sint (priority (procs s p))))"

lemma sum_one_less:
  fixes f g :: "'n \<Rightarrow> nat"
  assumes "finite A" "c \<in> A" "\<And>x. x \<in> A \<Longrightarrow> g x \<le> f x" "g c + k \<le> f c"
  shows "sum g A + k \<le> sum f A"
proof -
  have "sum g (A - {c}) \<le> sum f (A - {c})" by (rule sum_mono) (use assms(3) in auto)
  then show ?thesis using assms(1,2,4) by (simp add: sum.remove)
qed

text \<open>One timer interrupt: either some process still had ticks, or all are given theirs back.\<close>

lemma irq0_round:
  assumes l: "scheduleLock s = 0" and t: "table_of_procs (lists s) (processTable s) ps" and c: "current_proc s \<in> set ps"
    and b: "sint (ticks (procs s (current_proc s))) \<noteq> - (2 ^ 31)"
    and q: "q \<in> set ps" "q \<noteq> current_proc s" "can_run (procs s q)"
  obtains s1 where "irq0_handler s = Inr s1" "scheduleLock s1 = 0" "table_of_procs (lists s1) (processTable s1) ps"
    "current_proc s1 \<in> set ps" "positive (ticks (procs s1 (current_proc s1)))" "p_flag (procs s1 (current_proc s1)) = 2"
    "priority_total ps s1 = priority_total ps s"
    "q = current_proc s1 \<or> can_run (procs s1 q)"
    "tick_total ps s1 + (if positive (ticks (procs s (current_proc s))) then 1 else 0) \<le> tick_total ps s \<or>
     positive (ticks (procs s1 q)) \<and>
     tick_total ps s1 + (if positive (ticks (procs s (current_proc s))) then 1 else 0) \<le> tick_total ps s + priority_total ps s"
proof -
  let ?c = "current_proc s"
  let ?k = "if positive (ticks (procs s ?c)) then 1 else 0 :: nat"
  let ?s = "(upd_proc ?c (\<lambda>p. p\<lparr>ticks := ticks p - 1\<rparr>) s)\<lparr>scheduleLock := 0\<rparr>"
  have w: "with_flag 0 ?s = ticked s" by (auto simp: with_flag_def ticked_def upd_proc_def)
  have tq: "ticked s q = procs s q" using q(2) by (simp add: ticked_def)
  have ex: "\<exists>q \<in> set ps. can_run (with_flag 0 ?s q)" unfolding w using q(1,3) tq by (intro bexI[of _ q]) simp_all
  have irq: "irq0_handler s = schedule 0 ?s" using l by (simp add: irq0_handler_def upd_proc_def Let_def)
  let ?P = "next_round ps (ticked s)"
  obtain p where p: "is_choice ?P ps p" "schedule 0 ?s = Inr (switched p ?P ?s)"
    using schedule_ok(1)[of ?s ps 0] t ex w by (auto simp: upd_proc_def)
  let ?s1 = "switched p ?P ?s"
  have pr: "procs ?s1 x = (if x = p then (?P p)\<lparr>p_flag := 2\<rparr> else ?P x)" for x by simp
  have tk: "ticks (procs ?s1 x) = ticks (?P x)" "priority (procs ?s1 x) = priority (?P x)" for x by simp_all
  have prio: "priority (?P x) = priority (procs s x)" for x
    by (simp add: next_round_def refilled_def ticked_def)
  have run: "p = q \<or> can_run (?P q)"
    using q(1,3) tq by (auto simp: next_round_def refilled_def can_run_def ready_def)
  have tot: "tick_total ps ?s1 = (\<Sum>x \<in> set ps. nat (sint (ticks (?P x))))" unfolding tick_total_def tk ..
  have cur: "nat (sint (ticks (ticked s ?c))) + ?k = nat (sint (ticks (procs s ?c)))"
    using sint_dec_le[OF b] by (simp add: ticked_def)
  have le: "nat (sint (ticks (ticked s x))) \<le> nat (sint (ticks (procs s x)))" for x
    using cur by (cases "x = ?c") (simp_all add: ticked_def)
  have "tick_total ps ?s1 + ?k \<le> tick_total ps s \<or>
     positive (ticks (procs ?s1 q)) \<and> tick_total ps ?s1 + ?k \<le> tick_total ps s + priority_total ps s"
  proof (cases "\<exists>q \<in> set ps. ready (ticked s q) \<and> positive (ticks (ticked s q))")
    case True
    then have n: "?P = ticked s" by (simp add: next_round_def)
    have "tick_total ps ?s1 + ?k \<le> tick_total ps s"
      unfolding tot n tick_total_def by (rule sum_one_less[OF _ c]) (use le cur in auto)
    then show ?thesis by blast
  next
    case False
    then have n: "?P = refilled ps (ticked s)" unfolding next_round_def by (rule if_not_P)
    have "ready (procs s q)" "\<not> positive (ticks (procs s q))" using q tq False by (auto simp: can_run_def)
    then have "positive (priority (procs s q))" "ticks (?P q) = priority (procs s q)"
      using q(1,3) tq by (auto simp: can_run_def n refilled_def)
    then have "positive (ticks (procs ?s1 q))" unfolding tk by simp
    moreover have "tick_total ps ?s1 + ?k \<le> (\<Sum>x \<in> set ps. nat (sint (ticks (procs s x))) + nat (sint (priority (procs s x))))"
      unfolding tot
    proof (rule sum_one_less[OF _ c])
      show "nat (sint (ticks (?P x))) \<le> nat (sint (ticks (procs s x))) + nat (sint (priority (procs s x)))" if "x \<in> set ps" for x
      proof -
        have "ticks (?P x) = (if ready (ticked s x) then priority (procs s x) else ticks (ticked s x))"
          unfolding n refilled_def using that by (simp add: ticked_def)
        then show ?thesis using le[of x] by simp
      qed
      have "ticks (?P ?c) = priority (procs s ?c)" unfolding n refilled_def using c by (simp add: ticked_def ready_def)
      then show "nat (sint (ticks (?P ?c))) + ?k \<le> nat (sint (ticks (procs s ?c))) + nat (sint (priority (procs s ?c)))"
        using cur by simp
    qed simp
    then have "tick_total ps ?s1 + ?k \<le> tick_total ps s + priority_total ps s"
      unfolding tick_total_def[of ps s] priority_total_def sum.distrib .
    ultimately show ?thesis by blast
  qed
  note dec = this
  have irq1: "irq0_handler s = Inr ?s1" using irq p(2) by simp
  have same: "scheduleLock ?s1 = 0" "lists ?s1 = lists s" "processTable ?s1 = processTable s" "current_proc ?s1 = p"
    by (simp_all add: upd_proc_def)
  have ch: "p \<in> set ps" "positive (ticks (?P p))" using choiceD[OF p(1)] by blast+
  have cp: "current_proc ?s1 \<in> set ps" "positive (ticks (procs ?s1 (current_proc ?s1)))" "p_flag (procs ?s1 (current_proc ?s1)) = 2"
    unfolding same using ch by simp_all
  have pt: "priority_total ps ?s1 = priority_total ps s" unfolding priority_total_def tk prio ..
  have qr: "q = current_proc ?s1 \<or> can_run (procs ?s1 q)" unfolding same using run by auto
  show ?thesis by (rule that[OF irq1 same(1) _ cp pt qr dec]) (use t same in simp)
qed

lemma timer_reaches_all:
  assumes "scheduleLock s = 0" "table_of_procs (lists s) (processTable s) ps" "current_proc s \<in> set ps"
    and "positive (ticks (procs s (current_proc s)))"
    and "q \<in> set ps" "q = current_proc s \<or> can_run (procs s q)"
  shows "\<exists>n s'. n \<le> tick_total ps s + priority_total ps s \<and> timer_run n s = Inr s' \<and> current_proc s' = q \<and>
    p_flag (procs s' q) = (if n = 0 then p_flag (procs s q) else 2)"
  using assms
proof (induction "tick_total ps s" arbitrary: s rule: less_induct)
  case less
  note l = less.prems(1) and t = less.prems(2) and c = less.prems(3,4) and q = less.prems(5,6)
  show ?case
  proof (cases "q = current_proc s")
    case True
    then show ?thesis by (intro exI[of _ 0] exI[of _ s]) simp
  next
    case False
    then have r: "can_run (procs s q)" using q(2) by simp
    have b: "sint (ticks (procs s (current_proc s))) \<noteq> - (2 ^ 31)" using c(2) by (simp add: positive_def)
    obtain s1 where 1: "irq0_handler s = Inr s1" "scheduleLock s1 = 0" "table_of_procs (lists s1) (processTable s1) ps"
      "current_proc s1 \<in> set ps" "positive (ticks (procs s1 (current_proc s1)))" "p_flag (procs s1 (current_proc s1)) = 2"
      "priority_total ps s1 = priority_total ps s" "q = current_proc s1 \<or> can_run (procs s1 q)"
      "tick_total ps s1 + (if positive (ticks (procs s (current_proc s))) then 1 else 0) \<le> tick_total ps s \<or>
       positive (ticks (procs s1 q)) \<and>
       tick_total ps s1 + (if positive (ticks (procs s (current_proc s))) then 1 else 0) \<le> tick_total ps s + priority_total ps s"
      by (rule irq0_round[OF l t c(1) b q(1) False r])
    have d: "tick_total ps s1 < tick_total ps s \<or>
       positive (ticks (procs s1 q)) \<and> tick_total ps s1 < tick_total ps s + priority_total ps s"
      using 1(9) c(2) by auto
    have "\<exists>n s'. n < tick_total ps s + priority_total ps s \<and> timer_run n s1 = Inr s' \<and> current_proc s' = q \<and>
        p_flag (procs s' q) = (if n = 0 then p_flag (procs s1 q) else 2)"
      using d
    proof
      assume less1: "tick_total ps s1 < tick_total ps s"
      from less.hyps[OF less1 1(2-5) q(1) 1(8)] show ?thesis using less1 1(7) by (metis add_less_le_mono order.refl order_le_less_trans)
    next
      assume p: "positive (ticks (procs s1 q)) \<and> tick_total ps s1 < tick_total ps s + priority_total ps s"
      have "q = current_proc s1 \<or> ready (procs s1 q)" using 1(8) by (auto simp: can_run_def)
      from timer_reaches[OF 1(2-5) q(1) this] p show ?thesis using order_le_less_trans by blast
    qed
    then obtain n s' where n: "n < tick_total ps s + priority_total ps s" "timer_run n s1 = Inr s'" "current_proc s' = q"
        "p_flag (procs s' q) = (if n = 0 then p_flag (procs s1 q) else 2)" by blast
    moreover have "p_flag (procs s' q) = 2" using n 1(6) by (cases n) auto
    ultimately show ?thesis using 1(1) by (intro exI[of _ "Suc n"] exI[of _ s']) simp
  qed
qed

section \<open>Identifiers\<close>

text \<open>A list of nodes in increasing order of their identifiers.\<close>

definition in_order :: "('n \<Rightarrow> u32) \<Rightarrow> 'n list \<Rightarrow> bool" where
  "in_order ident xs \<longleftrightarrow> sorted_wrt (<) (map ident xs)"

text \<open>
  What both users of the search rely on: the identifier found is not in use, all smaller ones
  from the start on are, and the place found keeps the order.
\<close>

definition gap_at :: "('n \<Rightarrow> u32) \<Rightarrow> u32 \<Rightarrow> 'n list \<Rightarrow> 'n list \<Rightarrow> u32 \<Rightarrow> bool" where
  "gap_at ident n us vs i \<longleftrightarrow> map ident us = map (\<lambda>k. n + of_nat k) [0..<length us] \<and>
     i = n + of_nat (length us) \<and> unat i = unat n + length us \<and> (\<forall>v \<in> set vs. i < ident v)"

lemma gap_at_facts:
  assumes g: "gap_at ident n us vs i" and o: "in_order ident (us @ vs)"
  shows "i \<notin> ident ` set (us @ vs)" "\<And>k. n \<le> k \<Longrightarrow> k < i \<Longrightarrow> k \<in> ident ` set us" "n \<le> i"
    "\<And>u. u \<in> set us \<Longrightarrow> ident u < i" "\<And>v. v \<in> set vs \<Longrightarrow> i < ident v"
proof -
  have ui: "unat i = unat n + length us" using g unfolding gap_at_def by blast
  have gm: "ident (us ! k) = n + of_nat k" if "k < length us" for k
  proof -
    have "map ident us ! k = map (\<lambda>k. n + of_nat k) [0..<length us] ! k"
      using g unfolding gap_at_def by (elim conjE) (rule arg_cong[where f = "\<lambda>l. l ! k"])
    then show ?thesis using that by simp
  qed
  have un: "unat (n + of_nat k) = unat n + k" if "k < length us" for k
  proof -
    have "unat n + k < 2 ^ 32" using ui that unsigned_less[of i, where ?'a = nat] by simp
    moreover have "unat (of_nat k :: u32) = k" using calculation by (intro unat_of_nat_small) simp
    ultimately show ?thesis using unat_plus_small[of n "of_nat k"] by (simp only: len_of_numeral_defs) simp
  qed
  show lt: "ident u < i" if u: "u \<in> set us" for u
  proof -
    obtain k where k: "k < length us" "u = us ! k" using u by (metis in_set_conv_nth)
    then have "ident u = n + of_nat k" using gm by simp
    then show ?thesis using un[OF k(1)] ui k(1) by (simp add: word_less_nat_alt)
  qed
  show gt: "i < ident v" if "v \<in> set vs" for v using g that unfolding gap_at_def by blast
  show "i \<notin> ident ` set (us @ vs)" using lt gt by fastforce
  show "n \<le> i" using ui by (simp add: word_le_nat_alt)
  show "k \<in> ident ` set us" if "n \<le> k" "k < i" for k
  proof -
    let ?j = "unat k - unat n"
    have j: "?j < length us" using that ui by (auto simp: word_le_nat_alt word_less_nat_alt)
    then have "ident (us ! ?j) = n + of_nat ?j" by (rule gm)
    moreover have "n + of_nat ?j = k" using that(1) by (simp add: word_unat_eq_iff un[OF j] word_le_nat_alt)
    ultimately show ?thesis using j nth_mem by (metis image_eqI)
  qed
qed

lemma gap_at_insert:
  assumes "gap_at ident n us vs i" "in_order ident (us @ vs)" "ident x = i"
  shows "in_order ident (us @ x # vs)"
  using gap_at_facts(4,5)[OF assms(1,2)] assms(2,3) by (auto simp: in_order_def sorted_wrt_append)

lemma first_gap_linked:
  assumes "linked h e es head" "head \<notin> set (e # es)" "in_order ident (e # es)" "n \<le> ident e"
    and "unat n + length (e # es) < 2 ^ 32"
  shows "\<exists>us vs i. e # es = us @ vs \<and> first_gap ident e head h n = Some (hd (vs @ [head]), i) \<and>
    gap_at ident n us vs i"
  using assms
proof (induction es arbitrary: e n)
  case Nil
  then have h: "nxt h e = head" "e \<noteq> head" by auto
  show ?case
  proof (cases "ident e = n")
    case True
    have "first_gap ident e head h n = Some (head, n + 1)"
      using True h by (subst first_gap.simps) (simp, subst first_gap.simps, simp)
    moreover have "gap_at ident n [e] [] (n + 1)"
      using True Nil.prems(5) by (simp add: gap_at_def unat_plus_small)
    ultimately show ?thesis by (intro exI[of _ "[e]"] exI[of _ "[]"]) simp
  next
    case False
    then have "first_gap ident e head h n = Some (e, n)" using h by (subst first_gap.simps) simp
    moreover have "gap_at ident n [] [e] n" using False Nil.prems(4) by (simp add: gap_at_def)
    ultimately show ?thesis by (intro exI[of _ "[]"] exI[of _ "[e]"]) simp
  qed
next
  case (Cons f es)
  then have h: "nxt h e = f" "e \<noteq> head" by auto
  show ?case
  proof (cases "ident e = n")
    case True
    have step: "first_gap ident e head h n = first_gap ident f head h (n + 1)"
      using True h by (subst first_gap.simps) simp
    have un: "unat (n + 1) = unat n + 1" using Cons.prems(5) by (simp add: unat_plus_small)
    have "ident e < ident f" using Cons.prems(3) by (simp add: in_order_def)
    then have le: "n + 1 \<le> ident f" using True un by (simp add: word_le_nat_alt word_less_nat_alt)
    obtain us vs i where IH: "f # es = us @ vs" "first_gap ident f head h (n + 1) = Some (hd (vs @ [head]), i)"
        "gap_at ident (n + 1) us vs i"
      using Cons.IH[of f "n + 1"] Cons.prems un le by (auto simp: in_order_def)
    have "gap_at ident n (e # us) vs i"
      using IH(3) True un unfolding gap_at_def by (auto simp: upt_conv_Cons map_Suc_upt[symmetric] comp_def algebra_simps simp del: upt_Suc)
    then show ?thesis using step IH(1,2) by (intro exI[of _ "e # us"] exI[of _ vs]) simp
  next
    case False
    then have "first_gap ident e head h n = Some (e, n)" using h by (subst first_gap.simps) simp
    moreover have "gap_at ident n [] (e # f # es) n"
    proof -
      have "n < ident e" using False Cons.prems(4) by simp
      moreover have "ident e < ident x" if "x \<in> set (f # es)" for x
        using Cons.prems(3) that by (auto simp: in_order_def)
      ultimately show ?thesis by (fastforce simp: gap_at_def)
    qed
    ultimately show ?thesis by (intro exI[of _ "[]"] exI[of _ "e # f # es"]) simp
  qed
qed

lemma first_gap_ring:
  assumes r: "ring h head xs" and o: "in_order ident xs" and n: "\<And>x. x \<in> set xs \<Longrightarrow> n \<le> ident x"
    and len: "unat n + length xs < 2 ^ 32"
  obtains us vs i where "xs = us @ vs" "first_gap ident (nxt h head) head h n = Some (hd (vs @ [head]), i)"
    "gap_at ident n us vs i"
proof (cases xs)
  case Nil
  have "first_gap ident (nxt h head) head h n = Some (head, n)"
    using ring_head_next[OF r] Nil by (subst first_gap.simps) simp
  then show ?thesis using that[of "[]" "[]" n] Nil by (simp add: gap_at_def)
next
  case (Cons e es)
  then have "linked h e es head" "head \<notin> set (e # es)" "nxt h head = e" using r by (auto simp: ring_def)
  then show ?thesis using first_gap_linked[of h e es head ident n] that o n len Cons by fastforce
qed

section \<open>The threads of a process\<close>

text \<open>
  The thread list of a process, in order of the thread identifiers, and the two counters that
  go with it: \<^verbatim>\<open>avl_thread\<close> threads are runnable and \<^verbatim>\<open>receiving\<close> threads wait for a message.
\<close>

definition in_state :: "system \<Rightarrow> u32 \<Rightarrow> u32 list \<Rightarrow> nat" where
  "in_state s k ts = length (filter (\<lambda>t. t_flag (threads s t) = k) ts)"

definition threads_ok :: "system \<Rightarrow> u32 \<Rightarrow> u32 list \<Rightarrow> bool" where
  "threads_ok s p ts \<longleftrightarrow> ring (lists s) (Thread_Head p) (map Thread_List ts) \<and>
     (\<forall>t \<in> set ts. t_process (threads s t) = p) \<and> in_order (\<lambda>t. threadID (threads s t)) ts \<and>
     unat (avl_thread (procs s p)) = in_state s 0 ts \<and> unat (receiving (procs s p)) = in_state s 2 ts"

lemma in_state_same:
  "(\<And>t. t \<in> set ts \<Longrightarrow> t_flag (threads s' t) = t_flag (threads s t)) \<Longrightarrow> in_state s' k ts = in_state s k ts"
  unfolding in_state_def by (intro arg_cong[where f = length] filter_cong) auto

lemma in_state_simps [simp]:
  "in_state s k [] = 0"
  "in_state s k (t # ts) = (if t_flag (threads s t) = k then 1 else 0) + in_state s k ts"
  "in_state s k (us @ vs) = in_state s k us + in_state s k vs"
  by (simp_all add: in_state_def)

lemma in_state_le: "in_state s k ts \<le> length ts"
  by (simp add: in_state_def)

text \<open>The insertion before the place \<^const>\<open>first_gap\<close> returns.\<close>

lemma ring_insert_gap:
  assumes "ring h head (us @ vs)" "n \<notin> set (head # us @ vs)"
  shows "ring (list_add_tail n (hd (vs @ [head])) h) head (us @ n # vs)"
  using assms ring_insert_before[of h head us] ring_add_tail[of h head us n] by (cases vs) auto

lemma ring_insert_gap_other:
  assumes "ring h c zs" "ring h a (us @ vs)" "set (c # zs) \<inter> set (n # a # us @ vs) = {}"
  shows "ring (list_add_tail n (hd (vs @ [a])) h) c zs"
proof -
  have p: "prv h (hd (vs @ [a])) \<in> set (a # us @ vs)"
  proof (cases vs)
    case Nil
    then have "prv h (hd (vs @ [a])) = last (a # us)" using ring_head_prev[of h a us] assms(2) by simp
    then show ?thesis using last_in_set[of "a # us"] by auto
  next
    case (Cons v vs')
    then have "prv h (hd (vs @ [a])) = last (a # us)" using ring_prev[of h a us v vs'] assms(2) by simp
    then show ?thesis using last_in_set[of "a # us"] by auto
  qed
  have "hd (vs @ [a]) \<in> set (a # us @ vs)" by (cases vs) auto
  with p show ?thesis unfolding list_add_tail_def
    using assms by (intro ring_list_insert_other) auto
qed

lemma first_gap_cong:
  "(\<And>x. ident x = ident' x) \<Longrightarrow> first_gap ident e head h n = first_gap ident' e head h n"
proof -
  assume "\<And>x. ident x = ident' x"
  then have "ident = ident'" by (rule ext)
  then show ?thesis by simp
qed

text \<open>\<^verbatim>\<open>list_entry\<close> commutes with the search.\<close>

lemma gap_at_map: "gap_at (\<lambda>n. ident (f n)) k (map g us) (map g vs) i \<Longrightarrow> (\<And>x. f (g x) = x) \<Longrightarrow> gap_at ident k us vs i"
  unfolding gap_at_def by (elim conjE, intro conjI) (simp_all only: map_map comp_def length_map set_map ball_simps)

lemma thread_gap:
  assumes r: "ring h (Thread_Head p) (map Thread_List ts)" and o: "in_order ident ts" and len: "length ts < 2 ^ 32"
  obtains us vs i where "ts = us @ vs"
    "first_gap (\<lambda>n. ident (thread_entry n)) (nxt h (Thread_Head p)) (Thread_Head p) h 0
       = Some (hd (map Thread_List vs @ [Thread_Head p]), i)" "gap_at ident 0 us vs i"
proof -
  have o': "in_order (\<lambda>n. ident (thread_entry n)) (map Thread_List ts)" using o by (simp add: in_order_def comp_def)
  obtain us' vs' i where 1: "map Thread_List ts = us' @ vs'"
    "first_gap (\<lambda>n. ident (thread_entry n)) (nxt h (Thread_Head p)) (Thread_Head p) h 0 = Some (hd (vs' @ [Thread_Head p]), i)"
    "gap_at (\<lambda>n. ident (thread_entry n)) 0 us' vs' i"
    using first_gap_ring[OF r o', of 0] len by auto
  obtain us vs where 2: "us' = map Thread_List us" "vs' = map Thread_List vs" "ts = us @ vs"
    using 1(1) by (auto simp: map_eq_append_conv)
  show ?thesis
    using that[of us vs i] 1(2,3) 2 gap_at_map[of ident thread_entry 0 Thread_List us vs i] by auto
qed

lemma proc_gap:
  assumes r: "ring h head (map Proc_List ps)" and o: "in_order ident ps" and len: "length ps + 1 < 2 ^ 32"
    and n: "\<And>p. p \<in> set ps \<Longrightarrow> 1 \<le> ident p"
  obtains us vs i where "ps = us @ vs"
    "first_gap (\<lambda>n. ident (proc_entry n)) (nxt h head) head h 1 = Some (hd (map Proc_List vs @ [head]), i)"
    "gap_at ident 1 us vs i"
proof -
  have o': "in_order (\<lambda>n. ident (proc_entry n)) (map Proc_List ps)" using o by (simp add: in_order_def comp_def)
  obtain us' vs' i where 1: "map Proc_List ps = us' @ vs'"
    "first_gap (\<lambda>n. ident (proc_entry n)) (nxt h head) head h 1 = Some (hd (vs' @ [head]), i)"
    "gap_at (\<lambda>n. ident (proc_entry n)) 1 us' vs' i"
    using first_gap_ring[OF r o', of 1 thesis] len n by (simp only: length_map set_map unat_1) fastforce
  obtain us vs where 2: "us' = map Proc_List us" "vs' = map Proc_List vs" "ps = us @ vs"
    using 1(1) by (auto simp: map_eq_append_conv)
  show ?thesis
    using that[of us vs i] 1(2,3) 2 gap_at_map[of ident proc_entry 1 Proc_List us vs i] by auto
qed

text \<open>The fields of a new thread.\<close>

definition new_thread :: "u32 \<Rightarrow> u32 \<Rightarrow> u32 \<Rightarrow> u32 \<Rightarrow> u32 \<Rightarrow> stack_frame \<Rightarrow> thread" where
  "new_thread p ip stack priv tid r = \<lparr>t_process = p, threadID = tid, t_flag = 0, stacktop = stack,
     regs = user_regs ip stack priv r\<rparr>"

lemma createThread_eq:
  assumes "allocThreadStack (p_cr3 (procs s p)) (heap s) = Inr (stack, h1)" "stack \<noteq> 0"
    and "memory_alloc 12 h1 = Inr (t, h2)" "scheduleLock s = 0"
    and gap: "first_gap (\<lambda>n. threadID (threads s (thread_entry n))) (nxt (lists s) (Thread_Head p)) (Thread_Head p)
      (lists s) 0 = Some (entry, tid)"
  shows "createThread p ip s = Inr (t, s\<lparr>heap := h2,
      procs := (procs s)(p := (procs s p)\<lparr>avl_thread := avl_thread (procs s p) + 1\<rparr>),
      threads := (threads s)(t := new_thread p ip stack (privilege (procs s p)) tid (regs (threads s t))),
      lists := list_add_tail (Thread_List t) entry (lists s)\<rparr>)"
proof -
  let ?s = "upd_thread t (\<lambda>th. th\<lparr>t_process := p\<rparr>) (upd_thread t
     (\<lambda>th. th\<lparr>regs := user_regs ip stack (privilege (procs s p)) (regs th), stacktop := stack\<rparr>) (s\<lparr>heap := h2\<rparr>))"
  have "first_gap (\<lambda>n. threadID (threads ?s (thread_entry n))) e hd' l 0 =
      first_gap (\<lambda>n. threadID (threads s (thread_entry n))) e hd' l 0" for e hd' l
    by (rule first_gap_cong) (simp add: upd_thread_def)
  then have "first_gap (\<lambda>n. threadID (threads ?s (thread_entry n))) (nxt (lists s) (Thread_Head p)) (Thread_Head p)
      (lists s) 0 = Some (entry, tid)" using gap by simp
  then show ?thesis
    using assms(1-4)
    by (simp add: createThread_def with_heap_def upd_thread_def upd_proc_def on_lists_def Let_def)
      (intro system.equality; simp add: fun_eq_iff new_thread_def)
qed

lemma createThread_ok:
  assumes inv: "free_inv (heap s) F" and as: "address_space (heap s) F (p_cr3 (procs s p))"
    and rm: "3 \<le> room F" and lock: "scheduleLock s = 0" and ring: "ring (lists s) (Thread_Head p) (map Thread_List ts)"
    and ord: "in_order (\<lambda>t. threadID (threads s t)) ts"
    and old: "\<And>t. t \<in> set ts \<Longrightarrow> unat t \<notin> free_area F" and len: "length ts < 2 ^ 31"
    and slot: "0 < j" "j \<le> 16" "stack_slot (pa2va (p_cr3 (procs s p))) (va2pde STACK_TOP - 1) (heap s) = slot_entry j"
      "load_entry (pa2va (p_cr3 (procs s p))) (slot_entry j) (heap s) = 0"
  defines "c \<equiv> p_cr3 (procs s p)" and "stack \<equiv> (slot_entry j + 1) * 0x1000 * 1024"
  shows "\<exists>t us vs tid pg h' F'. createThread p ip s = Inr (t, s\<lparr>heap := h',
      procs := (procs s)(p := (procs s p)\<lparr>avl_thread := avl_thread (procs s p) + 1\<rparr>),
      threads := (threads s)(t := new_thread p ip stack (privilege (procs s p)) tid (regs (threads s t))),
      lists := list_add_tail (Thread_List t) (hd (map Thread_List vs @ [Thread_Head p])) (lists s)\<rparr>) \<and>
    ts = us @ vs \<and> gap_at (\<lambda>t. threadID (threads s t)) 0 us vs tid \<and> t \<notin> set ts \<and> good_block t 12 \<and>
    block t 12 \<subseteq> free_area F \<and>
    free_inv h' F' \<and> address_space h' F' c \<and> walk h' c = (walk (heap s) c)(page_ix (stack - 1) := va2pa pg OR 31) \<and>
    kernel_half h' c = kernel_half (heap s) c \<and> block t 12 \<inter> (free_area F' \<union> footprint (owned h' c)) = {} \<and>
    free_area F' \<union> footprint (owned h' c) \<union> block t 12 = free_area F \<union> footprint (owned (heap s) c) \<and>
    (\<forall>x. unat x \<notin> free_area F \<union> footprint (owned (heap s) c) \<longrightarrow> mem h' x = mem (heap s) x) \<and>
    room F = room F' + 3 \<and> free_area F' \<subseteq> free_area F"
proof -
  note sl = slot_entry_facts[OF slot(2)]
  have r2: "2 \<le> room F" using rm by simp
  have lt: "va2pde STACK_BOTTOM < slot_entry j" using sl(3) slot(1) by simp
  obtain pg h1 F1 where 1: "allocThreadStack c (heap s) = Inr (stack, h1)" "good_block pg 12"
      "space_step (heap s) F c {} h1 F1"
      "walk h1 c = (walk (heap s) c)((slot_entry j, 1023) := va2pa pg OR 31)" "room F = room F1 + 2"
      "free_area F1 \<subseteq> free_area F"
    using allocThreadStack_ok[OF inv as r2 slot(3) lt sl(2) slot(4)] unfolding c_def stack_def by blast
  have inv1: "free_inv h1 F1" and as1: "address_space h1 F1 c" using 1(3) by (auto simp: space_step_def)
  have p1: "0 < room F1" using 1(5) rm by simp
  obtain t h2 F2 where 2: "memory_alloc 12 h1 = Inr (t, h2)" "good_block t 12" "block t 12 \<subseteq> free_area F1"
      "free_inv h2 F2" "free_area F2 = free_area F1 - block t 12"
      "\<And>x. unat x \<notin> free_area F2 \<Longrightarrow> mem h2 x = mem h1 x"
    using alloc_page[OF inv1 has_page_room[OF inv1 p1]] by metis
  have ok2: "pages_ok (owned h1 c) (free_area F2)"
    using pages_ok_mono[OF address_spaceD(2)[OF as1]] 2(5) by blast
  have same: "owned h2 c = owned h1 c" "walk h2 c = walk h1 c" "kernel_half h2 c = kernel_half h1 c"
    using same_space(1-3)[OF ok2] 2(6) by blast+
  have as2: "address_space h2 F2 c" unfolding address_space_def same using ok2 address_spaceD(1)[OF as1] by blast
  have area: "free_area F1 \<union> footprint (owned h1 c) = free_area F \<union> footprint (owned (heap s) c)"
    using 1(3) by (simp add: space_step_def)
  note sub1 = 1(6)
  have stack0: "stack \<noteq> 0" and pix: "page_ix (stack - 1) = (slot_entry j, 1023)"
    using slot_top[OF slot(1,2)] unfolding stack_def by auto
  have tfree: "unat t \<in> free_area F" using 2(3) sub1 block_self[of t 12] by blast
  then have tnew: "t \<notin> set ts" using old by blast
  have len': "length ts < 2 ^ 32" using len by simp
  obtain us vs tid where g: "ts = us @ vs"
    "first_gap (\<lambda>n. threadID (threads s (thread_entry n))) (nxt (lists s) (Thread_Head p)) (Thread_Head p) (lists s) 0
       = Some (hd (map Thread_List vs @ [Thread_Head p]), tid)"
    "gap_at (\<lambda>t. threadID (threads s t)) 0 us vs tid"
    using thread_gap[OF ring ord len'] by metis
  have run: "createThread p ip s = Inr (t, s\<lparr>heap := h2,
      procs := (procs s)(p := (procs s p)\<lparr>avl_thread := avl_thread (procs s p) + 1\<rparr>),
      threads := (threads s)(t := new_thread p ip stack (privilege (procs s p)) tid (regs (threads s t))),
      lists := list_add_tail (Thread_List t) (hd (map Thread_List vs @ [Thread_Head p])) (lists s)\<rparr>)"
    by (rule createThread_eq[OF 1(1)[unfolded c_def] stack0 2(1) lock g(2)])
  have fp1: "footprint (owned h1 c) \<inter> free_area F1 = {}" by (rule footprint_disjoint[OF address_spaceD(2)[OF as1]])
  have dis: "block t 12 \<inter> (free_area F2 \<union> footprint (owned h2 c)) = {}"
    unfolding same using 2(3,5) fp1 by blast
  have tot: "free_area F2 \<union> footprint (owned h2 c) \<union> block t 12 = free_area F \<union> footprint (owned (heap s) c)"
    unfolding same using 2(3,5) area by blast
  have fr: "mem h2 x = mem (heap s) x" if "unat x \<notin> free_area F \<union> footprint (owned (heap s) c)" for x
    using that 1(3) 2(5,6) area unfolding space_step_def by auto
  have kh: "kernel_half h2 c = kernel_half (heap s) c" unfolding same using 1(3) by (simp add: space_step_def)
  have wk: "walk h2 c = (walk (heap s) c)(page_ix (stack - 1) := va2pa pg OR 31)" unfolding same 1(4) pix ..
  have tF: "block t 12 \<subseteq> free_area F" using 2(3) sub1 by blast
  have rF: "room F = room F2 + 3" using 1(5) room_alloc[OF 2(2,3,5)] by simp
  have subF: "free_area F2 \<subseteq> free_area F" using 2(5) sub1 by blast
  show ?thesis
    by (intro exI[of _ t] exI[of _ us] exI[of _ vs] exI[of _ tid] exI[of _ pg] exI[of _ h2] exI[of _ F2] conjI)
      (rule rF subF | use run g tnew 2(2,4) as2 kh wk dis tot fr tF in blast)+
qed

text \<open>The accounting of the threads after the creation.\<close>

lemma createThread_threads:
  fixes s t p
  assumes thr: "threads_ok s p (us @ vs)" and new: "t \<notin> set (us @ vs)" and len: "length (us @ vs) < 2 ^ 31"
    and g: "gap_at (\<lambda>t. threadID (threads s t)) 0 us vs tid"
    and s': "s' = s\<lparr>heap := h', procs := (procs s)(p := (procs s p)\<lparr>avl_thread := avl_thread (procs s p) + 1\<rparr>),
      threads := (threads s)(t := new_thread p ip stack priv tid r),
      lists := list_add_tail (Thread_List t) (hd (map Thread_List vs @ [Thread_Head p])) (lists s)\<rparr>"
  shows "threads_ok s' p (us @ t # vs)"
proof -
  have ring: "ring (lists s) (Thread_Head p) (map Thread_List us @ map Thread_List vs)"
    and ord: "in_order (\<lambda>t. threadID (threads s t)) (us @ vs)"
    and cnt: "unat (avl_thread (procs s p)) = in_state s 0 (us @ vs)"
    "unat (receiving (procs s p)) = in_state s 2 (us @ vs)"
    using thr by (auto simp: threads_ok_def)
  have "ring (lists s') (Thread_Head p) (map Thread_List us @ Thread_List t # map Thread_List vs)"
    unfolding s' using ring_insert_gap[OF ring, of "Thread_List t"] new by auto
  moreover have "in_order (\<lambda>t. threadID (threads s' t)) (us @ t # vs)"
  proof -
    have "in_order ((\<lambda>t. threadID (threads s t))(t := tid)) (us @ t # vs)"
      using gap_at_facts(4,5)[OF g ord] ord new
      by (auto simp: in_order_def sorted_wrt_append)
    moreover have "(\<lambda>t. threadID (threads s' t)) = (\<lambda>t. threadID (threads s t))(t := tid)"
      unfolding s' by (auto simp: new_thread_def)
    ultimately show ?thesis by simp
  qed
  moreover have "in_state s' k (us @ t # vs) = in_state s k (us @ vs) + (if k = 0 then 1 else 0)" for k
  proof -
    have "in_state s' k us = in_state s k us" "in_state s' k vs = in_state s k vs"
      using new by (intro in_state_same; auto simp: s')+
    then show ?thesis by (simp add: s' new_thread_def)
  qed
  moreover have "unat (avl_thread (procs s p) + 1) = unat (avl_thread (procs s p)) + 1"
    using cnt(1) in_state_le[of s 0 "us @ vs"] len by (subst unat_plus_small) simp_all
  ultimately show ?thesis
    using thr cnt new unfolding threads_ok_def by (auto simp: s' new_thread_def simp del: in_state_simps)
qed

text \<open>The structure of a new process comes from the allocator: one block of a page.\<close>

lemma malloc_process:
  assumes inv: "free_inv h F" and r: "0 < room F"
  obtains g h' F' where "malloc 2132 h = Inr (g + 4, h')" "good_block g 12" "block g 12 \<subseteq> free_area F"
    "free_inv h' F'" "free_area F' = free_area F - block g 12" "room F = Suc (room F')"
    "\<And>x. unat x \<notin> free_area F \<Longrightarrow> mem h' x = mem h x" "mem h' g = 2 ^ 12"
proof -
  obtain g h1 F' where g: "memory_alloc 12 h = Inr (g, h1)" "good_block g 12" "block g 12 \<subseteq> free_area F"
      "free_inv h1 F'" "free_area F' = free_area F - block g 12"
      "\<And>x. unat x \<notin> free_area F' \<Longrightarrow> mem h1 x = mem h x"
    using alloc_page[OF inv has_page_room[OF inv r]] by metis
  let ?h = "h1\<lparr>mem := (mem h1)(g := 2 ^ 12)\<rparr>"
  have "malloc 2132 h = and_then (memory_alloc 12 h) (\<lambda>(g, s). Inr (g + 4, s\<lparr>mem := (mem s)(g := 2 ^ 12)\<rparr>))"
    by (rule malloc_eq) simp_all
  then have m: "malloc 2132 h = Inr (g + 4, ?h)" using g(1) by simp
  have "unat g \<notin> free_area F'" using g(5) block_self[of g 12] by blast
  then have inv': "free_inv ?h F'" by (rule free_inv_write[OF g(4)])
  have fr: "mem ?h x = mem h x" if "unat x \<notin> free_area F" for x
    using that g(3,5,6) block_self[of g 12] by auto
  show ?thesis
    by (rule that[OF m g(2,3) inv' g(5) room_alloc[OF g(2,3,5)]]) (use fr in auto)
qed

lemma alloc_from_outside:
  assumes as: "address_space h F c" and sub: "free_area F' \<subseteq> free_area F"
    and fr: "\<And>x. unat x \<notin> free_area F \<Longrightarrow> mem h' x = mem h x"
  shows "address_space h' F' c" "owned h' c = owned h c" "walk h' c = walk h c"
    "kernel_half h' c = kernel_half h c" "\<And>i. unat i < 1024 \<Longrightarrow> load_entry (pa2va c) i h' = load_entry (pa2va c) i h"
proof -
  note asd = address_spaceD[OF as]
  show o: "owned h' c = owned h c" and "walk h' c = walk h c" "kernel_half h' c = kernel_half h c"
    using same_space(1-3)[OF asd(2)] fr by blast+
  show "\<And>i. unat i < 1024 \<Longrightarrow> load_entry (pa2va c) i h' = load_entry (pa2va c) i h"
    using same_space(4)[OF asd(2)] fr by blast
  show "address_space h' F' c" unfolding address_space_def o using asd(1) pages_ok_mono[OF asd(2) sub] by blast
qed

text \<open>A new process, as \<^verbatim>\<open>newProcess\<close> leaves it.\<close>

definition new_process :: "u32 \<Rightarrow> u32 \<Rightarrow> u32 \<Rightarrow> u8 list \<Rightarrow> u32 \<Rightarrow> u32 \<Rightarrow> process \<Rightarrow> process" where
  "new_process c t priv name prio i old = \<lparr>p_cr3 = c, p_current = t, avl_thread = 1, p_flag = 0, ticks = prio,
     priority = prio, pid = i, privilege = priv, receiving = 0,
     messages = (messages old)\<lparr>count := 0, p_head := 0, p_tail := 0\<rparr>, p_name = name\<rparr>"

lemma newProcess_eq:
  assumes m: "malloc 2132 (heap s) = Inr (p, h1)"
    and c: "createThread p ip (on_lists (init_list (Thread_Head p))
       (upd_proc p (\<lambda>q. q\<lparr>p_cr3 := c, privilege := priv, avl_thread := 0\<rparr>) (s\<lparr>heap := h1\<rparr>))) = Inr (t, s2)"
    and l: "scheduleLock s2 = 0"
    and gap: "first_gap (\<lambda>n. pid (procs s2 (proc_entry n))) (nxt (lists s2) (processTable s2)) (processTable s2)
      (lists s2) 1 = Some (entry, i)"
  shows "newProcess c ip priv name prio s = Inr (p, s2\<lparr>procs := (procs s2)(p := (procs s2 p)\<lparr>p_current := t, p_flag := 0,
       messages := (messages (procs s2 p))\<lparr>count := 0, p_head := 0, p_tail := 0\<rparr>, receiving := 0, p_name := name,
       priority := prio, ticks := prio, pid := i\<rparr>), lists := list_add_tail (Proc_List p) entry (lists s2)\<rparr>)"
proof -
  let ?u = "\<lambda>q. q\<lparr>p_current := t, p_flag := 0, messages := (messages q)\<lparr>count := 0, p_head := 0, p_tail := 0\<rparr>,
       receiving := 0, p_name := name, priority := prio, ticks := prio\<rparr>"
  have "first_gap (\<lambda>n. pid (procs (upd_proc p ?u s2) (proc_entry n))) e hd' ls 1 =
      first_gap (\<lambda>n. pid (procs s2 (proc_entry n))) e hd' ls 1" for e hd' ls
    by (rule first_gap_cong) (simp add: upd_proc_def)
  then have "first_gap (\<lambda>n. pid (procs (upd_proc p ?u s2) (proc_entry n))) (nxt (lists s2) (processTable s2)) (processTable s2)
      (lists s2) 1 = Some (entry, i)" using gap by simp
  then show ?thesis
    using m c l unfolding on_lists_def upd_proc_def
    by (simp add: newProcess_def with_heap_def on_lists_def upd_proc_def Let_def)
qed

lemma newProcess_ok:
  assumes inv: "free_inv (heap s) F" and as: "address_space (heap s) F c"
    and empty: "\<And>i. user_entry i \<Longrightarrow> load_entry (pa2va c) i (heap s) = 0"
    and rm: "4 \<le> room F" and lock: "scheduleLock s = 0"
    and tab: "ring (lists s) (processTable s) (map Proc_List ps)"
    and ord: "in_order (\<lambda>p. pid (procs s p)) ps" and one: "\<And>p. p \<in> set ps \<Longrightarrow> 1 \<le> pid (procs s p)"
    and old: "\<And>p. Proc_List p \<in> set (processTable s # map Proc_List ps) \<Longrightarrow> unat p \<notin> free_area F"
    and htab: "\<And>q. processTable s \<noteq> Thread_Head q" "\<And>q. processTable s \<noteq> Thread_List q"
    and len: "length ps < 2 ^ 31"
  shows "\<exists>p t us vs i pg s' F'. newProcess c ip priv name prio s = Inr (p, s') \<and> ps = us @ vs \<and>
    gap_at (\<lambda>p. pid (procs s p)) 1 us vs i \<and> p \<notin> set ps \<and>
    procs s' = (procs s)(p := new_process c t priv name prio i (procs s p)) \<and>
    threads s' = (threads s)(t := new_thread p ip 0xC0000000 priv 0 (regs (threads s t))) \<and>
    ring (lists s') (Thread_Head p) [Thread_List t] \<and>
    ring (lists s') (processTable s) (map Proc_List (us @ p # vs)) \<and>
    in_order (\<lambda>p. pid (procs s' p)) (us @ p # vs) \<and>
    processTable s' = processTable s \<and> current_proc s' = current_proc s \<and> scheduleLock s' = 0 \<and>
    free_inv (heap s') F' \<and> address_space (heap s') F' c \<and>
    walk (heap s') c = (walk (heap s) c)(page_ix 0xBFFFFFFF := va2pa pg OR 31) \<and>
    kernel_half (heap s') c = kernel_half (heap s) c \<and>
    room F = room F' + 4 \<and> free_area F' \<subseteq> free_area F \<and> unat p \<in> free_area F - free_area F' \<and>
    (\<forall>x. unat x \<notin> free_area F \<union> footprint (owned (heap s) c) \<longrightarrow> mem (heap s') x = mem (heap s) x)"
proof -
  have r0: "0 < room F" using rm by simp
  obtain g h1 F1 where g: "malloc 2132 (heap s) = Inr (g + 4, h1)" "good_block g 12" "block g 12 \<subseteq> free_area F"
    "free_inv h1 F1" "free_area F1 = free_area F - block g 12" "room F = Suc (room F1)"
    "\<And>x. unat x \<notin> free_area F \<Longrightarrow> mem h1 x = mem (heap s) x"
    using malloc_process[OF inv r0] by metis
  define p where "p = g + 4"
  have pin: "unat p \<in> block g 12"
    using entry_in_block[OF g(2), of 1] by (simp add: p_def)
  then have pfree: "unat p \<in> free_area F" using g(3) by blast
  then have pnew: "Proc_List p \<notin> set (processTable s # map Proc_List ps)" using old by blast
  define s1 where "s1 = on_lists (init_list (Thread_Head p))
     (upd_proc p (\<lambda>q. q\<lparr>p_cr3 := c, privilege := priv, avl_thread := 0\<rparr>) (s\<lparr>heap := h1\<rparr>))"
  have sub1: "free_area F1 \<subseteq> free_area F" using g(5) by blast
  have c1: "p_cr3 (procs s1 p) = c" "heap s1 = h1" "scheduleLock s1 = 0" "threads s1 = threads s"
    "privilege (procs s1 p) = priv"
    using lock by (simp_all add: s1_def on_lists_def upd_proc_def)
  note as1 = alloc_from_outside[OF as sub1 g(7)]
  have ring1: "ring (lists s1) (Thread_Head p) (map Thread_List [])"
    by (simp add: s1_def on_lists_def upd_proc_def ring_init_list)
  have tab1: "ring (lists s1) (processTable s) (map Proc_List ps)"
    by (rule ring_cong[OF tab]) (use htab htab[symmetric] in \<open>auto simp: s1_def on_lists_def upd_proc_def init_list_def\<close>)
  have rm1: "3 \<le> room F1" using g(6) rm by simp
  have e1: "load_entry (pa2va c) i h1 = 0" if "user_entry i" for i
    using as1(5)[of i] empty[OF that] that by (simp add: user_entry_def)
  obtain j where j: "j \<le> 16" "stack_slot (pa2va c) (va2pde STACK_TOP - 1) h1 = slot_entry j"
    "\<And>m. j < m \<Longrightarrow> m \<le> 16 \<Longrightarrow> load_entry (pa2va c) (slot_entry m) h1 \<noteq> 0"
    using stack_slot_ok by blast
  have "j = 16" using j(1) j(3)[of 16] e1[OF slot_entry_facts(2)[of 16]] by (cases "j = 16") auto
  then have sl: "stack_slot (pa2va c) (va2pde STACK_TOP - 1) h1 = slot_entry 16" using j(2) by simp
  have top: "(slot_entry 16 + 1) * 0x1000 * 1024 = 0xC0000000" "0xC0000000 - 1 = (0xBFFFFFFF :: u32)"
    by (simp_all add: slot_entry_def)
  have e16: "load_entry (pa2va c) (slot_entry 16) h1 = 0" using e1 slot_entry_facts(2)[of 16] by simp
  have triv: "in_order (\<lambda>t. threadID (threads s1 t)) []" "\<And>t. t \<in> set [] \<Longrightarrow> unat t \<notin> free_area F1"
    "length ([] :: u32 list) < 2 ^ 31" "0 < (16 :: nat)" "(16 :: nat) \<le> 16" by (simp_all add: in_order_def)
  obtain t us0 vs0 tid pg h2 F2 where 2: "createThread p ip s1 = Inr (t, s1\<lparr>heap := h2,
      procs := (procs s1)(p := (procs s1 p)\<lparr>avl_thread := avl_thread (procs s1 p) + 1\<rparr>),
      threads := (threads s1)(t := new_thread p ip 0xC0000000 priv tid (regs (threads s1 t))),
      lists := list_add_tail (Thread_List t) (hd (map Thread_List vs0 @ [Thread_Head p])) (lists s1)\<rparr>)"
    "[] = us0 @ vs0" "gap_at (\<lambda>t. threadID (threads s1 t)) 0 us0 vs0 tid"
    "free_inv h2 F2" "address_space h2 F2 c" "walk h2 c = (walk h1 c)(page_ix 0xBFFFFFFF := va2pa pg OR 31)"
    "kernel_half h2 c = kernel_half h1 c"
    "\<forall>x. unat x \<notin> free_area F1 \<union> footprint (owned h1 c) \<longrightarrow> mem h2 x = mem h1 x" "room F1 = room F2 + 3" "free_area F2 \<subseteq> free_area F1"
    using createThread_ok[where s = s1 and p = p and F = F1 and ts = "[]" and j = 16 and ip = ip, unfolded c1(1,2,3,5) top,
        OF g(4) as1(1) rm1 refl ring1 triv sl e16] by blast
  have 0: "us0 = []" "vs0 = []" "tid = 0" using 2(2,3) by (auto simp: gap_at_def)
  define s2 where "s2 = s1\<lparr>heap := h2,
      procs := (procs s1)(p := (procs s1 p)\<lparr>avl_thread := avl_thread (procs s1 p) + 1\<rparr>),
      threads := (threads s1)(t := new_thread p ip 0xC0000000 priv 0 (regs (threads s1 t))),
      lists := list_add_tail (Thread_List t) (Thread_Head p) (lists s1)\<rparr>"
  have ct: "createThread p ip s1 = Inr (t, s2)" unfolding s2_def using 2(1) 0 by simp
  have l2: "lists s2 = list_add_tail (Thread_List t) (Thread_Head p) (lists s1)" by (simp add: s2_def)
  have thr2: "ring (lists s2) (Thread_Head p) [Thread_List t]"
    unfolding l2 using ring_add_tail[of "lists s1" "Thread_Head p" "[]" "Thread_List t"] ring1 by simp
  have tab2: "ring (lists s2) (processTable s) (map Proc_List ps)"
    unfolding l2
    by (rule ring_add_tail_other[OF tab1, of _ "[]"]) (use ring1 htab in auto)
  have k2: "pid (procs s2 q) = pid (procs s q)" "processTable s2 = processTable s" "scheduleLock s2 = 0" for q
    using lock by (simp_all add: s2_def s1_def on_lists_def upd_proc_def)
  obtain us vs i where gp: "ps = us @ vs"
    "first_gap (\<lambda>n. pid (procs s2 (proc_entry n))) (nxt (lists s2) (processTable s)) (processTable s) (lists s2) 1
      = Some (hd (map Proc_List vs @ [processTable s]), i)"
    "gap_at (\<lambda>p. pid (procs s p)) 1 us vs i"
  proof -
    have "length ps + 1 < 2 ^ 32" using len by simp
    from proc_gap[OF tab2 ord this one] that show ?thesis unfolding k2 by metis
  qed
  let ?s' = "s2\<lparr>procs := (procs s2)(p := (procs s2 p)\<lparr>p_current := t, p_flag := 0,
       messages := (messages (procs s2 p))\<lparr>count := 0, p_head := 0, p_tail := 0\<rparr>, receiving := 0, p_name := name,
       priority := prio, ticks := prio, pid := i\<rparr>),
       lists := list_add_tail (Proc_List p) (hd (map Proc_List vs @ [processTable s])) (lists s2)\<rparr>"
  have run: "newProcess c ip priv name prio s = Inr (p, ?s')"
  proof (rule newProcess_eq[where ?h1.0 = h1])
    show "malloc 2132 (heap s) = Inr (p, h1)" using g(1) by (simp add: p_def)
  qed (use ct k2(3) gp(2) k2(2) in \<open>simp_all add: s1_def\<close>)
  have pr: "procs ?s' = (procs s)(p := new_process c t priv name prio i (procs s p))"
    by (simp add: s2_def s1_def on_lists_def upd_proc_def new_process_def fun_eq_iff)
  have pps: "p \<notin> set ps" using pnew by auto
  have ord': "in_order (\<lambda>p. pid (procs ?s' p)) (us @ p # vs)"
  proof -
    have "in_order ((\<lambda>p. pid (procs s p))(p := i)) (us @ p # vs)"
      using gap_at_facts(4,5)[OF gp(3)] ord pps gp(1) by (auto simp: in_order_def sorted_wrt_append)
    moreover have "(\<lambda>p. pid (procs ?s' p)) = (\<lambda>p. pid (procs s p))(p := i)"
      unfolding pr by (auto simp: new_process_def)
    ultimately show ?thesis by simp
  qed
  have tab3: "ring (lists ?s') (processTable s) (map Proc_List (us @ p # vs))"
    using ring_insert_gap[of "lists s2" "processTable s" "map Proc_List us" "map Proc_List vs" "Proc_List p"]
      tab2 gp(1) pnew by auto
  have thr3: "ring (lists ?s') (Thread_Head p) [Thread_List t]"
    using ring_insert_gap_other[OF thr2, of "processTable s" "map Proc_List us" "map Proc_List vs" "Proc_List p"]
      tab2 gp(1) htab by auto
  have th: "threads ?s' = (threads s)(t := new_thread p ip 0xC0000000 priv 0 (regs (threads s t)))"
    by (simp add: s2_def c1)
  have misc: "processTable ?s' = processTable s" "current_proc ?s' = current_proc s" "scheduleLock ?s' = 0"
    "heap ?s' = h2"
    using lock by (simp_all add: s2_def s1_def on_lists_def upd_proc_def)
  have wk: "walk (heap ?s') c = (walk (heap s) c)(page_ix 0xBFFFFFFF := va2pa pg OR 31)"
    "kernel_half (heap ?s') c = kernel_half (heap s) c"
    unfolding misc(4) using 2(6,7) as1(3,4) by simp_all
  have fi: "free_inv (heap ?s') F2" and ai: "address_space (heap ?s') F2 c"
    unfolding misc(4) by (rule 2(4), rule 2(5))
  have rF: "room F = room F2 + 4" using 2(9) g(6) by simp
  have sF: "free_area F2 \<subseteq> free_area F" using 2(10) sub1 by blast
  have pF: "unat p \<in> free_area F - free_area F2" using pfree pin 2(10) g(5) by blast
  have fr: "\<forall>x. unat x \<notin> free_area F \<union> footprint (owned (heap s) c) \<longrightarrow> mem (heap ?s') x = mem (heap s) x"
    unfolding misc(4) using 2(8) g(7) sub1 as1(2) by auto
  show ?thesis
    by (rule exI[of _ p], rule exI[of _ t], rule exI[of _ us], rule exI[of _ vs], rule exI[of _ i], rule exI[of _ pg],
        rule exI[of _ ?s'], rule exI[of _ F2], intro conjI)
      (rule run gp(1,3) pps pr th thr3 tab3 ord' misc(1-3) fi ai wk rF sF pF fr)+
qed

section \<open>Properties\<close>

text \<open>
  Three processes for the concrete cases: the first (at 8, PID 0) runs, the second (at 16, PID 1) is
  ready with the given ticks, the third (at 24, PID 3) sleeps.
\<close>

definition demo_proc :: "u32 \<Rightarrow> u32 \<Rightarrow> u32 \<Rightarrow> u32 \<Rightarrow> process" where
  "demo_proc i flag tk prio = \<lparr>p_cr3 = 0x200000, p_current = 0xC0300000 + 0x1000 * i, avl_thread = 1, p_flag = flag,
     ticks = tk, priority = prio, pid = i, privilege = 0, receiving = 0,
     messages = \<lparr>buf = replicate 256 0, p_head = 0, p_tail = 0, count = 0\<rparr>, p_name = []\<rparr>"

definition demo_system :: "kmem \<Rightarrow> u32 \<Rightarrow> system" where
  "demo_system h tk = \<lparr>heap = h,
     procs = (\<lambda>p. if p = 8 then demo_proc 0 2 1 1 else if p = 16 then demo_proc 1 0 tk 2 else demo_proc 3 1 5 5),
     threads = (\<lambda>t. \<lparr>t_process = 8, threadID = 0, t_flag = 0, stacktop = 0xC0000000,
        regs = \<lparr>reg_gs = 0, reg_fs = 0, reg_es = 0, reg_ds = 0, reg_di = 0, reg_si = 0, reg_bp = 0, reg_ignored = 0,
          reg_bx = 0, reg_dx = 0, reg_cx = 0, reg_ax = 0, returnAddress = 0, reg_ip = 0, reg_cs = 0, reg_flags = 0,
          reg_sp = 0, reg_ss = 0\<rparr>\<rparr>),
     lists = list_add_tail (Proc_List 24) (Proc_List 8) (list_add_tail (Proc_List 16) (Proc_List 8)
       (init_list (Proc_List 8) \<lparr>nxt = id, prv = id\<rparr>)),
     processTable = Proc_List 8, scheduleLock = 0, current_proc = 8, current_thread = 0xC0300000, esp0 = 0\<rparr>"

abbreviation demo :: "u32 \<Rightarrow> system" where
  "demo tk \<equiv> demo_system (boot_memory (\<lambda>_. 0)) tk"

lemma demo_table:
  "ring (lists (demo_system h tk)) (Proc_List 8) (map Proc_List [16, 24])"
  "table_of_procs (lists (demo_system h tk)) (processTable (demo_system h tk)) [8, 16, 24]"
  by (simp_all add: ring_def demo_system_def list_add_tail_def list_insert_def init_list_def Let_def
      set_next_def set_prev_def)

lemma demo_fields [simp]:
  "scheduleLock (demo_system h tk) = 0" "current_proc (demo_system h tk) = 8" "heap (demo_system h tk) = h"
  "processTable (demo_system h tk) = Proc_List 8" "current_thread (demo_system h tk) = 0xC0300000"
  "procs (demo_system h tk) 8 = demo_proc 0 2 1 1" "procs (demo_system h tk) 16 = demo_proc 1 0 tk 2"
  "procs (demo_system h tk) 24 = demo_proc 3 1 5 5"
  by (simp_all add: demo_system_def)

text \<open>
  C1. \<^verbatim>\<open>schedule\<close> returns exactly when some process of the table is ready and has ticks or a
  priority above 0 (both read as signed). It then has switched to the ready process with the most
  ticks, the first of these in the table, after giving every ready process its ticks back when
  none had any left; it marks that process running, carries the kernel's directory entry over and
  releases the lock. Otherwise it never returns.
\<close>

theorem schedule_chooses:
  assumes "scheduleLock s = 0" "table_of_procs (lists s) (processTable s) ps"
  shows "if \<exists>q \<in> set ps. can_run (with_flag flag s q)
     then \<exists>p. is_choice (next_round ps (with_flag flag s)) ps p \<and>
       schedule flag s = Inr (switched p (next_round ps (with_flag flag s)) s)
     else schedule flag s = Inl Spin"
  using schedule_ok[OF assms] by simp

theorem schedule_chooses_witness:
  "(\<exists>s'. schedule 1 (demo 0) = Inr s' \<and> current_proc s' = 16 \<and> ticks (procs s' 16) = 2)
   \<and> schedule 1 (demo 0 \<lparr>procs := \<lambda>p. demo_proc 0 1 1 1\<rparr>) = Inl Spin"
proof
  let ?s = "demo 0"
  let ?P = "with_flag 1 ?s"
  have P: "p_flag (?P 8) = 1" "?P 16 = demo_proc 1 0 0 2" "?P 24 = demo_proc 3 1 5 5"
    by (simp_all add: with_flag_def demo_proc_def)
  have run: "\<exists>q \<in> set [8, 16, 24]. can_run (?P q)"
    by (intro bexI[of _ 16]) (simp_all add: P can_run_def demo_proc_def ready_def positive_def)
  have none: "\<not> (\<exists>q \<in> set [8, 16, 24]. ready (?P q) \<and> positive (ticks (?P q)))"
    using P by (simp add: demo_proc_def ready_def positive_def)
  obtain p where p: "is_choice (refilled [8, 16, 24] ?P) [8, 16, 24] p" "schedule 1 ?s = Inr (switched p (refilled [8, 16, 24] ?P) ?s)"
    using schedule_chooses[of ?s "[8, 16, 24]" 1, OF _ demo_table(2)] run none by (auto simp: next_round_def)
  have "p = 16"
    using choiceD[OF p(1)] P by (auto simp: refilled_def ready_def demo_proc_def)
  then show "\<exists>s'. schedule 1 ?s = Inr s' \<and> current_proc s' = 16 \<and> ticks (procs s' 16) = 2"
    using p(2) P by (auto simp: refilled_def ready_def demo_proc_def)
next
  let ?s = "demo 0 \<lparr>procs := \<lambda>p. demo_proc 0 1 1 1\<rparr>"
  have "table_of_procs (lists ?s) (processTable ?s) [8, 16, 24]" using demo_table(2)[of "boot_memory (\<lambda>_. 0)" 0] by simp
  then show "schedule 1 ?s = Inl Spin"
    using schedule_chooses[of ?s "[8, 16, 24]" 1] by (simp add: with_flag_def can_run_def ready_def demo_proc_def)
qed

text \<open>
  C14. \<^verbatim>\<open>SYSCALL_NICE\<close> gives the processor to another process that can run and leaves the caller
  ready. When no other process can run it does not return: the caller is marked running during
  the search, so the search never finds it, with the lock held.
\<close>

theorem nice_yields_or_spins:
  assumes "scheduleLock s = 0" "table_of_procs (lists s) (processTable s) ps"
  shows "if \<exists>q \<in> set ps. q \<noteq> current_proc s \<and> can_run (procs s q)
     then \<exists>s'. system_call 6 edx ecx ebx s = Inr s' \<and> current_proc s' \<in> set ps \<and> current_proc s' \<noteq> current_proc s \<and>
       p_flag (procs s' (current_proc s')) = 2 \<and> p_flag (procs s' (current_proc s)) = 0 \<and> scheduleLock s' = 0
     else system_call 6 edx ecx ebx s = Inl Spin"
proof -
  let ?c = "current_proc s"
  have run: "can_run (with_flag 2 s q) \<longleftrightarrow> q \<noteq> ?c \<and> can_run (procs s q)" for q
    by (simp add: with_flag_def can_run_def ready_def)
  have sc: "system_call 6 edx ecx ebx s =
      and_then (schedule 2 s) (\<lambda>s'. Inr (upd_proc ?c (\<lambda>p. p\<lparr>p_flag := 0\<rparr>) s'))"
    by (simp add: system_call_def Let_def)
  show ?thesis
  proof (cases "\<exists>q \<in> set ps. q \<noteq> ?c \<and> can_run (procs s q)")
    case True
    then have "\<exists>q \<in> set ps. can_run (with_flag 2 s q)" unfolding run .
    then obtain p where p: "is_choice (next_round ps (with_flag 2 s)) ps p"
        "schedule 2 s = Inr (switched p (next_round ps (with_flag 2 s)) s)"
      using schedule_ok(1)[OF assms] by blast
    have f: "p_flag (next_round ps (with_flag 2 s) q) = p_flag (with_flag 2 s q)" for q
      by (simp add: next_round_def refilled_def)
    have "p \<in> set ps" "p \<noteq> ?c"
      using choiceD[OF p(1)] unfolding ready_def f by (auto simp: with_flag_def)
    then have "current_proc (upd_proc ?c (\<lambda>p. p\<lparr>p_flag := 0\<rparr>) (switched p (next_round ps (with_flag 2 s)) s)) \<in> set ps \<and>
        p \<noteq> ?c" by (simp add: upd_proc_def)
    then show ?thesis using True p(2) assms(1) unfolding sc by (auto simp: upd_proc_def)
  next
    case False
    then have "\<not> (\<exists>q \<in> set ps. can_run (with_flag 2 s q))" unfolding run .
    then have "schedule 2 s = Inl Spin" by (rule schedule_ok(2)[OF assms])
    then show ?thesis using False by (simp only: sc if_False and_then_simps)
  qed
qed

theorem nice_yields_or_spins_witness:
  "(\<exists>s'. system_call 6 0 0 0 (demo 1) = Inr s' \<and> current_proc s' \<noteq> 8)
   \<and> system_call 6 0 0 0 (demo 1 \<lparr>procs := \<lambda>p. demo_proc 0 1 1 1\<rparr>) = Inl Spin"
proof
  have "\<exists>q \<in> set [8, 16, 24]. q \<noteq> current_proc (demo 1) \<and> can_run (procs (demo 1) q)"
    by (intro bexI[of _ 16]) (simp_all add: can_run_def demo_proc_def ready_def positive_def)
  then show "\<exists>s'. system_call 6 0 0 0 (demo 1) = Inr s' \<and> current_proc s' \<noteq> 8"
    using nice_yields_or_spins[of "demo 1" "[8, 16, 24]" 0 0 0, OF _ demo_table(2)] by auto
next
  let ?s = "demo 1 \<lparr>procs := \<lambda>p. demo_proc 0 1 1 1\<rparr>"
  have "table_of_procs (lists ?s) (processTable ?s) [8, 16, 24]" using demo_table(2)[of "boot_memory (\<lambda>_. 0)" 1] by simp
  then show "system_call 6 0 0 0 ?s = Inl Spin"
    using nice_yields_or_spins[of ?s "[8, 16, 24]" 0 0 0] by (simp add: can_run_def ready_def demo_proc_def)
qed

text \<open>
  C7. The timer interrupt starves nobody: every process of the table that is ready and has ticks left
  or a priority above 0 (both read as signed) becomes the current process, running, after at most as
  many interrupts as the ticks and the priorities of the processes of the table make together, plus
  one, also when it has used up its own ticks and first has to wait until all of them are given back.
  The current process may have any number of ticks but the least negative one, from which the
  decrement of the handler would wrap around.
\<close>

theorem timer_starves_nobody:
  assumes "scheduleLock s = 0" "table_of_procs (lists s) (processTable s) ps" "current_proc s \<in> set ps"
    and "ticks (procs s (current_proc s)) \<noteq> 0x80000000"
    and "q \<in> set ps" "can_run (procs s q)"
  shows "\<exists>n s'. n \<le> tick_total ps s + priority_total ps s + 1 \<and> timer_run n s = Inr s' \<and> current_proc s' = q \<and>
    (n = 0 \<longleftrightarrow> q = current_proc s) \<and> (n \<noteq> 0 \<longrightarrow> p_flag (procs s' q) = 2)"
proof (cases "q = current_proc s")
  case True
  then show ?thesis by (intro exI[of _ 0] exI[of _ s]) simp
next
  case False
  have "sint (ticks (procs s (current_proc s))) \<noteq> sint (0x80000000 :: u32)"
    using assms(4) by (metis signed_word_eqI)
  then have b: "sint (ticks (procs s (current_proc s))) \<noteq> - (2 ^ 31)" by simp
  obtain s1 where 1: "irq0_handler s = Inr s1" "scheduleLock s1 = 0" "table_of_procs (lists s1) (processTable s1) ps"
    "current_proc s1 \<in> set ps" "positive (ticks (procs s1 (current_proc s1)))" "p_flag (procs s1 (current_proc s1)) = 2"
    "priority_total ps s1 = priority_total ps s" "q = current_proc s1 \<or> can_run (procs s1 q)"
    "tick_total ps s1 + (if positive (ticks (procs s (current_proc s))) then 1 else 0) \<le> tick_total ps s \<or>
     positive (ticks (procs s1 q)) \<and>
     tick_total ps s1 + (if positive (ticks (procs s (current_proc s))) then 1 else 0) \<le> tick_total ps s + priority_total ps s"
    by (rule irq0_round[OF assms(1-3) b assms(5) False assms(6)])
  have d: "tick_total ps s1 \<le> tick_total ps s \<or>
     positive (ticks (procs s1 q)) \<and> tick_total ps s1 \<le> tick_total ps s + priority_total ps s"
    using 1(9) by (auto split: if_splits)
  have "\<exists>n s'. n \<le> tick_total ps s + priority_total ps s \<and> timer_run n s1 = Inr s' \<and> current_proc s' = q \<and>
      p_flag (procs s' q) = (if n = 0 then p_flag (procs s1 q) else 2)"
    using d
  proof
    assume "tick_total ps s1 \<le> tick_total ps s"
    with timer_reaches_all[OF 1(2-5) assms(5) 1(8)] show ?thesis using 1(7)
      by (metis add_le_mono order.refl order.trans)
  next
    assume p: "positive (ticks (procs s1 q)) \<and> tick_total ps s1 \<le> tick_total ps s + priority_total ps s"
    have "q = current_proc s1 \<or> ready (procs s1 q)" using 1(8) by (auto simp: can_run_def)
    from timer_reaches[OF 1(2-5) assms(5) this] p show ?thesis using order.trans by blast
  qed
  then obtain n s' where n: "n \<le> tick_total ps s + priority_total ps s" "timer_run n s1 = Inr s'" "current_proc s' = q"
      "p_flag (procs s' q) = (if n = 0 then p_flag (procs s1 q) else 2)" by blast
  moreover have "p_flag (procs s' q) = 2" using n 1(6) by (cases n) auto
  ultimately show ?thesis using 1(1) False by (intro exI[of _ "Suc n"] exI[of _ s']) simp
qed

theorem timer_starves_nobody_witness:
  "\<exists>n s'. n \<le> 15 \<and> timer_run n (demo 0) = Inr s' \<and> current_proc s' = 16 \<and> n \<noteq> 0"
proof -
  have "tick_total [8, 16, 24] (demo 0) = 6" "priority_total [8, 16, 24] (demo 0) = 8"
    by (simp_all add: tick_total_def priority_total_def demo_proc_def)
  moreover have "\<exists>n s'. n \<le> tick_total [8, 16, 24] (demo 0) + priority_total [8, 16, 24] (demo 0) + 1 \<and>
      timer_run n (demo 0) = Inr s' \<and>
      current_proc s' = 16 \<and> (n = 0 \<longleftrightarrow> 16 = current_proc (demo 0)) \<and> (n \<noteq> 0 \<longrightarrow> p_flag (procs s' 16) = 2)"
    by (rule timer_starves_nobody[OF _ demo_table(2)]) (simp_all add: demo_proc_def can_run_def ready_def positive_def)
  ultimately obtain n s' where "n \<le> 15" "timer_run n (demo 0) = Inr s'" "current_proc s' = 16" "n \<noteq> 0"
    by auto
  then show ?thesis by (intro exI[of _ n] exI[of _ s']) simp
qed

text \<open>
  When a thread of the current process goes to sleep while another of its threads is runnable,
  \<^verbatim>\<open>threadSleep\<close> (through the assignment in the condition of proc.c:54) still marks the whole
  process as sleeping and switches to another process: the runnable thread is not scheduled again
  before some thread of the process is woken.
\<close>

theorem thread_sleep_stops_process:
  assumes "scheduleLock s = 0" "table_of_procs (lists s) (processTable s) ps"
    and "t_process (threads s t) = current_proc s" "t \<noteq> 0" "2 \<le> unat (avl_thread (procs s (current_proc s)))"
    and "\<exists>q \<in> set ps. q \<noteq> current_proc s \<and> can_run (procs s q)"
  shows "\<exists>s'. threadSleep t s = Inr s' \<and> p_flag (procs s' (current_proc s)) = 1 \<and>
    avl_thread (procs s' (current_proc s)) \<noteq> 0 \<and> current_proc s' \<noteq> current_proc s \<and>
    unat (avl_thread (procs s' (current_proc s))) = unat (avl_thread (procs s (current_proc s))) - 1"
proof -
  let ?c = "current_proc s"
  let ?s = "(upd_proc ?c (\<lambda>pr. pr\<lparr>p_flag := 0\<rparr>) (upd_proc ?c (\<lambda>pr. pr\<lparr>avl_thread := avl_thread pr - 1\<rparr>)
     (upd_thread t (\<lambda>th. th\<lparr>t_flag := 1\<rparr>) s)))\<lparr>current_thread := t\<rparr>"
  have n: "unat (avl_thread (procs s ?c) - 1) = unat (avl_thread (procs s ?c)) - 1"
  proof -
    have "1 \<le> avl_thread (procs s ?c)" using assms(5) by (simp add: word_le_nat_alt)
    then show ?thesis using unat_minus_le by fastforce
  qed
  have ne: "avl_thread (procs s ?c) - 1 \<noteq> 0"
  proof
    assume "avl_thread (procs s ?c) - 1 = 0"
    then have "unat (avl_thread (procs s ?c)) - 1 = 0" using n by simp
    then show False using assms(5) by simp
  qed
  have sleep: "threadSleep t s = schedule 1 ?s"
    using assms(3,4) ne by (simp add: threadSleep_def upd_proc_def upd_thread_def Let_def)
  have f: "scheduleLock ?s = 0" "lists ?s = lists s" "processTable ?s = processTable s" "current_proc ?s = ?c"
    "\<And>q. q \<noteq> ?c \<Longrightarrow> procs ?s q = procs s q" "avl_thread (procs ?s ?c) = avl_thread (procs s ?c) - 1"
    using assms(1) by (simp_all add: upd_proc_def upd_thread_def)
  have t': "table_of_procs (lists ?s) (processTable ?s) ps" using assms(2) f(2,3) by simp
  obtain q where q: "q \<in> set ps" "q \<noteq> ?c" "can_run (procs s q)" using assms(6) by blast
  have "can_run (with_flag 1 ?s q)" using q(2,3) f(4,5) by (simp add: with_flag_def del: upd_proc_def)
  then obtain p where p: "is_choice (next_round ps (with_flag 1 ?s)) ps p"
      "schedule 1 ?s = Inr (switched p (next_round ps (with_flag 1 ?s)) ?s)"
    using schedule_ok(1)[OF f(1) t'] q(1) by blast
  have fl: "p_flag (next_round ps (with_flag 1 ?s) x) = p_flag (with_flag 1 ?s x)"
    "avl_thread (next_round ps (with_flag 1 ?s) x) = avl_thread (with_flag 1 ?s x)" for x
    by (simp_all add: next_round_def refilled_def)
  have c1: "p_flag (with_flag 1 ?s ?c) = 1" "avl_thread (with_flag 1 ?s ?c) = avl_thread (procs s ?c) - 1"
    using f(4,6) by (simp_all add: with_flag_def)
  have pc: "p \<noteq> ?c" using choiceD[OF p(1)] c1(1) unfolding ready_def fl by auto
  show ?thesis
    unfolding sleep p(2) using pc c1 n ne by (simp add: fl)
qed

theorem thread_sleep_stops_process_witness:
  "\<exists>s'. threadSleep 0xC0300000 (demo 3 \<lparr>procs := (procs (demo 3))
      (8 := (demo_proc 0 2 1 1)\<lparr>avl_thread := 2\<rparr>)\<rparr>) = Inr s' \<and> p_flag (procs s' 8) = 1 \<and> avl_thread (procs s' 8) \<noteq> 0"
proof -
  let ?s = "demo 3 \<lparr>procs := (procs (demo 3))(8 := (demo_proc 0 2 1 1)\<lparr>avl_thread := 2\<rparr>)\<rparr>"
  have t: "table_of_procs (lists ?s) (processTable ?s) [8, 16, 24]" using demo_table(2)[of "boot_memory (\<lambda>_. 0)" 3] by simp
  have r: "\<exists>q \<in> set [8, 16, 24]. q \<noteq> current_proc ?s \<and> can_run (procs ?s q)"
    by (intro bexI[of _ 16]) (simp_all add: can_run_def demo_proc_def ready_def positive_def)
  have "\<exists>s'. threadSleep 0xC0300000 ?s = Inr s' \<and> p_flag (procs s' (current_proc ?s)) = 1 \<and>
    avl_thread (procs s' (current_proc ?s)) \<noteq> 0 \<and> current_proc s' \<noteq> current_proc ?s \<and>
    unat (avl_thread (procs s' (current_proc ?s))) = unat (avl_thread (procs ?s (current_proc ?s))) - 1"
    by (rule thread_sleep_stops_process[OF _ t _ _ _ r]) (simp_all add: demo_system_def)
  then show ?thesis by auto
qed

lemma createProcess_ok:
  assumes inv: "free_inv (heap s) F" and rm: "5 \<le> room F" and lock: "scheduleLock s = 0"
    and dir: "good_block (table_of (p_cr3 (procs s (current_proc s)))) 12"
      "block (table_of (p_cr3 (procs s (current_proc s)))) 12 \<inter> free_area F = {}"
    and tab: "table_of_procs (lists s) (processTable s) (p0 # ps)"
    and ord: "in_order (\<lambda>p. pid (procs s p)) (p0 # ps)" and old: "\<And>p. p \<in> set (p0 # ps) \<Longrightarrow> unat p \<notin> free_area F"
    and len: "length ps < 2 ^ 31"
  shows "\<exists>p t us vs i c pg s' F'. (createProcess ip priv name prio s = Inr (p, s') \<and> ps = us @ vs \<and> p \<notin> set (p0 # ps) \<and>
    1 \<le> i \<and> i \<notin> (\<lambda>p. pid (procs s p)) ` set ps \<and> (\<forall>k. 1 \<le> k \<and> k < i \<longrightarrow> k \<in> (\<lambda>p. pid (procs s p)) ` set ps) \<and>
    table_of_procs (lists s') (processTable s') (p0 # us @ p # vs) \<and> in_order (\<lambda>p. pid (procs s' p)) (us @ p # vs) \<and>
    procs s' = (procs s)(p := new_process c t priv name prio i (procs s p)) \<and>
    threads s' = (threads s)(t := new_thread p ip 0xC0000000 priv 0 (regs (threads s t))) \<and>
    ring (lists s') (Thread_Head p) [Thread_List t] \<and> current_proc s' = current_proc s \<and> scheduleLock s' = 0 \<and>
    free_inv (heap s') F' \<and> address_space (heap s') F' c \<and>
    walk (heap s') c = (\<lambda>_. 0)(page_ix 0xBFFFFFFF := va2pa pg OR 0b11111) \<and>
    (\<forall>k. 768 \<le> unat k \<and> unat k < 1024 \<longrightarrow> kernel_half (heap s') c k =
      load_entry (table_of (p_cr3 (procs s (current_proc s)))) k (heap s))) \<and>
    room F = room F' + 5 \<and> free_area F' \<subseteq> free_area F \<and> unat p \<notin> free_area F' \<and>
    (\<forall>x. unat x \<notin> free_area F \<longrightarrow> mem (heap s') x = mem (heap s) x)"
proof -
  have r0: "0 < room F" using rm by simp
  obtain c h1 F1 where c: "createProcessPDE (p_cr3 (procs s (current_proc s))) (heap s) = Inr (c, h1)"
    "free_inv h1 F1" "address_space h1 F1 c" "walk h1 c = (\<lambda>_. 0)" "owned h1 c = [Directory \<mapsto> pa2va c]"
    "\<forall>k. 768 \<le> unat k \<and> unat k < 1024 \<longrightarrow> kernel_half h1 c k =
       load_entry (table_of (p_cr3 (procs s (current_proc s)))) k (heap s)"
    "free_area F1 = free_area F - block (pa2va c) 12" "block (pa2va c) 12 \<subseteq> free_area F"
    "\<forall>x. unat x \<notin> free_area F \<longrightarrow> mem h1 x = mem (heap s) x"
    using createProcessPDE_ok[OF inv r0 dir] by blast
  let ?s = "s\<lparr>heap := h1\<rparr>"
  have eq: "createProcess ip priv name prio s = newProcess c ip priv name prio ?s"
    using c(1) by (simp add: createProcess_def with_heap_def)
  have rm1: "4 \<le> room F1" using room_alloc[OF address_spaceD(3)[OF c(3)] c(8,7)] rm by simp
  have empty: "load_entry (pa2va c) i h1 = 0" if "user_entry i" for i
    using fun_cong[OF c(5), of "Table i"] that by (auto simp: Let_def split: if_splits)
  have tb: "processTable s = Proc_List p0" "ring (lists s) (processTable s) (map Proc_List ps)" using tab by auto
  have ord1: "in_order (\<lambda>p. pid (procs s p)) ps" and pos: "\<And>p. p \<in> set ps \<Longrightarrow> 1 \<le> pid (procs s p)"
  proof -
    show "in_order (\<lambda>p. pid (procs s p)) ps" using ord by (simp add: in_order_def)
    show "1 \<le> pid (procs s p)" if "p \<in> set ps" for p
    proof -
      have "pid (procs s p0) < pid (procs s p)" using ord that by (auto simp: in_order_def)
      then show ?thesis by (auto simp: word_le_nat_alt word_less_nat_alt)
    qed
  qed
  obtain p t us vs i pg s' F' where n: "newProcess c ip priv name prio ?s = Inr (p, s')" "ps = us @ vs"
    "gap_at (\<lambda>p. pid (procs s p)) 1 us vs i" "p \<notin> set ps"
    "procs s' = (procs s)(p := new_process c t priv name prio i (procs s p))"
    "threads s' = (threads s)(t := new_thread p ip 0xC0000000 priv 0 (regs (threads s t)))"
    "ring (lists s') (Thread_Head p) [Thread_List t]"
    "ring (lists s') (processTable s) (map Proc_List (us @ p # vs))"
    "in_order (\<lambda>p. pid (procs s' p)) (us @ p # vs)"
    "processTable s' = processTable s" "current_proc s' = current_proc s" "scheduleLock s' = 0"
    "free_inv (heap s') F'" "address_space (heap s') F' c"
    "walk (heap s') c = (walk h1 c)(page_ix 0xBFFFFFFF := va2pa pg OR 31)"
    "kernel_half (heap s') c = kernel_half h1 c"
    "room F1 = room F' + 4" "free_area F' \<subseteq> free_area F1" "unat p \<in> free_area F1 - free_area F'"
    "\<forall>x. unat x \<notin> free_area F1 \<union> footprint (owned h1 c) \<longrightarrow> mem (heap s') x = mem h1 x"
  proof -
    have sel: "heap ?s = h1" "scheduleLock ?s = scheduleLock s" "lists ?s = lists s" "processTable ?s = processTable s"
      "procs ?s = procs s" "threads ?s = threads s" "current_proc ?s = current_proc s" by simp_all
    have old1: "unat q \<notin> free_area F1" if "Proc_List q \<in> set (processTable s # map Proc_List ps)" for q
      using old[of q] that c(7) tb(1) by auto
    have ht: "processTable s \<noteq> Thread_Head q" "processTable s \<noteq> Thread_List q" for q using tb(1) by simp_all
    show thesis
      using that newProcess_ok[where s = ?s and F = F1 and c = c and ps = ps and ip = ip and priv = priv and name = name
          and prio = prio, unfolded sel, OF c(2,3) empty rm1 lock tb(2) ord1 pos old1 ht len] by blast
  qed
  note gf = gap_at_facts[OF n(3)[unfolded n(2)[symmetric]] ord1[unfolded n(2)], folded n(2)]
  have tab': "table_of_procs (lists s') (processTable s') (p0 # us @ p # vs)" using n(8,10) tb(1) by simp
  then have "p \<noteq> p0" by (auto simp: ring_def)
  then have pn: "p \<notin> set (p0 # ps)" using n(4) by simp
  have below: "\<forall>k. 1 \<le> k \<and> k < i \<longrightarrow> k \<in> (\<lambda>p. pid (procs s p)) ` set ps" using gf(2) n(2) by auto
  have rF: "room F = room F' + 5" using n(17) room_alloc[OF address_spaceD(3)[OF c(3)] c(8,7)] by simp
  have sF: "free_area F' \<subseteq> free_area F" using n(18) c(7) by blast
  have pF: "unat p \<notin> free_area F'" using n(19) by blast
  have fp: "footprint (owned h1 c) = block (pa2va c) 12" unfolding c(5) footprint_def by auto
  have fr: "\<forall>x. unat x \<notin> free_area F \<longrightarrow> mem (heap s') x = mem (heap s) x"
    using n(20) c(7-9) unfolding fp by auto
  show ?thesis
    by (rule exI[of _ p], rule exI[of _ t], rule exI[of _ us], rule exI[of _ vs], rule exI[of _ i], rule exI[of _ c],
        rule exI[of _ pg], rule exI[of _ s'], rule exI[of _ F'], intro conjI)
      (rule rF sF pF fr n(2,5-7,9,11-14) pn below tab' gf(1,3) | (simp only: eq n(1,15,16) c(4)) | (use c(6) n(16) in simp))+
qed

text \<open>
  C9. \<^verbatim>\<open>createProcess\<close> gives the new process the smallest PID from 1 on that no process of the
  table has and inserts it so that the table stays in order of the PIDs. The process is ready with
  full ticks, an empty queue and exactly one thread, number 0, that starts in user mode at the
  given address with its stack pointer at the top of a mapped stack page; its address space has
  the kernel half of the current one, and no other process changes.
\<close>

theorem createProcess_first_free_pid:
  assumes inv: "free_inv (heap s) F" and rm: "5 \<le> room F" and lock: "scheduleLock s = 0"
    and dir: "good_block (table_of (p_cr3 (procs s (current_proc s)))) 12"
      "block (table_of (p_cr3 (procs s (current_proc s)))) 12 \<inter> free_area F = {}"
    and tab: "table_of_procs (lists s) (processTable s) (p0 # ps)"
    and ord: "in_order (\<lambda>p. pid (procs s p)) (p0 # ps)" and old: "\<And>p. p \<in> set (p0 # ps) \<Longrightarrow> unat p \<notin> free_area F"
    and len: "length ps < 2 ^ 31"
  shows "\<exists>p t us vs i c pg s' F'. createProcess ip priv name prio s = Inr (p, s') \<and> ps = us @ vs \<and> p \<notin> set (p0 # ps) \<and>
    1 \<le> i \<and> i \<notin> (\<lambda>p. pid (procs s p)) ` set ps \<and> (\<forall>k. 1 \<le> k \<and> k < i \<longrightarrow> k \<in> (\<lambda>p. pid (procs s p)) ` set ps) \<and>
    table_of_procs (lists s') (processTable s') (p0 # us @ p # vs) \<and> in_order (\<lambda>p. pid (procs s' p)) (us @ p # vs) \<and>
    procs s' = (procs s)(p := new_process c t priv name prio i (procs s p)) \<and>
    threads s' = (threads s)(t := new_thread p ip 0xC0000000 priv 0 (regs (threads s t))) \<and>
    ring (lists s') (Thread_Head p) [Thread_List t] \<and> current_proc s' = current_proc s \<and> scheduleLock s' = 0 \<and>
    free_inv (heap s') F' \<and> address_space (heap s') F' c \<and>
    walk (heap s') c = (\<lambda>_. 0)(page_ix 0xBFFFFFFF := va2pa pg OR 0b11111) \<and>
    (\<forall>k. 768 \<le> unat k \<and> unat k < 1024 \<longrightarrow> kernel_half (heap s') c k =
      load_entry (table_of (p_cr3 (procs s (current_proc s)))) k (heap s))"
proof -
  note r = createProcess_ok[OF inv rm lock dir tab ord _ len]
  show ?thesis by (rule r[THEN ex_forward], erule old, elim ex_forward, erule conjunct1)
qed

lemma gap_one_three:
  fixes i :: u32
  assumes "\<forall>k. 1 \<le> k \<and> k < i \<longrightarrow> k \<in> {1, 3}" "i \<notin> {1, 3}" "1 \<le> i"
  shows "i = 2"
proof -
  have "\<not> 2 < i" using assms(1)[rule_format, of 2] by auto
  moreover have "i \<noteq> 1" using assms(2) by simp
  ultimately have "unat i \<le> 2" "1 \<le> unat i" "unat i \<noteq> 1"
    using assms(3) by (simp_all add: word_less_nat_alt word_le_nat_alt word_unat_eq_iff)
  then have "unat i = 2" by linarith
  then show ?thesis by (simp add: word_unat_eq_iff)
qed

theorem createProcess_first_free_pid_witness:
  "\<exists>h s' p. createProcess 0x1000 3 [] 7 (demo_system h 1) = Inr (p, s') \<and> pid (procs s' p) = 2 \<and>
     table_of_procs (lists s') (processTable s') [8, 16, p, 24]"
proof -
  obtain h F where h: "free_inv h F" "free_area F = {0xC0100000 ..< 0xC0110000}" "16 \<le> room F"
    by (rule heap_16_pages)
  let ?s = "demo_system h 1"
  have d: "good_block (table_of (p_cr3 (procs ?s (current_proc ?s)))) 12"
    "block (table_of (p_cr3 (procs ?s (current_proc ?s)))) 12 \<inter> free_area F = {}"
    unfolding h(2) by (auto simp: demo_proc_def table_of_def pa2va_def good_block_def block_def)
  have i: "free_inv (heap ?s) F" "5 \<le> room F" using h(1,3) by simp_all
  have o: "in_order (\<lambda>p. pid (procs ?s p)) [8, 16, 24]" by (simp add: in_order_def demo_proc_def)
  have n: "unat p \<notin> free_area F" if "p \<in> set [8, 16, 24]" for p :: u32 using that unfolding h(2) by auto
  have l: "length [16, 24 :: u32] < 2 ^ 31" by simp
  obtain p t us vs i c s' where r: "createProcess 0x1000 3 [] 7 ?s = Inr (p, s')" "[16, 24] = us @ vs"
    "1 \<le> i" "i \<notin> (\<lambda>p. pid (procs ?s p)) ` set [16, 24]"
    "\<forall>k. 1 \<le> k \<and> k < i \<longrightarrow> k \<in> (\<lambda>p. pid (procs ?s p)) ` set [16, 24]"
    "table_of_procs (lists s') (processTable s') (8 # us @ p # vs)" "in_order (\<lambda>p. pid (procs s' p)) (us @ p # vs)"
    "procs s' = (procs ?s)(p := new_process c t 3 [] 7 i (procs ?s p))" "p \<notin> set [8, 16, 24]"
    using createProcess_first_free_pid[OF i(1,2) demo_fields(1) d demo_table(2) o n l, where ip = "0x1000" and priv = 3 and name = "[]" and prio = 7] by blast
  have pids: "(\<lambda>p. pid (procs ?s p)) ` set [16, 24] = {1, 3}" by (simp add: demo_proc_def)
  have i2: "i = 2" by (rule gap_one_three[OF r(5)[unfolded pids] r(4)[unfolded pids] r(3)])
  have pd: "pid (procs s' p) = 2" "pid (procs s' 16) = 1" "pid (procs s' 24) = 3"
    using r(8,9) i2 by (simp_all add: new_process_def demo_proc_def)
  have "us = [16] \<and> vs = [24]"
    using r(2,7) pd by (auto simp: Cons_eq_append_conv in_order_def)
  then show ?thesis using r(1,6) pd(1) by auto
qed

section \<open>Messages\<close>

text \<open>A message is the sender in the high word and the page-table entry of its page in the low one.\<close>

definition message_of :: "u32 \<Rightarrow> u32 \<Rightarrow> u64" where
  "message_of sender page = push_bit 32 (ucast sender) OR ucast page"

lemma message_of_page [simp]: "(ucast (message_of i e) :: u32) = e"
  by (rule bit_word_eqI) (auto simp: message_of_def bit_simps)

lemma message_of_sender [simp]: "(ucast (drop_bit 32 (message_of i e)) :: u32) = i"
proof (rule bit_word_eqI)
  fix n assume "n < LENGTH(32)"
  moreover have "\<not> bit e (32 + n)" using bit_imp_le_length[of e "32 + n"] by auto
  ultimately show "bit (ucast (drop_bit 32 (message_of i e)) :: u32) n = bit i n"
    by (auto simp: message_of_def bit_simps)
qed

lemma getProcessById_table:
  assumes "table_of_procs (lists s) (processTable s) (p0 # ps)"
  shows "getProcessById i s = Some (List.find (\<lambda>p. pid (procs s p) = i) ps)"
proof -
  let ?q = "\<lambda>n. pid (procs s (proc_entry n)) = i"
  have r: "ring (lists s) (processTable s) (map Proc_List ps)" and t: "processTable s = Proc_List p0" using assms by auto
  have dist: "processTable s \<notin> set (map Proc_List ps)" using r by (auto simp: ring_def)
  have "list_find ?q (processTable s) (lists s) =
      Some (hd (dropWhile (\<lambda>x. \<not> ?q x) (map Proc_List ps) @ [processTable s]))"
    by (rule list_find_ring[OF r])
  moreover have "(if hd (dropWhile (\<lambda>x. \<not> ?q x) (map Proc_List ps) @ [processTable s]) = processTable s then None
      else Some (proc_entry (hd (dropWhile (\<lambda>x. \<not> ?q x) (map Proc_List ps) @ [processTable s])))) =
      List.find (\<lambda>p. pid (procs s p) = i) ps"
    using dist by (induction ps) auto
  ultimately show ?thesis by (simp add: getProcessById_def)
qed

lemma waiting_thread_first:
  assumes "ring (lists s) (Thread_Head p) (map Thread_List ts)" "in_state s 2 ts \<noteq> 0"
  obtains us t vs where "ts = us @ t # vs" "waiting_thread p s = Some t" "t_flag (threads s t) = 2"
    "\<And>u. u \<in> set us \<Longrightarrow> t_flag (threads s u) \<noteq> 2"
proof -
  have "\<exists>t \<in> set ts. t_flag (threads s t) = 2"
    using assms(2) by (auto simp: in_state_def filter_empty_conv)
  then obtain us t vs where t: "ts = us @ t # vs" "t_flag (threads s t) = 2" "\<forall>u \<in> set us. t_flag (threads s u) \<noteq> 2"
    using split_list_first_prop[of ts "\<lambda>t. t_flag (threads s t) = 2"] by blast
  let ?q = "\<lambda>n. t_flag (threads s (thread_entry n)) = 2"
  have "dropWhile (\<lambda>x. \<not> ?q x) (map Thread_List ts) = map Thread_List (t # vs)"
    unfolding t(1) map_append using t(2,3) by (subst dropWhile_append2) auto
  then have "list_find ?q (Thread_Head p) (lists s) = Some (Thread_List t)"
    using list_find_ring[OF assms(1), of ?q] by simp
  then have "waiting_thread p s = Some t" by (simp add: waiting_thread_def)
  then show ?thesis using that t by blast
qed

lemma open_one_page:
  "open_physical_memory c phy la 1 flag h = and_then (open_physical_page c phy la flag h)
     (\<lambda>(r, h). Inr (if r = -1 then -1 else 0, h))"
proof -
  have z: "open_physical_memory c p l 0 flag k = Inr (0, k)" for p l k by (subst open_physical_memory.simps) simp
  show ?thesis
    by (subst open_physical_memory.simps)
      (auto simp: z and_then_def split: sum.splits)
qed

lemma entry_present: "BIT_TEST e 0 \<Longrightarrow> e \<noteq> 0"
  by (auto simp: BIT_TEST_def)

lemma leaf_page_plain: "e \<noteq> 0 \<Longrightarrow> e AND PAGE_TYPE_PHY = 0 \<Longrightarrow> leaf_page e = Some (table_of e)"
  by (simp add: leaf_page_def)

lemma table_of_mask: "pa2va (e AND NOT 0xFFF) = table_of e"
  by (simp add: table_of_def)

text \<open>The exchange of the page of an entry for a fresh page: the old one belongs to nobody then.\<close>

lemma swap_page:
  assumes inv: "free_inv h F" and as: "address_space h F c" and r: "0 < room F" and la: "la < PAGE_OFFSET"
    and e: "walk h c (page_ix la) = e" "e \<noteq> 0" "e AND PAGE_TYPE_PHY = 0"
  obtains n h1 h2 F' where "allocPhysicalPage h = Inr (va2pa n, h1)"
    "h2 = store_entry (table_of (load_entry (pa2va c) (va2pde la) h)) (va2pte la) (va2pa n OR 31) h1"
    "good_block n 12" "free_inv h2 F'" "address_space h2 F' c"
    "walk h2 c = (walk h c)(page_ix la := va2pa n OR 31)" "kernel_half h2 c = kernel_half h c"
    "good_block (table_of e) 12" "block (table_of e) 12 \<inter> (free_area F' \<union> footprint (owned h2 c)) = {}"
    "free_area F' \<union> footprint (owned h2 c) \<union> block (table_of e) 12 = free_area F \<union> footprint (owned h c)"
    "\<And>x. unat x \<notin> free_area F \<union> footprint (owned h c) \<Longrightarrow> mem h2 x = mem h x" "room F = Suc (room F')"
    "free_area F' \<subseteq> free_area F" "\<And>x. unat x \<in> block (table_of e) 12 \<Longrightarrow> mem h2 x = mem h x"
    "owned h c (Leaf (va2pde la) (va2pte la)) = Some (table_of e)"
    "owned h c (Table (va2pde la)) = Some (table_of (load_entry (pa2va c) (va2pde la) h))"
    "\<And>x. unat x \<notin> free_area F \<union> block (table_of (load_entry (pa2va c) (va2pde la) h)) 12 \<Longrightarrow> mem h2 x = mem h x"
proof -
  note asd = address_spaceD[OF as] and up = user_page[OF la]
  let ?i = "va2pde la" and ?j = "va2pte la"
  let ?t = "table_of (load_entry (pa2va c) ?i h)"
  obtain n h1 F1 where n: "allocPhysicalPage h = Inr (va2pa n, h1)" "good_block n 12"
    "free_inv h1 F1" "address_space h1 F1 c" "owned h1 c = owned h c" "walk h1 c = walk h c"
    "kernel_half h1 c = kernel_half h c" "new_page h1 F1 c (Some n)"
    "free_area F = free_area F1 \<union> block n 12" "\<And>x. unat x \<notin> free_area F1 \<Longrightarrow> mem h1 x = mem h x"
    "\<And>i. unat i < 1024 \<Longrightarrow> load_entry (pa2va c) i h1 = load_entry (pa2va c) i h" "room F = Suc (room F1)"
    using alloc_new_page[OF inv as r] by metis
  have pi: "page_ix la = (?i, ?j)" by (simp add: page_ix_def)
  have ne: "load_entry (pa2va c) ?i h \<noteq> 0" using e(1,2) unfolding pi by (auto simp: walk_def Let_def)
  have ne1: "load_entry (pa2va c) ?i h1 \<noteq> 0" and t1: "table_of (load_entry (pa2va c) ?i h1) = ?t"
    using ne n(11)[OF va2pde_bound] by simp_all
  note ok1 = address_spaceD(2)[OF n(4)]
  define h2 where "h2 = store_entry ?t ?j (va2pa n OR 31) h1"
  note sl = set_leaf[OF ok1 up ne1 va2pte_bound[of la], where v = "va2pa n OR 31", unfolded t1, folded h2_def]
  have ow: "owned h c (Leaf ?i ?j) = Some (table_of e)"
    using e leaf_page_plain unfolding pi by simp
  have own2: "owned h2 c = (owned h c)(Leaf ?i ?j \<mapsto> n)" using sl(2) n(2,5) by simp
  note a = pages_okD[OF asd(2) ow]
  have nd: "owned h c r \<noteq> Some n" for r
  proof
    assume "owned h c r = Some n"
    then have "unat n \<in> footprint (owned h1 c)" using footprintI[of "owned h1 c" r n] n(5) block_self[of n 12] by simp
    then show False using n(8) block_self[of n 12] unfolding new_page_def by blast
  qed
  have nF: "block n 12 \<inter> free_area F1 = {}" using n(8) unfolding new_page_def by blast
  have ok2: "pages_ok (owned h2 c) (free_area F1)"
    unfolding own2 by (rule pages_ok_upd[OF _ n(2) nF nd]) (use ok1 n(5) in simp)
  have o: "owned h c (Table ?i) = Some ?t" using up ne by simp
  note t = pages_okD(1,2)[OF asd(2) o]
  have tF: "block ?t 12 \<inter> free_area F1 = {}" using t(2) n(9) by blast
  have inv2: "free_inv h2 F1" unfolding h2_def by (rule store_entry_inv[OF n(3) t(1) tF va2pte_bound])
  have as2: "address_space h2 F1 c" unfolding address_space_def using ok2 asd(1) by blast
  have na: "n \<noteq> table_of e" using nd[of "Leaf ?i ?j"] ow by auto
  have fp2: "footprint (owned h2 c) \<union> block (table_of e) 12 = footprint (owned h c) \<union> block n 12"
  proof -
    have "ran ((owned h c)(Leaf ?i ?j \<mapsto> n)) \<union> {table_of e} = ran (owned h c) \<union> {n}"
    proof (intro set_eqI iffI)
      fix x assume "x \<in> ran ((owned h c)(Leaf ?i ?j \<mapsto> n)) \<union> {table_of e}"
      then show "x \<in> ran (owned h c) \<union> {n}" using ow by (auto simp: ran_def simp del: owned.simps split: if_splits)
    next
      fix x assume "x \<in> ran (owned h c) \<union> {n}"
      then show "x \<in> ran ((owned h c)(Leaf ?i ?j \<mapsto> n)) \<union> {table_of e}"
      proof
        assume "x \<in> ran (owned h c)"
        then obtain r where r: "owned h c r = Some x" by (auto simp: ran_def)
        then have "r = Leaf ?i ?j \<Longrightarrow> x = table_of e" using ow by simp
        then show ?thesis using r by (cases "r = Leaf ?i ?j") (auto simp: ran_def)
      qed (auto simp: ran_def)
    qed
    then show ?thesis unfolding own2 footprint_def by (metis (no_types, lifting) UN_Un UN_insert UN_empty Un_empty_right)
  qed
  have inj2: "block (table_of e) 12 \<inter> footprint (owned h2 c) = {}"
  proof -
    have "block (table_of e) 12 \<inter> block b 12 = {}" if "owned h2 c r = Some b" for r b
    proof (cases "r = Leaf ?i ?j")
      case True
      then show ?thesis using that own2 page_blocks_disjoint[OF a(1) n(2)] na by auto
    next
      case False
      then have ob: "owned h c r = Some b" using that own2 by simp
      then have "b \<noteq> table_of e" using a(3) False by blast
      then show ?thesis using page_blocks_disjoint[OF a(1) pages_okD(1)[OF asd(2) ob]] by blast
    qed
    then show ?thesis unfolding footprint_def ran_def by blast
  qed
  have fr: "mem h2 x = mem h x" if x: "unat x \<notin> free_area F \<union> footprint (owned h c)" for x
  proof -
    have "unat x \<notin> block ?t 12" using x footprintI[of "owned h c" "Table ?i" ?t "unat x"] o by blast
    moreover have "unat x \<notin> free_area F1" using x n(9) by blast
    ultimately show ?thesis unfolding h2_def using store_outside[OF t(1) va2pte_bound] n(10) by simp
  qed
  have "table_of e \<noteq> ?t" using pages_okD(3)[OF asd(2) ow, of "Table ?i"] o by auto
  then have te: "block (table_of e) 12 \<inter> block ?t 12 = {}" by (rule page_blocks_disjoint[OF a(1) t(1)])
  have msg: "mem h2 x = mem h x" if "unat x \<in> block (table_of e) 12" for x
  proof -
    have "unat x \<notin> block ?t 12" using that te by blast
    moreover have "unat x \<notin> free_area F1" using that a(2) n(9) by blast
    ultimately show ?thesis unfolding h2_def using store_outside[OF t(1) va2pte_bound] n(10) by simp
  qed
  have frt: "mem h2 x = mem h x" if "unat x \<notin> free_area F \<union> block ?t 12" for x
    using that n(9,10) store_outside[OF t(1) va2pte_bound] unfolding h2_def by auto
  show ?thesis
  proof (rule that[OF n(1) h2_def n(2) inv2 as2 _ _ a(1)])
    show "walk h2 c = (walk h c)(page_ix la := va2pa n OR 31)" using sl(1) n(6) pi by simp
    show "kernel_half h2 c = kernel_half h c" using sl(3) n(7) by simp
    show "block (table_of e) 12 \<inter> (free_area F1 \<union> footprint (owned h2 c)) = {}" using inj2 a(2) n(9) by blast
    show "free_area F1 \<union> footprint (owned h2 c) \<union> block (table_of e) 12 = free_area F \<union> footprint (owned h c)"
      using fp2 n(9) by blast
  qed (use fr n(9,12) msg ow o frt in \<open>auto simp del: owned.simps\<close>)
qed

text \<open>The page a process may send from: mapped, page aligned, in the user half and not \<^verbatim>\<open>PAGE_TYPE_PHY\<close>.\<close>

definition cur_cr3 :: "system \<Rightarrow> u32" where
  "cur_cr3 s = p_cr3 (procs s (current_proc s))"

definition cur_entry :: "system \<Rightarrow> u32 \<Rightarrow> u32" where
  "cur_entry s la = walk (heap s) (cur_cr3 s) (page_ix la)"

definition sendable :: "system \<Rightarrow> u32 \<Rightarrow> bool" where
  "sendable s la \<longleftrightarrow> la < PAGE_OFFSET \<and> la AND 0xFFF = 0 \<and>
     BIT_TEST (load_entry (pa2va (cur_cr3 s)) (va2pde la) (heap s)) 0 \<and>
     BIT_TEST (cur_entry s la) 0 \<and> cur_entry s la AND PAGE_TYPE_PHY = 0"

definition sender_id :: "u32 \<Rightarrow> system \<Rightarrow> u32" where
  "sender_id ebx s = (if ebx = 0 then pid (procs s (current_proc s)) else ebx)"

lemma send_condition:
  fixes la :: u32
  assumes "address_space (heap s) F (cur_cr3 s)"
  defines "d \<equiv> table_of (cur_cr3 s)"
  defines "e \<equiv> load_entry (table_of (load_entry d (va2pde la) (heap s))) (va2pte la) (heap s)"
  shows "(la < PAGE_OFFSET \<and> la AND 0xFFF = 0 \<and> BIT_TEST (load_entry d (va2pde la) (heap s)) 0 \<and>
      BIT_TEST e 0 \<and> e AND PAGE_TYPE_PHY = 0) = sendable s la"
    and "sendable s la \<Longrightarrow> e = cur_entry s la"
proof -
  note asd = address_spaceD[OF assms(1)]
  have w: "e = cur_entry s la" if "la < PAGE_OFFSET" "BIT_TEST (load_entry d (va2pde la) (heap s)) 0"
    unfolding e_def d_def asd(5) cur_entry_def page_ix_def
    using walk_entry[OF user_page[OF that(1)] va2pte_bound] that(2) entry_present unfolding d_def asd(5) by blast
  show "(la < PAGE_OFFSET \<and> la AND 0xFFF = 0 \<and> BIT_TEST (load_entry d (va2pde la) (heap s)) 0 \<and>
      BIT_TEST e 0 \<and> e AND PAGE_TYPE_PHY = 0) = sendable s la"
    unfolding sendable_def using w unfolding d_def asd(5) by blast
  show "sendable s la \<Longrightarrow> e = cur_entry s la"
    using w unfolding sendable_def d_def asd(5) by blast
qed

lemma lock_roundtrip:
  "scheduleLock s = 0 \<Longrightarrow> (set_ax t v (s\<lparr>scheduleLock := 1\<rparr>))\<lparr>scheduleLock := 0\<rparr> = set_ax t v s"
  by (simp add: set_ax_def upd_thread_def)

lemma send_start:
  assumes as: "address_space (heap s) F (cur_cr3 s)" and ok: "sendable s la"
  shows "table_of (p_cr3 (procs s (current_proc s))) = pa2va (cur_cr3 s)"
    "la < PAGE_OFFSET" "la AND 0xFFF = 0" "BIT_TEST (load_entry (pa2va (cur_cr3 s)) (va2pde la) (heap s)) 0"
    "load_entry (table_of (load_entry (pa2va (cur_cr3 s)) (va2pde la) (heap s))) (va2pte la) (heap s) = cur_entry s la"
    "BIT_TEST (cur_entry s la) 0" "cur_entry s la AND PAGE_TYPE_PHY = 0" "cur_entry s la \<noteq> 0"
  using send_condition[OF as, of la] ok address_spaceD(5)[OF as] entry_present
  unfolding cur_cr3_def sendable_def by auto

definition old_pte :: "system \<Rightarrow> u32 \<Rightarrow> u32" where
  "old_pte s la = table_of (load_entry (pa2va (cur_cr3 s)) (va2pde la) (heap s))"

lemma send_unsendable:
  assumes as: "address_space (heap s) F (cur_cr3 s)" and no: "\<not> sendable s la"
  shows "syscall_send edx la ebx s = Inr (set_ax (current_thread s) (-2) s)"
  using send_condition(1)[OF as, of la] no unfolding syscall_send_def Let_def cur_cr3_def by (auto simp only: if_False)

lemma send_target:
  assumes "scheduleLock s = 0" "table_of_procs (lists s) (processTable s) (p0 # ps)"
  shows "getProcessById edx (s\<lparr>scheduleLock := 1\<rparr>) = Some (List.find (\<lambda>p. pid (procs s p) = edx) ps)"
  using getProcessById_table[of "s\<lparr>scheduleLock := 1\<rparr>" p0 ps edx] assms(2) by auto

lemma send_no_process:
  assumes as: "address_space (heap s) F (cur_cr3 s)" and ok: "sendable s la" and l: "scheduleLock s = 0"
    and tab: "table_of_procs (lists s) (processTable s) (p0 # ps)" and no: "List.find (\<lambda>p. pid (procs s p) = edx) ps = None"
  shows "syscall_send edx la ebx s = Inr (set_ax (current_thread s) (-1) s)"
  using send_start[OF as ok] send_target[OF l tab, of edx] no l
  by (simp add: syscall_send_def Let_def lock_roundtrip)

lemma send_full:
  assumes as: "address_space (heap s) F (cur_cr3 s)" and ok: "sendable s la" and l: "scheduleLock s = 0"
    and tab: "table_of_procs (lists s) (processTable s) (p0 # ps)" and p: "List.find (\<lambda>p. pid (procs s p) = edx) ps = Some p"
    and r: "receiving (procs s p) = 0" "\<not> count (messages (procs s p)) < of_nat MAX_MESSAGE_COUNT"
  shows "syscall_send edx la ebx s = Inr (set_ax (current_thread s) 0 s)"
  using send_start[OF as ok] send_target[OF l tab, of edx] p r l
  by (simp add: syscall_send_def Let_def lock_roundtrip)

lemma send_queue:
  assumes as: "address_space (heap s) F (cur_cr3 s)" and ok: "sendable s la" and l: "scheduleLock s = 0"
    and tab: "table_of_procs (lists s) (processTable s) (p0 # ps)" and p: "List.find (\<lambda>p. pid (procs s p) = edx) ps = Some p"
    and r: "receiving (procs s p) = 0" "count (messages (procs s p)) < of_nat MAX_MESSAGE_COUNT"
    and al: "allocPhysicalPage (heap s) = Inr (new, h1)"
  shows "syscall_send edx la ebx s = Inr (set_ax (current_thread s) 1 (put_message p
     (message_of (sender_id ebx s) (cur_entry s la))
     (s\<lparr>heap := store_entry (old_pte s la) (va2pte la) (new OR PAGE_PRESENT) h1\<rparr>)))"
  using send_start[OF as ok] send_target[OF l tab, of edx] p r l al
  by (simp add: syscall_send_def Let_def message_of_def sender_id_def old_pte_def with_heap_def)
    (simp add: set_ax_def upd_thread_def put_message_def upd_proc_def)

lemma send_wake:
  assumes as: "address_space (heap s) F (cur_cr3 s)" and ok: "sendable s la" and l: "scheduleLock s = 0"
    and tab: "table_of_procs (lists s) (processTable s) (p0 # ps)" and p: "List.find (\<lambda>p. pid (procs s p) = edx) ps = Some p"
    and r: "receiving (procs s p) \<noteq> 0" and w: "waiting_thread p s = Some t"
    and op: "open_physical_memory (p_cr3 (procs s p)) (cur_entry s la AND NOT 0xFFF) (reg_cx (regs (threads s t))) 1 0 (heap s)
       = Inr (x, h1)"
    and al: "allocPhysicalPage h1 = Inr (new, h2)"
  shows "syscall_send edx la ebx s = Inr (set_ax (current_thread s) 1 (threadAwake t (set_ax t (sender_id ebx s)
     (upd_proc p (\<lambda>pr. pr\<lparr>receiving := receiving pr - 1\<rparr>)
     (s\<lparr>heap := store_entry (old_pte s la) (va2pte la) (new OR PAGE_PRESENT) h2\<rparr>)))))"
proof -
  let ?s = "upd_proc p (\<lambda>pr. pr\<lparr>receiving := receiving pr - 1\<rparr>) (s\<lparr>scheduleLock := 1\<rparr>)"
  have sel: "lists ?s = lists s" "threads ?s = threads s" by (simp_all add: upd_proc_def)
  have "waiting_thread p ?s = waiting_thread p s" unfolding waiting_thread_def sel ..
  then have w': "waiting_thread p ?s = Some t" using w by simp
  show ?thesis
    using send_start[OF as ok] send_target[OF l tab, of edx] p r l w' op al
    by (simp add: syscall_send_def Let_def sender_id_def old_pte_def with_heap_def set_ax_def upd_thread_def upd_proc_def
        threadAwake_def)
qed

text \<open>The status a sender is to get: this is the contract of the call, not code.\<close>

definition send_status :: "u32 \<Rightarrow> u32 \<Rightarrow> u32 list \<Rightarrow> system \<Rightarrow> u32" where
  "send_status edx ecx ps s =
     (if \<not> sendable s ecx then -2
      else case List.find (\<lambda>p. pid (procs s p) = edx) ps of
        None \<Rightarrow> -1
      | Some p \<Rightarrow> if receiving (procs s p) = 0 \<and> MAX_MESSAGE_COUNT \<le> length (ring_contents (messages (procs s p))) then 0 else 1)"

lemma ax_after [simp]: "reg_ax (regs (threads (set_ax t v s) t)) = v"
  by (simp add: set_ax_def upd_thread_def)

lemma queue_room: "count (messages (procs s p)) < of_nat MAX_MESSAGE_COUNT \<longleftrightarrow>
    length (ring_contents (messages (procs s p))) < MAX_MESSAGE_COUNT"
  using count_lt[of "count (messages (procs s p))"] by simp

lemma send_one:
  assumes as: "address_space (heap s) F (cur_cr3 s)" and l: "scheduleLock s = 0"
    and tab: "table_of_procs (lists s) (processTable s) (p0 # ps)" and st: "send_status edx la ps s = 1"
    and run: "syscall_send edx la ebx s = Inr s'"
  shows "reg_ax (regs (threads s' (current_thread s))) = 1"
proof -
  obtain p where ok: "sendable s la" and p: "List.find (\<lambda>p. pid (procs s p) = edx) ps = Some p"
    and room: "receiving (procs s p) \<noteq> 0 \<or> count (messages (procs s p)) < of_nat MAX_MESSAGE_COUNT"
    using st unfolding queue_room send_status_def by (auto split: if_splits option.splits)
  let ?s = "upd_proc p (\<lambda>pr. pr\<lparr>receiving := receiving pr - 1\<rparr>) (s\<lparr>scheduleLock := 1\<rparr>)"
  show ?thesis
  proof (cases "receiving (procs s p) = 0")
    case True
    then have r: "count (messages (procs s p)) < of_nat MAX_MESSAGE_COUNT" using room by simp
    obtain new h1 where al: "allocPhysicalPage (heap s) = Inr (new, h1)"
      using run send_start[OF as ok] send_target[OF l tab, of edx] p l True r
      by (auto simp: syscall_send_def Let_def with_heap_def and_then_def split: sum.splits)
    show ?thesis using send_queue[OF as ok l tab p True r al, of ebx] run by auto
  next
    case False
    have sel: "lists ?s = lists s" "threads ?s = threads s" by (simp_all add: upd_proc_def)
    have wt: "waiting_thread p ?s = waiting_thread p s" unfolding waiting_thread_def sel ..
    obtain t where w: "waiting_thread p s = Some t"
      using run send_start[OF as ok] send_target[OF l tab, of edx] p l False wt
      by (auto simp: syscall_send_def Let_def split: option.splits)
    obtain x h1 where op: "open_physical_memory (p_cr3 (procs s p)) (cur_entry s la AND NOT 0xFFF) (reg_cx (regs (threads s t))) 1 0 (heap s)
       = Inr (x, h1)"
      using run send_start[OF as ok] send_target[OF l tab, of edx] p l False wt w
      by (auto simp: syscall_send_def Let_def with_heap_def and_then_def set_ax_def upd_thread_def upd_proc_def split: sum.splits)
    obtain new h2 where al: "allocPhysicalPage h1 = Inr (new, h2)"
      using run send_start[OF as ok] send_target[OF l tab, of edx] p l False wt w op
      by (auto simp: syscall_send_def Let_def with_heap_def and_then_def set_ax_def upd_thread_def upd_proc_def split: sum.splits)
    show ?thesis using send_wake[OF as ok l tab p False w op al, of ebx] run by auto
  qed
qed

lemma receive_next:
  assumes as: "address_space (heap s) F (cur_cr3 s)" and la: "la < PAGE_OFFSET" "la AND 0xFFF = 0"
    and un: "cur_entry s la = 0" and l: "scheduleLock s = 0" and n: "count (messages (procs s (current_proc s))) \<noteq> 0"
    and m: "ring_get (messages (procs s (current_proc s))) = (message_of i e, q)"
    and op: "open_physical_page (cur_cr3 s) (e AND NOT 0xFFF) la 0 (heap s) = Inr (0, h1)"
  shows "syscall_receive la s = Inr (set_ax (current_thread s) i
    (upd_proc (current_proc s) (\<lambda>p. p\<lparr>messages := q\<rparr>) (s\<lparr>heap := h1\<rparr>)))"
proof -
  note asd = address_spaceD[OF as]
  let ?pte = "table_of (load_entry (pa2va (cur_cr3 s)) (va2pde la) (heap s))"
  have nm: "(BIT_TEST (load_entry (pa2va (cur_cr3 s)) (va2pde la) (heap s)) 0 \<and>
      BIT_TEST (load_entry ?pte (va2pte la) (heap s)) 0) = False"
  proof (simp only: eq_False, rule notI)
    assume b: "BIT_TEST (load_entry (pa2va (cur_cr3 s)) (va2pde la) (heap s)) 0 \<and>
      BIT_TEST (load_entry ?pte (va2pte la) (heap s)) 0"
    then have "load_entry ?pte (va2pte la) (heap s) = cur_entry s la"
      unfolding cur_entry_def page_ix_def using walk_entry[OF user_page[OF la(1)] va2pte_bound] entry_present by blast
    then show False using b un entry_present by metis
  qed
  have c: "p_cr3 (procs s (current_proc s)) = cur_cr3 s" by (simp add: cur_cr3_def)
  have op1: "open_physical_memory (cur_cr3 s) (e AND NOT 0xFFF) la 1 0 (heap s) = Inr (0, h1)"
    using op by (simp add: open_one_page)
  show ?thesis
    using la l n m op1 unfolding syscall_receive_def Let_def c asd(5) nm
    by (simp add: with_heap_def upd_proc_def set_ax_def upd_thread_def c)
qed

text \<open>What another address space keeps when a process exchanges one of its pages.\<close>

lemma other_space:
  assumes as: "address_space h F c" and dj: "footprint (owned h c) \<inter> A = {}"
    and fr: "\<And>x. unat x \<notin> free_area F \<union> A \<Longrightarrow> mem h' x = mem h x" and sub: "free_area F' \<subseteq> free_area F"
  shows "address_space h' F' c" "owned h' c = owned h c" "walk h' c = walk h c" "kernel_half h' c = kernel_half h c"
proof -
  note asd = address_spaceD[OF as]
  have ok: "pages_ok (owned h c) (free_area F \<union> A)"
    unfolding pages_ok_def using asd(2) dj footprintI[of "owned h c"] unfolding pages_ok_def
    by (simp add: Int_Un_distrib) (meson disjoint_iff)
  show o: "owned h' c = owned h c" and "walk h' c = walk h c" "kernel_half h' c = kernel_half h c"
    using same_space(1-3)[OF ok] fr by blast+
  have "free_area F' \<subseteq> free_area F \<union> A" using sub by blast
  then show "address_space h' F' c"
    unfolding address_space_def o using asd(1) pages_ok_mono[OF ok] by blast
qed

lemma entry_frame: "good_block (table_of e) 12 \<Longrightarrow> e AND NOT 0xFFF = va2pa (table_of e)"
  by (simp add: table_of_def)

text \<open>
  Two address spaces on one heap, the first with a page mapped at \<open>0x400000\<close>, and a system where
  process 8 runs on the first and process 16 has the second.
\<close>

lemma demo_spaces:
  obtains h F c d where "free_inv h F" "address_space h F c" "address_space h F d" "2 \<le> room F"
    "footprint (owned h d) \<inter> footprint (owned h c) = {}" "walk h d = (\<lambda>_. 0)"
    "BIT_TEST (load_entry (pa2va c) (va2pde 0x400000) h) 0" "\<exists>a. good_block a 12 \<and> walk h c (page_ix 0x400000) = va2pa a OR 31"
proof -
  obtain h0 F0 where s: "free_inv h0 F0" "free_area F0 = {0xC0100000 ..< 0xC0110000}" "16 \<le> room F0"
    by (rule heap_16_pages)
  have t: "table_of 0x200000 = 0xC0200000" by (simp add: table_of_def pa2va_def)
  have g: "good_block (table_of 0x200000) 12" "block (table_of 0x200000) 12 \<inter> free_area F0 = {}"
    unfolding s(2) t by (auto simp: good_block_def block_def)
  have r0: "0 < room F0" using s(3) by simp
  obtain c h1 F1 where c: "free_inv h1 F1" "address_space h1 F1 c" "walk h1 c = (\<lambda>_. 0)" "owned h1 c = [Directory \<mapsto> pa2va c]"
    "free_area F1 = free_area F0 - block (pa2va c) 12" "block (pa2va c) 12 \<subseteq> free_area F0"
    using createProcessPDE_ok[OF s(1) r0 g] by blast
  have rm1: "15 \<le> room F1" using room_alloc[OF address_spaceD(3)[OF c(2)] c(6,5)] s(3) by simp
  then have r1: "0 < room F1" by simp
  have g1: "block (table_of 0x200000) 12 \<inter> free_area F1 = {}" using g(2) c(5) by blast
  obtain d h2 F2 where d: "free_inv h2 F2" "address_space h2 F2 d" "walk h2 d = (\<lambda>_. 0)" "owned h2 d = [Directory \<mapsto> pa2va d]"
    "free_area F2 = free_area F1 - block (pa2va d) 12" "block (pa2va d) 12 \<subseteq> free_area F1"
    "\<forall>x. unat x \<notin> free_area F1 \<longrightarrow> mem h2 x = mem h1 x"
    using createProcessPDE_ok[OF c(1) r1 g(1) g1] by blast
  have rm2: "14 \<le> room F2" using room_alloc[OF address_spaceD(3)[OF d(2)] d(6,5)] rm1 by simp
  have sub2: "free_area F2 \<subseteq> free_area F1" using d(5) by blast
  have c2: "address_space h2 F2 c" "owned h2 c = owned h1 c" "walk h2 c = walk h1 c"
    using alloc_from_outside(1-3)[OF c(2) sub2, of h2] d(7) by blast+
  have dj: "footprint (owned h2 d) \<inter> footprint (owned h2 c) = {}"
    unfolding c2(2) c(4) d(4) using d(6) c(5) by (auto simp: footprint_def)
  have la: "(0x400000 :: u32) < PAGE_OFFSET" by simp
  have z: "load_entry (pa2va c) (va2pde 0x400000) h2 = 0"
    using fun_cong[OF c2(2), of "Table (va2pde 0x400000)"] user_page[OF la] c(4) by (auto simp: Let_def split: if_splits)
  have w0: "walk h2 c (page_ix 0x400000) = 0" unfolding c2(3) c(3) ..
  have r2: "2 \<le> room F2" using rm2 by simp
  obtain a h3 F3 where e: "space_step h2 F2 c {} h3 F3" "good_block a 12"
    "walk h3 c = (walk h2 c)(page_ix 0x400000 := va2pa a OR 31)" "room F2 \<le> room F3 + 2"
    "BIT_TEST (load_entry (pa2va c) (va2pde 0x400000) h3) 0"
    using expand_stack_ok[OF d(1) c2(1) la r2 w0] z by blast
  have tot: "free_area F3 \<union> footprint (owned h3 c) = free_area F2 \<union> footprint (owned h2 c)"
    and fr: "\<And>x. unat x \<notin> free_area F2 \<union> footprint (owned h2 c) \<Longrightarrow> mem h3 x = mem h2 x"
    using e(1) by (simp_all add: space_step_def)
  have ok: "pages_ok (owned h2 d) (free_area F2 \<union> footprint (owned h2 c))"
    unfolding d(4) pages_ok_def using dj d(4,5) address_spaceD(3)[OF d(2)]
    by (auto simp: footprint_def split: if_splits)
  have sd: "owned h3 d = owned h2 d" "walk h3 d = walk h2 d" using same_space(1,2)[OF ok] fr by blast+
  have "address_space h3 F3 d"
    unfolding address_space_def sd using address_spaceD(1)[OF d(2)] pages_ok_mono[OF ok] tot by blast
  moreover have "footprint (owned h3 d) \<inter> footprint (owned h3 c) = {}"
    unfolding sd using tot footprint_disjoint[OF ok] by blast
  moreover have "walk h3 d = (\<lambda>_. 0)" unfolding sd d(3) ..
  moreover have "2 \<le> room F3" using e(4) rm2 by simp
  ultimately show ?thesis using that[of h3 F3 c d] space_stepD(1,2)[OF e(1)] e(2,3,5) by auto
qed

definition pair_system :: "kmem \<Rightarrow> u32 \<Rightarrow> u32 \<Rightarrow> system" where
  "pair_system h c d = (demo_system h 1)\<lparr>procs := (\<lambda>p. if p = 8 then (demo_proc 0 2 1 1)\<lparr>p_cr3 := c\<rparr>
     else (if p = 16 then (demo_proc 1 0 2 2)\<lparr>p_cr3 := d\<rparr> else (demo_proc 3 1 5 5)))\<rparr>"

lemma pair_fields [simp]:
  "heap (pair_system h c d) = h" "current_proc (pair_system h c d) = 8" "current_thread (pair_system h c d) = 0xC0300000"
  "scheduleLock (pair_system h c d) = 0" "cur_cr3 (pair_system h c d) = c" "p_cr3 (procs (pair_system h c d) 16) = d"
  "table_of_procs (lists (pair_system h c d)) (processTable (pair_system h c d)) [8, 16, 24]"
  "receiving (procs (pair_system h c d) 16) = 0" "pid (procs (pair_system h c d) 16) = 1"
  "pid (procs (pair_system h c d) 24) = 3" "pid (procs (pair_system h c d) 8) = 0"
  "ring_contents (messages (procs (pair_system h c d) 16)) = []" "ring_inv (messages (procs (pair_system h c d) 16))"
  using demo_table(2)[of h 1]
  by (simp_all add: pair_system_def cur_cr3_def demo_proc_def ring_contents_def ring_inv_def)

text \<open>\<open>pair_system\<close> with the queue of process 16 full.\<close>

definition full_system :: "kmem \<Rightarrow> u32 \<Rightarrow> u32 \<Rightarrow> system" where
  "full_system h c d = upd_proc 16 (\<lambda>p. p\<lparr>messages := \<lparr>buf = replicate 256 0, p_head = 0, p_tail = 0, count = 256\<rparr>\<rparr>) (pair_system h c d)"

lemma full_fields:
  "heap (full_system h c d) = h" "current_thread (full_system h c d) = 0xC0300000"
  "scheduleLock (full_system h c d) = 0" "cur_cr3 (full_system h c d) = c" "cur_entry (full_system h c d) la = cur_entry (pair_system h c d) la"
  "table_of_procs (lists (full_system h c d)) (processTable (full_system h c d)) [8, 16, 24]"
  "receiving (procs (full_system h c d) 16) = 0" "pid (procs (full_system h c d) 16) = 1"
  "length (ring_contents (messages (procs (full_system h c d) 16))) = 256"
proof -
  have f: "heap (full_system h c d) = heap (pair_system h c d)" "lists (full_system h c d) = lists (pair_system h c d)"
    "processTable (full_system h c d) = processTable (pair_system h c d)"
    "current_thread (full_system h c d) = current_thread (pair_system h c d)"
    "scheduleLock (full_system h c d) = scheduleLock (pair_system h c d)"
    by (simp_all add: full_system_def upd_proc_def)
  have c: "cur_cr3 (full_system h c d) = cur_cr3 (pair_system h c d)"
    by (simp add: full_system_def upd_proc_def cur_cr3_def pair_system_def)
  show "heap (full_system h c d) = h" "current_thread (full_system h c d) = 0xC0300000"
    "scheduleLock (full_system h c d) = 0" "cur_cr3 (full_system h c d) = c"
    "table_of_procs (lists (full_system h c d)) (processTable (full_system h c d)) [8, 16, 24]"
    unfolding f c by (rule pair_fields)+
  show "cur_entry (full_system h c d) la = cur_entry (pair_system h c d) la" unfolding cur_entry_def f c ..
  show "receiving (procs (full_system h c d) 16) = 0" "pid (procs (full_system h c d) 16) = 1"
    "length (ring_contents (messages (procs (full_system h c d) 16))) = 256"
    by (simp_all add: full_system_def upd_proc_def del: length_ring_contents) simp_all
qed

section \<open>Properties of the messages\<close>

text \<open>
  C6. The status codes of \<^verbatim>\<open>SYSCALL_SEND\<close>. Whenever the call returns, the caller's \<^verbatim>\<open>ax\<close> holds
  exactly: \<open>-2\<close> when the address is not that of a mapped page of the user half (or is mapped
  physical memory), otherwise \<open>-1\<close> when no process of the table has the PID, otherwise 0 when
  nobody waits and the queue is full, and 1 in all other cases. With a status other than 1 the call
  does return, and nothing but \<^verbatim>\<open>ax\<close> has changed. When nobody waits for a message and one page is
  free, it returns in every case.
\<close>

theorem send_status_codes:
  assumes "address_space (heap s) F (cur_cr3 s)" "scheduleLock s = 0"
    and "table_of_procs (lists s) (processTable s) (p0 # ps)"
  shows "(\<forall>s'. system_call 0 edx ecx ebx s = Inr s' \<longrightarrow>
        reg_ax (regs (threads s' (current_thread s))) = send_status edx ecx ps s) \<and>
    (send_status edx ecx ps s \<noteq> 1 \<longrightarrow>
        system_call 0 edx ecx ebx s = Inr (set_ax (current_thread s) (send_status edx ecx ps s) s)) \<and>
    (free_inv (heap s) F \<and> 0 < room F \<and> (\<forall>p. List.find (\<lambda>p. pid (procs s p) = edx) ps = Some p \<longrightarrow> receiving (procs s p) = 0)
        \<longrightarrow> (\<exists>s'. system_call 0 edx ecx ebx s = Inr s'))"
proof -
  have sc: "system_call 0 edx ecx ebx s = syscall_send edx ecx ebx s" by (simp add: system_call_def)
  have fail: "syscall_send edx ecx ebx s = Inr (set_ax (current_thread s) (send_status edx ecx ps s) s)"
    if "send_status edx ecx ps s \<noteq> 1"
  proof (cases "sendable s ecx")
    case False
    then show ?thesis using send_unsendable[OF assms(1) False] by (simp add: send_status_def)
  next
    case snd: True
    show ?thesis
    proof (cases "List.find (\<lambda>p. pid (procs s p) = edx) ps")
      case None
      then show ?thesis using send_no_process[OF assms(1) snd assms(2,3) None] snd by (simp add: send_status_def)
    next
      case (Some p)
      then have r: "receiving (procs s p) = 0" "MAX_MESSAGE_COUNT \<le> length (ring_contents (messages (procs s p)))"
        and z: "send_status edx ecx ps s = 0"
        using that snd by (auto simp: send_status_def split: if_splits)
      then have "\<not> count (messages (procs s p)) < of_nat MAX_MESSAGE_COUNT" unfolding queue_room by simp
      then show ?thesis unfolding z by (rule send_full[OF assms(1) snd assms(2,3) Some r(1)])
    qed
  qed
  have ret: "\<exists>s'. syscall_send edx ecx ebx s = Inr s'"
    if h: "free_inv (heap s) F" "0 < room F"
      "\<forall>p. List.find (\<lambda>p. pid (procs s p) = edx) ps = Some p \<longrightarrow> receiving (procs s p) = 0"
  proof (cases "send_status edx ecx ps s = 1")
    case True
    then obtain p where ok: "sendable s ecx" and p: "List.find (\<lambda>p. pid (procs s p) = edx) ps = Some p"
      and room: "receiving (procs s p) \<noteq> 0 \<or> count (messages (procs s p)) < of_nat MAX_MESSAGE_COUNT"
      unfolding queue_room send_status_def by (auto split: if_splits option.splits)
    note st = send_start[OF assms(1) ok]
    obtain n h1 where "allocPhysicalPage (heap s) = Inr (n, h1)"
      using swap_page[OF h(1) assms(1) h(2) st(2) cur_entry_def[symmetric] st(8,7)] by metis
    from send_queue[OF assms(1) ok assms(2,3) p _ _ this] h(3) p room show ?thesis by blast
  next
    case False
    then show ?thesis using fail by blast
  qed
  have "reg_ax (regs (threads s' (current_thread s))) = send_status edx ecx ps s"
    if run: "syscall_send edx ecx ebx s = Inr s'" for s'
  proof (cases "send_status edx ecx ps s = 1")
    case True
    then show ?thesis using send_one[OF assms True run] by simp
  next
    case False
    then show ?thesis using fail run by auto
  qed
  then show ?thesis unfolding sc using fail ret by blast
qed

theorem send_status_codes_witness:
  "\<exists>h c d. system_call 0 1 0x400001 0 (pair_system h c d) = Inr (set_ax 0xC0300000 (-2) (pair_system h c d)) \<and>
     system_call 0 2 0x400000 0 (pair_system h c d) = Inr (set_ax 0xC0300000 (-1) (pair_system h c d)) \<and>
     system_call 0 1 0x400000 0 (full_system h c d) = Inr (set_ax 0xC0300000 0 (full_system h c d)) \<and>
     (\<exists>s'. system_call 0 1 0x400000 0 (pair_system h c d) = Inr s' \<and> reg_ax (regs (threads s' 0xC0300000)) = 1)"
proof -
  obtain h F c a where w: "free_inv h F" "2 \<le> room F" "address_space h F c" "BIT_TEST (load_entry (pa2va c) (va2pde 0x400000) h) 0"
    "good_block a 12" "walk h c (page_ix 0x400000) = va2pa a OR 31"
    by (rule demo_spaces) blast
  let ?s = "pair_system h c c" and ?f = "full_system h c c"
  have as: "address_space (heap ?s) F (cur_cr3 ?s)" "address_space (heap ?f) F (cur_cr3 ?f)"
    unfolding full_fields using w(3) by simp_all
  have n: "\<not> sendable ?s 0x400001" by (simp add: sendable_def)
  have "(va2pa a OR 31) AND 0x200 = 0"
    using leaf_page_entry[OF w(5)] unfolding leaf_page_def by (metis option.distinct(1))
  then have y: "sendable ?s 0x400000"
    using w(4,6) by (simp add: sendable_def cur_entry_def BIT_TEST_bit bit_or_iff)
  then have y': "sendable ?f 0x400000" by (simp add: sendable_def full_fields)
  note st = send_status_codes[where s = ?s and ps = "[16, 24]" and ebx = 0, OF as(1) pair_fields(4,7)]
  note fl = send_status_codes[where s = ?f and ps = "[16, 24]" and ebx = 0 and edx = 1 and ecx = "0x400000", OF as(2) full_fields(3,6)]
  have v: "send_status 1 0x400001 [16, 24] ?s = -2" "send_status 2 0x400000 [16, 24] ?s = -1" "send_status 1 0x400000 [16, 24] ?s = 1"
    "send_status 1 0x400000 [16, 24] ?f = 0"
    using n y y' by (simp_all add: send_status_def List.find.simps full_fields del: length_ring_contents)
  have "\<exists>s'. system_call 0 1 0x400000 0 ?s = Inr s'"
    using st[of 1 "0x400000"] w(1,2) by (simp add: List.find.simps)
  then obtain s' where s': "system_call 0 1 0x400000 0 ?s = Inr s'" by blast
  have "reg_ax (regs (threads s' 0xC0300000)) = 1" using st[of 1 "0x400000"] s' v(3) by simp
  then show ?thesis
    using st[of 1 "0x400001"] st[of 2 "0x400000"] fl s' v
    by (intro exI[of _ h] exI[of _ c] exI[of _ c]) (simp add: full_fields(2))
qed

text \<open>
  C3. A message to a process with room in its queue arrives: \<^verbatim>\<open>SYSCALL_SEND\<close> returns 1, takes the
  page out of the sender's address space and puts a fresh one in its place. When the receiver
  then runs \<^verbatim>\<open>SYSCALL_RECEIVE\<close> and the queue held nothing else, it gets the sender's identifier in
  \<^verbatim>\<open>ax\<close> and finds that very page, its words unchanged, mapped at the address it asked for; nothing
  else in its address space changes and its queue is empty again.
\<close>

theorem message_delivery:
  assumes inv: "free_inv (heap s) F" and as: "address_space (heap s) F (cur_cr3 s)" and rm: "2 \<le> room F"
    and l: "scheduleLock s = 0" and tab: "table_of_procs (lists s) (processTable s) (p0 # ps)"
    and snd: "sendable s ecx" and p: "List.find (\<lambda>p. pid (procs s p) = edx) ps = Some p" "p \<noteq> current_proc s"
    and q: "receiving (procs s p) = 0" "ring_inv (messages (procs s p))" "ring_contents (messages (procs s p)) = []"
    and rcv: "address_space (heap s) F (p_cr3 (procs s p))"
      "footprint (owned (heap s) (p_cr3 (procs s p))) \<inter> footprint (owned (heap s) (cur_cr3 s)) = {}"
    and la: "la < PAGE_OFFSET" "la AND 0xFFF = 0" "walk (heap s) (p_cr3 (procs s p)) (page_ix la) = 0"
  defines "a \<equiv> table_of (cur_entry s ecx)" and "c \<equiv> p_cr3 (procs s p)"
  shows "\<exists>s1 s2 n. system_call 0 edx ecx ebx s = Inr s1 \<and> reg_ax (regs (threads s1 (current_thread s))) = 1 \<and>
    walk (heap s1) (cur_cr3 s) = (walk (heap s) (cur_cr3 s))(page_ix ecx := va2pa n OR 0b11111) \<and> n \<noteq> a \<and>
    system_call 1 edx' la ebx' (s1\<lparr>current_proc := p, current_thread := t\<rparr>) = Inr s2 \<and>
    reg_ax (regs (threads s2 t)) = sender_id ebx s \<and>
    walk (heap s2) c = (walk (heap s) c)(page_ix la := va2pa a OR 0b11111) \<and>
    (\<forall>x. unat x \<in> block a 12 \<longrightarrow> mem (heap s2) x = mem (heap s) x) \<and>
    ring_contents (messages (procs s2 p)) = []"
proof -
  note st = send_start[OF as snd]
  let ?e = "cur_entry s ecx"
  have r0: "0 < room F" using rm by simp
  obtain n h1 h2 F' where sw: "allocPhysicalPage (heap s) = Inr (va2pa n, h1)"
    "h2 = store_entry (old_pte s ecx) (va2pte ecx) (va2pa n OR 31) h1" "good_block n 12" "free_inv h2 F'"
    "address_space h2 F' (cur_cr3 s)"
    "walk h2 (cur_cr3 s) = (walk (heap s) (cur_cr3 s))(page_ix ecx := va2pa n OR 31)"
    "good_block a 12" "block a 12 \<inter> (free_area F' \<union> footprint (owned h2 (cur_cr3 s))) = {}"
    "\<And>x. unat x \<notin> free_area F \<union> footprint (owned (heap s) (cur_cr3 s)) \<Longrightarrow> mem h2 x = mem (heap s) x"
    "room F = Suc (room F')" "free_area F' \<subseteq> free_area F"
    "\<And>x. unat x \<in> block a 12 \<Longrightarrow> mem h2 x = mem (heap s) x"
    "owned (heap s) (cur_cr3 s) (Leaf (va2pde ecx) (va2pte ecx)) = Some a"
    "free_area F' \<union> footprint (owned h2 (cur_cr3 s)) \<union> block a 12 = free_area F \<union> footprint (owned (heap s) (cur_cr3 s))"
    using swap_page[OF inv as r0 st(2) cur_entry_def[symmetric] st(8,7)] unfolding a_def old_pte_def by metis
  let ?m = "message_of (sender_id ebx s) ?e"
  have room: "unat (count (messages (procs s p))) = 0"
    using q(3) length_ring_contents[of "messages (procs s p)"] by simp
  then have c0: "count (messages (procs s p)) < of_nat MAX_MESSAGE_COUNT"
    using count_lt[of "count (messages (procs s p))"] by simp
  define s1 where "s1 = set_ax (current_thread s) 1 (put_message p ?m (s\<lparr>heap := h2\<rparr>))"
  have send: "system_call 0 edx ecx ebx s = Inr s1"
    using send_queue[OF as snd l tab p(1) q(1) c0 sw(1)] by (simp add: system_call_def s1_def sw(2))
  have put: "ring_inv (ring_put ?m (messages (procs s p))) \<and> ring_contents (ring_put ?m (messages (procs s p))) = [?m]"
    using ring_put_room[OF q(2), of ?m] room q(3) by simp
  obtain q' where g: "ring_get (ring_put ?m (messages (procs s p))) = (?m, q')" "ring_contents q' = []"
    using ring_get_first[OF conjunct1[OF put], of ?m "[]"] put by (metis prod.collapse)
  have cn: "count (ring_put ?m (messages (procs s p))) \<noteq> 0"
    using put length_ring_contents[of "ring_put ?m (messages (procs s p))"] by auto
  let ?r = "s1\<lparr>current_proc := p, current_thread := t\<rparr>"
  have fs: "heap ?r = h2" "cur_cr3 ?r = c" "scheduleLock ?r = 0" "current_proc ?r = p" "current_thread ?r = t"
    "messages (procs ?r p) = ring_put ?m (messages (procs s p))"
    using l by (simp_all add: s1_def set_ax_def upd_thread_def put_message_def upd_proc_def cur_cr3_def c_def)
  have os: "address_space h2 F' c" "owned h2 c = owned (heap s) c" "walk h2 c = walk (heap s) c"
    unfolding c_def using other_space(1-3)[OF rcv(1) rcv(2), of h2 F'] sw(9,11) by blast+
  have la3: "walk (heap s) c (page_ix la) = 0" using la(3) by (simp add: c_def)
  have un: "cur_entry ?r la = 0" unfolding cur_entry_def fs(1,2) os(3) by (rule la3)
  have va: "?e AND NOT 0xFFF = va2pa a" unfolding a_def by (rule entry_frame[OF sw(7)[unfolded a_def]])
  have afp: "block a 12 \<subseteq> footprint (owned (heap s) (cur_cr3 s))"
    using footprintI[of "owned (heap s) (cur_cr3 s)" _ a] sw(13) by blast
  have np: "new_page h2 F' c (leaf_page (va2pa a OR 31 OR 0))"
    unfolding new_page_def os(2) using sw(7,8) afp rcv(2) by (auto simp: c_def)
  have hp: "has_page F'" using has_page_room[OF sw(4)] sw(10) rm by simp
  have w0: "walk h2 c (page_ix la) = 0" unfolding os(3) by (rule la3)
  obtain h3 F3 where op: "open_physical_page c (va2pa a) la 0 h2 = Inr (0, h3)"
    "space_step h2 F' c (page_bytes (leaf_page (va2pa a OR 31 OR 0))) h3 F3"
    "walk h3 c = (walk h2 c)(page_ix la := va2pa a OR 31 OR 0)"
    using open_physical_page_ok(2)[OF sw(4) os(1) la(1) hp np w0] by blast
  have rec: "syscall_receive la ?r = Inr (set_ax t (sender_id ebx s) (upd_proc p (\<lambda>p. p\<lparr>messages := q'\<rparr>) (?r\<lparr>heap := h3\<rparr>)))"
    using receive_next[of ?r F' la, unfolded fs, OF os(1) la(1,2) un refl cn g(1)] op(1) va by simp
  let ?s2 = "set_ax t (sender_id ebx s) (upd_proc p (\<lambda>p. p\<lparr>messages := q'\<rparr>) (?r\<lparr>heap := h3\<rparr>))"
  have f2: "heap ?s2 = h3" "reg_ax (regs (threads ?s2 t)) = sender_id ebx s" "messages (procs ?s2 p) = q'"
    by (simp_all add: set_ax_def upd_thread_def upd_proc_def)
  have keep: "mem h3 x = mem (heap s) x" if x: "unat x \<in> block a 12" for x
  proof -
    have "unat x \<notin> free_area F' \<union> footprint (owned h2 c)"
      unfolding os(2) using x sw(8) afp rcv(2) by (auto simp: c_def)
    then show ?thesis using op(2) sw(12)[OF x] by (simp add: space_step_def)
  qed
  have na: "n \<noteq> a"
  proof
    assume "n = a"
    have "owned h2 (cur_cr3 s) (Leaf (va2pde ecx) (va2pte ecx)) = Some n"
      using sw(6) leaf_page_entry[OF sw(3)] by (simp add: page_ix_def)
    then have "unat a \<in> footprint (owned h2 (cur_cr3 s))"
      using footprintI[of "owned h2 (cur_cr3 s)" _ n "unat a"] block_self[of a 12] \<open>n = a\<close> by blast
    then show False using sw(8) block_self[of a 12] by blast
  qed
  show ?thesis
  proof (rule exI[of _ s1], rule exI[of _ ?s2], rule exI[of _ n], intro conjI)
    show "reg_ax (regs (threads s1 (current_thread s))) = 1" by (simp add: s1_def set_ax_def upd_thread_def)
    show "walk (heap s1) (cur_cr3 s) = (walk (heap s) (cur_cr3 s))(page_ix ecx := va2pa n OR 0b11111)"
      using sw(6) by (simp add: s1_def set_ax_def upd_thread_def put_message_def upd_proc_def)
    show "system_call 1 edx' la ebx' ?r = Inr ?s2" using rec by (simp add: system_call_def)
    show "walk (heap ?s2) c = (walk (heap s) c)(page_ix la := va2pa a OR 0b11111)"
      unfolding f2 op(3) os(3) by simp
    show "\<forall>x. unat x \<in> block a 12 \<longrightarrow> mem (heap ?s2) x = mem (heap s) x" unfolding f2 using keep by blast
    show "ring_contents (messages (procs ?s2 p)) = []" unfolding f2 by (rule g(2))
  qed (use send f2 na in auto)
qed

theorem message_delivery_witness:
  "\<exists>h c d s1 s2. system_call 0 1 0x400000 0 (pair_system h c d) = Inr s1 \<and>
     system_call 1 0 0x800000 0 (s1\<lparr>current_proc := 16, current_thread := 0xC0301000\<rparr>) = Inr s2 \<and>
     walk (heap s2) d (page_ix 0x800000) = walk h c (page_ix 0x400000) \<and> reg_ax (regs (threads s2 0xC0301000)) = 0"
proof -
  obtain h F c d a where w: "free_inv h F" "address_space h F c" "address_space h F d" "2 \<le> room F"
    "footprint (owned h d) \<inter> footprint (owned h c) = {}" "walk h d = (\<lambda>_. 0)"
    "BIT_TEST (load_entry (pa2va c) (va2pde 0x400000) h) 0" "good_block a 12" "walk h c (page_ix 0x400000) = va2pa a OR 31"
    by (rule demo_spaces) blast
  let ?s = "pair_system h c d"
  have "(va2pa a OR 31) AND 0x200 = 0"
    using leaf_page_entry[OF w(8)] unfolding leaf_page_def by (metis option.distinct(1))
  then have y: "sendable ?s 0x400000"
    using w(7,9) by (simp add: sendable_def cur_entry_def BIT_TEST_bit bit_or_iff)
  have f: "List.find (\<lambda>p. pid (procs ?s p) = 1) [16, 24] = Some 16" by simp
  have e: "table_of (cur_entry ?s 0x400000) = a" using w(8,9) by (simp add: cur_entry_def)
  have id: "sender_id 0 ?s = 0" by (simp add: sender_id_def)
  have la: "(0x800000 :: u32) < PAGE_OFFSET" "(0x800000 :: u32) AND 0xFFF = 0" by simp_all
  have p1: "free_inv (heap ?s) F" "address_space (heap ?s) F (cur_cr3 ?s)" using w(1,2) by simp_all
  have p2: "(16 :: u32) \<noteq> current_proc ?s" by simp
  have p3: "address_space (heap ?s) F (p_cr3 (procs ?s 16))"
    "footprint (owned (heap ?s) (p_cr3 (procs ?s 16))) \<inter> footprint (owned (heap ?s) (cur_cr3 ?s)) = {}"
    "walk (heap ?s) (p_cr3 (procs ?s 16)) (page_ix 0x800000) = 0"
    using w(3,5,6) by simp_all
  obtain s1 s2 where "system_call 0 1 0x400000 0 ?s = Inr s1"
    "system_call 1 0 0x800000 0 (s1\<lparr>current_proc := 16, current_thread := 0xC0301000\<rparr>) = Inr s2"
    "reg_ax (regs (threads s2 0xC0301000)) = sender_id 0 ?s"
    "walk (heap s2) (p_cr3 (procs ?s 16)) = (walk (heap ?s) (p_cr3 (procs ?s 16)))(page_ix 0x800000 := va2pa a OR 0b11111)"
    using message_delivery[OF p1 w(4) pair_fields(4,7) y f p2 pair_fields(8,13,12) p3(1,2) la p3(3),
        where edx' = 0 and ebx' = 0 and ebx = 0 and t = "0xC0301000", unfolded e] by blast
  then show ?thesis
    unfolding id by (intro exI[of _ h] exI[of _ c] exI[of _ d] exI[of _ s1] exI[of _ s2]) (simp add: w(9))
qed

text \<open>
  A fault in the stack area of the current thread, above its lowest page, at an address that is
  not mapped: the handler returns after mapping one fresh page there; every other page of the
  process, its kernel entries and the rest of the system are unchanged.
\<close>

theorem stack_fault_maps_page:
  assumes "free_inv (heap s) F" "address_space (heap s) F (cur_cr3 s)" "2 \<le> room F"
    and "cr2 < PAGE_OFFSET" "walk (heap s) (cur_cr3 s) (page_ix cr2) = 0"
    and "stacktop (threads s (current_thread s)) - 0x800000 + 0x1000 \<le> cr2"
      "stacktop (threads s (current_thread s)) - 0x800000 < cr2" "cr2 < stacktop (threads s (current_thread s))"
  shows "\<exists>a h' F'. pageFaultHandler cr2 s = Inr (s\<lparr>heap := h'\<rparr>) \<and> space_step (heap s) F (cur_cr3 s) {} h' F' \<and>
    good_block a 12 \<and> walk h' (cur_cr3 s) = (walk (heap s) (cur_cr3 s))(page_ix cr2 := va2pa a OR 0b11111)"
proof -
  obtain a h' F' where e: "expand_stack (cur_cr3 s) cr2 (heap s) = Inr h'" "space_step (heap s) F (cur_cr3 s) {} h' F'"
    "good_block a 12" "walk h' (cur_cr3 s) = (walk (heap s) (cur_cr3 s))(page_ix cr2 := va2pa a OR 31)"
    using expand_stack_ok[OF assms(1,2,4,3,5)] by blast
  have "pageFaultHandler cr2 s = Inr (s\<lparr>heap := h'\<rparr>)"
    using assms(6-8) e(1) by (simp add: pageFaultHandler_def on_heap_def cur_cr3_def not_less)
  then show ?thesis using e(2-4) by blast
qed

theorem stack_fault_maps_page_witness:
  "\<exists>h c d h'. pageFaultHandler 0xBFFFF000 (pair_system h c d) = Inr ((pair_system h c d)\<lparr>heap := h'\<rparr>) \<and>
     walk h' d (page_ix 0xBFFFF000) \<noteq> 0"
proof -
  obtain h F d where w: "free_inv h F" "address_space h F d" "2 \<le> room F" "walk h d = (\<lambda>_. 0)"
    by (rule demo_spaces) blast
  let ?s = "pair_system h d d"
  have st: "stacktop (threads ?s (current_thread ?s)) = 0xC0000000" by (simp add: pair_system_def demo_system_def)
  have a: "free_inv (heap ?s) F" "address_space (heap ?s) F (cur_cr3 ?s)" using w by simp_all
  have z: "walk (heap ?s) (cur_cr3 ?s) (page_ix 0xBFFFF000) = 0" using w(4) by simp
  obtain a h' F' where "pageFaultHandler 0xBFFFF000 ?s = Inr (?s\<lparr>heap := h'\<rparr>)"
      "walk h' (cur_cr3 ?s) = (walk (heap ?s) (cur_cr3 ?s))(page_ix 0xBFFFF000 := va2pa a OR 0b11111)"
    using stack_fault_maps_page[OF a w(3) _ z, unfolded st] by auto
  then show ?thesis by (intro exI[of _ h] exI[of _ d] exI[of _ d] exI[of _ h']) simp
qed

end
