(* ===== verification/Kernel_Steps.thy ===== *)
theory Kernel_Steps
  imports Process
begin

text \<open>
  The kernel as a transition system: the steps that create, schedule, put to sleep and wake processes, in any
  order, as the timer, the system calls and the drivers cause them. The lemmas give the invariant of
  the process table that every reachable state has.
\<close>

section \<open>Steps\<close>

definition five_pages :: "system \<Rightarrow> bool" where
  "five_pages s \<longleftrightarrow> (\<forall>F. free_inv (heap s) F \<longrightarrow> 5 \<le> room F)"

text \<open>
  A timer interrupt; \<^verbatim>\<open>SYSCALL_NICE\<close>; the sleep and the awakening of a process or thread; the creation of a
  process while five pages are free. A step is a call that returns.
\<close>

inductive kernel_step :: "system \<Rightarrow> system \<Rightarrow> bool" where
  timer: "irq0_handler s = Inr s' \<Longrightarrow> kernel_step s s'"
| nice: "system_call 6 edx ecx ebx s = Inr s' \<Longrightarrow> kernel_step s s'"
| sleep: "processSleep p s = Inr s' \<Longrightarrow> kernel_step s s'"
| thread_sleep: "threadSleep t s = Inr s' \<Longrightarrow> t \<noteq> 0 \<Longrightarrow> kernel_step s s'"
| thread_awake: "s' = threadAwake t s \<Longrightarrow> kernel_step s s'"
| create: "createProcess ip priv name prio s = Inr (p, s') \<Longrightarrow> five_pages s \<Longrightarrow> kernel_step s s'"

inductive_cases kernel_stepE: "kernel_step s s'"

section \<open>The invariant\<close>

definition dir_apart :: "(nat \<Rightarrow> u32 list) \<Rightarrow> u32 \<Rightarrow> bool" where
  "dir_apart F cr3 \<longleftrightarrow> cr3 AND 0xFFF = 0 \<and> good_block (pa2va cr3) 12 \<and> block (pa2va cr3) 12 \<inter> free_area F = {}"

text \<open>
  The allocator is sound; the table lists the processes in the order of their numbers, which begin with 0; none
  of their structures and page directories is in free memory; the current process is one of them.
\<close>

definition table_inv :: "(nat \<Rightarrow> u32 list) \<Rightarrow> u32 \<Rightarrow> u32 list \<Rightarrow> system \<Rightarrow> bool" where
  "table_inv F p0 ps s \<longleftrightarrow> free_inv (heap s) F \<and> scheduleLock s = 0 \<and> table_of_procs (lists s) (processTable s) (p0 # ps) \<and>
     pid (procs s p0) = 0 \<and> in_order (\<lambda>p. pid (procs s p)) (p0 # ps) \<and> current_proc s \<in> set (p0 # ps) \<and>
     (\<forall>p \<in> set (p0 # ps). unat p \<notin> free_area F \<and> dir_apart F (p_cr3 (procs s p))) \<and> 5 * length ps + room F < 2 ^ 31"

text \<open>Exactly the current process is marked as running.\<close>

definition one_runs :: "u32 list \<Rightarrow> system \<Rightarrow> bool" where
  "one_runs ps s \<longleftrightarrow> (\<forall>p \<in> set ps. p_flag (procs s p) = 2 \<longleftrightarrow> p = current_proc s)"

definition kernel_inv :: "system \<Rightarrow> bool" where
  "kernel_inv s \<longleftrightarrow> (\<exists>F p0 ps. table_inv F p0 ps s \<and> one_runs (p0 # ps) s)"

lemma table_inv_cong:
  assumes "table_inv F p0 ps s" "free_inv (heap s') F" "scheduleLock s' = 0" "lists s' = lists s" "processTable s' = processTable s"
    "current_proc s' \<in> set (p0 # ps)" "\<And>p. pid (procs s' p) = pid (procs s p) \<and> p_cr3 (procs s' p) = p_cr3 (procs s p)"
  shows "table_inv F p0 ps s'"
  using assms unfolding table_inv_def by (simp del: table_of_procs.simps)

lemma dir_apart_store:
  assumes "free_inv h F" "dir_apart F c"
  shows "free_inv (store_entry (pa2va c) (va2pde PAGE_OFFSET) v h) F"
  using store_entry_inv[OF assms(1) _ _ va2pde_bound] assms(2) unfolding dir_apart_def by blast

section \<open>Scheduling keeps it\<close>

lemma next_round_same:
  "p_flag (next_round ps P q) = p_flag (P q) \<and> pid (next_round ps P q) = pid (P q) \<and> p_cr3 (next_round ps P q) = p_cr3 (P q)"
  by (simp add: next_round_def refilled_def)

lemma with_flag_same:
  "pid (with_flag flag s q) = pid (procs s q)" "p_cr3 (with_flag flag s q) = p_cr3 (procs s q)"
  "p_flag (with_flag flag s q) = (if q = current_proc s then flag else p_flag (procs s q))"
  by (simp_all add: with_flag_def)

lemma schedule_inv:
  assumes t: "table_inv F p0 ps s" and r: "schedule flag s = Inr s'"
  shows "table_inv F p0 ps s'" "p_flag (procs s' (current_proc s')) = 2"
    "\<And>q. q \<noteq> current_proc s' \<Longrightarrow> p_flag (procs s' q) = (if q = current_proc s then flag else p_flag (procs s q))"
    "flag \<noteq> 0 \<Longrightarrow> current_proc s' \<noteq> current_proc s"
proof -
  have l: "scheduleLock s = 0" and tab: "table_of_procs (lists s) (processTable s) (p0 # ps)"
    using t by (simp_all add: table_inv_def del: table_of_procs.simps)
  let ?P = "next_round (p0 # ps) (with_flag flag s)"
  have "\<exists>q \<in> set (p0 # ps). can_run (with_flag flag s q)"
    using schedule_ok(2)[OF l tab, of flag] r by fastforce
  from schedule_ok(1)[OF l tab this] obtain p where p: "is_choice ?P (p0 # ps) p" "s' = switched p ?P s" using r by auto
  note c = choiceD[OF p(1)]
  have d: "dir_apart F (p_cr3 (?P p))"
    using t c unfolding table_inv_def next_round_same[THEN conjunct2, THEN conjunct2] with_flag_same by blast
  have "free_inv (heap s) F" using t by (simp add: table_inv_def)
  from dir_apart_store[OF this d] have h: "free_inv (heap s') F" unfolding p(2) by (simp add: switched_def)
  show "table_inv F p0 ps s'"
  proof (rule table_inv_cong[OF t h])
    show "pid (procs s' q) = pid (procs s q) \<and> p_cr3 (procs s' q) = p_cr3 (procs s q)" for q
      unfolding p(2) by (simp add: next_round_same with_flag_same)
  qed (use c l p(2) in simp_all)
  show "p_flag (procs s' (current_proc s')) = 2" unfolding p(2) by simp
  show "p_flag (procs s' q) = (if q = current_proc s then flag else p_flag (procs s q))" if "q \<noteq> current_proc s'" for q
    using that unfolding p(2) by (simp add: next_round_same with_flag_same)
  show "current_proc s' \<noteq> current_proc s" if "flag \<noteq> 0"
    using c that unfolding p(2) ready_def by (auto simp: next_round_same with_flag_same)
qed

text \<open>After a switch the invariant holds when no other process was marked as running and the old one is not.\<close>

lemma schedule_kernel_inv:
  assumes t: "table_inv F p0 ps s" and others: "\<forall>q \<in> set (p0 # ps). q \<noteq> current_proc s \<longrightarrow> p_flag (procs s q) \<noteq> 2"
    and r: "schedule flag s = Inr s'" and f: "flag \<noteq> 2"
  shows "kernel_inv s'"
proof -
  note k = schedule_inv[OF t r]
  have "one_runs (p0 # ps) s'" unfolding one_runs_def using k(2,3) others f by metis
  then show ?thesis using k(1) unfolding kernel_inv_def by blast
qed

lemma upd_proc_table:
  assumes "table_inv F p0 ps s" "\<And>q. pid (f q) = pid q \<and> p_cr3 (f q) = p_cr3 q"
  shows "table_inv F p0 ps (upd_proc p f s)"
  by (rule table_inv_cong[OF assms(1)]) (use assms in \<open>simp_all add: upd_proc_def table_inv_def del: table_of_procs.simps\<close>)

lemma upd_thread_table: "table_inv F p0 ps (upd_thread t f s) = table_inv F p0 ps s"
  by (simp add: table_inv_def upd_thread_def)

lemma kernel_invE:
  assumes "kernel_inv s"
  obtains F p0 ps where "table_inv F p0 ps s" "\<And>q. q \<in> set (p0 # ps) \<Longrightarrow> p_flag (procs s q) = 2 \<longleftrightarrow> q = current_proc s"
    "current_proc s \<in> set (p0 # ps)" "scheduleLock s = 0"
  using assms unfolding kernel_inv_def one_runs_def table_inv_def by blast

lemma timer_inv:
  assumes "kernel_inv s" "irq0_handler s = Inr s'"
  shows "kernel_inv s'"
proof -
  obtain F p0 ps where t: "table_inv F p0 ps s" and f: "\<And>q. q \<in> set (p0 # ps) \<Longrightarrow> p_flag (procs s q) = 2 \<longleftrightarrow> q = current_proc s"
    and l: "scheduleLock s = 0" using kernel_invE[OF assms(1)] by metis
  let ?s = "upd_proc (current_proc s) (\<lambda>p. p\<lparr>ticks := ticks p - 1\<rparr>) s"
  have e: "?s\<lparr>scheduleLock := 0\<rparr> = ?s" using l by (simp add: upd_proc_def)
  have "irq0_handler s = schedule 0 (?s\<lparr>scheduleLock := 0\<rparr>)" using l by (simp add: irq0_handler_def upd_proc_def Let_def)
  then have r: "schedule 0 ?s = Inr s'" using assms(2) unfolding e by (simp only:)
  have "table_inv F p0 ps ?s" by (rule upd_proc_table[OF t]) simp
  then show ?thesis by (rule schedule_kernel_inv[OF _ _ r]) (use f in \<open>simp_all add: upd_proc_def\<close>)
qed

lemma nice_inv:
  assumes "kernel_inv s" "system_call 6 edx ecx ebx s = Inr s'"
  shows "kernel_inv s'"
proof -
  obtain F p0 ps where t: "table_inv F p0 ps s" and f: "\<And>q. q \<in> set (p0 # ps) \<Longrightarrow> p_flag (procs s q) = 2 \<longleftrightarrow> q = current_proc s"
    using kernel_invE[OF assms(1)] by metis
  obtain s1 where 1: "schedule 2 s = Inr s1" "s' = upd_proc (current_proc s) (\<lambda>p. p\<lparr>p_flag := 0\<rparr>) s1"
    using assms(2) by (cases "schedule 2 s") (auto simp: system_call_def)
  note k = schedule_inv[OF t 1(1)]
  have "table_inv F p0 ps s'" unfolding 1(2) by (rule upd_proc_table[OF k(1)]) simp
  moreover have "one_runs (p0 # ps) s'"
    unfolding one_runs_def
  proof
    fix q assume q: "q \<in> set (p0 # ps)"
    show "p_flag (procs s' q) = 2 \<longleftrightarrow> q = current_proc s'"
      using k(2,4) k(3)[of q] f[OF q] unfolding 1(2) by (cases "q = current_proc s1") (auto simp: upd_proc_def)
  qed
  ultimately show ?thesis unfolding kernel_inv_def by blast
qed

lemma processSleep_inv:
  assumes "kernel_inv s" "processSleep p s = Inr s'"
  shows "kernel_inv s'"
proof -
  obtain F p0 ps where t: "table_inv F p0 ps s" and f: "\<And>q. q \<in> set (p0 # ps) \<Longrightarrow> p_flag (procs s q) = 2 \<longleftrightarrow> q = current_proc s"
    using kernel_invE[OF assms(1)] by metis
  let ?s = "upd_proc p (\<lambda>p. p\<lparr>p_flag := 1\<rparr>) s"
  have t1: "table_inv F p0 ps ?s" by (rule upd_proc_table[OF t]) simp
  show ?thesis
  proof (cases "current_proc s = p")
    case True
    then have "schedule 1 ?s = Inr s'" using assms(2) by (simp add: processSleep_def upd_proc_def Let_def)
    then show ?thesis by (rule schedule_kernel_inv[OF t1, rotated]) (use f in \<open>auto simp: upd_proc_def\<close>)
  next
    case False
    then have "s' = ?s" using assms(2) by (simp add: processSleep_def upd_proc_def Let_def)
    moreover have "one_runs (p0 # ps) ?s" using f False by (auto simp: one_runs_def upd_proc_def)
    ultimately show ?thesis using t1 unfolding kernel_inv_def by blast
  qed
qed

text \<open>Changes of a thread, and of fields of a process that the invariant does not mention.\<close>

lemma kernel_inv_thread: "kernel_inv s \<Longrightarrow> kernel_inv (upd_thread t f s)"
  by (simp add: kernel_inv_def upd_thread_table one_runs_def) (simp add: upd_thread_def)

lemma kernel_inv_proc:
  assumes "kernel_inv s" "\<And>q. pid (f q) = pid q \<and> p_cr3 (f q) = p_cr3 q \<and> p_flag (f q) = p_flag q"
  shows "kernel_inv (upd_proc p f s)"
proof -
  obtain F p0 ps where t: "table_inv F p0 ps s" "one_runs (p0 # ps) s" using assms(1) unfolding kernel_inv_def by blast
  have "table_inv F p0 ps (upd_proc p f s)" by (rule upd_proc_table[OF t(1)]) (use assms(2) in simp)
  moreover have "p_flag (procs (upd_proc p f s) q) = p_flag (procs s q)" "current_proc (upd_proc p f s) = current_proc s" for q
    using assms(2) by (simp_all add: upd_proc_def)
  then have "one_runs (p0 # ps) (upd_proc p f s)" using t(2) unfolding one_runs_def by (simp only:)
  ultimately show ?thesis unfolding kernel_inv_def by blast
qed

lemma threadSleep_inv:
  assumes "kernel_inv s" "threadSleep t s = Inr s'" "t \<noteq> 0"
  shows "kernel_inv s'"
proof -
  let ?p = "t_process (threads s t)"
  define s2 where "s2 = upd_proc ?p (\<lambda>pr. pr\<lparr>avl_thread := avl_thread pr - 1\<rparr>) (upd_thread t (\<lambda>th. th\<lparr>t_flag := 1\<rparr>) s)"
  have k2: "kernel_inv s2" unfolding s2_def by (rule kernel_inv_proc[OF kernel_inv_thread[OF assms(1)]]) simp
  show ?thesis
  proof (cases "avl_thread (procs s2 ?p) = 0")
    case True
    then have "processSleep ?p s2 = Inr s'" using assms(2) by (simp add: threadSleep_def Let_def s2_def)
    then show ?thesis by (rule processSleep_inv[OF k2])
  next
    case False
    let ?s = "upd_proc ?p (\<lambda>pr. pr\<lparr>p_flag := 0\<rparr>) s2"
    have r: "schedule 1 (?s\<lparr>current_thread := t\<rparr>) = Inr s'"
      using assms(2,3) False by (simp add: threadSleep_def Let_def s2_def)
    obtain F p0 ps where t: "table_inv F p0 ps s2" and f: "\<And>q. q \<in> set (p0 # ps) \<Longrightarrow> p_flag (procs s2 q) = 2 \<longleftrightarrow> q = current_proc s2"
      using kernel_invE[OF k2] by metis
    have "table_inv F p0 ps ?s" by (rule upd_proc_table[OF t]) simp
    then have "table_inv F p0 ps (?s\<lparr>current_thread := t\<rparr>)" by (simp add: table_inv_def del: table_of_procs.simps)
    then show ?thesis by (rule schedule_kernel_inv[OF _ _ r]) (use f in \<open>auto simp: upd_proc_def\<close>)
  qed
qed

lemma threadAwake_inv:
  assumes "kernel_inv s"
  shows "kernel_inv (threadAwake t s)"
proof -
  let ?p = "t_process (threads s t)"
  define s2 where "s2 = upd_proc ?p (\<lambda>pr. pr\<lparr>avl_thread := avl_thread pr + 1\<rparr>) (upd_thread t (\<lambda>th. th\<lparr>t_flag := 0\<rparr>) s)"
  have k2: "kernel_inv s2" unfolding s2_def by (rule kernel_inv_proc[OF kernel_inv_thread[OF assms(1)]]) simp
  have e: "threadAwake t s = (if p_flag (procs s2 ?p) = 1 then upd_proc ?p (\<lambda>pr. pr\<lparr>p_flag := 0\<rparr>) s2 else s2)"
    by (simp add: threadAwake_def Let_def s2_def)
  show ?thesis
  proof (cases "p_flag (procs s2 ?p) = 1")
    case True
    obtain F p0 ps where t: "table_inv F p0 ps s2" and f: "\<And>q. q \<in> set (p0 # ps) \<Longrightarrow> p_flag (procs s2 q) = 2 \<longleftrightarrow> q = current_proc s2"
      and c: "current_proc s2 \<in> set (p0 # ps)" using kernel_invE[OF k2] by metis
    have "?p \<noteq> current_proc s2" using f[OF c] True by auto
    then have "one_runs (p0 # ps) (upd_proc ?p (\<lambda>pr. pr\<lparr>p_flag := 0\<rparr>) s2)" using f by (auto simp: one_runs_def upd_proc_def)
    moreover have "table_inv F p0 ps (upd_proc ?p (\<lambda>pr. pr\<lparr>p_flag := 0\<rparr>) s2)" by (rule upd_proc_table[OF t]) simp
    ultimately show ?thesis unfolding e using True unfolding kernel_inv_def by auto
  next
    case False
    then show ?thesis unfolding e using k2 by simp
  qed
qed

lemma create_inv:
  assumes "kernel_inv s" "createProcess ip priv name prio s = Inr (p', s')" "five_pages s"
  shows "kernel_inv s'"
proof -
  obtain F p0 ps where t: "table_inv F p0 ps s" and f: "\<And>q. q \<in> set (p0 # ps) \<Longrightarrow> p_flag (procs s q) = 2 \<longleftrightarrow> q = current_proc s"
    using kernel_invE[OF assms(1)] by metis
  have inv: "free_inv (heap s) F" and lock: "scheduleLock s = 0" and tab: "table_of_procs (lists s) (processTable s) (p0 # ps)"
    and p0: "pid (procs s p0) = 0" and ord: "in_order (\<lambda>p. pid (procs s p)) (p0 # ps)" and cur: "current_proc s \<in> set (p0 # ps)"
    and apart: "\<And>q. q \<in> set (p0 # ps) \<Longrightarrow> unat q \<notin> free_area F" "\<And>q. q \<in> set (p0 # ps) \<Longrightarrow> dir_apart F (p_cr3 (procs s q))"
    and room: "5 * length ps + room F < 2 ^ 31"
    using t unfolding table_inv_def by blast+
  have rm: "5 \<le> room F" using assms(3) inv unfolding five_pages_def by blast
  have d: "good_block (table_of (p_cr3 (procs s (current_proc s)))) 12" "block (table_of (p_cr3 (procs s (current_proc s)))) 12 \<inter> free_area F = {}"
    using apart(2)[OF cur] by (simp_all add: dir_apart_def table_of_aligned)
  have len: "length ps < 2 ^ 31" using room by simp
  obtain p th us vs i c s1 F' where r: "createProcess ip priv name prio s = Inr (p, s1)" "ps = us @ vs" "p \<notin> set (p0 # ps)" "1 \<le> i"
      "table_of_procs (lists s1) (processTable s1) (p0 # us @ p # vs)" "in_order (\<lambda>p. pid (procs s1 p)) (us @ p # vs)"
      "procs s1 = (procs s)(p := new_process c th priv name prio i (procs s p))" "current_proc s1 = current_proc s" "scheduleLock s1 = 0"
      "free_inv (heap s1) F'" "address_space (heap s1) F' c" "room F = room F' + 5" "free_area F' \<subseteq> free_area F" "unat p \<notin> free_area F'"
  proof -
    note r = createProcess_ok[OF inv rm lock d tab ord _ len, of ip priv name prio]
    show thesis by (rule r[THEN exE], erule apart(1), elim exE conjE, rule that, assumption+)
  qed
  have s': "s' = s1" using r(1) assms(2) by simp
  have old: "procs s1 q = procs s q" if "q \<in> set (p0 # ps)" for q using r(3,7) that by auto
  have new: "pid (procs s1 p) = i" "p_flag (procs s1 p) = 0" "p_cr3 (procs s1 p) = c" unfolding r(7) by (simp_all add: new_process_def)
  have mem: "q \<in> set (p0 # us @ p # vs) \<longleftrightarrow> q = p \<or> q \<in> set (p0 # ps)" for q using r(2) by auto
  have "pid (procs s p0) < pid (procs s q)" if "q \<in> set ps" for q using ord that by (simp add: in_order_def)
  then have "pid (procs s1 p0) < pid (procs s1 q)" if "q \<in> set (us @ p # vs)" for q
    using that r(2,4) old new(1) p0 by (auto simp: word_le_nat_alt word_less_nat_alt)
  then have ord': "in_order (\<lambda>p. pid (procs s1 p)) (p0 # us @ p # vs)"
    using r(6) unfolding in_order_def list.map sorted_wrt.simps by auto
  have "dir_apart F' (p_cr3 (procs s1 q)) \<and> unat q \<notin> free_area F'" if "q \<in> set (p0 # us @ p # vs)" for q
  proof (cases "q = p")
    case True
    then show ?thesis using new(3) address_spaceD[OF r(11)] r(14) by (simp add: dir_apart_def)
  next
    case False
    then have q: "q \<in> set (p0 # ps)" using that mem by blast
    then show ?thesis using apart[OF q] old[OF q] r(13) unfolding dir_apart_def by auto
  qed
  moreover have "pid (procs s1 p0) = 0" using old[of p0] p0 by simp
  moreover have "current_proc s1 \<in> set (p0 # us @ p # vs)" using cur r(8) mem by auto
  moreover have "5 * length (us @ p # vs) + room F' < 2 ^ 31" using room r(2,12) by simp
  ultimately have "table_inv F' p0 (us @ p # vs) s1" unfolding table_inv_def using r(5,9,10) ord' by blast
  moreover have "one_runs (p0 # us @ p # vs) s1"
    unfolding one_runs_def
  proof
    fix q assume q: "q \<in> set (p0 # us @ p # vs)"
    show "p_flag (procs s1 q) = 2 \<longleftrightarrow> q = current_proc s1"
    proof (cases "q = p")
      case True
      then show ?thesis using new(2) r(3,8) cur by auto
    next
      case False
      then have "q \<in> set (p0 # ps)" using q mem by blast
      then show ?thesis using f old r(8) by simp
    qed
  qed
  ultimately show ?thesis unfolding s' kernel_inv_def by blast
qed

lemma kernel_step_inv: "kernel_step s s' \<Longrightarrow> kernel_inv s \<Longrightarrow> kernel_inv s'"
  by (erule kernel_stepE) (auto intro: timer_inv nice_inv processSleep_inv threadSleep_inv threadAwake_inv create_inv)

lemma kernel_reach_inv: "kernel_step\<^sup>*\<^sup>* s0 s \<Longrightarrow> kernel_inv s0 \<Longrightarrow> kernel_inv s"
  by (induction rule: rtranclp_induct) (auto intro: kernel_step_inv)

section \<open>Reachable states\<close>

text \<open>
  C2. The invariant of the kernel: however timer interrupts, yields, sleeps, awakenings and creations of processes follow
  one another, the allocator stays sound and the process table well formed: its processes have
  different numbers in increasing order, none of them nor their page directories is in free memory,
  and exactly one process is marked as running, the current one.
\<close>

theorem kernel_stays_sound:
  assumes "kernel_inv s0" "kernel_step\<^sup>*\<^sup>* s0 s"
  shows "kernel_inv s \<and> (\<exists>ps. table_of_procs (lists s) (processTable s) ps \<and> distinct (map (\<lambda>p. pid (procs s p)) ps) \<and>
    current_proc s \<in> set ps \<and> (\<forall>p \<in> set ps. p_flag (procs s p) = 2 \<longleftrightarrow> p = current_proc s))"
proof -
  have k: "kernel_inv s" by (rule kernel_reach_inv[OF assms(2,1)])
  then obtain F p0 ps where t: "table_inv F p0 ps s" and f: "one_runs (p0 # ps) s" unfolding kernel_inv_def by blast
  have "in_order (\<lambda>p. pid (procs s p)) (p0 # ps)" using t unfolding table_inv_def by blast
  then have "distinct (map (\<lambda>p. pid (procs s p)) (p0 # ps))" by (simp only: in_order_def strict_sorted_iff)
  then show ?thesis using k t f unfolding table_inv_def one_runs_def by blast
qed

text \<open>The first process alone, with 16 free pages; it creates another one and is interrupted.\<close>

lemma chain_unique: "chain m e xs \<Longrightarrow> chain m e ys \<Longrightarrow> xs = ys"
proof (induction xs arbitrary: e ys)
  case Nil
  then show ?case by (cases ys) auto
next
  case (Cons x xs)
  then show ?case by (cases ys) auto
qed

lemma free_lists_unique:
  assumes "free_inv h F" "free_inv h F'"
  shows "F = F'"
proof
  fix b
  have none: "G b = []" if "free_inv h G" "\<not> (2 \<le> b \<and> b < 30)" for G
  proof (rule ccontr)
    assume "G b \<noteq> []"
    then obtain a where "a \<in> set (G b)" by (cases "G b") auto
    moreover have "shape G" using that(1) by (simp add: free_inv_def)
    ultimately have g: "good_block a b" using shapeD(2) by blast
    then have "30 \<le> b" using that(2) by (auto simp: good_block_def)
    then have "(2 :: nat) ^ 30 \<le> 2 ^ b" by (rule power_increasing) simp
    then show False using g by (simp add: good_block_def)
  qed
  show "F b = F' b"
  proof (cases "2 \<le> b \<and> b < 30")
    case True
    then have "chain_at h b (F b)" "chain_at h b (F' b)" using assms by (simp_all add: free_inv_def)
    then show ?thesis unfolding chain_at_def by (rule chain_unique)
  next
    case False
    then show ?thesis using none[OF assms(1) False] none[OF assms(2) False] by simp
  qed
qed

lemma demo_kernel_inv:
  assumes "free_inv h F" "free_area F = {0xC0100000 ..< 0xC0110000}"
  shows "kernel_inv (demo_system h 1)"
proof -
  have "{a :: u32. good_block a 12 \<and> block a 12 \<subseteq> free_area F} \<subseteq> unat -` {0xC0100000 ..< 0xC0110000}"
    using block_self assms(2) by blast
  then have "room F \<le> card ((unat :: u32 \<Rightarrow> nat) -` {0xC0100000 ..< 0xC0110000})" unfolding room_def by (rule card_mono[rotated]) simp
  also have "\<dots> \<le> card {0xC0100000 ..< 0xC0110000 :: nat}"
    by (rule card_inj_on_le[of unat]) (auto simp: inj_on_def word_unat_eq_iff)
  finally have rm: "5 * length [16, 24 :: u32] + room F < 2 ^ 31" by simp
  have d: "dir_apart F 0x200000" unfolding dir_apart_def assms(2) by (auto simp: pa2va_def good_block_def block_def)
  have p: "\<forall>p \<in> set [8, 16, 24]. unat p \<notin> free_area F \<and> dir_apart F (p_cr3 (procs (demo_system h 1) p))"
    using d unfolding assms(2) by (simp add: demo_proc_def)
  have "in_order (\<lambda>p. pid (procs (demo_system h 1) p)) [8, 16, 24]" by (simp add: in_order_def demo_proc_def)
  then have "table_inv F 8 [16, 24] (demo_system h 1)"
    unfolding table_inv_def using assms(1) demo_table(2)[of h 1] p rm by (simp add: demo_proc_def del: table_of_procs.simps)
  moreover have "one_runs [8, 16, 24] (demo_system h 1)" by (simp add: one_runs_def demo_proc_def)
  ultimately show ?thesis unfolding kernel_inv_def by blast
qed

theorem kernel_stays_sound_witness:
  "\<exists>s0 s. kernel_inv s0 \<and> kernel_step\<^sup>*\<^sup>* s0 s \<and> kernel_inv s \<and> (\<exists>p. createProcess 0x1000 3 [] 7 s0 = Inr (p, s))"
proof -
  obtain h F where h: "free_inv h F" "free_area F = {0xC0100000 ..< 0xC0110000}" "16 \<le> room F"
    by (rule heap_16_pages)
  let ?s = "demo_system h 1"
  have k: "kernel_inv ?s" by (rule demo_kernel_inv[OF h(1,2)])
  have "room G = room F" if "free_inv h G" for G using free_lists_unique[OF that h(1)] by simp
  then have five: "five_pages ?s" using h(3) by (simp add: five_pages_def)
  have d: "good_block (table_of (p_cr3 (procs ?s (current_proc ?s)))) 12"
    "block (table_of (p_cr3 (procs ?s (current_proc ?s)))) 12 \<inter> free_area F = {}"
    unfolding h(2) by (auto simp: demo_proc_def table_of_def pa2va_def good_block_def block_def)
  have i: "free_inv (heap ?s) F" "5 \<le> room F" using h(1,3) by simp_all
  have o: "in_order (\<lambda>p. pid (procs ?s p)) [8, 16, 24]" by (simp add: in_order_def demo_proc_def)
  have n: "unat p \<notin> free_area F" if "p \<in> set [8, 16, 24]" for p :: u32 using that unfolding h(2) by auto
  have l: "length [16, 24 :: u32] < 2 ^ 31" by simp
  obtain p s where r: "createProcess 0x1000 3 [] 7 ?s = Inr (p, s)"
  proof -
    note r = createProcess_ok[OF i demo_fields(1) d demo_table(2) o _ l, of "0x1000" 3 "[]" 7]
    show thesis by (rule r[THEN exE], erule n, elim exE conjE, rule that, assumption)
  qed
  have st: "kernel_step\<^sup>*\<^sup>* ?s s" by (rule r_into_rtranclp) (rule kernel_step.create[OF r five])
  show ?thesis using k st r kernel_stays_sound[OF k st] by blast
qed

end
