(* ===== verification/Bytes.thy ===== *)
theory Bytes
  imports Lib
begin

text \<open>
  Words in byte memory: the little-endian 16-bit and 32-bit loads and stores through which the
  drivers read packed structures (\<^verbatim>\<open>#pragma pack(1)\<close>) out of disk sectors, message pages and
  firmware tables.
\<close>

definition load16 :: "bytes \<Rightarrow> u32 \<Rightarrow> u16" where
  "load16 m a = ucast (m a) OR push_bit 8 (ucast (m (a + 1)))"

definition load32 :: "bytes \<Rightarrow> u32 \<Rightarrow> u32" where
  "load32 m a = ucast (m a) OR push_bit 8 (ucast (m (a + 1))) OR push_bit 16 (ucast (m (a + 2)))
     OR push_bit 24 (ucast (m (a + 3)))"

definition store32 :: "u32 \<Rightarrow> u32 \<Rightarrow> bytes \<Rightarrow> bytes" where
  "store32 a v m = m(a := ucast v, a + 1 := ucast (drop_bit 8 v), a + 2 := ucast (drop_bit 16 v),
     a + 3 := ucast (drop_bit 24 v))"

definition apart :: "u32 \<Rightarrow> nat \<Rightarrow> u32 \<Rightarrow> nat \<Rightarrow> bool" where
  "apart a n b k \<longleftrightarrow> (\<forall>i < n. \<not> unat (a + of_nat i - b) < k)"

lemma store32_apply:
  "store32 a v m x = (if unat (x - a) < 4 then ucast (drop_bit (8 * unat (x - a)) v) else m x)"
proof -
  have e: "x = a + of_nat k" if "unat (x - a) = k" for k using that by auto
  consider "unat (x - a) = 0" | "unat (x - a) = 1" | "unat (x - a) = 2" | "unat (x - a) = 3" | "4 \<le> unat (x - a)"
    by linarith
  then show ?thesis
    by cases (use e in \<open>auto simp: store32_def\<close>)
qed

lemma word4_cases:
  fixes n :: nat
  assumes "n < 32"
  shows "n < 8 \<or> (8 \<le> n \<and> n < 16) \<or> (16 \<le> n \<and> n < 24) \<or> (24 \<le> n \<and> n < 32)"
  using assms by auto

lemma load32_store32 [simp]: "load32 (store32 a v m) a = v"
proof (rule bit_word_eqI)
  fix n
  assume n: "n < LENGTH(32)"
  have s: "store32 a v m a = ucast v" "store32 a v m (a + 1) = ucast (drop_bit 8 v)"
    "store32 a v m (a + 2) = ucast (drop_bit 16 v)" "store32 a v m (a + 3) = ucast (drop_bit 24 v)"
    by (simp_all add: store32_def)
  have "n < 32" using n by simp
  then show "bit (load32 (store32 a v m) a) n = bit v n"
    using word4_cases[of n] unfolding load32_def s by (auto simp: bit_simps)
qed

lemma load32_cong: "(\<And>i. i < 4 \<Longrightarrow> m (a + of_nat i) = m' (b + of_nat i)) \<Longrightarrow> load32 m a = load32 m' b"
  unfolding load32_def
proof -
  assume h: "\<And>i. i < 4 \<Longrightarrow> m (a + of_nat i) = m' (b + of_nat i)"
  have "m a = m' b" "m (a + 1) = m' (b + 1)" "m (a + 2) = m' (b + 2)" "m (a + 3) = m' (b + 3)"
    using h[of 0] h[of 1] h[of 2] h[of 3] by simp_all
  then show "ucast (m a) OR push_bit 8 (ucast (m (a + 1))) OR push_bit 16 (ucast (m (a + 2))) OR push_bit 24 (ucast (m (a + 3)))
    = (ucast (m' b) OR push_bit 8 (ucast (m' (b + 1))) OR push_bit 16 (ucast (m' (b + 2))) OR push_bit 24 (ucast (m' (b + 3))) :: u32)"
    by simp
qed

lemma load32_store32_other:
  assumes "apart b 4 a 4"
  shows "load32 (store32 a v m) b = load32 m b"
  by (rule load32_cong) (use assms in \<open>auto simp: store32_apply apart_def\<close>)

lemma apart_words: "4 \<le> unat (b - a) \<Longrightarrow> 4 \<le> unat (a - b) \<Longrightarrow> apart b 4 a 4"
proof -
  assume ba: "4 \<le> unat (b - a)" and ab: "4 \<le> unat (a - b)"
  have "\<not> unat (b + of_nat i - a) < 4" if "i < 4" for i
  proof
    assume lt: "unat (b + of_nat i - a) < 4"
    define k where "k = unat (b + of_nat i - a)"
    have "b + of_nat i - a = of_nat k" unfolding k_def by simp
    then have e: "a - b = of_nat i - of_nat k" by (simp add: algebra_simps)
    show False
    proof (cases "k \<le> i")
      case True
      then have "a - b = of_nat (i - k)" using e by (simp add: of_nat_diff)
      moreover have "unat (of_nat (i - k) :: u32) = i - k" using that by (intro unat_of_nat_small) simp
      ultimately show False using ab that by simp
    next
      case False
      then have "b - a = of_nat (k - i)" using e by (simp add: of_nat_diff algebra_simps)
      moreover have "unat (of_nat (k - i) :: u32) = k - i"
        using lt unfolding k_def[symmetric] by (intro unat_of_nat_small) simp
      ultimately show False using ba lt unfolding k_def[symmetric] by simp
    qed
  qed
  then show ?thesis by (simp add: apart_def)
qed

text \<open>The same facts for addresses that do not wrap, by comparison.\<close>

lemma unat_diff_small:
  fixes a p :: u32
  assumes "unat (a - p) < k" "unat p + k \<le> 2 ^ 32"
  shows "unat p \<le> unat a \<and> unat a < unat p + k"
proof -
  have "unat (p + (a - p)) = unat p + unat (a - p)" using assms by (intro unat_plus_small) simp
  then show ?thesis using assms(1) by simp
qed

lemma store32_outside:
  assumes "unat p + 4 \<le> 2 ^ 32" "unat a < unat p \<or> unat p + 4 \<le> unat a"
  shows "store32 p v m a = m a"
  using unat_diff_small[of a p 4] assms by (auto simp: store32_apply)

lemma load32_outside:
  assumes "unat p + 4 \<le> 2 ^ 32" "unat a + 4 \<le> 2 ^ 32" "unat a + 4 \<le> unat p \<or> unat p + 4 \<le> unat a"
  shows "load32 (store32 p v m) a = load32 m a"
proof (rule load32_cong)
  fix i :: nat
  assume i: "i < 4"
  have "unat (a + of_nat i) = unat a + i"
    using i assms(2) by (subst unat_plus_small) (simp_all add: unat_of_nat_small)
  then show "store32 p v m (a + of_nat i) = m (a + of_nat i)"
    using i assms(1,3) by (intro store32_outside) auto
qed

end
