(* ===== verification/Harddisk.thy ===== *)
theory Harddisk
  imports Bytes Format
begin

text \<open>
  The hard disk driver, \<^verbatim>\<open>kernel/driver/harddisk/harddisk.c\<close>: the ATA commands in PIO mode, the
  partition tables, and the loop that serves the messages of other processes. The memory of the
  driver process is a byte memory; the \<^verbatim>\<open>HardDisk\<close> structure, the sector buffer and the message
  page are at the addresses the code gives them. The drive and its ports are a parameter. Console
  output is left out.
\<close>

section \<open>Ports and commands\<close>

text \<open>
  What the driver uses of the drive: the byte and word port instructions, and \<open>wait_irq\<close>, which is
  \<^verbatim>\<open>receive(-1, INT_MSG_ADDR)\<close>, the wait for the next interrupt message (\<open>None\<close>: there is none).
\<close>

record 'd ata =
  in8 :: "u16 \<Rightarrow> 'd \<Rightarrow> u8 \<times> 'd"
  out8 :: "u16 \<Rightarrow> u8 \<Rightarrow> 'd \<Rightarrow> 'd"
  in16 :: "u16 \<Rightarrow> 'd \<Rightarrow> u16 \<times> 'd"
  out16 :: "u16 \<Rightarrow> u16 \<Rightarrow> 'd \<Rightarrow> 'd"
  wait_irq :: "'d \<Rightarrow> 'd option"

record hd_command =
  feature :: u8
  device :: u8
  sectors :: u8
  lbaLow :: u8
  lbaMid :: u8
  lbaHigh :: u8
  command :: u8

abbreviation (input) REG_BASE_PRIMARY :: u16 where "REG_BASE_PRIMARY \<equiv> 0x1F0"
abbreviation (input) SECTOR_SIZE :: u32 where "SECTOR_SIZE \<equiv> 512"
abbreviation (input) MSG_ADDR :: u32 where "MSG_ADDR \<equiv> 0"
abbreviation (input) DATA_BUFFER :: u32 where "DATA_BUFFER \<equiv> 0x10000000"
abbreviation (input) DATA_LOCATION :: u32 where "DATA_LOCATION \<equiv> 0x20000000"
abbreviation (input) MAX_PARTITIONS :: u32 where "MAX_PARTITIONS \<equiv> 64"
abbreviation (input) MBR_LOCATION :: u32 where "MBR_LOCATION \<equiv> 0x1BE"
abbreviation (input) MBR_CHECK :: u16 where "MBR_CHECK \<equiv> 0xAA55"

text \<open>The wait for the busy bit of the status register.\<close>

partial_function (option) wait_idle :: "'d ata \<Rightarrow> u16 \<Rightarrow> 'd \<Rightarrow> 'd option" where
  "wait_idle io base d =
     (let (status, d) = in8 io (base + 7) d in if BIT_TEST status 7 then wait_idle io base d else Some d)"

definition sendCommand :: "'d ata \<Rightarrow> u16 \<Rightarrow> hd_command \<Rightarrow> 'd \<Rightarrow> 'd option" where
  "sendCommand io base cmd d = map_option
     (\<lambda>d. out8 io (base + 7) (command cmd)
       (out8 io (base + 6) (device cmd)
       (out8 io (base + 5) (lbaHigh cmd)
       (out8 io (base + 4) (lbaMid cmd)
       (out8 io (base + 3) (lbaLow cmd)
       (out8 io (base + 2) (sectors cmd)
       (out8 io (base + 1) (feature cmd)
       (out8 io (base + 0x206) 0 d)))))))) (wait_idle io base d)"

text \<open>\<^verbatim>\<open>readPort\<close> and \<^verbatim>\<open>writePort\<close> of \<^verbatim>\<open>lib.c\<close>: \<^verbatim>\<open>rep insw\<close> and \<^verbatim>\<open>rep outsw\<close> of half the byte count.\<close>

fun read_words :: "'d ata \<Rightarrow> u16 \<Rightarrow> u32 \<Rightarrow> nat \<Rightarrow> bytes \<times> 'd \<Rightarrow> bytes \<times> 'd" where
  "read_words io port buffer 0 md = md"
| "read_words io port buffer (Suc n) (m, d) =
     (let (w, d) = in16 io port d
      in read_words io port (buffer + 2) n (m(buffer := ucast w, buffer + 1 := ucast (drop_bit 8 w)), d))"

definition readPort :: "'d ata \<Rightarrow> u16 \<Rightarrow> u32 \<Rightarrow> u32 \<Rightarrow> bytes \<times> 'd \<Rightarrow> bytes \<times> 'd" where
  "readPort io port buffer count md = read_words io port buffer (unat (drop_bit 1 count)) md"

fun write_words :: "'d ata \<Rightarrow> u16 \<Rightarrow> u32 \<Rightarrow> nat \<Rightarrow> bytes \<times> 'd \<Rightarrow> bytes \<times> 'd" where
  "write_words io port buffer 0 md = md"
| "write_words io port buffer (Suc n) (m, d) =
     write_words io port (buffer + 2) n (m, out16 io port (load16 m buffer) d)"

definition writePort :: "'d ata \<Rightarrow> u16 \<Rightarrow> u32 \<Rightarrow> u32 \<Rightarrow> bytes \<times> 'd \<Rightarrow> bytes \<times> 'd" where
  "writePort io port buffer count md = write_words io port buffer (unat (drop_bit 1 count)) md"

section \<open>Sectors\<close>

text \<open>
  The local \<^verbatim>\<open>HDCommand cmd\<close> is not initialised; \<open>junk\<close> is what it holds. Both routines fill in
  every field but \<^verbatim>\<open>feature\<close>.
\<close>

definition transfer_command :: "hd_command \<Rightarrow> u8 \<Rightarrow> u32 \<Rightarrow> u32 \<Rightarrow> hd_command" where
  "transfer_command junk op lba count = junk\<lparr>command := op, sectors := ucast count,
     device := 0xA0 OR 0b1000000 OR (ucast (drop_bit 24 lba) AND 0xF),
     lbaLow := ucast (lba AND 0xFF), lbaMid := ucast (drop_bit 8 lba AND 0xFF),
     lbaHigh := ucast (drop_bit 16 lba AND 0xFF)\<rparr>"

function read_loop :: "'d ata \<Rightarrow> u32 \<Rightarrow> u32 \<Rightarrow> bytes \<times> 'd \<Rightarrow> (bytes \<times> 'd) option" where
  "read_loop io count data (m, d) =
     (if count = 0 then Some (m, d)
      else case wait_irq io d of
        None \<Rightarrow> None
      | Some d \<Rightarrow> read_loop io (count - 1) (data + SECTOR_SIZE) (readPort io REG_BASE_PRIMARY data SECTOR_SIZE (m, d)))"
  by pat_completeness auto
termination
  by (relation "measure (\<lambda>(io, count, data, md). unat count)") (auto simp: measure_unat)

definition readSectors :: "'d ata \<Rightarrow> hd_command \<Rightarrow> u32 \<Rightarrow> u32 \<Rightarrow> u32 \<Rightarrow> bytes \<times> 'd \<Rightarrow> (bytes \<times> 'd) option" where
  "readSectors io junk lba count data md =
     (case sendCommand io REG_BASE_PRIMARY (transfer_command junk 0x20 lba count) (snd md) of
        None \<Rightarrow> None
      | Some d \<Rightarrow> read_loop io count data (fst md, d))"

partial_function (option) wait_data :: "'d ata \<Rightarrow> 'd \<Rightarrow> 'd option" where
  "wait_data io d =
     (let (status, d) = in8 io (REG_BASE_PRIMARY + 7) d in if \<not> BIT_TEST status 3 then wait_data io d else Some d)"

function write_loop :: "'d ata \<Rightarrow> u32 \<Rightarrow> u32 \<Rightarrow> bytes \<times> 'd \<Rightarrow> (bytes \<times> 'd) option" where
  "write_loop io count data (m, d) =
     (if count = 0 then Some (m, d)
      else case wait_data io d of
        None \<Rightarrow> None
      | Some d \<Rightarrow>
          let (m, d) = writePort io REG_BASE_PRIMARY data SECTOR_SIZE (m, d)
          in case wait_irq io d of
               None \<Rightarrow> None
             | Some d \<Rightarrow> write_loop io (count - 1) (data + SECTOR_SIZE) (m, d))"
  by pat_completeness auto
termination
  by (relation "measure (\<lambda>(io, count, data, md). unat count)") (auto simp: measure_unat)

definition writeSectors :: "'d ata \<Rightarrow> hd_command \<Rightarrow> u32 \<Rightarrow> u32 \<Rightarrow> u32 \<Rightarrow> bytes \<times> 'd \<Rightarrow> (bytes \<times> 'd) option" where
  "writeSectors io junk lba count data md =
     (case sendCommand io REG_BASE_PRIMARY (transfer_command junk 0x30 lba count) (snd md) of
        None \<Rightarrow> None
      | Some d \<Rightarrow> write_loop io count data (fst md, d))"

text \<open>The rest of the driver reads and writes sectors through these two routines only.\<close>

record 'd sector_io =
  read_sectors :: "u32 \<Rightarrow> u32 \<Rightarrow> u32 \<Rightarrow> bytes \<times> 'd \<Rightarrow> (bytes \<times> 'd) option"
  write_sectors :: "u32 \<Rightarrow> u32 \<Rightarrow> u32 \<Rightarrow> bytes \<times> 'd \<Rightarrow> (bytes \<times> 'd) option"

definition pio :: "'d ata \<Rightarrow> hd_command \<Rightarrow> 'd sector_io" where
  "pio io junk = \<lparr>read_sectors = readSectors io junk, write_sectors = writeSectors io junk\<rparr>"

section \<open>The partition tables\<close>

definition part_addr :: "u32 \<Rightarrow> u32 \<Rightarrow> u32" where
  "part_addr hdp i = hdp + 12 + 12 * i"

definition entry_addr :: "u32 \<Rightarrow> u32 \<Rightarrow> u32" where
  "entry_addr mbr i = mbr + MBR_LOCATION + 16 * i"

definition entry_type :: "bytes \<Rightarrow> u32 \<Rightarrow> u32" where
  "entry_type m e = ucast (m (e + 4)) OR (if m e \<noteq> 0 then 0x80000000 else 0)"

text \<open>One round of the loop over the four primary entries; \<open>extSec\<close> is the variable of that name.\<close>

definition primary_entry :: "u32 \<Rightarrow> u32 \<Rightarrow> u32 \<Rightarrow> bytes \<times> u32 \<Rightarrow> bytes \<times> u32" where
  "primary_entry hdp mbr i ms =
     (let (m, extSec) = ms; me = entry_addr mbr i; pt = part_addr hdp i;
          m = store32 (pt + 8) (load32 m (me + 12)) m;
          m = store32 (pt + 4) (load32 m (me + 8)) m;
          m = store32 pt (entry_type m me) m
      in (m, if m (me + 4) = 5 then load32 m (pt + 4) else extSec))"

text \<open>The loop along the chain of extended boot records.\<close>

function read_extended :: "'d sector_io \<Rightarrow> u32 \<Rightarrow> u32 \<Rightarrow> u32 \<Rightarrow> u32 \<Rightarrow> u32 \<Rightarrow> bytes \<times> 'd \<Rightarrow> (u32 \<times> bytes \<times> 'd) option" where
  "read_extended io hdp mbr extBase extSec i (m, d) =
     (if extSec = 0 then Some (i, m, d)
      else if i < MAX_PARTITIONS then
        case read_sectors io extSec 1 mbr (m, d) of
          None \<Rightarrow> None
        | Some (m, d) \<Rightarrow>
            if load16 m (mbr + 0x1FE) \<noteq> MBR_CHECK then Some (i + 1, m, d)
            else
              let npt = part_addr hdp i;
                  m = store32 (npt + 4) (load32 m (entry_addr mbr 0 + 8) + extSec) m;
                  m = store32 (npt + 8) (load32 m (entry_addr mbr 0 + 12)) m;
                  m = store32 npt (entry_type m (entry_addr mbr 0)) m
              in if m (entry_addr mbr 1 + 4) \<noteq> 0
                 then read_extended io hdp mbr extBase (extBase + load32 m (entry_addr mbr 1 + 8)) (i + 1) (m, d)
                 else Some (i + 1, m, d)
      else Some (i, m, d))"
  by pat_completeness auto
termination
proof (relation "measure (\<lambda>(io, hdp, mbr, extBase, extSec, i, md). 64 - unat i)", goal_cases)
  case (2 io hdp mbr extBase extSec i m d)
  from 2(2) have "unat i < 64" by (simp add: word_less_nat_alt)
  then have "unat (i + 1) = unat i + 1" by (subst unat_plus_small) auto
  then show ?case using \<open>unat i < 64\<close> by simp
qed simp

text \<open>
  \<^verbatim>\<open>readPartition\<close> with the \<^verbatim>\<open>HardDisk\<close> at \<open>hdp\<close>. The final loop of the routine only prints. A broken
  master boot record leaves \<^verbatim>\<open>partCount\<close> as it was.
\<close>

definition readPartition :: "'d sector_io \<Rightarrow> u32 \<Rightarrow> bytes \<times> 'd \<Rightarrow> (bytes \<times> 'd) option" where
  "readPartition io hdp md =
     (let mbr = load32 (fst md) (hdp + 4) in
      case read_sectors io 0 1 mbr md of
        None \<Rightarrow> None
      | Some (m, d) \<Rightarrow>
          if load16 m (mbr + 0x1FE) \<noteq> MBR_CHECK then Some (m, d)
          else if m (entry_addr mbr 0 + 4) \<noteq> 0xEE then
            let (m, extSec) = fold (primary_entry hdp mbr) [0, 1, 2, 3] (m, 0) in
            case read_extended io hdp mbr extSec extSec 4 (m, d) of
              None \<Rightarrow> None
            | Some (i, m, d) \<Rightarrow> Some (store32 (hdp + 8) i m, d)
          else Some (store32 (hdp + 8) 0 m, d))"

section \<open>Identification\<close>

text \<open>The byte swap of \<^verbatim>\<open>printIdentifyStr\<close>: the string it prints, without the final zero.\<close>

fun identify_str :: "u8 list \<Rightarrow> u8 list" where
  "identify_str (a # b # str) = b # a # identify_str str"
| "identify_str str = str"

text \<open>\<^verbatim>\<open>identifyHD\<close>; the first component is its return value, which the caller ignores.\<close>

definition identifyHD :: "'d ata \<Rightarrow> hd_command \<Rightarrow> u32 \<Rightarrow> bytes \<times> 'd \<Rightarrow> (u32 \<times> bytes \<times> 'd) option" where
  "identifyHD io junk hdp md =
     (let data = load32 (fst md) (hdp + 4) in
      case sendCommand io REG_BASE_PRIMARY (junk\<lparr>command := 0xEC, device := 0xA0\<rparr>) (snd md) of
        None \<Rightarrow> None
      | Some d \<Rightarrow> (case wait_irq io d of
          None \<Rightarrow> None
        | Some d \<Rightarrow>
            let (m, d) = readPort io REG_BASE_PRIMARY data SECTOR_SIZE (fst md, d)
            in if \<not> BIT_TEST (load16 m (data + 98)) 9 then Some (0, m, d)
               else Some (1, store32 hdp (load32 m (data + 120)) m, d)))"

section \<open>The driver process\<close>

text \<open>\<^verbatim>\<open>atoi\<close> on a string in memory.\<close>

partial_function (option) digits_at :: "u32 \<Rightarrow> u32 \<Rightarrow> bytes \<Rightarrow> u32 option" where
  "digits_at res p m =
     (if 48 \<le> m p \<and> m p \<le> 57 then digits_at (res * 10 + (ucast (m p) - 48)) (p + 1) m else Some res)"

definition atoi_at :: "u32 \<Rightarrow> bytes \<Rightarrow> u32 option" where
  "atoi_at p m =
     (if m p = 43 then digits_at 0 (p + 1) m
      else if m p = 45 then map_option uminus (digits_at 0 (p + 1) m)
      else digits_at 0 p m)"

text \<open>
  The start of \<^verbatim>\<open>harddisk_bottom\<close>, and one round of its loop after a message has arrived in the page
  at \<^verbatim>\<open>MSG_ADDR\<close>; the flag of the result says whether the page is sent back to the sender.
\<close>

definition hd_start :: "'d ata \<Rightarrow> hd_command \<Rightarrow> bytes \<times> 'd \<Rightarrow> (bytes \<times> 'd) option" where
  "hd_start io junk md =
     (case identifyHD io junk DATA_LOCATION (store32 (DATA_LOCATION + 4) DATA_BUFFER (fst md), snd md) of
        None \<Rightarrow> None
      | Some (_, md) \<Rightarrow> readPartition (pio io junk) DATA_LOCATION md)"

definition hd_open :: "bytes \<Rightarrow> bytes option" where
  "hd_open m =
     (if load32 m 8 = 48 \<or> load32 m 8 = 1148601
      then Some (memcpy 2048 DATA_LOCATION 780 (store32 8 0 m))
      else case atoi_at 2048 m of
        None \<Rightarrow> None
      | Some h \<Rightarrow> let m = store32 8 h m in Some (if h = 0 then store32 4 0 m else m))"

definition hd_lba :: "bytes \<Rightarrow> u32" where
  "hd_lba m = load32 m 12 + (if load32 m 8 = 0 then 0 else load32 m (part_addr DATA_LOCATION (load32 m 8 - 1) + 4))"

definition hd_round :: "'d sector_io \<Rightarrow> bytes \<times> 'd \<Rightarrow> (bool \<times> bytes \<times> 'd) option" where
  "hd_round io md =
     (let (m, d) = md in
      if load32 m MSG_ADDR \<noteq> 3 then Some (False, m, d)
      else if load32 m 4 = 1 then map_option (\<lambda>m. (True, m, d)) (hd_open m)
      else if load32 m 4 = 2 then map_option (Pair True) (read_sectors io (hd_lba m) (load32 m 16) 2048 (m, d))
      else if load32 m 4 = 3 then map_option (Pair True) (write_sectors io (hd_lba m) (load32 m 16) 2048 (m, d))
      else Some (False, m, d))"

section \<open>The drive\<close>

type_synonym store = "u32 \<Rightarrow> u32 \<Rightarrow> u8"

definition sector_word :: "store \<Rightarrow> u32 \<Rightarrow> nat \<Rightarrow> u16" where
  "sector_word s l k = ucast (s l (of_nat (2 * k))) OR push_bit 8 (ucast (s l (of_nat (2 * k + 1))))"

definition set_sector_word :: "u32 \<Rightarrow> nat \<Rightarrow> u16 \<Rightarrow> store \<Rightarrow> store" where
  "set_sector_word l k w s = s(l := (s l)(of_nat (2 * k) := ucast w, of_nat (2 * k + 1) := ucast (drop_bit 8 w)))"

text \<open>
  The PIO data transfer protocol of an ATA drive: between commands; with \<open>n\<close> sectors from \<open>l\<close> on still
  to be read, waiting for the drive or with \<open>k\<close> words of the current one taken; the same for a write.
\<close>

datatype phase = Idle | In_Wait u32 nat | In_Data u32 nat nat | Out_Data u32 nat nat | Out_Wait u32 nat

definition lba28 :: "(u16 \<Rightarrow> u8) \<Rightarrow> u32" where
  "lba28 r = ucast (r 0x1F3) OR push_bit 8 (ucast (r 0x1F4)) OR push_bit 16 (ucast (r 0x1F5))
     OR push_bit 24 (ucast (r 0x1F6) AND 0xF)"

definition sector_count :: "(u16 \<Rightarrow> u8) \<Rightarrow> nat" where
  "sector_count r = (if r 0x1F2 = 0 then 256 else unat (r 0x1F2))"

text \<open>
  What the driver relies on, in the words of the ATA standard: \<open>ph\<close> is the state of the transfer, \<open>rg\<close>
  the task file registers, \<open>st\<close> the sectors, \<open>bz\<close> the number of reads of the status register for which
  the drive will still be busy. It may be busy for any number of them between commands, after a WRITE
  command and before each further sector of a write; as long as it is, the status has BSY set and DRQ
  clear, and nothing is promised about register, command or data writes. When it is not, a register
  write only sets the register; READ and WRITE SECTORS in LBA mode start at the 28-bit address for the
  count in the registers (0 is 256); DRQ is set while it waits for the words of a write; each sector
  is announced by an interrupt, before its 256 words are read and after they are written.
\<close>

definition pio_disk :: "'d ata \<Rightarrow> ('d \<Rightarrow> phase) \<Rightarrow> ('d \<Rightarrow> u16 \<Rightarrow> u8) \<Rightarrow> ('d \<Rightarrow> store) \<Rightarrow> ('d \<Rightarrow> nat) \<Rightarrow> bool" where
  "pio_disk io ph rg st bz \<longleftrightarrow>
     (\<forall>d s d'. ph d = Idle \<and> in8 io 0x1F7 d = (s, d') \<longrightarrow>
        (BIT_TEST s 7 \<longleftrightarrow> 0 < bz d) \<and> bz d' = bz d - 1 \<and> ph d' = Idle \<and> rg d' = rg d \<and> st d' = st d) \<and>
     (\<forall>d p v. ph d = Idle \<and> bz d = 0 \<and> p \<in> {0x3F6, 0x1F1, 0x1F2, 0x1F3, 0x1F4, 0x1F5, 0x1F6} \<longrightarrow>
        ph (out8 io p v d) = Idle \<and> bz (out8 io p v d) = 0 \<and> rg (out8 io p v d) = (rg d)(p := v) \<and> st (out8 io p v d) = st d) \<and>
     (\<forall>d. ph d = Idle \<and> bz d = 0 \<and> BIT_TEST (rg d 0x1F6) 6 \<longrightarrow>
        ph (out8 io 0x1F7 0x20 d) = In_Wait (lba28 (rg d)) (sector_count (rg d)) \<and> st (out8 io 0x1F7 0x20 d) = st d \<and>
        ph (out8 io 0x1F7 0x30 d) = Out_Data (lba28 (rg d)) (sector_count (rg d)) 0 \<and> st (out8 io 0x1F7 0x30 d) = st d) \<and>
     (\<forall>d l n. ph d = In_Wait l n \<longrightarrow> (\<exists>d'. wait_irq io d = Some d' \<and> ph d' = In_Data l n 0 \<and> st d' = st d)) \<and>
     (\<forall>d l n k w d'. ph d = In_Data l n k \<and> in16 io 0x1F0 d = (w, d') \<longrightarrow> w = sector_word (st d) l k \<and> st d' = st d \<and>
        ph d' = (if k < 255 then In_Data l n (k + 1) else if 1 < n then In_Wait (l + 1) (n - 1) else Idle)) \<and>
     (\<forall>d l n k s d'. ph d = Out_Data l n k \<and> in8 io 0x1F7 d = (s, d') \<longrightarrow>
        (BIT_TEST s 7 \<longleftrightarrow> 0 < bz d) \<and> (BIT_TEST s 3 \<longleftrightarrow> bz d = 0) \<and> bz d' = bz d - 1 \<and> ph d' = Out_Data l n k \<and> st d' = st d) \<and>
     (\<forall>d l n k w. ph d = Out_Data l n k \<and> bz d = 0 \<longrightarrow> st (out16 io 0x1F0 w d) = set_sector_word l k w (st d) \<and>
        ph (out16 io 0x1F0 w d) = (if k < 255 then Out_Data l n (k + 1) else Out_Wait l n) \<and>
        (k < 255 \<longrightarrow> bz (out16 io 0x1F0 w d) = 0)) \<and>
     (\<forall>d l n. ph d = Out_Wait l n \<longrightarrow> (\<exists>d'. wait_irq io d = Some d' \<and> st d' = st d \<and>
        ph d' = (if 1 < n then Out_Data (l + 1) (n - 1) 0 else Idle)))"

text \<open>The sectors as the driver's clients see them: a transfer of \<open>n\<close> whole sectors.\<close>

definition get_sectors :: "nat \<Rightarrow> u32 \<Rightarrow> u32 \<Rightarrow> store \<Rightarrow> bytes \<Rightarrow> bytes" where
  "get_sectors n lba data s m = (\<lambda>a. if unat (a - data) < 512 * n
     then s (lba + of_nat (unat (a - data) div 512)) (of_nat (unat (a - data) mod 512)) else m a)"

definition put_sectors :: "nat \<Rightarrow> u32 \<Rightarrow> u32 \<Rightarrow> bytes \<Rightarrow> store \<Rightarrow> store" where
  "put_sectors n lba data m s = (\<lambda>l i. if unat (l - lba) < n \<and> unat i < 512
     then m (data + of_nat (512 * unat (l - lba) + unat i)) else s l i)"

definition plain :: "store sector_io" where
  "plain = \<lparr>read_sectors = \<lambda>lba count data (m, s). Some (get_sectors (unat count) lba data s m, s),
     write_sectors = \<lambda>lba count data (m, s). Some (m, put_sectors (unat count) lba data m s)\<rparr>"

lemma sector_word_bytes:
  "ucast (sector_word s l k) = s l (of_nat (2 * k))"
  "ucast (drop_bit 8 (sector_word s l k)) = s l (of_nat (2 * k + 1))"
  by (rule bit_word_eqI; auto simp: sector_word_def bit_simps dest: bit_imp_le_length)+

lemma set_sector_word_load16:
  "set_sector_word l k (load16 m a) s = s(l := (s l)(of_nat (2 * k) := m a, of_nat (2 * k + 1) := m (a + 1)))"
proof -
  have "ucast (load16 m a) = m a" "ucast (drop_bit 8 (load16 m a)) = m (a + 1)"
    by (rule bit_word_eqI; auto simp: load16_def bit_simps dest: bit_imp_le_length)+
  then show ?thesis by (simp add: set_sector_word_def)
qed

lemma byte_step: "unat (a - b) < Suc (Suc n) \<longleftrightarrow> a = b \<or> a = b + 1 \<or> unat (a - (b + 2)) < n"
  if "Suc (Suc n) \<le> 2 ^ 32" for a b :: u32
  using in_block_Suc[of "Suc n" a b] in_block_Suc[of n a "b + 1"] that by (simp add: algebra_simps)

lemma byte_back: "unat (a - b) = Suc (Suc (unat (a - (b + 2))))" if "a \<noteq> b" "a \<noteq> b + 1" for a b :: u32
proof -
  have "unat (a - b) = Suc (unat (a - (b + 1)))"
    using unat_minus_one[of "a - b"] unat_gt_0[of "a - b"] that(1) by (simp add: diff_diff_eq)
  moreover have "unat (a - (b + 1)) = Suc (unat (a - (b + 1 + 1)))"
    using unat_minus_one[of "a - (b + 1)"] unat_gt_0[of "a - (b + 1)"] that(2) by (simp add: diff_diff_eq)
  ultimately show ?thesis by (simp add: algebra_simps)
qed

lemmas pio_laws = pio_disk_def[THEN iffD1]

lemmas pio_status = pio_laws[THEN conjunct1, rule_format]
lemmas pio_register = pio_laws[THEN conjunct2, THEN conjunct1, rule_format]
lemmas pio_command = pio_laws[THEN conjunct2, THEN conjunct2, THEN conjunct1, rule_format]
lemmas pio_in_wait = pio_laws[THEN conjunct2, THEN conjunct2, THEN conjunct2, THEN conjunct1, rule_format]
lemmas pio_in_data = pio_laws[THEN conjunct2, THEN conjunct2, THEN conjunct2, THEN conjunct2, THEN conjunct1, rule_format]
lemmas pio_out_ready = pio_laws[THEN conjunct2, THEN conjunct2, THEN conjunct2, THEN conjunct2, THEN conjunct2, THEN conjunct1, rule_format]
lemmas pio_out_data = pio_laws[THEN conjunct2, THEN conjunct2, THEN conjunct2, THEN conjunct2, THEN conjunct2, THEN conjunct2, THEN conjunct1, rule_format]
lemmas pio_out_wait = pio_laws[THEN conjunct2, THEN conjunct2, THEN conjunct2, THEN conjunct2, THEN conjunct2, THEN conjunct2, THEN conjunct2, rule_format]

lemma read_words_ok:
  assumes io: "pio_disk io ph rg st bz" and "ph d = In_Data l n k" "k + j = 256" "0 < j"
  shows "\<exists>d'. read_words io 0x1F0 buf j (m, d) =
     ((\<lambda>a. if unat (a - buf) < 2 * j then st d l (of_nat (2 * k + unat (a - buf))) else m a), d') \<and>
     st d' = st d \<and> ph d' = (if 1 < n then In_Wait (l + 1) (n - 1) else Idle)"
  using assms(2-4)
proof (induction j arbitrary: k d m buf)
  case (Suc j)
  obtain w d1 where w: "in16 io 0x1F0 d = (w, d1)" by fastforce
  have law: "w = sector_word (st d) l k" "st d1 = st d"
    "ph d1 = (if k < 255 then In_Data l n (k + 1) else if 1 < n then In_Wait (l + 1) (n - 1) else Idle)"
    using pio_in_data[OF io conjI[OF Suc.prems(1) w]] by simp_all
  let ?m = "m(buf := ucast w, buf + 1 := ucast (drop_bit 8 w))"
  have ne: "buf + 1 \<noteq> buf" by simp
  show ?case
  proof (cases "j = 0")
    case True
    then have k: "k = 255" using Suc.prems(2) by simp
    have "(if unat (a - buf) < 2 * Suc j then st d l (of_nat (2 * k + unat (a - buf))) else m a) = ?m a" for a
      using byte_step[of 0 a buf] True ne unfolding law(1) sector_word_bytes by auto
    then show ?thesis using w True law(2,3) k by auto
  next
    case False
    have ph1: "ph d1 = In_Data l n (Suc k)" "Suc k + j = 256" "0 < j" using law(3) Suc.prems(2) False by simp_all
    obtain d' where IH: "read_words io 0x1F0 (buf + 2) j (?m, d1) =
       ((\<lambda>a. if unat (a - (buf + 2)) < 2 * j then st d1 l (of_nat (2 * Suc k + unat (a - (buf + 2)))) else ?m a), d')"
       "st d' = st d1" "ph d' = (if 1 < n then In_Wait (l + 1) (n - 1) else Idle)"
      using Suc.IH[OF ph1] by blast
    have "(if unat (a - (buf + 2)) < 2 * j then st d1 l (of_nat (2 * Suc k + unat (a - (buf + 2)))) else ?m a) =
       (if unat (a - buf) < 2 * Suc j then st d l (of_nat (2 * k + unat (a - buf))) else m a)" for a
    proof -
      have le: "Suc (Suc (2 * j)) \<le> 2 ^ 32" using ph1(2) by simp
      have far: "\<not> unat (buf - (buf + 2)) < 2 * j" "\<not> unat (buf + 1 - (buf + 2)) < 2 * j"
        using ph1(2) by (simp_all add: unsigned_minus_1_eq_mask mask_eq_exp_minus_1 word_unat_eq_iff)
      consider "a = buf" | "a = buf + 1" | "a \<noteq> buf" "a \<noteq> buf + 1" by blast
      then show ?thesis
      proof cases
        case 3
        then show ?thesis using byte_step[OF le, of a buf] byte_back[of a buf] law(2) by simp
      qed (use far ne in \<open>simp_all add: law(1) sector_word_bytes\<close>)
    qed
    then show ?thesis using IH w law(2) by auto
  qed
qed simp


lemma write_words_ok:
  assumes io: "pio_disk io ph rg st bz" and "ph d = Out_Data l n k" "bz d = 0" "k + j = 256" "0 < j"
  shows "\<exists>d'. write_words io 0x1F0 buf j (m, d) = (m, d') \<and> ph d' = Out_Wait l n \<and>
     st d' = (st d)(l := (\<lambda>i. if 2 * k \<le> unat i \<and> unat i < 512 then m (buf + of_nat (unat i - 2 * k)) else st d l i))"
  using assms(2-5)
proof (induction j arbitrary: k d buf)
  case (Suc j)
  define d1 where "d1 = out16 io 0x1F0 (load16 m buf) d"
  have law: "st d1 = (st d)(l := (st d l)(of_nat (2 * k) := m buf, of_nat (2 * k + 1) := m (buf + 1)))"
    "ph d1 = (if k < 255 then Out_Data l n (k + 1) else Out_Wait l n)" "k < 255 \<Longrightarrow> bz d1 = 0"
    using pio_out_data[OF io conjI[OF Suc.prems(1,2)], of "load16 m buf"] set_sector_word_load16[of l k m buf "st d"]
    unfolding d1_def by simp_all
  have small: "unat (of_nat (2 * k) :: u32) = 2 * k" "unat (of_nat (2 * k + 1) :: u32) = 2 * k + 1"
    using Suc.prems(3) by (intro unat_of_nat_small, simp)+
  have i: "(of_nat (2 * k) :: u32) = i \<longleftrightarrow> unat i = 2 * k" "(of_nat (2 * k + 1) :: u32) = i \<longleftrightarrow> unat i = 2 * k + 1" for i
    using small by (metis word_unat_eq_iff)+
  let ?new = "\<lambda>k buf. \<lambda>i. if 2 * k \<le> unat i \<and> unat i < 512 then m (buf + of_nat (unat i - 2 * k)) else st d l i"
  have step: "(if 2 * Suc k \<le> unat i \<and> unat i < 512 then m (buf + 2 + of_nat (unat i - 2 * Suc k)) else st d1 l i) = ?new k buf i" for i
  proof -
    have "(\<exists>r. unat i = 2 * k + 2 + r) \<or> unat i < 2 * k \<or> unat i = 2 * k \<or> unat i = 2 * k + 1"
      using le_Suc_ex[of "2 * k + 2" "unat i"] by (cases "2 * k + 2 \<le> unat i") (blast, linarith)
    then consider "unat i < 2 * k" | "unat i = 2 * k" | "unat i = 2 * k + 1" | r where "unat i = 2 * k + 2 + r"
      by blast
    moreover have v: "st d1 l i = (if unat i = 2 * k then m buf else if unat i = 2 * k + 1 then m (buf + 1) else st d l i)"
      using i[of i] unfolding law(1) fun_upd_same fun_upd_apply by auto
    ultimately show ?thesis
    proof cases
      case (4 r)
      then have "(of_nat (unat i - 2 * k) :: u32) = 2 + of_nat r" "unat i - 2 * Suc k = r" by simp_all
      then show ?thesis using 4 by (simp add: v add.assoc)
    qed (use Suc.prems(3) in \<open>simp_all add: v\<close>)
  qed
  show ?case
  proof (cases "j = 0")
    case True
    then have k: "k = 255" using Suc.prems(3) by simp
    have "st d1 = (st d)(l := ?new k buf)"
    proof (intro ext)
      fix l' i
      show "st d1 l' i = ((st d)(l := ?new k buf)) l' i"
        using step[of i] k law(1) unsigned_less[of i] by (cases "l' = l") auto
    qed
    then show ?thesis using True law(2) k by (auto simp: d1_def)
  next
    case False
    have ph1: "ph d1 = Out_Data l n (Suc k)" "bz d1 = 0" "Suc k + j = 256" "0 < j" using law(2,3) Suc.prems(3) False by simp_all
    obtain d' where IH: "write_words io 0x1F0 (buf + 2) j (m, d1) = (m, d')" "ph d' = Out_Wait l n"
       "st d' = (st d1)(l := (\<lambda>i. if 2 * Suc k \<le> unat i \<and> unat i < 512 then m (buf + 2 + of_nat (unat i - 2 * Suc k)) else st d1 l i))"
      using Suc.IH[OF ph1] by blast
    have "st d' = (st d)(l := ?new k buf)"
      unfolding IH(3) step by (simp add: law(1))
    then show ?thesis using IH(1,2) unfolding write_words.simps d1_def[symmetric] by blast
  qed
qed simp


lemma get_sectors_Suc:
  assumes "512 * Suc n \<le> 2 ^ 32"
  shows "get_sectors n (lba + 1) (data + 512) s (get_sectors 1 lba data s m) = get_sectors (Suc n) lba data s m"
proof (rule ext)
  fix a
  show "get_sectors n (lba + 1) (data + 512) s (get_sectors 1 lba data s m) a = get_sectors (Suc n) lba data s m a"
  proof (cases "unat (a - data) < 512")
    case True
    have "unat (a - (data + 512)) = 2 ^ 32 - 512 + unat (a - data)"
    proof -
      have "(0xFFFFFE00 :: u32) = - 512" by simp
      then have e: "a - (data + 512) = (a - data) + 0xFFFFFE00" by (simp only:) (simp add: algebra_simps)
      show ?thesis unfolding e using True by (subst unat_plus_small) auto
    qed
    then have "2 ^ 32 - 512 \<le> unat (a - (data + 512))" by linarith
    then have "\<not> unat (a - (data + 512)) < 512 * n" using assms by simp
    then show ?thesis using True unfolding get_sectors_def by simp
  next
    case False
    then have le: "512 \<le> a - data" by (simp add: word_le_nat_alt)
    have u: "unat (a - (data + 512)) = unat (a - data) - 512" using unat_minus_le[OF le] by (simp add: diff_diff_eq)
    obtain q where q: "unat (a - data) = 512 + q" using False le_Suc_ex[of 512 "unat (a - data)"] by auto
    have "(512 + q) div 512 = Suc (q div 512)" by linarith
    then show ?thesis using u unfolding get_sectors_def q by (simp add: add.assoc)
  qed
qed

lemma put_sectors_Suc:
  assumes "512 * Suc n \<le> 2 ^ 32"
  shows "put_sectors n (lba + 1) (data + 512) m (put_sectors 1 lba data m s) = put_sectors (Suc n) lba data m s"
proof (intro ext)
  fix l i
  show "put_sectors n (lba + 1) (data + 512) m (put_sectors 1 lba data m s) l i = put_sectors (Suc n) lba data m s l i"
  proof (cases "l = lba")
    case True
    have "unat (lba - (lba + 1)) = 2 ^ 32 - 1" by (simp add: unsigned_minus_1_eq_mask mask_eq_exp_minus_1)
    then have "\<not> unat (lba - (lba + 1)) < n" using assms by simp
    then show ?thesis using True unfolding put_sectors_def by simp
  next
    case False
    then have u: "unat (l - lba) = Suc (unat (l - (lba + 1)))"
      using unat_minus_one[of "l - lba"] unat_gt_0[of "l - lba"] by (simp add: diff_diff_eq)
    show ?thesis unfolding put_sectors_def u by (simp add: algebra_simps)
  qed
qed

lemma read_loop_ok:
  assumes io: "pio_disk io ph rg st bz" and "ph d = In_Wait l (unat count)" "count \<noteq> 0" "512 * unat count \<le> 2 ^ 32"
  shows "\<exists>d'. read_loop io count data (m, d) = Some (get_sectors (unat count) l data (st d) m, d') \<and>
     ph d' = Idle \<and> st d' = st d"
  using assms(2-4)
proof (induction "unat count" arbitrary: count data l d m)
  case 0
  then show ?case by (simp add: unat_eq_zero)
next
  case (Suc n)
  have c: "unat (count - 1) = n" using unat_count_step[OF Suc(2)] by simp
  obtain d1 where d1: "wait_irq io d = Some d1" "ph d1 = In_Data l (unat count) 0" "st d1 = st d"
    using pio_in_wait[OF io Suc.prems(1)] by blast
  obtain d2 where d2: "read_words io 0x1F0 data 256 (m, d1) =
     ((\<lambda>a. if unat (a - data) < 2 * 256 then st d1 l (of_nat (2 * 0 + unat (a - data))) else m a), d2)"
     "st d2 = st d1" "ph d2 = (if 1 < unat count then In_Wait (l + 1) (unat count - 1) else Idle)"
    using read_words_ok[OF io d1(2), of 256] by auto
  have g1: "(\<lambda>a. if unat (a - data) < 2 * 256 then st d1 l (of_nat (2 * 0 + unat (a - data))) else m a) = get_sectors 1 l data (st d) m"
    by (rule ext) (simp add: get_sectors_def d1(3))
  have p: "readPort io 0x1F0 data 512 (m, d1) = (get_sectors 1 l data (st d) m, d2)"
    using d2(1) unfolding readPort_def g1 by simp
  have rec: "read_loop io count data (m, d) = read_loop io (count - 1) (data + 512) (get_sectors 1 l data (st d) m, d2)"
    using Suc.prems(2) d1(1) p by (subst read_loop.simps) simp
  show ?case
  proof (cases "n = 0")
    case True
    then have "count - 1 = 0" using c by (simp add: unat_eq_zero)
    then have "read_loop io count data (m, d) = Some (get_sectors 1 l data (st d) m, d2)"
      unfolding rec by (subst read_loop.simps) simp
    then show ?thesis using True d1(3) d2(2,3) Suc(2) by simp
  next
    case False
    have i: "ph d2 = In_Wait (l + 1) (unat (count - 1))" "count - 1 \<noteq> 0" "512 * unat (count - 1) \<le> 2 ^ 32"
      using False c d2(3) Suc(2) Suc.prems(3) by (auto simp: unat_eq_zero)
    obtain d' where "read_loop io (count - 1) (data + 512) (get_sectors 1 l data (st d) m, d2) =
        Some (get_sectors n (l + 1) (data + 512) (st d2) (get_sectors 1 l data (st d) m), d')" "ph d' = Idle" "st d' = st d2"
      using Suc(1)[OF c[symmetric] i] c by auto
    then show ?thesis using rec get_sectors_Suc[of n] Suc.prems(3) d1(3) d2(2) unfolding Suc(2)[symmetric] by simp
  qed
qed

text \<open>The two polling loops: each read of the status takes one of the reads for which the drive is busy.\<close>

lemma wait_data_ok:
  assumes io: "pio_disk io ph rg st bz" and "ph d = Out_Data l n k"
  shows "\<exists>d'. wait_data io d = Some d' \<and> ph d' = Out_Data l n k \<and> bz d' = 0 \<and> st d' = st d"
  using assms(2)
proof (induction "bz d" arbitrary: d rule: less_induct)
  case less
  obtain s d' where r: "in8 io 0x1F7 d = (s, d')" by fastforce
  note law = pio_out_ready[OF io conjI[OF less.prems r]]
  show ?case
  proof (cases "bz d = 0")
    case True
    then show ?thesis using r law by (subst wait_data.simps) simp
  next
    case False
    then have "wait_data io d = wait_data io d'" using r law by (subst wait_data.simps) simp
    moreover have "bz d' < bz d" using False law by simp
    ultimately show ?thesis using less.hyps[of d'] law by auto
  qed
qed

lemma wait_idle_ok:
  assumes io: "pio_disk io ph rg st bz" and "ph d = Idle"
  shows "\<exists>d'. wait_idle io 0x1F0 d = Some d' \<and> ph d' = Idle \<and> bz d' = 0 \<and> rg d' = rg d \<and> st d' = st d"
  using assms(2)
proof (induction "bz d" arbitrary: d rule: less_induct)
  case less
  obtain s d' where r: "in8 io 0x1F7 d = (s, d')" by fastforce
  note law = pio_status[OF io conjI[OF less.prems r]]
  show ?case
  proof (cases "bz d = 0")
    case True
    then show ?thesis using r law by (subst wait_idle.simps) simp
  next
    case False
    then have "wait_idle io 0x1F0 d = wait_idle io 0x1F0 d'" using r law by (subst wait_idle.simps) simp
    moreover have "bz d' < bz d" using False law by simp
    ultimately show ?thesis using less.hyps[of d'] law by auto
  qed
qed

lemma write_loop_ok:
  assumes io: "pio_disk io ph rg st bz" and "ph d = Out_Data l (unat count) 0" "count \<noteq> 0" "512 * unat count \<le> 2 ^ 32"
  shows "\<exists>d'. write_loop io count data (m, d) = Some (m, d') \<and> ph d' = Idle \<and>
     st d' = put_sectors (unat count) l data m (st d)"
  using assms(2-4)
proof (induction "unat count" arbitrary: count data l d)
  case 0
  then show ?case by (simp add: unat_eq_zero)
next
  case (Suc n)
  have c: "unat (count - 1) = n" using unat_count_step[OF Suc(2)] by simp
  obtain d1 where d1: "wait_data io d = Some d1" "ph d1 = Out_Data l (unat count) 0" "bz d1 = 0" "st d1 = st d"
    using wait_data_ok[OF io Suc.prems(1)] by blast
  obtain d2 where d2: "write_words io 0x1F0 data 256 (m, d1) = (m, d2)" "ph d2 = Out_Wait l (unat count)"
     "st d2 = (st d1)(l := (\<lambda>i. if 2 * 0 \<le> unat i \<and> unat i < 512 then m (data + of_nat (unat i - 2 * 0)) else st d1 l i))"
    using write_words_ok[OF io d1(2,3), of 256] by auto
  obtain d3 where d3: "wait_irq io d2 = Some d3" "st d3 = st d2"
     "ph d3 = (if 1 < unat count then Out_Data (l + 1) (unat count - 1) 0 else Idle)"
    using pio_out_wait[OF io d2(2)] by blast
  have p: "st d3 = put_sectors 1 l data m (st d)"
    unfolding d3(2) d2(3) d1(4) by (intro ext) (auto simp: put_sectors_def unat_eq_zero)
  have rec: "write_loop io count data (m, d) = write_loop io (count - 1) (data + 512) (m, d3)"
    using Suc.prems(2) d1(1) d2(1) d3(1) by (subst write_loop.simps) (simp add: writePort_def)
  show ?case
  proof (cases "n = 0")
    case True
    then have "count - 1 = 0" using c by (simp add: unat_eq_zero)
    then have "write_loop io count data (m, d) = Some (m, d3)" unfolding rec by (subst write_loop.simps) simp
    then show ?thesis using True p d3(3) Suc(2) by simp
  next
    case False
    have i: "ph d3 = Out_Data (l + 1) (unat (count - 1)) 0" "count - 1 \<noteq> 0" "512 * unat (count - 1) \<le> 2 ^ 32"
      using False c d3(3) Suc(2) Suc.prems(3) by (auto simp: unat_eq_zero)
    obtain d' where "write_loop io (count - 1) (data + 512) (m, d3) = Some (m, d')" "ph d' = Idle"
        "st d' = put_sectors n (l + 1) (data + 512) m (st d3)"
      using Suc(1)[OF c[symmetric] i] c by auto
    then show ?thesis using rec put_sectors_Suc[of n] Suc.prems(3) p unfolding Suc(2)[symmetric] by simp
  qed
qed


lemma low_bits: "x AND 0xFF = take_bit 8 x" "x AND 0xF = take_bit 4 x" for x :: "'a::len word"
  by (simp_all add: take_bit_eq_mask mask_eq_exp_minus_1)

lemma lba_parts:
  assumes "unat (lba :: u32) < 2 ^ 28"
  shows "(ucast (ucast (lba AND 0xFF) :: u8) :: u32) OR push_bit 8 (ucast (ucast (drop_bit 8 lba AND 0xFF) :: u8)) OR
     push_bit 16 (ucast (ucast (drop_bit 16 lba AND 0xFF) :: u8)) OR
     push_bit 24 (ucast (0xA0 OR 0b1000000 OR (ucast (drop_bit 24 lba) AND 0xF) :: u8) AND 0xF) = (lba :: u32)"
proof -
  have top: "ucast (0xA0 OR 0b1000000 OR (z AND 0xF) :: u8) AND 0xF = (ucast (take_bit 4 z) :: u32)" for z :: u8
  proof -
    have "ucast a AND 0xF = (ucast (a AND 0xF) :: u32)" for a :: u8
      unfolding low_bits(2) by (rule bit_word_eqI) (auto simp: bit_simps)
    then have "ucast (0xA0 OR 0b1000000 OR (z AND 0xF) :: u8) AND 0xF =
        (ucast ((0xA0 OR 0b1000000 OR (z AND 0xF)) AND 0xF) :: u32)" .
    also have "(0xA0 OR 0b1000000 OR (z AND 0xF)) AND 0xF = take_bit 4 z"
      unfolding bit.conj_disj_distrib2 low_bits(2) by simp
    finally show ?thesis .
  qed
  show ?thesis unfolding top unfolding low_bits
  proof (rule bit_word_eqI)
    fix n
    assume "n < LENGTH(32)"
    then have n: "n < 32" by simp
    have b: "bit lba n \<Longrightarrow> n < 28"
    proof -
      have "take_bit 28 lba = lba" using assms by (simp add: word_unat_eq_iff unsigned_take_bit_eq take_bit_nat_eq_self)
      then show "bit lba n \<Longrightarrow> n < 28" by (metis bit_take_bit_iff)
    qed
    from word4_cases[OF n] show "bit ((ucast (ucast (take_bit 8 lba) :: u8) :: u32) OR push_bit 8 (ucast (ucast (take_bit 8 (drop_bit 8 lba)) :: u8)) OR
     push_bit 16 (ucast (ucast (take_bit 8 (drop_bit 16 lba)) :: u8)) OR push_bit 24 (ucast (take_bit 4 (ucast (drop_bit 24 lba) :: u8)))) n = bit lba n"
      by (elim disjE) (use b in \<open>auto simp: bit_simps\<close>)
  qed
qed

lemma send_transfer_ok:
  assumes io: "pio_disk io ph rg st bz" and idle: "ph d = Idle" and lba: "unat lba < 2 ^ 28"
    and cnt: "count \<noteq> 0" "unat count \<le> 256"
  shows "\<exists>d'. sendCommand io 0x1F0 (transfer_command junk 0x20 lba count) d = Some d' \<and>
      ph d' = In_Wait lba (unat count) \<and> st d' = st d"
    and "\<exists>d'. sendCommand io 0x1F0 (transfer_command junk 0x30 lba count) d = Some d' \<and>
      ph d' = Out_Data lba (unat count) 0 \<and> st d' = st d"
proof -
  obtain d1 where w: "wait_idle io 0x1F0 d = Some d1" and d1: "ph d1 = Idle" "bz d1 = 0" "rg d1 = rg d" "st d1 = st d"
    using wait_idle_ok[OF io idle] by blast
  define c where "c op = transfer_command junk op lba count" for op
  define regs where "regs cmd = [(0x3F6, 0), (0x1F1, feature cmd), (0x1F2, sectors cmd), (0x1F3, lbaLow cmd),
     (0x1F4, lbaMid cmd), (0x1F5, lbaHigh cmd), (0x1F6 :: u16, device cmd)]" for cmd :: hd_command
  have out: "ph (fold (\<lambda>(p, v). out8 io p v) pvs d) = Idle \<and> bz (fold (\<lambda>(p, v). out8 io p v) pvs d) = 0 \<and> st (fold (\<lambda>(p, v). out8 io p v) pvs d) = st d \<and>
      rg (fold (\<lambda>(p, v). out8 io p v) pvs d) = fold (\<lambda>(p, v) r. r(p := v)) pvs (rg d)"
    if "ph d = Idle" "bz d = 0" "\<forall>(p, v) \<in> set pvs. p \<in> {0x3F6, 0x1F1, 0x1F2, 0x1F3, 0x1F4, 0x1F5, 0x1F6}" for pvs d
    using that
  proof (induction pvs arbitrary: d)
    case (Cons pv pvs)
    obtain p v where pv: "pv = (p, v)" by fastforce
    have p: "p \<in> {0x3F6, 0x1F1, 0x1F2, 0x1F3, 0x1F4, 0x1F5, 0x1F6}" using Cons.prems(3) pv by simp
    note s = pio_register[OF io conjI[OF Cons.prems(1) conjI[OF Cons.prems(2) p]], of v]
    show ?case using Cons.IH[of "out8 io p v d"] Cons.prems(3) s pv by simp
  qed simp
  define d2 where "d2 op = fold (\<lambda>(p, v). out8 io p v) (regs (c op)) d1" for op
  have d2: "ph (d2 op) = Idle" "bz (d2 op) = 0" "st (d2 op) = st d" "rg (d2 op) = fold (\<lambda>(p, v) r. r(p := v)) (regs (c op)) (rg d1)" for op
    using out[of d1 "regs (c op)"] d1 unfolding d2_def by (auto simp: regs_def)
  have send: "sendCommand io 0x1F0 (c op) d = Some (out8 io 0x1F7 op (d2 op))" for op
    unfolding sendCommand_def w d2_def regs_def by (simp add: c_def transfer_command_def)
  have dev: "BIT_TEST (rg (d2 op) 0x1F6) 6" for op
    unfolding d2(4) regs_def by (simp add: c_def transfer_command_def BIT_TEST_bit bit_simps)
  have l: "lba28 (rg (d2 op)) = lba" for op
    unfolding lba28_def d2(4) regs_def using lba_parts[OF lba] by (simp add: c_def transfer_command_def)
  have sc: "sector_count (rg (d2 op)) = unat count" for op
  proof -
    have u: "unat (ucast count :: u8) = unat count mod 256" by (simp add: unat_ucast_narrow)
    have n: "unat count \<noteq> 0" using cnt(1) by (simp add: unat_eq_zero)
    show ?thesis
    proof (cases "unat count = 256")
      case True
      then have "ucast count = (0 :: u8)" using u by (simp add: unat_eq_zero)
      then show ?thesis using True unfolding sector_count_def d2(4) regs_def by (simp add: c_def transfer_command_def)
    next
      case False
      then have "unat (ucast count :: u8) = unat count" using u cnt(2) by simp
      moreover from this have "ucast count \<noteq> (0 :: u8)" using n by auto
      ultimately show ?thesis unfolding sector_count_def d2(4) regs_def by (simp add: c_def transfer_command_def)
    qed
  qed
  show "\<exists>d'. sendCommand io 0x1F0 (transfer_command junk 0x20 lba count) d = Some d' \<and> ph d' = In_Wait lba (unat count) \<and> st d' = st d"
    using send pio_command[OF io conjI[OF d2(1) conjI[OF d2(2) dev]]] d2(3) l sc unfolding c_def by auto
  show "\<exists>d'. sendCommand io 0x1F0 (transfer_command junk 0x30 lba count) d = Some d' \<and> ph d' = Out_Data lba (unat count) 0 \<and> st d' = st d"
    using send pio_command[OF io conjI[OF d2(1) conjI[OF d2(2) dev]]] d2(3) l sc unfolding c_def by auto
qed

declare read_extended.simps [simp del]

lemma transfers_ok:
  assumes io: "pio_disk io ph rg st bz" and idle: "ph d = Idle"
    and "count \<noteq> 0" "unat count \<le> 256" "unat lba + unat count \<le> 2 ^ 28"
  shows "\<exists>m1 d1 d2. readSectors io junk lba count data (m, d) = Some (m1, d1) \<and>
       read_sectors plain lba count data (m, st d) = Some (m1, st d1) \<and> ph d1 = Idle \<and>
     writeSectors io junk lba count data (m, d) = Some (m, d2) \<and>
       write_sectors plain lba count data (m, st d) = Some (m, st d2) \<and> ph d2 = Idle"
proof -
  have n: "unat count \<noteq> 0" using assms(3) by (simp add: unat_eq_zero)
  have lba: "unat lba < 2 ^ 28" using assms(5) n by linarith
  have sz: "512 * unat count \<le> 2 ^ 32" using assms(4) by simp
  obtain e1 where e1: "sendCommand io 0x1F0 (transfer_command junk 0x20 lba count) d = Some e1"
      "ph e1 = In_Wait lba (unat count)" "st e1 = st d"
    using send_transfer_ok(1)[OF io idle lba assms(3,4)] by blast
  obtain d1 where d1: "read_loop io count data (m, e1) = Some (get_sectors (unat count) lba data (st e1) m, d1)"
      "ph d1 = Idle" "st d1 = st e1"
    using read_loop_ok[OF io e1(2) assms(3) sz] by blast
  obtain e2 where e2: "sendCommand io 0x1F0 (transfer_command junk 0x30 lba count) d = Some e2"
      "ph e2 = Out_Data lba (unat count) 0" "st e2 = st d"
    using send_transfer_ok(2)[OF io idle lba assms(3,4)] by blast
  obtain d2 where d2: "write_loop io count data (m, e2) = Some (m, d2)" "ph d2 = Idle"
      "st d2 = put_sectors (unat count) lba data m (st e2)"
    using write_loop_ok[OF io e2(2) assms(3) sz] by blast
  show ?thesis
    using d1 d2 e1 e2 by (simp add: readSectors_def writeSectors_def plain_def)
qed


text \<open>
  A drive that follows the protocol; it stays busy for as many reads of the status as the next number
  of a list says.
\<close>

record drive =
  dr_phase :: phase
  dr_regs :: "u16 \<Rightarrow> u8"
  dr_store :: store
  dr_busy :: nat
  dr_delays :: "nat list"




definition drive_delay :: "drive \<Rightarrow> drive" where
  "drive_delay d = (case dr_delays d of [] \<Rightarrow> d\<lparr>dr_busy := 0\<rparr> | n # ns \<Rightarrow> d\<lparr>dr_busy := n, dr_delays := ns\<rparr>)"


lemma drive_delay_simps [simp]:
  "dr_phase (drive_delay d) = dr_phase d" "dr_regs (drive_delay d) = dr_regs d" "dr_store (drive_delay d) = dr_store d"
  by (simp_all add: drive_delay_def split: list.split)



text \<open>One round of the driver's loop: over the drive it does what it does over the store of sectors.\<close>

lemma hd_round_pio:
  assumes io: "pio_disk io ph rg st bz" and idle: "ph d = Idle"
    and lim: "load32 m 0 = 3 \<and> load32 m 4 \<in> {2, 3} \<Longrightarrow>
      load32 m 16 \<noteq> 0 \<and> unat (load32 m 16) \<le> 256 \<and> unat (hd_lba m) + unat (load32 m 16) \<le> 2 ^ 28"
    and r: "hd_round plain (m, st d) = Some (b, m', s')"
  shows "\<exists>d'. hd_round (pio io junk) (m, d) = Some (b, m', d') \<and> st d' = s' \<and> ph d' = Idle"
proof (cases "load32 m 0 = 3 \<and> load32 m 4 \<in> {2, 3}")
  case True
  note l = lim[OF True]
  obtain m1 d1 d2 where t: "readSectors io junk (hd_lba m) (load32 m 16) 2048 (m, d) = Some (m1, d1)"
      "read_sectors plain (hd_lba m) (load32 m 16) 2048 (m, st d) = Some (m1, st d1)" "ph d1 = Idle"
      "writeSectors io junk (hd_lba m) (load32 m 16) 2048 (m, d) = Some (m, d2)"
      "write_sectors plain (hd_lba m) (load32 m 16) 2048 (m, st d) = Some (m, st d2)" "ph d2 = Idle"
    using transfers_ok[OF io idle, of "load32 m 16" "hd_lba m" junk 2048 m] l by blast
  then show ?thesis using True r by (auto simp: hd_round_def pio_def)
next
  case False
  then show ?thesis using r idle by (auto simp: hd_round_def split: if_splits)
qed

section \<open>The partition table that is read\<close>

definition sector_u32 :: "store \<Rightarrow> u32 \<Rightarrow> u32 \<Rightarrow> u32" where
  "sector_u32 s l i = load32 (s l) i"

text \<open>An entry of a boot record: type with the active flag, first sector, size.\<close>

definition table_entry :: "store \<Rightarrow> u32 \<Rightarrow> u32 \<Rightarrow> u32 \<times> u32 \<times> u32" where
  "table_entry s l i =
     (ucast (s l (0x1BE + 16 * i + 4)) OR (if s l (0x1BE + 16 * i) \<noteq> 0 then 0x80000000 else 0),
      sector_u32 s l (0x1BE + 16 * i + 8), sector_u32 s l (0x1BE + 16 * i + 12))"

definition boot_record :: "store \<Rightarrow> u32 \<Rightarrow> bool" where
  "boot_record s l \<longleftrightarrow> load16 (s l) 0x1FE = 0xAA55"

text \<open>
  The logical partitions: the chain of extended boot records from \<open>l\<close>, at most \<open>k\<close> of them. A record
  without its signature ends the chain but still takes a number, without a description.
\<close>

fun logical :: "nat \<Rightarrow> store \<Rightarrow> u32 \<Rightarrow> u32 \<Rightarrow> (u32 \<times> u32 \<times> u32) option list" where
  "logical 0 s base l = []"
| "logical (Suc k) s base l =
     (if l = 0 then []
      else if \<not> boot_record s l then [None]
      else Some (case table_entry s l 0 of (ty, first, len) \<Rightarrow> (ty, first + l, len)) #
        (if s l (0x1BE + 16 + 4) \<noteq> 0 then logical k s base (base + sector_u32 s l (0x1BE + 16 + 8)) else []))"

definition part_desc :: "bytes \<Rightarrow> nat \<Rightarrow> u32 \<times> u32 \<times> u32" where
  "part_desc m i = (let p = part_addr DATA_LOCATION (of_nat i) in (load32 m p, load32 m (p + 4), load32 m (p + 8)))"

lemma unat_part_addr:
  assumes "i < 64"
  shows "unat (part_addr DATA_LOCATION (of_nat i)) = 0x2000000C + 12 * i"
    and "unat (part_addr DATA_LOCATION (of_nat i) + 4) = 0x20000010 + 12 * i"
    and "unat (part_addr DATA_LOCATION (of_nat i) + 8) = 0x20000014 + 12 * i"
proof -
  have e: "part_addr DATA_LOCATION (of_nat i) = of_nat (0x2000000C + 12 * i)" by (simp add: part_addr_def)
  show "unat (part_addr DATA_LOCATION (of_nat i)) = 0x2000000C + 12 * i"
    unfolding e using assms by (intro unat_of_nat_small) simp
  have "part_addr DATA_LOCATION (of_nat i) + 4 = of_nat (0x20000010 + 12 * i)" by (simp add: part_addr_def)
  then show "unat (part_addr DATA_LOCATION (of_nat i) + 4) = 0x20000010 + 12 * i"
    using assms by (simp only:) (intro unat_of_nat_small, simp)
  have "part_addr DATA_LOCATION (of_nat i) + 8 = of_nat (0x20000014 + 12 * i)" by (simp add: part_addr_def)
  then show "unat (part_addr DATA_LOCATION (of_nat i) + 8) = 0x20000014 + 12 * i"
    using assms by (simp only:) (intro unat_of_nat_small, simp)
qed


text \<open>Storing a description: it is read back, the other partitions and the sector buffer stay.\<close>

definition set_partition :: "nat \<Rightarrow> u32 \<times> u32 \<times> u32 \<Rightarrow> bytes \<Rightarrow> bytes" where
  "set_partition i p m = (case p of (ty, first, len) \<Rightarrow> let a = part_addr DATA_LOCATION (of_nat i) in
     store32 a ty (store32 (a + 4) first (store32 (a + 8) len m)))"

lemma partition_set [simp]:
  assumes "i < 64" "j < 64"
  shows "part_desc (set_partition i p m) j = (if j = i then p else part_desc m j)"
proof -
  note u = unat_part_addr[OF assms(1)] unat_part_addr[OF assms(2)]
  have "12 * j + 12 \<le> 12 * i \<or> 12 * i + 12 \<le> 12 * j" if "j \<noteq> i" using that by linarith
  then show ?thesis
    using assms by (cases p; cases "j = i") (auto simp: part_desc_def set_partition_def Let_def load32_outside u)
qed

lemma set_partition_other:
  assumes "i < 64" "unat a < 0x2000000C \<or> 0x2000030C \<le> unat a"
  shows "set_partition i p m a = m a"
  using assms unat_part_addr[OF assms(1)]
  by (cases p) (auto simp: set_partition_def Let_def store32_outside)

text \<open>The sector buffer.\<close>

definition holds_sector :: "bytes \<Rightarrow> store \<Rightarrow> u32 \<Rightarrow> bool" where
  "holds_sector m s l \<longleftrightarrow> (\<forall>i. unat i < 512 \<longrightarrow> m (DATA_BUFFER + i) = s l i)"

lemma buffer_addr: "unat i < 512 \<Longrightarrow> unat (DATA_BUFFER + i) = 0x10000000 + unat i"
  by (subst unat_plus_small) simp_all

lemma holds_get: "holds_sector (get_sectors 1 l DATA_BUFFER s m) s l"
  by (simp add: holds_sector_def get_sectors_def)

lemma holds_set: "holds_sector m s l \<Longrightarrow> i < 64 \<Longrightarrow> holds_sector (set_partition i p m) s l"
  by (simp add: holds_sector_def set_partition_other buffer_addr)

lemma holds_load:
  assumes "holds_sector m s l" "unat i + 4 \<le> 512"
  shows "load32 m (DATA_BUFFER + i) = sector_u32 s l i"
proof -
  have "m (DATA_BUFFER + i + of_nat k) = s l (i + of_nat k)" if "k < 4" for k
  proof -
    have "unat (i + of_nat k) = unat i + k"
      using that assms(2) by (subst unat_plus_small) (simp_all add: unat_of_nat_small)
    then show ?thesis using assms that by (simp add: holds_sector_def add.assoc)
  qed
  then show ?thesis unfolding sector_u32_def by (intro load32_cong) simp
qed

lemma get_sectors_other:
  assumes "unat a < 0x10000000 \<or> 0x10000200 \<le> unat a"
  shows "get_sectors 1 l DATA_BUFFER s m a = m a"
  using unat_diff_small[of a "0x10000000" 512] assms by (auto simp: get_sectors_def)

lemma partition_get: "i < 64 \<Longrightarrow> part_desc (get_sectors 1 l DATA_BUFFER s m) i = part_desc m i"
proof -
  assume i: "i < 64"
  note u = unat_part_addr[OF i]
  have "load32 (get_sectors 1 l DATA_BUFFER s m) a = load32 m a" if "0x2000000C \<le> unat a" "unat a + 4 \<le> 2 ^ 32" for a
  proof (rule load32_cong)
    fix k :: nat
    assume "k < 4"
    then have "unat (a + of_nat k) = unat a + k"
      using that by (subst unat_plus_small) (simp_all add: unat_of_nat_small)
    then show "get_sectors 1 l DATA_BUFFER s m (a + of_nat k) = m (a + of_nat k)"
      using that(1) by (intro get_sectors_other) simp
  qed
  then show ?thesis using i by (simp add: part_desc_def Let_def u)
qed


lemma holds_load16: "holds_sector m s l \<Longrightarrow> (load16 m (DATA_BUFFER + 0x1FE) = 0xAA55) = boot_record s l"
proof -
  assume h: "holds_sector m s l"
  have "m (DATA_BUFFER + 0x1FE) = s l 0x1FE" "m (DATA_BUFFER + 0x1FF) = s l 0x1FF"
    using h[unfolded holds_sector_def, rule_format, of "0x1FE"] h[unfolded holds_sector_def, rule_format, of "0x1FF"]
    by simp_all
  then show ?thesis by (simp add: boot_record_def load16_def)
qed

lemma holds_byte: "holds_sector m s l \<Longrightarrow> unat i < 512 \<Longrightarrow> m (DATA_BUFFER + i) = s l i"
  by (simp add: holds_sector_def)

lemma store32_commute:
  assumes "unat p + 4 \<le> unat q" "unat q + 4 \<le> 2 ^ 32"
  shows "store32 p v (store32 q w m) = store32 q w (store32 p v m)"
proof (rule ext)
  fix a
  show "store32 p v (store32 q w m) a = store32 q w (store32 p v m) a"
    using unat_diff_small[of a p 4] unat_diff_small[of a q 4] assms by (auto simp: store32_apply)
qed

lemma primary_entry_ok:
  assumes h: "holds_sector m s 0" and i: "i < 4"
  shows "primary_entry DATA_LOCATION DATA_BUFFER (of_nat i) (m, e) =
     (set_partition i (table_entry s 0 (of_nat i)) m,
      if s 0 (0x1BE + 16 * of_nat i + 4) = 5 then sector_u32 s 0 (0x1BE + 16 * of_nat i + 8) else e)"
proof -
  define me where "me = 0x1BE + 16 * (of_nat i :: u32)"
  have u: "unat me = 0x1BE + 16 * i"
  proof -
    have "me = of_nat (0x1BE + 16 * i)" by (simp add: me_def)
    then show ?thesis using i by (simp only:) (intro unat_of_nat_small, simp)
  qed
  have um: "unat (me + of_nat k) = 0x1BE + 16 * i + k" if "k \<le> 12" for k
    using that u i by (subst unat_plus_small) (simp_all add: unat_of_nat_small)
  have e: "entry_addr DATA_BUFFER (of_nat i) = DATA_BUFFER + me" by (simp add: entry_addr_def me_def)
  let ?pt = "part_addr DATA_LOCATION (of_nat i)"
  note up = unat_part_addr[of i]
  have st: "store32 (?pt + of_nat k) v M (DATA_BUFFER + x) = M (DATA_BUFFER + x)" if "unat x < 512" "k \<in> {0, 4, 8}" for k v M x
    using that up i buffer_addr[OF that(1)] by (intro store32_outside) auto
  have hs: "holds_sector (store32 (?pt + of_nat k) v M) s 0" if "holds_sector M s 0" "k \<in> {0, 4, 8}" for k v M
    using that st by (simp add: holds_sector_def)
  define m1 where "m1 = store32 (?pt + 8) (sector_u32 s 0 (me + 12)) m"
  define m2 where "m2 = store32 (?pt + 4) (sector_u32 s 0 (me + 8)) m1"
  have h1: "holds_sector m1 s 0" unfolding m1_def using hs[OF h, of 8] by simp
  have h2: "holds_sector m2 s 0" unfolding m2_def using hs[OF h1, of 4] by simp
  have l12: "load32 m (DATA_BUFFER + me + 12) = sector_u32 s 0 (me + 12)"
    using holds_load[OF h, of "me + 12"] um[of 12] i by (simp add: add.assoc)
  have l8: "load32 m1 (DATA_BUFFER + me + 8) = sector_u32 s 0 (me + 8)"
    using holds_load[OF h1, of "me + 8"] um[of 8] i by (simp add: add.assoc)
  have ty: "entry_type m2 (DATA_BUFFER + me) = fst (table_entry s 0 (of_nat i))"
    using holds_byte[OF h2, of me] holds_byte[OF h2, of "me + 4"] u um[of 4] i
    by (simp add: entry_type_def table_entry_def me_def add.assoc)
  define m3 where "m3 = store32 ?pt (entry_type m2 (DATA_BUFFER + me)) m2"
  have h3: "holds_sector m3 s 0" unfolding m3_def using hs[OF h2, of 0] by simp
  have m3: "m3 = set_partition i (table_entry s 0 (of_nat i)) m"
    unfolding m3_def ty by (simp add: set_partition_def Let_def m2_def m1_def table_entry_def me_def)
  have b: "m3 (DATA_BUFFER + me + 4) = s 0 (me + 4)"
    using holds_byte[OF h3, of "me + 4"] um[of 4] i by (simp add: add.assoc)
  have ld: "load32 m3 (?pt + 4) = sector_u32 s 0 (me + 8)"
    unfolding m3_def m2_def using up i by (simp add: load32_outside)
  have "primary_entry DATA_LOCATION DATA_BUFFER (of_nat i) (m, e) =
      (m3, if m3 (DATA_BUFFER + me + 4) = 5 then load32 m3 (?pt + 4) else e)"
    unfolding primary_entry_def Let_def prod.case e l12 m1_def[symmetric] l8 m2_def[symmetric] m3_def[symmetric] ..
  from this[unfolded b ld, unfolded m3, unfolded me_def] show ?thesis .
qed


lemma read_extended_ok:
  assumes "i + k = 64"
  shows "\<exists>m'. read_extended plain DATA_LOCATION DATA_BUFFER base l (of_nat i) (m, s) =
      Some (of_nat (i + length (logical k s base l)), m', s) \<and>
    (\<forall>j < 64. part_desc m' j =
      (if i \<le> j \<and> j < i + length (logical k s base l)
       then (case logical k s base l ! (j - i) of Some p \<Rightarrow> p | None \<Rightarrow> part_desc m j) else part_desc m j))"
  using assms
proof (induction k arbitrary: i l m)
  case 0
  then show ?case by (subst read_extended.simps) simp
next
  case (Suc k)
  have i: "i < 64" using Suc.prems by simp
  have ui: "unat (of_nat i :: u32) = i" using i by (intro unat_of_nat_small) simp
  have lt: "(of_nat i :: u32) < 64" by (simp add: word_less_nat_alt ui i)
  have inc: "(of_nat i :: u32) + 1 = of_nat (Suc i)" by simp
  show ?case
  proof (cases "l = 0")
    case True
    then show ?thesis by (subst read_extended.simps) auto
  next
    case l: False
    define m1 where "m1 = get_sectors 1 l DATA_BUFFER s m"
    have h1: "holds_sector m1 s l" unfolding m1_def by (rule holds_get)
    have rd: "read_sectors plain l 1 DATA_BUFFER (m, s) = Some (m1, s)" by (simp add: plain_def m1_def)
    show ?thesis
    proof (cases "boot_record s l")
      case False
      have "read_extended plain DATA_LOCATION DATA_BUFFER base l (of_nat i) (m, s) = Some (of_nat (Suc i), m1, s)"
        using l lt rd False holds_load16[OF h1] inc by (subst read_extended.simps) simp
      moreover have lg: "logical (Suc k) s base l = [None]" using l False by simp
      moreover have "part_desc m1 j = part_desc m j" if "j < 64" for j
        unfolding m1_def using that by (rule partition_get)
      ultimately show ?thesis unfolding lg by (intro exI[of _ m1]) (simp add: le_less_Suc_eq)
    next
      case True
      let ?pt = "part_addr DATA_LOCATION (of_nat i)"
      note up = unat_part_addr[OF i]
      define p where "p = (case table_entry s l 0 of (ty, first, len) \<Rightarrow> (ty, first + l, len))"
      have st: "store32 (?pt + of_nat c) v M (DATA_BUFFER + x) = M (DATA_BUFFER + x)"
        if "unat x < 512" "c \<in> {0, 4, 8}" for c v M x
        using that up i buffer_addr[OF that(1)] by (intro store32_outside) auto
      have hs: "holds_sector (store32 (?pt + of_nat c) v M) s l" if "holds_sector M s l" "c \<in> {0, 4, 8}" for c v M
        using that st by (simp add: holds_sector_def)
      define m2 where "m2 = store32 (?pt + 4) (sector_u32 s l (0x1BE + 8) + l) m1"
      define m3 where "m3 = store32 (?pt + 8) (sector_u32 s l (0x1BE + 12)) m2"
      define m4 where "m4 = store32 ?pt (entry_type m3 (entry_addr DATA_BUFFER 0)) m3"
      have h2: "holds_sector m2 s l" unfolding m2_def using hs[OF h1, of 4] by simp
      have h3: "holds_sector m3 s l" unfolding m3_def using hs[OF h2, of 8] by simp
      have h4: "holds_sector m4 s l" unfolding m4_def using hs[OF h3, of 0] by simp
      have l8: "load32 m1 (entry_addr DATA_BUFFER 0 + 8) = sector_u32 s l (0x1BE + 8)"
        using holds_load[OF h1, of "0x1BE + 8"] by (simp add: entry_addr_def)
      have l12: "load32 m2 (entry_addr DATA_BUFFER 0 + 12) = sector_u32 s l (0x1BE + 12)"
        using holds_load[OF h2, of "0x1BE + 12"] by (simp add: entry_addr_def)
      have b: "m4 (entry_addr DATA_BUFFER 1 + 4) = s l (0x1BE + 16 + 4)"
        using holds_byte[OF h4, of "0x1BE + 16 + 4"] by (simp add: entry_addr_def)
      have n8: "load32 m4 (entry_addr DATA_BUFFER 1 + 8) = sector_u32 s l (0x1BE + 16 + 8)"
        using holds_load[OF h4, of "0x1BE + 16 + 8"] by (simp add: entry_addr_def)
      have ty: "entry_type m3 (entry_addr DATA_BUFFER 0) = fst p"
        using holds_byte[OF h3, of "0x1BE"] holds_byte[OF h3, of "0x1BE + 4"]
        by (simp add: entry_type_def entry_addr_def p_def table_entry_def)
      have m3: "m3 = store32 (?pt + 4) (sector_u32 s l (0x1BE + 8) + l) (store32 (?pt + 8) (sector_u32 s l (0x1BE + 12)) m1)"
        unfolding m3_def m2_def by (rule store32_commute[symmetric]) (use up i in simp_all)
      have m4: "m4 = set_partition i p m1"
        unfolding m4_def ty unfolding m3 by (simp add: set_partition_def Let_def p_def table_entry_def)
      have step: "read_extended plain DATA_LOCATION DATA_BUFFER base l (of_nat i) (m, s) =
          (if s l (0x1BE + 16 + 4) \<noteq> 0
           then read_extended plain DATA_LOCATION DATA_BUFFER base (base + sector_u32 s l (0x1BE + 16 + 8)) (of_nat (Suc i)) (m4, s)
           else Some (of_nat (Suc i), m4, s))"
        using l lt holds_load16[OF h1] True
        by (subst read_extended.simps)
          (simp only: rd if_False if_True option.case prod.case Let_def l8 m2_def[symmetric] l12 m3_def[symmetric] m4_def[symmetric]
            b n8 inc not_False_eq_True not_True_eq_False)
      let ?rest = "if s l (0x1BE + 16 + 4) \<noteq> 0 then logical k s base (base + sector_u32 s l (0x1BE + 16 + 8)) else []"
      have lg: "logical (Suc k) s base l = Some p # ?rest" using l True by (simp add: p_def)
      obtain m' where m': "read_extended plain DATA_LOCATION DATA_BUFFER base l (of_nat i) (m, s) =
          Some (of_nat (Suc i + length ?rest), m', s)"
        "\<forall>j < 64. part_desc m' j = (if Suc i \<le> j \<and> j < Suc i + length ?rest
           then (case ?rest ! (j - Suc i) of Some p \<Rightarrow> p | None \<Rightarrow> part_desc m4 j) else part_desc m4 j)"
      proof (cases "s l (0x1BE + 16 + 4) \<noteq> 0")
        case True
        then show thesis
          using that Suc.IH[of "Suc i" "base + sector_u32 s l (0x1BE + 16 + 8)" m4] Suc.prems unfolding step by auto
      next
        case False
        then show thesis by (intro that[of m4]) (auto simp: step)
      qed
      have p4: "part_desc m4 j = (if j = i then p else part_desc m j)" if "j < 64" for j
        unfolding m4 partition_set[OF i that] m1_def partition_get[OF that] ..
      have "part_desc m' j = (if i \<le> j \<and> j < i + length (Some p # ?rest)
          then (case (Some p # ?rest) ! (j - i) of Some p \<Rightarrow> p | None \<Rightarrow> part_desc m j) else part_desc m j)"
        if j: "j < 64" for j
      proof -
        consider "j = i" | "j < i" | r where "j = Suc i + r"
          using less_imp_Suc_add[of i j] by (metis add_Suc linorder_neqE_nat)
        then show ?thesis
        proof cases
          case (3 r)
          have e: "j - Suc i = r" "j - i = Suc r" "j \<noteq> i" using 3 by simp_all
          have "part_desc m' j = (if r < length ?rest then (case ?rest ! r of Some p \<Rightarrow> p | None \<Rightarrow> part_desc m j) else part_desc m j)"
            using m'(2)[rule_format, OF j] unfolding p4[OF j] e(1) using e(3) 3 by simp
          then show ?thesis unfolding e(2) using 3 by simp
        qed (use m'(2)[rule_format, OF j] p4[OF j] in simp_all)
      qed
      then show ?thesis unfolding lg using m'(1) by (intro exI[of _ m']) simp
    qed
  qed
qed


text \<open>Where the extended partition starts: the last of the four entries of that type.\<close>

definition extended_start :: "store \<Rightarrow> u32" where
  "extended_start s = (let ext = filter (\<lambda>i. s 0 (0x1BE + 16 * i + 4) = 5) [0, 1, 2, 3]
     in if ext = [] then 0 else sector_u32 s 0 (0x1BE + 16 * last ext + 8))"

lemma primary_entries_ok:
  assumes h: "holds_sector m s 0"
  shows "\<exists>m'. fold (primary_entry DATA_LOCATION DATA_BUFFER) [0, 1, 2, 3] (m, 0) = (m', extended_start s) \<and>
    holds_sector m' s 0 \<and>
    (\<forall>j < 64. part_desc m' j = (if j < 4 then table_entry s 0 (of_nat j) else part_desc m j))"
proof -
  let ?t = "\<lambda>i :: nat. table_entry s 0 (of_nat i)"
  let ?x = "\<lambda>(i :: u32) e. if s 0 (0x1BE + 16 * i + 4) = 5 then sector_u32 s 0 (0x1BE + 16 * i + 8) else e"
  define m1 where "m1 = set_partition 0 (?t 0) m"
  define m2 where "m2 = set_partition 1 (?t 1) m1"
  define m3 where "m3 = set_partition 2 (?t 2) m2"
  define m4 where "m4 = set_partition 3 (?t 3) m3"
  have h1: "holds_sector m1 s 0" and h2: "holds_sector m2 s 0" and h3: "holds_sector m3 s 0" and h4: "holds_sector m4 s 0"
    using h unfolding m4_def m3_def m2_def m1_def by (simp_all add: holds_set)
  have f: "primary_entry DATA_LOCATION DATA_BUFFER 0 (m, e) = (m1, ?x 0 e)"
    "primary_entry DATA_LOCATION DATA_BUFFER 1 (m1, e) = (m2, ?x 1 e)"
    "primary_entry DATA_LOCATION DATA_BUFFER 2 (m2, e) = (m3, ?x 2 e)"
    "primary_entry DATA_LOCATION DATA_BUFFER 3 (m3, e) = (m4, ?x 3 e)" for e
    using primary_entry_ok[OF h, of 0 e] primary_entry_ok[OF h1, of 1 e] primary_entry_ok[OF h2, of 2 e]
      primary_entry_ok[OF h3, of 3 e] unfolding m1_def m2_def m3_def m4_def by simp_all
  have "fold (primary_entry DATA_LOCATION DATA_BUFFER) [0, 1, 2, 3] (m, 0) = (m4, ?x 3 (?x 2 (?x 1 (?x 0 0))))"
    unfolding fold_Cons fold_Nil o_apply id_apply f ..
  also have "?x 3 (?x 2 (?x 1 (?x 0 0))) = extended_start s" by (simp add: extended_start_def)
  finally have 1: "fold (primary_entry DATA_LOCATION DATA_BUFFER) [0, 1, 2, 3] (m, 0) = (m4, extended_start s)" .
  have "part_desc m4 j = (if j < 4 then table_entry s 0 (of_nat j) else part_desc m j)" if "j < 64" for j
  proof -
    consider "j = 0" | "j = 1" | "j = 2" | "j = 3" | "4 \<le> j" by linarith
    then show ?thesis
      by cases (use that in \<open>simp_all add: m4_def m3_def m2_def m1_def\<close>)
  qed
  then show ?thesis using 1 h4 by blast
qed


lemma length_logical: "length (logical k s base l) \<le> k"
  by (induction k arbitrary: l) auto

lemma header_get: "unat a + 4 \<le> 2 ^ 32 \<Longrightarrow> 0x20000000 \<le> unat a \<Longrightarrow> load32 (get_sectors 1 l DATA_BUFFER s m) a = load32 m a"
proof (rule load32_cong)
  fix k :: nat
  assume a: "unat a + 4 \<le> 2 ^ 32" "0x20000000 \<le> unat a" and k: "k < 4"
  have "unat (a + of_nat k) = unat a + k" using a k by (subst unat_plus_small) (simp_all add: unat_of_nat_small)
  then show "get_sectors 1 l DATA_BUFFER s m (a + of_nat k) = m (a + of_nat k)" using a(2) by (intro get_sectors_other) simp
qed

lemma part_desc_count: "j < 64 \<Longrightarrow> part_desc (store32 (DATA_LOCATION + 8) v m) j = part_desc m j"
  using unat_part_addr[of j] by (simp add: part_desc_def Let_def load32_outside)

text \<open>
  C20. \<^verbatim>\<open>readPartition\<close> returns for every disk, also when the chain of extended boot records is cyclic,
  and never counts more than 64 partitions. With a master boot record it enters the four primary
  entries and then the logical partitions along the chain from the last extended entry, their first
  sectors made absolute; a GPT disk gets no partitions. A record with a broken signature ends the
  chain and is still counted, its slot left as it was; a broken master boot record leaves the count.
\<close>

theorem partition_table_read:
  assumes "load32 m (DATA_LOCATION + 4) = DATA_BUFFER"
  shows "\<exists>m'. readPartition plain DATA_LOCATION (m, s) = Some (m', s) \<and>
    (if \<not> boot_record s 0 then load32 m' (DATA_LOCATION + 8) = load32 m (DATA_LOCATION + 8)
     else if s 0 (0x1BE + 4) = 0xEE then load32 m' (DATA_LOCATION + 8) = 0
     else let lps = logical 60 s (extended_start s) (extended_start s) in
       load32 m' (DATA_LOCATION + 8) = of_nat (4 + length lps) \<and> length lps \<le> 60 \<and>
       (\<forall>j < 4. part_desc m' j = table_entry s 0 (of_nat j)) \<and>
       (\<forall>j < length lps. part_desc m' (4 + j) = (case lps ! j of Some p \<Rightarrow> p | None \<Rightarrow> part_desc m (4 + j))) \<and>
       (\<forall>j < 64. 4 + length lps \<le> j \<longrightarrow> part_desc m' j = part_desc m j))"
proof -
  define m1 where "m1 = get_sectors 1 0 DATA_BUFFER s m"
  have h1: "holds_sector m1 s 0" unfolding m1_def by (rule holds_get)
  have rd: "read_sectors plain 0 1 DATA_BUFFER (m, s) = Some (m1, s)" by (simp add: plain_def m1_def)
  have b: "m1 (entry_addr DATA_BUFFER 0 + 4) = s 0 (0x1BE + 4)"
    using holds_byte[OF h1, of "0x1BE + 4"] by (simp add: entry_addr_def)
  obtain m2 where m2: "fold (primary_entry DATA_LOCATION DATA_BUFFER) [0, 1, 2, 3] (m1, 0) = (m2, extended_start s)"
      "holds_sector m2 s 0" "\<forall>j < 64. part_desc m2 j = (if j < 4 then table_entry s 0 (of_nat j) else part_desc m1 j)"
    using primary_entries_ok[OF h1] by blast
  let ?lps = "logical 60 s (extended_start s) (extended_start s)"
  obtain m3 where m3: "read_extended plain DATA_LOCATION DATA_BUFFER (extended_start s) (extended_start s) 4 (m2, s) =
      Some (of_nat (4 + length ?lps), m3, s)"
    "\<forall>j < 64. part_desc m3 j = (if 4 \<le> j \<and> j < 4 + length ?lps
       then (case ?lps ! (j - 4) of Some p \<Rightarrow> p | None \<Rightarrow> part_desc m2 j) else part_desc m2 j)"
    using read_extended_ok[of 4 60 "extended_start s" "extended_start s" m2 s] by auto
  have run: "readPartition plain DATA_LOCATION (m, s) =
     (if \<not> boot_record s 0 then Some (m1, s)
      else if s 0 (0x1BE + 4) = 0xEE then Some (store32 (DATA_LOCATION + 8) 0 m1, s)
      else Some (store32 (DATA_LOCATION + 8) (of_nat (4 + length ?lps)) m3, s))"
    unfolding readPartition_def Let_def fst_conv assms rd option.case prod.case
    using holds_load16[OF h1] b m2(1) m3(1) by simp
  have len: "length ?lps \<le> 60" by (rule length_logical)
  have p1: "part_desc m1 j = part_desc m j" if "j < 64" for j unfolding m1_def using that by (rule partition_get)
  show ?thesis
  proof (cases "boot_record s 0 \<and> s 0 (0x1BE + 4) \<noteq> 0xEE")
    case False
    then show ?thesis
      using header_get[of "DATA_LOCATION + 8" 0 s m] unfolding run m1_def[symmetric] by auto
  next
    case True
    let ?m = "store32 (DATA_LOCATION + 8) (of_nat (4 + length ?lps)) m3"
    have d: "part_desc ?m j = part_desc m3 j" if "j < 64" for j using that by (rule part_desc_count)
    have "part_desc ?m j = table_entry s 0 (of_nat j)" if "j < 4" for j using that d m3(2) m2(3) by simp
    moreover have "part_desc ?m (4 + j) = (case ?lps ! j of Some p \<Rightarrow> p | None \<Rightarrow> part_desc m (4 + j))"
      if "j < length ?lps" for j
      using that len d[of "4 + j"] m3(2)[rule_format, of "4 + j"] m2(3)[rule_format, of "4 + j"] p1[of "4 + j"]
      by (simp split: option.split)
    moreover have "part_desc ?m j = part_desc m j" if "j < 64" "4 + length ?lps \<le> j" for j
      using that d m3(2) m2(3) p1 by simp
    ultimately show ?thesis using True len unfolding run by (intro exI[of _ ?m]) (simp add: Let_def)
  qed
qed

text \<open>A disk whose extended boot record points to itself.\<close>

definition cyclic_disk :: store where
  "cyclic_disk l = (if l = 0 then (\<lambda>_. 0)(0x1C2 := 5, 0x1C6 := 100, 0x1FE := 0x55, 0x1FF := 0xAA)
     else (\<lambda>_. 0)(0x1D2 := 5, 0x1FE := 0x55, 0x1FF := 0xAA))"

theorem partition_table_read_witness:
  "\<exists>m'. readPartition plain DATA_LOCATION (store32 (DATA_LOCATION + 4) DATA_BUFFER (\<lambda>_. 0), cyclic_disk) = Some (m', cyclic_disk) \<and>
     load32 m' (DATA_LOCATION + 8) = 64"
proof -
  have b: "boot_record cyclic_disk 0" "boot_record cyclic_disk 100" "extended_start cyclic_disk = 100"
    by (simp_all add: boot_record_def cyclic_disk_def load16_def extended_start_def sector_u32_def load32_def)
  have "length (logical k cyclic_disk 100 100) = k" for k
  proof (induction k)
    case (Suc k)
    have "cyclic_disk 100 (0x1BE + 16 + 4) \<noteq> 0" "sector_u32 cyclic_disk 100 (0x1BE + 16 + 8) = 0"
      by (simp_all add: sector_u32_def load32_def cyclic_disk_def)
    then show ?case using Suc.IH b(2) by simp
  qed simp
  then show ?thesis
    using partition_table_read[of "store32 (DATA_LOCATION + 4) DATA_BUFFER (\<lambda>_. 0)" cyclic_disk] b(1)
    unfolding b(3) by (fastforce simp: Let_def cyclic_disk_def[of 0])
qed

end
