(* ===== verification/Proclib.thy ===== *)
theory Proclib
  imports Harddisk "HOL-Library.Monad_Syntax"
begin

text \<open>
  The user-side message library, \<^verbatim>\<open>kernel/proclib.c\<close>: the loops around the SEND and RECEIVE system
  calls, over an abstract kernel, and the file calls of a client of the hard disk driver, over the
  memory of the client, the memory of the driver process and the disk.
\<close>

section \<open>Sending and receiving\<close>

text \<open>
  The system calls that the library makes: \<^verbatim>\<open>sendMessage\<close>, \<^verbatim>\<open>receiveMessage\<close>, \<^verbatim>\<open>NICE\<close>, and the SEND
  of the page to the process itself in the name of another sender. The first component is the
  value that the call returns in EAX.
\<close>

record 'k kernel =
  k_send :: "u32 \<Rightarrow> u32 \<Rightarrow> 'k \<Rightarrow> u32 \<times> 'k"
  k_receive :: "u32 \<Rightarrow> 'k \<Rightarrow> u32 \<times> 'k"
  k_requeue :: "u32 \<Rightarrow> u32 \<Rightarrow> 'k \<Rightarrow> 'k"
  k_nice :: "'k \<Rightarrow> 'k"

partial_function (option) send :: "'k kernel \<Rightarrow> u32 \<Rightarrow> u32 \<Rightarrow> 'k \<Rightarrow> (u32 \<times> 'k) option" where
  "send ops proc linear k =
     (let (ret, k) = k_send ops proc linear k
      in if ret = 0 then send ops proc linear (k_nice ops k) else Some (ret, k))"

partial_function (option) receive :: "'k kernel \<Rightarrow> u32 \<Rightarrow> u32 \<Rightarrow> 'k \<Rightarrow> (u32 \<times> 'k) option" where
  "receive ops proc linear k =
     (let (ret, k) = k_receive ops linear k
      in if ret \<noteq> proc \<and> proc \<noteq> 0 then receive ops proc linear (k_requeue ops ret linear k) else Some (ret, k))"

definition sendReceive :: "'k kernel \<Rightarrow> u32 \<Rightarrow> u32 \<Rightarrow> 'k \<Rightarrow> (u32 \<times> 'k) option" where
  "sendReceive ops proc linear k = do {
     (ret, k) \<leftarrow> send ops proc linear k;
     if ret = 1 then receive ops proc linear k else Some (ret, k) }"

section \<open>The file calls\<close>

abbreviation (input) FILE_MSG_PAGE :: u32 where "FILE_MSG_PAGE \<equiv> 0xB0000000"
abbreviation (input) FILE_DATA :: u32 where "FILE_DATA \<equiv> 0xB0000800"

text \<open>
  A client of the hard disk driver: its memory, the driver's memory, the disk, and whether the page
  at \<^verbatim>\<open>FILE_MSG_PAGE\<close> is mapped already.
\<close>

record client =
  cmem :: bytes
  hmem :: bytes
  disk :: store
  msg_mapped :: bool

text \<open>The page moves between the address spaces; \<open>copy_page\<close> puts its bytes at the new address.\<close>

definition copy_page :: "u32 \<Rightarrow> u32 \<Rightarrow> bytes \<Rightarrow> bytes \<Rightarrow> bytes" where
  "copy_page dest src from m = (\<lambda>a. if unat (a - dest) < 4096 then from (src + (a - dest)) else m a)"

text \<open>
  What \<^verbatim>\<open>sendReceive(PID_HD, FILE_MSG_PAGE)\<close> amounts to for a client, as one step: the page goes to the
  driver, which runs one round of its loop on it and sends it back. The loops of \<open>send\<close> and \<open>receive\<close>
  and the kernel between the two processes are not run here, and the driver works on the store of
  sectors: \<open>hd_round_pio\<close> says for which requests the PIO routines do the same. \<open>None\<close> is a driver that
  does not answer.
\<close>

definition hd_exchange :: "'a client_scheme \<Rightarrow> 'a client_scheme option" where
  "hd_exchange s = do {
     (replied, hm, d) \<leftarrow> hd_round plain (copy_page MSG_ADDR FILE_MSG_PAGE (cmem s) (hmem s), disk s);
     if replied then Some (s\<lparr>hmem := hm, disk := d, cmem := copy_page FILE_MSG_PAGE MSG_ADDR hm (cmem s)\<rparr>)
     else None }"

definition file_request :: "u32 \<Rightarrow> u32 \<Rightarrow> u32 \<Rightarrow> u32 \<Rightarrow> bytes \<Rightarrow> bytes" where
  "file_request cmd h offset count m =
     store32 (FILE_MSG_PAGE + 16) count (store32 (FILE_MSG_PAGE + 12) offset
       (store32 (FILE_MSG_PAGE + 8) h (store32 (FILE_MSG_PAGE + 4) cmd m)))"

definition fileRead :: "u32 \<Rightarrow> u32 \<Rightarrow> u32 \<Rightarrow> 'a client_scheme \<Rightarrow> 'a client_scheme option" where
  "fileRead h offset count s = hd_exchange (s\<lparr>cmem := file_request 2 h offset count (cmem s)\<rparr>)"

definition fileWrite :: "u32 \<Rightarrow> u32 \<Rightarrow> u32 \<Rightarrow> 'a client_scheme \<Rightarrow> 'a client_scheme option" where
  "fileWrite h offset count s = hd_exchange (s\<lparr>cmem := file_request 3 h offset count (cmem s)\<rparr>)"

text \<open>\<^verbatim>\<open>fileOpen\<close>; the signature is written only when the page is mapped for the first time.\<close>

definition fileOpen :: "u32 \<Rightarrow> 'a client_scheme \<Rightarrow> (u32 \<times> 'a client_scheme) option" where
  "fileOpen name s = do {
     let m = (if msg_mapped s then cmem s else store32 FILE_MSG_PAGE 3 (cmem s));
     m \<leftarrow> strcpy FILE_DATA name m;
     h \<leftarrow> stringHash name m;
     let m = store32 (FILE_MSG_PAGE + 8) h (store32 (FILE_MSG_PAGE + 4) 1 m);
     s \<leftarrow> hd_exchange (s\<lparr>cmem := m, msg_mapped := True\<rparr>);
     Some (if load32 (cmem s) (FILE_MSG_PAGE + 4) = 0 then -1 else load32 (cmem s) (FILE_MSG_PAGE + 8), s) }"

section \<open>What the file calls do\<close>

text \<open>
  The client's page carries the signature, and partition \<open>h\<close> of the driver's table starts at \<open>b\<close>.
\<close>

definition client_ok :: "u32 \<Rightarrow> u32 \<Rightarrow> 'a client_scheme \<Rightarrow> bool" where
  "client_ok h b s \<longleftrightarrow> load32 (cmem s) FILE_MSG_PAGE = 3 \<and> h \<noteq> 0 \<and> unat h \<le> 64 \<and>
     load32 (hmem s) (part_addr DATA_LOCATION (h - 1) + 4) = b"

lemma unat_part_start:
  assumes "h \<noteq> 0" "unat h \<le> 64"
  shows "0x20000010 \<le> unat (part_addr DATA_LOCATION (h - 1) + 4) \<and> unat (part_addr DATA_LOCATION (h - 1) + 4) \<le> 0x20000400"
proof -
  have u: "unat (h - 1) = unat h - 1" using assms(1) by (simp add: unat_minus_one)
  have "h - 1 = of_nat (unat h - 1)" unfolding u[symmetric] by simp
  moreover have "unat h \<noteq> 0" using assms(1) by (simp add: unat_eq_zero)
  ultimately show ?thesis using unat_part_addr(2)[of "unat h - 1"] assms(2) by simp
qed

lemma copy_page_load:
  "unat i + 4 \<le> 4096 \<Longrightarrow> load32 (copy_page dest src from m) (dest + i) = load32 from (src + i)"
proof (rule load32_cong)
  fix k :: nat
  assume i: "unat i + 4 \<le> 4096" and k: "k < 4"
  have "unat (i + of_nat k) = unat i + k"
    using i k by (subst unat_plus_small) (simp_all add: unat_of_nat_small)
  then show "copy_page dest src from m (dest + i + of_nat k) = from (src + i + of_nat k)"
    using i k by (simp add: copy_page_def add.assoc)
qed

lemma copy_page_outside:
  assumes "unat dest + 4096 \<le> 2 ^ 32" "unat a + 4 \<le> unat dest \<or> unat dest + 4096 \<le> unat a" "unat a + 4 \<le> 2 ^ 32"
  shows "load32 (copy_page dest src from m) a = load32 m a"
proof (rule load32_cong)
  fix k :: nat
  assume k: "k < 4"
  have "unat (a + of_nat k) = unat a + k"
    using k assms(3) by (subst unat_plus_small) (simp_all add: unat_of_nat_small)
  then show "copy_page dest src from m (a + of_nat k) = m (a + of_nat k)"
    using unat_diff_small[of "a + of_nat k" dest 4096] assms(1,2) k by (auto simp: copy_page_def)
qed

lemma file_request_load:
  "load32 (file_request c h off n m) (FILE_MSG_PAGE + 4) = c" "load32 (file_request c h off n m) (FILE_MSG_PAGE + 8) = h"
  "load32 (file_request c h off n m) (FILE_MSG_PAGE + 12) = off" "load32 (file_request c h off n m) (FILE_MSG_PAGE + 16) = n"
  "load32 (file_request c h off n m) FILE_MSG_PAGE = load32 m FILE_MSG_PAGE"
  by (simp_all add: file_request_def load32_outside)

lemma file_request_data: "0xB0000014 \<le> unat a \<Longrightarrow> file_request c h off n m a = m a"
  by (simp add: file_request_def store32_outside)

lemma get_sectors_data:
  assumes "unat c \<le> 4"
  shows "copy_page FILE_MSG_PAGE 0 (get_sectors (unat c) l 2048 d (copy_page 0 FILE_MSG_PAGE m hm)) m =
     get_sectors (unat c) l FILE_DATA d m"
proof (rule ext)
  fix a
  show "copy_page FILE_MSG_PAGE 0 (get_sectors (unat c) l 2048 d (copy_page 0 FILE_MSG_PAGE m hm)) m a =
      get_sectors (unat c) l FILE_DATA d m a"
  proof (cases "unat (a - FILE_MSG_PAGE) < 4096")
    case True
    define i where "i = a - FILE_MSG_PAGE"
    have a: "a = FILE_MSG_PAGE + i" by (simp add: i_def)
    have "a - FILE_DATA = i - 2048" unfolding a by simp
    then show ?thesis using True unfolding a get_sectors_def copy_page_def by simp
  next
    case False
    have "\<not> unat (a - FILE_DATA) < 512 * unat c"
    proof
      assume d: "unat (a - FILE_DATA) < 512 * unat c"
      have e: "a - FILE_MSG_PAGE = (a - FILE_DATA) + 2048" by simp
      have "unat (a - FILE_MSG_PAGE) = unat (a - FILE_DATA) + 2048"
        unfolding e using d assms by (subst unat_plus_small) auto
      then show False using False d assms by linarith
    qed
    then show ?thesis using False by (simp add: copy_page_def get_sectors_def)
  qed
qed

lemma get_sectors_hd:
  assumes "unat c \<le> 4" "0x1000 \<le> unat a" "unat a + 4 \<le> 2 ^ 32"
  shows "load32 (get_sectors (unat c) l 2048 d (copy_page 0 FILE_MSG_PAGE m hm)) a = load32 hm a"
proof (rule load32_cong)
  fix k :: nat
  assume k: "k < 4"
  have u: "unat (a + of_nat k) = unat a + k"
    using k assms(3) by (subst unat_plus_small) (simp_all add: unat_of_nat_small)
  have "\<not> unat (a + of_nat k - 2048) < 512 * unat c"
    using unat_diff_small[of "a + of_nat k" 2048 "512 * unat c"] u assms(1,2) by auto
  then show "get_sectors (unat c) l 2048 d (copy_page 0 FILE_MSG_PAGE m hm) (a + of_nat k) = hm (a + of_nat k)"
    using u assms(2) by (simp add: get_sectors_def copy_page_def)
qed

lemma hd_request:
  assumes "client_ok h b s"
  shows "load32 (copy_page 0 FILE_MSG_PAGE (file_request cmd h off n (cmem s)) hm) 0 = 3"
    "load32 (copy_page 0 FILE_MSG_PAGE (file_request cmd h off n (cmem s)) hm) 4 = cmd"
    "load32 (copy_page 0 FILE_MSG_PAGE (file_request cmd h off n (cmem s)) hm) 16 = n"
    "hd_lba (copy_page 0 FILE_MSG_PAGE (file_request cmd h off n (cmem s)) (hmem s)) = off + b"
proof -
  let ?p = "copy_page 0 FILE_MSG_PAGE (file_request cmd h off n (cmem s))"
  have l: "load32 (?p hm) i = load32 (file_request cmd h off n (cmem s)) (FILE_MSG_PAGE + i)" if "unat i + 4 \<le> 4096" for i hm
    using copy_page_load[OF that, of 0] by simp
  show "load32 (?p hm) 0 = 3" "load32 (?p hm) 4 = cmd" "load32 (?p hm) 16 = n"
    using l[of 0 hm] l[of 4 hm] l[of 16 hm] assms by (simp_all add: file_request_load client_ok_def file_request_load(1,4)[simplified])
  have h: "load32 (?p (hmem s)) 8 = h" and o: "load32 (?p (hmem s)) 12 = off"
    using l[of 8 "hmem s"] l[of 12 "hmem s"] by (simp_all add: file_request_load(2,3)[simplified])
  have "load32 (?p (hmem s)) (part_addr DATA_LOCATION (h - 1) + 4) = b"
    using assms unat_part_start[of h] by (simp add: client_ok_def copy_page_outside)
  then show "hd_lba (?p (hmem s)) = off + b" using assms by (simp add: hd_lba_def h o client_ok_def)
qed

lemma fileRead_ok:
  assumes ok: "client_ok h b s" and n: "unat n \<le> 4"
  shows "\<exists>hm. fileRead h off n s = Some (s\<lparr>hmem := hm,
       cmem := get_sectors (unat n) (off + b) FILE_DATA (disk s) (file_request 2 h off n (cmem s))\<rparr>) \<and>
     load32 hm (part_addr DATA_LOCATION (h - 1) + 4) = b"
proof -
  let ?m = "file_request 2 h off n (cmem s)"
  let ?hm = "get_sectors (unat n) (off + b) 2048 (disk s) (copy_page 0 FILE_MSG_PAGE ?m (hmem s))"
  have "hd_round plain (copy_page 0 FILE_MSG_PAGE ?m (hmem s), disk s) = Some (True, ?hm, disk s)"
    by (simp add: hd_round_def hd_request[OF ok] plain_def)
  then have "fileRead h off n s = Some (s\<lparr>hmem := ?hm, cmem := copy_page FILE_MSG_PAGE 0 ?hm ?m\<rparr>)"
    by (simp add: fileRead_def hd_exchange_def)
  moreover have "load32 ?hm (part_addr DATA_LOCATION (h - 1) + 4) = b"
    using ok unat_part_start[of h] n by (simp add: client_ok_def get_sectors_hd)
  ultimately show ?thesis unfolding get_sectors_data[OF n] by blast
qed


lemma copy_page_back: "copy_page FILE_MSG_PAGE 0 (copy_page 0 FILE_MSG_PAGE m hm) m = m"
  by (rule ext) (simp add: copy_page_def)

lemma put_sectors_data:
  assumes "unat n \<le> 4"
  shows "put_sectors (unat n) l 2048 (copy_page 0 FILE_MSG_PAGE (file_request c h off n' m) hm) d = put_sectors (unat n) l FILE_DATA m d"
proof (intro ext)
  fix x i
  show "put_sectors (unat n) l 2048 (copy_page 0 FILE_MSG_PAGE (file_request c h off n' m) hm) d x i =
      put_sectors (unat n) l FILE_DATA m d x i"
  proof (cases "unat (x - l) < unat n \<and> unat i < 512")
    case True
    define j where "j = 512 * unat (x - l) + unat i"
    have j: "j < 2048" using True assms unfolding j_def by linarith
    have u: "unat (of_nat j :: u32) = j" using j by (intro unat_of_nat_small) simp
    have a: "unat (2048 + of_nat j :: u32) = 2048 + j" "unat (FILE_DATA + of_nat j) = 0xB0000800 + j"
      using j by (subst unat_plus_small; simp add: u)+
    have "copy_page 0 FILE_MSG_PAGE (file_request c h off n' m) hm (2048 + of_nat j) = m (FILE_DATA + of_nat j)"
      using a j by (simp add: copy_page_def file_request_data)
    then show ?thesis using True unfolding put_sectors_def j_def by simp
  qed (auto simp: put_sectors_def)
qed

lemma fileWrite_ok:
  assumes ok: "client_ok h b s" and n: "unat n \<le> 4"
  shows "\<exists>hm. fileWrite h off n s = Some (s\<lparr>hmem := hm, cmem := file_request 3 h off n (cmem s),
       disk := put_sectors (unat n) (off + b) FILE_DATA (cmem s) (disk s)\<rparr>) \<and>
     load32 hm (part_addr DATA_LOCATION (h - 1) + 4) = b"
proof -
  let ?m = "file_request 3 h off n (cmem s)"
  let ?hm = "copy_page 0 FILE_MSG_PAGE ?m (hmem s)"
  have "hd_round plain (?hm, disk s) = Some (True, ?hm, put_sectors (unat n) (off + b) 2048 ?hm (disk s))"
    by (simp add: hd_round_def hd_request[OF ok] plain_def)
  then have "fileWrite h off n s = Some (s\<lparr>hmem := ?hm, cmem := ?m, disk := put_sectors (unat n) (off + b) FILE_DATA (cmem s) (disk s)\<rparr>)"
    by (simp add: fileWrite_def hd_exchange_def copy_page_back put_sectors_data[OF n])
  moreover have "load32 ?hm (part_addr DATA_LOCATION (h - 1) + 4) = b"
    using ok unat_part_start[of h] by (simp add: client_ok_def copy_page_outside)
  ultimately show ?thesis by blast
qed

text \<open>Words of the sectors that were read, and of the sectors after a write.\<close>

lemma get_sectors_load:
  assumes "q < n" "n \<le> 4" "unat i + 4 \<le> 512"
  shows "load32 (get_sectors n l FILE_DATA d m) (FILE_DATA + (of_nat (512 * q) + i)) = load32 (d (l + of_nat q)) i"
proof (rule load32_cong)
  fix k :: nat
  assume k: "k < 4"
  define x where "x = (of_nat (512 * q) :: u32)"
  have q: "unat x = 512 * q" unfolding x_def using assms by (intro unat_of_nat_small) simp
  have ik: "unat (i + of_nat k) = unat i + k"
    using k assms(3) by (subst unat_plus_small) (simp_all add: unat_of_nat_small)
  have u: "unat (x + (i + of_nat k)) = 512 * q + (unat i + k)"
    using q ik k assms by (subst unat_plus_small) simp_all
  have "512 * q + (unat i + k) < 512 * n" using assms k by linarith
  moreover have "(512 * q + (unat i + k)) div 512 = q" "(512 * q + (unat i + k)) mod 512 = unat i + k"
    using assms(3) k by simp_all
  moreover have "FILE_DATA + (x + i) + of_nat k - FILE_DATA = x + (i + of_nat k)" by simp
  ultimately show "get_sectors n l FILE_DATA d m (FILE_DATA + (of_nat (512 * q) + i) + of_nat k) = d (l + of_nat q) (i + of_nat k)"
    unfolding x_def[symmetric] get_sectors_def using u by (simp add: ik[symmetric])
qed

lemma put_sectors_load:
  assumes "q < n" "n \<le> 4" "unat i + 4 \<le> 512"
  shows "load32 (put_sectors n l FILE_DATA m d (l + of_nat q)) i = load32 m (FILE_DATA + (of_nat (512 * q) + i))"
proof (rule load32_cong)
  fix k :: nat
  assume k: "k < 4"
  have q: "unat (of_nat q :: u32) = q" using assms by (intro unat_of_nat_small) simp
  have ik: "unat (i + of_nat k) = unat i + k"
    using k assms(3) by (subst unat_plus_small) (simp_all add: unat_of_nat_small)
  have "of_nat (512 * q + (unat i + k)) = (of_nat (512 * q) + i + of_nat k :: u32)" by simp
  then show "put_sectors n l FILE_DATA m d (l + of_nat q) (i + of_nat k) = m (FILE_DATA + (of_nat (512 * q) + i) + of_nat k)"
    using assms k q ik by (simp add: put_sectors_def add.assoc)
qed

lemma put_sectors_other: "n \<le> unat (x - l) \<Longrightarrow> put_sectors n l a m d x = d x"
  by (rule ext) (simp add: put_sectors_def)

end
