(* ===== verification/Block_Device.thy ===== *)
theory Block_Device
  imports Bytes "HOL-Library.Monad_Syntax"
begin

text \<open>
  The interface between the file system and the disk below it: one-sector reads into a buffer,
  one-sector writes from it, and stores into the buffer, seen at the words of the super block
  layout. The two updates of the block lists are proved here once, from the laws alone.
\<close>

definition word_ix :: "u32 \<Rightarrow> bool" where
  "word_ix i \<longleftrightarrow> unat i + 4 \<le> 512 \<and> 4 dvd unat i"

lemma word_ix_0 [simp]: "word_ix 0"
  by (simp add: word_ix_def)

locale block_device =
  fixes inv :: "'s \<Rightarrow> bool"
    and rd :: "u32 \<Rightarrow> 's \<Rightarrow> 's option"
    and wr :: "u32 \<Rightarrow> 's \<Rightarrow> 's option"
    and put :: "u32 \<Rightarrow> u32 \<Rightarrow> 's \<Rightarrow> 's"
    and buf :: "'s \<Rightarrow> u32 \<Rightarrow> u32"
    and sec :: "'s \<Rightarrow> u32 \<Rightarrow> u32 \<Rightarrow> u32"
    and rest :: "'s \<Rightarrow> 'r"
  assumes rd: "inv s \<Longrightarrow> \<exists>s'. rd l s = Some s' \<and> inv s' \<and> rest s' = rest s \<and> sec s' = sec s \<and>
      (\<forall>i. word_ix i \<longrightarrow> buf s' i = sec s l i)"
    and wr: "inv s \<Longrightarrow> \<exists>s'. wr l s = Some s' \<and> inv s' \<and> rest s' = rest s \<and>
      (\<forall>i. word_ix i \<longrightarrow> sec s' l i = buf s i) \<and> (\<forall>x. x \<noteq> l \<longrightarrow> sec s' x = sec s x) \<and>
      (\<forall>i. word_ix i \<longrightarrow> buf s' i = buf s i)"
    and put: "inv s \<Longrightarrow> word_ix i \<Longrightarrow> inv (put i v s) \<and> rest (put i v s) = rest s \<and> sec (put i v s) = sec s \<and>
      (\<forall>j. word_ix j \<longrightarrow> buf (put i v s) j = (if j = i then v else buf s j))"
begin

text \<open>Pushing a block: its sector \<open>l\<close> gets the old head of the list at \<open>i\<close>, the counter at \<open>c\<close> grows.\<close>

lemma push_block:
  assumes "inv s" "word_ix i" "word_ix c" "i \<noteq> c" "l \<noteq> 1"
  shows "\<exists>s'. do { s \<leftarrow> rd 1 s; let cid = buf s i; let s = put c (buf s c + n) s; let s = put i base s;
        s \<leftarrow> wr 1 s; let s = put 0 cid s; wr l s } = Some s' \<and> inv s' \<and> rest s' = rest s \<and>
     (\<forall>j. word_ix j \<longrightarrow> sec s' 1 j = (if j = i then base else if j = c then sec s 1 c + n else sec s 1 j)) \<and>
     sec s' l 0 = sec s 1 i \<and> (\<forall>x. x \<noteq> 1 \<and> x \<noteq> l \<longrightarrow> sec s' x = sec s x)"
proof -
  obtain s1 where 1: "rd 1 s = Some s1" "inv s1" "rest s1 = rest s" "sec s1 = sec s" "\<forall>j. word_ix j \<longrightarrow> buf s1 j = sec s 1 j"
    using rd[OF assms(1)] by blast
  let ?s2 = "put c (buf s1 c + n) s1"
  note 2 = put[OF 1(2) assms(3), of "buf s1 c + n"]
  let ?s3 = "put i base ?s2"
  note 3 = put[OF conjunct1[OF 2] assms(2), of base]
  obtain s4 where 4: "wr 1 ?s3 = Some s4" "inv s4" "rest s4 = rest ?s3" "\<forall>j. word_ix j \<longrightarrow> sec s4 1 j = buf ?s3 j"
      "\<forall>x. x \<noteq> 1 \<longrightarrow> sec s4 x = sec ?s3 x"
    using wr[OF conjunct1[OF 3], of 1] by blast
  let ?s5 = "put 0 (buf s1 i) s4"
  note 5 = put[OF 4(2) word_ix_0, of "buf s1 i"]
  obtain s6 where 6: "wr l ?s5 = Some s6" "inv s6" "rest s6 = rest ?s5" "\<forall>j. word_ix j \<longrightarrow> sec s6 l j = buf ?s5 j"
      "\<forall>x. x \<noteq> l \<longrightarrow> sec s6 x = sec ?s5 x"
    using wr[OF conjunct1[OF 5], of l] by blast
  show ?thesis
    by (rule exI[of _ s6]) (use 1 2 3 4 5 6 assms in auto)
qed

text \<open>Popping the first block, at sector \<open>l\<close>: its link becomes the head, the counter shrinks.\<close>

lemma pop_block:
  assumes "inv s" "word_ix i" "word_ix c" "i \<noteq> c"
  shows "\<exists>s'. do { s \<leftarrow> rd l s; let nxt = buf s 0; s \<leftarrow> rd 1 s; let s = put i nxt s;
        let s = put c (buf s c - n) s; wr 1 s } = Some s' \<and> inv s' \<and> rest s' = rest s \<and>
     (\<forall>j. word_ix j \<longrightarrow> sec s' 1 j = (if j = i then sec s l 0 else if j = c then sec s 1 c - n else sec s 1 j)) \<and>
     (\<forall>x. x \<noteq> 1 \<longrightarrow> sec s' x = sec s x)"
proof -
  obtain s0 where 0: "rd l s = Some s0" "inv s0" "rest s0 = rest s" "sec s0 = sec s" "buf s0 0 = sec s l 0"
    using rd[OF assms(1), of l] by auto
  obtain s1 where 1: "rd 1 s0 = Some s1" "inv s1" "rest s1 = rest s0" "sec s1 = sec s0" "\<forall>j. word_ix j \<longrightarrow> buf s1 j = sec s0 1 j"
    using rd[OF 0(2), of 1] by blast
  let ?s2 = "put i (buf s0 0) s1"
  note 2 = put[OF 1(2) assms(2), of "buf s0 0"]
  let ?s3 = "put c (buf ?s2 c - n) ?s2"
  note 3 = put[OF conjunct1[OF 2] assms(3), of "buf ?s2 c - n"]
  obtain s4 where 4: "wr 1 ?s3 = Some s4" "inv s4" "rest s4 = rest ?s3" "\<forall>j. word_ix j \<longrightarrow> sec s4 1 j = buf ?s3 j"
      "\<forall>x. x \<noteq> 1 \<longrightarrow> sec s4 x = sec ?s3 x"
    using wr[OF conjunct1[OF 3], of 1] by blast
  show ?thesis
    by (rule exI[of _ s4]) (use 0 1 2 3 4 assms in auto)
qed

end

end
