(* ===== verification/Filesystem.thy ===== *)
theory Filesystem
  imports Proclib Block_Device
begin

text \<open>
  The Norlit file system, \<^verbatim>\<open>kernel/driver/filesystem/filesystem.c\<close>: the block allocator on disk, file
  and directory blocks, and the loop that serves open, read and write messages. It is a client of
  the hard disk driver: every access goes through the buffer of the message page. Structures are
  at the offsets of \<^verbatim>\<open>filesystem.h\<close>. Console output is left out.
\<close>

section \<open>State\<close>

text \<open>The static variables \<^verbatim>\<open>handle\<close> and \<^verbatim>\<open>root\<close>; the client state holds memory and disk.\<close>

record fs = client +
  handle :: u32
  root :: u32

abbreviation (input) FREE_BLOCK :: "nat \<Rightarrow> u32" where "FREE_BLOCK len \<equiv> FILE_DATA + 20 + 4 * of_nat len"

definition read_blocks :: "u32 \<Rightarrow> u32 \<Rightarrow> fs \<Rightarrow> fs option" where
  "read_blocks offset count s = fileRead (handle s) offset count s"

definition write_blocks :: "u32 \<Rightarrow> u32 \<Rightarrow> fs \<Rightarrow> fs option" where
  "write_blocks offset count s = fileWrite (handle s) offset count s"

definition put_word :: "u32 \<Rightarrow> u32 \<Rightarrow> fs \<Rightarrow> fs" where
  "put_word a v s = s\<lparr>cmem := store32 a v (cmem s)\<rparr>"

section \<open>The block allocator\<close>

definition freeBlock :: "u32 \<Rightarrow> nat \<Rightarrow> fs \<Rightarrow> fs option" where
  "freeBlock base len s = do {
     s \<leftarrow> read_blocks 1 1 s;
     let cid = load32 (cmem s) (FREE_BLOCK len);
     let s = put_word (FILE_DATA + 16) (load32 (cmem s) (FILE_DATA + 16) + 2 ^ len) s;
     let s = put_word (FREE_BLOCK len) base s;
     s \<leftarrow> write_blocks 1 1 s;
     let s = put_word FILE_DATA cid s;
     write_blocks (base * 4) 1 s }"

text \<open>\<^verbatim>\<open>for(l2--;(s32)l2>=(s32)len;l2--)freeBlock(rt+(1<<l2),l2)\<close>, from \<open>l2\<close> down.\<close>

fun split_block :: "u32 \<Rightarrow> nat \<Rightarrow> nat \<Rightarrow> fs \<Rightarrow> fs option" where
  "split_block rt len 0 s = Some s"
| "split_block rt len (Suc l2) s =
     (if len \<le> l2 then freeBlock (rt + 2 ^ l2) l2 s \<bind> split_block rt len l2 else Some s)"

text \<open>
  Taking the first block \<open>rt\<close> off the list of size \<open>len\<close>; the buffer holds the super block before.
\<close>

definition take_block :: "u32 \<Rightarrow> nat \<Rightarrow> fs \<Rightarrow> fs option" where
  "take_block rt len s = do {
     s \<leftarrow> read_blocks (rt * 4) 1 s;
     let nxt = load32 (cmem s) FILE_DATA;
     s \<leftarrow> read_blocks 1 1 s;
     let s = put_word (FREE_BLOCK len) nxt s;
     let s = put_word (FILE_DATA + 16) (load32 (cmem s) (FILE_DATA + 16) - 2 ^ len) s;
     write_blocks 1 1 s }"

function larger_block :: "nat \<Rightarrow> nat \<Rightarrow> fs \<Rightarrow> (u32 \<times> fs) option" where
  "larger_block len l2 s =
     (if l2 < 20 then
        if load32 (cmem s) (FREE_BLOCK l2) \<noteq> 0 then do {
          let rt = load32 (cmem s) (FREE_BLOCK l2);
          s \<leftarrow> take_block rt l2 s;
          s \<leftarrow> split_block rt len l2 s;
          Some (rt, s) }
        else larger_block len (l2 + 1) s
      else Some (0, s))"
  by pat_completeness auto
termination
  by (relation "measure (\<lambda>(len, l2, s). 20 - l2)") auto

definition mallocBlock :: "nat \<Rightarrow> fs \<Rightarrow> (u32 \<times> fs) option" where
  "mallocBlock len s = do {
     s \<leftarrow> read_blocks 1 1 s;
     let ret = load32 (cmem s) (FREE_BLOCK len);
     if ret = 0 then larger_block len (len + 1) s
     else do { s \<leftarrow> take_block ret len s; Some (ret, s) } }"

section \<open>File blocks\<close>

text \<open>The loop over the \<^verbatim>\<open>DATA_BLOCK_PTRS\<close> extents of the file block in the buffer.\<close>

function seek_from :: "u32 \<Rightarrow> u32 \<Rightarrow> bytes \<Rightarrow> u32" where
  "seek_from i offset m =
     (if i < 128 then
        let size = load32 m (FILE_DATA + 1024 + 8 * i + 4) in
        if size \<noteq> 0 then
          if offset < size then load32 m (FILE_DATA + 1024 + 8 * i) else seek_from (i + 1) (offset - size) m
        else 0
      else 0)"
  by pat_completeness auto
termination
proof (relation "measure (\<lambda>(i, offset, m). 128 - unat i)", goal_cases)
  case (2 i offset m size)
  then have "unat i < 128" by (simp add: word_less_nat_alt)
  moreover from this have "unat (i + 1) = unat i + 1" by (subst unat_plus_small) auto
  ultimately show ?case by simp
qed simp

definition seekDataBlock :: "u32 \<Rightarrow> u32 \<Rightarrow> fs \<Rightarrow> (u32 \<times> fs) option" where
  "seekDataBlock file offset s = do {
     s \<leftarrow> read_blocks (file * 4) 4 s;
     Some (seek_from 0 offset (cmem s), s) }"

definition createFileBlock :: "u32 \<Rightarrow> fs \<Rightarrow> (u32 \<times> fs) option" where
  "createFileBlock name s = do {
     (blk, s) \<leftarrow> mallocBlock 0 s;
     if blk = 0 then Some (0, s)
     else do {
       (dataBlock, s) \<leftarrow> mallocBlock 0 s;
       let s = s\<lparr>cmem := memset FILE_DATA 0 2048 (cmem s)\<rparr>;
       s \<leftarrow> write_blocks (dataBlock * 4) 4 s;
       m \<leftarrow> strcpy FILE_DATA name (cmem s);
       hash \<leftarrow> stringHash name m;
       let s = s\<lparr>cmem := m\<rparr>;
       let s = put_word (FILE_DATA + 256) hash s;
       let s = put_word (FILE_DATA + 260) 0 s;
       let s = put_word (FILE_DATA + 264) 0 s;
       let s = put_word (FILE_DATA + 1024) dataBlock s;
       let s = put_word (FILE_DATA + 1028) 1 s;
       let s = put_word (FILE_DATA + 1032) 0 s;
       let s = put_word (FILE_DATA + 1036) 0 s;
       s \<leftarrow> write_blocks (blk * 4) 4 s;
       Some (blk, s) } }"

section \<open>Paths\<close>

text \<open>The search in the directory block in the buffer; it has no bound (\<open>None\<close>: it finds no end).\<close>

partial_function (option) find_entry :: "u32 \<Rightarrow> u32 \<Rightarrow> bytes \<Rightarrow> u32 option" where
  "find_entry hash filePtr m =
     (if load32 m filePtr = 0 \<or> load32 m (filePtr + 4) = hash then Some filePtr else find_entry hash (filePtr + 8) m)"

text \<open>One component of the path, the string at \<open>str\<close>, looked up in \<open>dirAddr\<close> and created if missing.\<close>

definition open_component :: "u32 \<Rightarrow> u32 \<Rightarrow> fs \<Rightarrow> (u32 \<times> fs) option" where
  "open_component str dirAddr s = do {
     hash \<leftarrow> stringHash str (cmem s);
     (dirAddr, s) \<leftarrow> seekDataBlock dirAddr 0 s;
     s \<leftarrow> read_blocks (dirAddr * 4) 4 s;
     filePtr \<leftarrow> find_entry hash FILE_DATA (cmem s);
     if load32 (cmem s) filePtr = 0 then do {
       (fb, s) \<leftarrow> createFileBlock str s;
       s \<leftarrow> read_blocks (dirAddr * 4) 4 s;
       let s = put_word filePtr fb s;
       let s = put_word (filePtr + 4) hash s;
       s \<leftarrow> write_blocks (dirAddr * 4) 4 s;
       Some (fb, s) }
     else Some (load32 (cmem s) filePtr, s) }"

partial_function (option) walk_path :: "u32 \<Rightarrow> u32 \<Rightarrow> u32 \<Rightarrow> fs \<Rightarrow> (u32 \<times> fs) option" where
  "walk_path str ptr dirAddr s =
     (let c = cmem s ptr in
      if c = 47 \<or> c = 0 then do {
        (dirAddr, s) \<leftarrow> open_component str dirAddr (s\<lparr>cmem := (cmem s)(ptr := 0)\<rparr>);
        if c = 0 then Some (dirAddr, s) else walk_path (ptr + 1) (ptr + 1) dirAddr s }
      else walk_path str (ptr + 1) dirAddr s)"

section \<open>The message loop\<close>

text \<open>
  One round of the loop of \<^verbatim>\<open>norlitfs_bottom\<close> after a message has arrived in the page at 0; the flag
  says whether the page is sent back.
\<close>

definition fs_open :: "fs \<Rightarrow> (bool \<times> fs) option" where
  "fs_open s =
     (if cmem s 2048 \<noteq> 47 then Some (False, s)
      else do {
        (dirAddr, s) \<leftarrow> (if cmem s 2049 \<noteq> 0 then walk_path 2049 2049 (root s) s else Some (root s, s));
        s \<leftarrow> read_blocks (dirAddr * 4) 4 s;
        Some (True, s\<lparr>cmem := store32 8 dirAddr (memcpy 2048 FILE_DATA 2048 (cmem s))\<rparr>) })"

definition fs_read :: "fs \<Rightarrow> (bool \<times> fs) option" where
  "fs_read s = do {
     (cls, s) \<leftarrow> seekDataBlock (load32 (cmem s) 8) (load32 (cmem s) 12) s;
     s \<leftarrow> read_blocks (cls * 4) 4 s;
     Some (True, s\<lparr>cmem := memcpy 2048 FILE_DATA 2048 (cmem s)\<rparr>) }"

definition fs_write :: "fs \<Rightarrow> (bool \<times> fs) option" where
  "fs_write s = do {
     (cls, s) \<leftarrow> seekDataBlock (load32 (cmem s) 8) (load32 (cmem s) 12) s;
     let s = s\<lparr>cmem := memcpy FILE_DATA 2048 2048 (cmem s)\<rparr>;
     s \<leftarrow> write_blocks (cls * 4) 4 s;
     Some (True, s) }"

definition fs_round :: "fs \<Rightarrow> (bool \<times> fs) option" where
  "fs_round s =
     (if load32 (cmem s) 0 \<noteq> 3 then Some (False, s)
      else if load32 (cmem s) 4 = 1 then fs_open s
      else if load32 (cmem s) 4 = 2 then fs_read s
      else if load32 (cmem s) 4 = 3 then fs_write s
      else Some (False, s))"

section \<open>The disk as seen by the file system\<close>

definition part_base :: "fs \<Rightarrow> u32" where
  "part_base s = load32 (hmem s) (part_addr DATA_LOCATION (handle s - 1) + 4)"

definition fs_ok :: "fs \<Rightarrow> bool" where
  "fs_ok s \<longleftrightarrow> client_ok (handle s) (part_base s) s"

definition buf_word :: "fs \<Rightarrow> u32 \<Rightarrow> u32" where
  "buf_word s i = load32 (cmem s) (FILE_DATA + i)"

definition disk_word :: "fs \<Rightarrow> u32 \<Rightarrow> u32 \<Rightarrow> u32" where
  "disk_word s l i = load32 (disk s (l + part_base s)) i"

text \<open>What the block operations leave alone: the variables and the memory outside the message page.\<close>

definition fs_rest :: "fs \<Rightarrow> u32 \<times> u32 \<times> u32 \<times> bool \<times> bytes" where
  "fs_rest s = (handle s, root s, part_base s, msg_mapped s, \<lambda>a. if unat (a - FILE_MSG_PAGE) < 4096 then 0 else cmem s a)"

lemma in_message_page:
  "unat (a - FILE_DATA) < 2048 \<Longrightarrow> unat (a - FILE_MSG_PAGE) < 4096"
proof -
  assume d: "unat (a - FILE_DATA) < 2048"
  have e: "a - FILE_MSG_PAGE = (a - FILE_DATA) + 2048" by simp
  show ?thesis unfolding e using d by (subst unat_plus_small) auto
qed

lemma file_request_rest:
  "\<not> unat (a - FILE_MSG_PAGE) < 4096 \<Longrightarrow> file_request c h off n m a = m a"
proof -
  assume a: "\<not> unat (a - FILE_MSG_PAGE) < 4096"
  have "unat a < 0xB0000000 \<or> 0xB0001000 \<le> unat a"
  proof (rule ccontr)
    assume "\<not> (unat a < 0xB0000000 \<or> 0xB0001000 \<le> unat a)"
    moreover from this have "FILE_MSG_PAGE \<le> a" by (simp add: word_le_nat_alt)
    ultimately show False using a unat_minus_le[of FILE_MSG_PAGE a] by auto
  qed
  then show ?thesis by (auto simp: file_request_def store32_outside)
qed

lemma read_blocks_ok:
  assumes ok: "fs_ok s" and n: "unat n \<le> 4"
  shows "\<exists>s'. read_blocks off n s = Some s' \<and> fs_ok s' \<and> fs_rest s' = fs_rest s \<and> disk s' = disk s \<and>
     (\<forall>q i. q < unat n \<and> unat i + 4 \<le> 512 \<longrightarrow> buf_word s' (of_nat (512 * q) + i) = disk_word s (off + of_nat q) i)"
proof -
  have c: "client_ok (handle s) (part_base s) s" using ok by (simp add: fs_ok_def)
  let ?m = "get_sectors (unat n) (off + part_base s) FILE_DATA (disk s) (file_request 2 (handle s) off n (cmem s))"
  obtain hm where hm: "read_blocks off n s = Some (s\<lparr>hmem := hm, cmem := ?m\<rparr>)"
      "load32 hm (part_addr DATA_LOCATION (handle s - 1) + 4) = part_base s"
    using fileRead_ok[OF c n] unfolding read_blocks_def by blast
  let ?s = "s\<lparr>hmem := hm, cmem := ?m\<rparr>"
  have b: "part_base ?s = part_base s" unfolding part_base_def[of ?s] using hm(2) by simp
  have "load32 ?m FILE_MSG_PAGE = load32 (file_request 2 (handle s) off n (cmem s)) FILE_MSG_PAGE"
  proof (rule load32_cong)
    fix k :: nat
    assume k: "k < 4"
    have "unat (FILE_MSG_PAGE + of_nat k) = 0xB0000000 + k"
      using k by (subst unat_plus_small) (simp_all add: unat_of_nat_small)
    then show "?m (FILE_MSG_PAGE + of_nat k) = file_request 2 (handle s) off n (cmem s) (FILE_MSG_PAGE + of_nat k)"
      using unat_diff_small[of "FILE_MSG_PAGE + of_nat k" FILE_DATA "512 * unat n"] k n by (auto simp: get_sectors_def)
  qed
  then have "fs_ok ?s" using c b hm(2) by (simp add: fs_ok_def client_ok_def file_request_load(5)[simplified] part_base_def)
  moreover have "fs_rest ?s = fs_rest s"
    unfolding fs_rest_def b using in_message_page n by (fastforce simp: get_sectors_def file_request_rest)
  moreover have "buf_word ?s (of_nat (512 * q) + i) = disk_word s (off + of_nat q) i" if "q < unat n" "unat i + 4 \<le> 512" for q i
    using get_sectors_load[OF that(1) n that(2), of "off + part_base s" "disk s"]
    by (simp add: buf_word_def disk_word_def algebra_simps)
  ultimately show ?thesis using hm(1) by (intro exI[of _ ?s]) simp
qed

lemma write_blocks_ok:
  assumes ok: "fs_ok s" and n: "unat n \<le> 4"
  shows "\<exists>s'. write_blocks off n s = Some s' \<and> fs_ok s' \<and> fs_rest s' = fs_rest s \<and>
     (\<forall>q i. q < unat n \<and> unat i + 4 \<le> 512 \<longrightarrow> disk_word s' (off + of_nat q) i = buf_word s (of_nat (512 * q) + i)) \<and>
     (\<forall>x. unat n \<le> unat (x - off) \<longrightarrow> disk_word s' x = disk_word s x) \<and> (\<forall>i. unat i < 2048 \<longrightarrow> cmem s' (FILE_DATA + i) = cmem s (FILE_DATA + i)) \<and>
     disk s' = put_sectors (unat n) (off + part_base s) FILE_DATA (cmem s) (disk s)"
proof -
  have c: "client_ok (handle s) (part_base s) s" using ok by (simp add: fs_ok_def)
  let ?m = "file_request 3 (handle s) off n (cmem s)"
  let ?d = "put_sectors (unat n) (off + part_base s) FILE_DATA (cmem s) (disk s)"
  obtain hm where hm: "write_blocks off n s = Some (s\<lparr>hmem := hm, cmem := ?m, disk := ?d\<rparr>)"
      "load32 hm (part_addr DATA_LOCATION (handle s - 1) + 4) = part_base s"
    using fileWrite_ok[OF c n] unfolding write_blocks_def by blast
  let ?s = "s\<lparr>hmem := hm, cmem := ?m, disk := ?d\<rparr>"
  have b: "part_base ?s = part_base s" unfolding part_base_def[of ?s] using hm(2) by simp
  have "fs_ok ?s" using c b hm(2) by (simp add: fs_ok_def client_ok_def file_request_load(5)[simplified] part_base_def)
  moreover have "fs_rest ?s = fs_rest s"
    unfolding fs_rest_def b by (auto simp: file_request_rest)
  moreover have "disk_word ?s (off + of_nat q) i = buf_word s (of_nat (512 * q) + i)" if "q < unat n" "unat i + 4 \<le> 512" for q i
    using put_sectors_load[OF that(1) n that(2), of "off + part_base s" "cmem s" "disk s"]
    by (simp add: buf_word_def disk_word_def b algebra_simps)
  moreover have "disk_word ?s x = disk_word s x" if "unat n \<le> unat (x - off)" for x
    using put_sectors_other[of "unat n" "x + part_base s" "off + part_base s"] that
    by (intro ext) (simp add: disk_word_def b)
  moreover have "cmem ?s (FILE_DATA + i) = cmem s (FILE_DATA + i)" if "unat i < 2048" for i
  proof -
    have "unat (FILE_DATA + i) = 0xB0000800 + unat i" using that by (subst unat_plus_small) simp_all
    then show ?thesis by (simp add: file_request_data)
  qed
  ultimately show ?thesis using hm(1) by (intro exI[of _ ?s]) simp
qed

text \<open>The operations on one sector and on a word of the buffer, and the interface they implement.\<close>

definition read_block :: "u32 \<Rightarrow> fs \<Rightarrow> fs option" where
  "read_block l s = read_blocks l 1 s"

definition write_block :: "u32 \<Rightarrow> fs \<Rightarrow> fs option" where
  "write_block l s = write_blocks l 1 s"

definition buf_put :: "u32 \<Rightarrow> u32 \<Rightarrow> fs \<Rightarrow> fs" where
  "buf_put i v s = put_word (FILE_DATA + i) v s"

lemma buf_put_ok:
  assumes ok: "fs_ok s" and i: "unat i + 4 \<le> 2048"
  shows "fs_ok (buf_put i v s) \<and> fs_rest (buf_put i v s) = fs_rest s \<and> disk_word (buf_put i v s) = disk_word s \<and>
    disk (buf_put i v s) = disk s \<and>
    (\<forall>j. unat j + 4 \<le> 2048 \<longrightarrow> 4 dvd unat i \<longrightarrow> 4 dvd unat j \<longrightarrow> buf_word (buf_put i v s) j = (if j = i then v else buf_word s j))"
proof -
  have u: "unat (FILE_DATA + j) = 0xB0000800 + unat j" if "unat j + 4 \<le> 2048" for j
    using that by (subst unat_plus_small) simp_all
  have b: "part_base (buf_put i v s) = part_base s" by (simp add: part_base_def buf_put_def put_word_def)
  have "fs_ok (buf_put i v s)"
    using ok u[OF i] i unfolding fs_ok_def b by (simp add: client_ok_def buf_put_def put_word_def load32_outside)
  moreover have "fs_rest (buf_put i v s) = fs_rest s"
  proof -
    have "store32 (FILE_DATA + i) v (cmem s) a = cmem s a" if "\<not> unat (a - FILE_MSG_PAGE) < 4096" for a
    proof (rule store32_outside)
      show "unat (FILE_DATA + i) + 4 \<le> 2 ^ 32" using u[OF i] i by simp
      show "unat a < unat (FILE_DATA + i) \<or> unat (FILE_DATA + i) + 4 \<le> unat a"
      proof (rule ccontr)
        assume "\<not> ?thesis"
        then have "unat a < 0xB0001000" "0xB0000800 \<le> unat a" using u[OF i] i by auto
        moreover from this(2) have "FILE_MSG_PAGE \<le> a" by (simp add: word_le_nat_alt)
        ultimately show False using that unat_minus_le[of FILE_MSG_PAGE a] by auto
      qed
    qed
    then show ?thesis unfolding fs_rest_def b by (auto simp: buf_put_def put_word_def)
  qed
  moreover have "buf_word (buf_put i v s) j = (if j = i then v else buf_word s j)"
    if j: "unat j + 4 \<le> 2048" and dvd: "4 dvd unat i" "4 dvd unat j" for j
  proof (cases "j = i")
    case False
    then have ne: "unat i \<noteq> unat j" by (simp add: word_unat_eq_iff)
    obtain p q where "unat i = 4 * p" "unat j = 4 * q" using dvd unfolding dvd_def by blast
    with ne have "unat i + 4 \<le> unat j \<or> unat j + 4 \<le> unat i" by auto
    then show ?thesis using u[OF j] u[OF i] i j False
      by (auto simp: buf_word_def buf_put_def put_word_def load32_outside)
  qed (simp add: buf_word_def buf_put_def put_word_def)
  moreover have "disk_word (buf_put i v s) = disk_word s"
    by (intro ext) (simp add: disk_word_def b, simp add: buf_put_def put_word_def)
  ultimately show ?thesis using b by (simp add: buf_put_def put_word_def)
qed

interpretation fsdev: block_device fs_ok read_block write_block buf_put buf_word disk_word fs_rest
proof
  fix s :: fs and l i v :: u32
  assume ok: "fs_ok s"
  have same: "disk_word s' = disk_word s" if "disk s' = disk s" "fs_rest s' = fs_rest s" for s'
    using that by (intro ext) (simp add: disk_word_def fs_rest_def)
  show "\<exists>s'. read_block l s = Some s' \<and> fs_ok s' \<and> fs_rest s' = fs_rest s \<and> disk_word s' = disk_word s \<and>
      (\<forall>i. word_ix i \<longrightarrow> buf_word s' i = disk_word s l i)"
  proof -
    obtain s' where s': "read_blocks l 1 s = Some s'" "fs_ok s'" "fs_rest s' = fs_rest s" "disk s' = disk s"
      "\<forall>q i. q < unat (1 :: u32) \<and> unat i + 4 \<le> 512 \<longrightarrow> buf_word s' (of_nat (512 * q) + i) = disk_word s (l + of_nat q) i"
      using read_blocks_ok[OF ok, of 1 l] by auto
    have "buf_word s' i = disk_word s l i" if "word_ix i" for i
      using s'(5)[rule_format, of 0 i] that by (simp add: word_ix_def)
    then show ?thesis using s' same[OF s'(4,3)] by (auto simp: read_block_def)
  qed
  show "\<exists>s'. write_block l s = Some s' \<and> fs_ok s' \<and> fs_rest s' = fs_rest s \<and>
      (\<forall>i. word_ix i \<longrightarrow> disk_word s' l i = buf_word s i) \<and> (\<forall>x. x \<noteq> l \<longrightarrow> disk_word s' x = disk_word s x) \<and>
      (\<forall>i. word_ix i \<longrightarrow> buf_word s' i = buf_word s i)"
  proof -
    obtain s' where s': "write_blocks l 1 s = Some s'" "fs_ok s'" "fs_rest s' = fs_rest s"
      "\<forall>q i. q < unat (1 :: u32) \<and> unat i + 4 \<le> 512 \<longrightarrow> disk_word s' (l + of_nat q) i = buf_word s (of_nat (512 * q) + i)"
      "\<forall>x. unat (1 :: u32) \<le> unat (x - l) \<longrightarrow> disk_word s' x = disk_word s x"
      "\<forall>i. unat i < 2048 \<longrightarrow> cmem s' (FILE_DATA + i) = cmem s (FILE_DATA + i)"
      using write_blocks_ok[OF ok, of 1 l] by auto
    have "disk_word s' l i = buf_word s i" if "word_ix i" for i
      using s'(4)[rule_format, of 0 i] that by (simp add: word_ix_def)
    moreover have "disk_word s' x = disk_word s x" if "x \<noteq> l" for x
    proof -
      have "unat (x - l) \<noteq> 0" using that by (simp add: unat_eq_zero)
      then show ?thesis using s'(5) by simp
    qed
    moreover have "buf_word s' i = buf_word s i" if "word_ix i" for i
    proof -
      have "cmem s' (FILE_DATA + i + of_nat k) = cmem s (FILE_DATA + i + of_nat k)" if "k < 4" for k
      proof -
        have "unat (i + of_nat k) = unat i + k"
          using that \<open>word_ix i\<close> by (subst unat_plus_small) (simp_all add: unat_of_nat_small word_ix_def)
        then show ?thesis using s'(6)[rule_format, of "i + of_nat k"] that \<open>word_ix i\<close>
          by (simp add: word_ix_def add.assoc)
      qed
      then show ?thesis unfolding buf_word_def by (intro load32_cong) simp
    qed
    ultimately show ?thesis using s'(1-3) by (auto simp: write_block_def)
  qed
  assume "word_ix i"
  then show "fs_ok (buf_put i v s) \<and> fs_rest (buf_put i v s) = fs_rest s \<and> disk_word (buf_put i v s) = disk_word s \<and>
      (\<forall>j. word_ix j \<longrightarrow> buf_word (buf_put i v s) j = (if j = i then v else buf_word s j))"
    using buf_put_ok[OF ok, of i v] by (simp add: word_ix_def)
qed


section \<open>The free lists\<close>

text \<open>
  Block \<open>b\<close> is the sectors from \<open>b * 4\<close> on. The list of size \<open>k\<close> starts at word \<open>20 + 4 * k\<close> of the
  super block and is linked through the first word of each block; word 16 counts the free blocks.
\<close>

fun block_list :: "(u32 \<Rightarrow> u32 \<Rightarrow> u32) \<Rightarrow> u32 \<Rightarrow> u32 list \<Rightarrow> bool" where
  "block_list D p [] \<longleftrightarrow> p = 0"
| "block_list D p (b # bs) \<longleftrightarrow> p = b \<and> b \<noteq> 0 \<and> block_list D (D (b * 4) 0) bs"

definition extent :: "nat \<Rightarrow> u32 \<Rightarrow> nat set" where
  "extent k b = {unat b ..< unat b + 2 ^ k}"

definition entries :: "(nat \<Rightarrow> u32 list) \<Rightarrow> (nat \<times> u32) set" where
  "entries F = {(k, b). k < 20 \<and> b \<in> set (F k)}"

definition free_blocks :: "(nat \<Rightarrow> u32 list) \<Rightarrow> nat set" where
  "free_blocks F = (\<Union>(k, b) \<in> entries F. extent k b)"

definition list_word :: "nat \<Rightarrow> u32" where
  "list_word k = 20 + 4 * of_nat k"

definition lists_ok :: "nat \<Rightarrow> (u32 \<Rightarrow> u32 \<Rightarrow> u32) \<Rightarrow> (nat \<Rightarrow> u32 list) \<Rightarrow> bool" where
  "lists_ok nb D F \<longleftrightarrow> nb \<le> 2 ^ 30 \<and>
     (\<forall>k < 20. block_list D (D 1 (list_word k)) (F k) \<and> distinct (F k)) \<and>
     (\<forall>(k, b) \<in> entries F. 1 \<le> unat b \<and> unat b + 2 ^ k \<le> nb) \<and>
     (\<forall>x \<in> entries F. \<forall>y \<in> entries F. x \<noteq> y \<longrightarrow> extent (fst x) (snd x) \<inter> extent (fst y) (snd y) = {}) \<and>
     D 1 16 = of_nat (\<Sum>k < 20. 2 ^ k * length (F k))"

lemma unat_list_word: "k < 20 \<Longrightarrow> unat (list_word k) = 20 + 4 * k"
proof -
  assume "k < 20"
  moreover have "list_word k = of_nat (20 + 4 * k)" by (simp add: list_word_def)
  ultimately show ?thesis by (simp only:) (intro unat_of_nat_small, simp)
qed

lemma word_ix_list [simp]: "k < 20 \<Longrightarrow> word_ix (list_word k)"
  by (simp add: word_ix_def unat_list_word)

lemma word_ix_count [simp]: "word_ix 16"
  by (simp add: word_ix_def)

lemma list_word_eq [simp]: "k < 20 \<Longrightarrow> j < 20 \<Longrightarrow> list_word k = list_word j \<longleftrightarrow> k = j"
  by (metis add_left_cancel mult_cancel1 unat_list_word zero_neq_numeral)

lemma list_word_ne [simp]: "k < 20 \<Longrightarrow> list_word k \<noteq> 16" "k < 20 \<Longrightarrow> 16 \<noteq> list_word k"
  using unat_list_word[of k] by auto

lemma block_list_cong: "block_list D p bs \<Longrightarrow> (\<And>b. b \<in> set bs \<Longrightarrow> D' (b * 4) 0 = D (b * 4) 0) \<Longrightarrow> block_list D' p bs"
  by (induction bs arbitrary: p) auto

lemma extent_self: "unat b \<in> extent k b"
  by (simp add: extent_def)

lemma unat_times4: "unat b < 2 ^ 30 \<Longrightarrow> unat (b * 4) = 4 * unat b" for b :: u32
  by (simp add: unat_word_ariths)

lemma sector_of_block: "unat b < 2 ^ 30 \<Longrightarrow> unat c < 2 ^ 30 \<Longrightarrow> b * 4 = c * 4 \<longleftrightarrow> b = c" for b c :: u32
  by (metis mult_cancel1 unat_times4 word_unat_eq_iff zero_neq_numeral)

lemma block_sector_ne: "unat b < 2 ^ 30 \<Longrightarrow> 1 \<le> unat b \<Longrightarrow> b * 4 \<noteq> (1 :: u32)"
  using unat_times4[of b] by (metis One_nat_def dvd_triv_left nat_dvd_1_iff_1 numeral_eq_one_iff semiring_norm(83) unat_1)

lemma sum_upd:
  assumes "len < 20"
  shows "(\<Sum>k < 20. 2 ^ k * length ((F(len := bs)) k)) + 2 ^ len * length (F len) =
     (\<Sum>k < 20. 2 ^ k * length (F k)) + 2 ^ len * length bs"
proof -
  have i: "len \<in> {..<20}" using assms by simp
  have r: "(\<Sum>k \<in> {..<20} - {len}. 2 ^ k * length ((F(len := bs)) k)) = (\<Sum>k \<in> {..<20} - {len}. 2 ^ k * length (F k))"
    by (rule sum.cong) auto
  show ?thesis
    using sum.remove[OF finite_lessThan i, of "\<lambda>k. 2 ^ k * length ((F(len := bs)) k)"]
      sum.remove[OF finite_lessThan i, of "\<lambda>k. 2 ^ k * length (F k)"] unfolding r by simp
qed

lemma lists_okD:
  assumes "lists_ok nb D F"
  shows "nb \<le> 2 ^ 30" "\<And>k. k < 20 \<Longrightarrow> block_list D (D 1 (list_word k)) (F k)" "\<And>k. k < 20 \<Longrightarrow> distinct (F k)"
    "\<And>k b. k < 20 \<Longrightarrow> b \<in> set (F k) \<Longrightarrow> 1 \<le> unat b \<and> unat b + 2 ^ k \<le> nb"
    "\<And>x y. x \<in> entries F \<Longrightarrow> y \<in> entries F \<Longrightarrow> x \<noteq> y \<Longrightarrow> extent (fst x) (snd x) \<inter> extent (fst y) (snd y) = {}"
    "D 1 16 = of_nat (\<Sum>k < 20. 2 ^ k * length (F k))"
  using assms unfolding lists_ok_def entries_def by (blast, blast, blast, fastforce, blast, blast)


lemma lists_ok_push:
  assumes ok: "lists_ok nb D F" and len: "len < 20" and base: "1 \<le> unat base" "unat base + 2 ^ len \<le> nb"
    and new: "extent len base \<inter> free_blocks F = {}"
    and D1: "\<And>j. word_ix j \<Longrightarrow> D' 1 j = (if j = list_word len then base else if j = 16 then D 1 16 + 2 ^ len else D 1 j)"
    and Dl: "D' (base * 4) 0 = D 1 (list_word len)" and Dx: "\<And>x. x \<noteq> 1 \<Longrightarrow> x \<noteq> base * 4 \<Longrightarrow> D' x = D x"
  shows "lists_ok nb D' (F(len := base # F len))"
proof -
  note L = lists_okD[OF ok]
  have out: "unat b \<notin> extent len base" if "k < 20" "b \<in> set (F k)" for k b
    using new that extent_self[of b k] by (auto simp: free_blocks_def entries_def)
  have ne: "b \<noteq> base" if "k < 20" "b \<in> set (F k)" for k b using out[OF that] extent_self by metis
  have small: "unat b < 2 ^ 30" if "k < 20" "b \<in> set (F k)" for k b
  proof -
    have "unat b + 2 ^ k \<le> 2 ^ 30" using L(4)[OF that] L(1) by linarith
    then show ?thesis using zero_less_power[of "2 :: nat" k] by linarith
  qed
  have sb: "unat base < 2 ^ 30" using base(2) L(1) zero_less_power[of "2 :: nat" len] by linarith
  have keep: "D' (b * 4) 0 = D (b * 4) 0" if "k < 20" "b \<in> set (F k)" for k b
    using Dx[of "b * 4"] block_sector_ne[OF small[OF that]] L(4)[OF that] sector_of_block[OF small[OF that] sb] ne[OF that] by simp
  have bl: "block_list D' (D' 1 (list_word k)) ((F(len := base # F len)) k)" if k: "k < 20" for k
  proof (cases "k = len")
    case True
    have "block_list D' (D 1 (list_word len)) (F len)" using L(2)[OF len] keep[OF len] by (rule block_list_cong)
    then show ?thesis using True D1[OF word_ix_list[OF len]] base(1) by (auto simp: Dl)
  next
    case False
    have "D' 1 (list_word k) = D 1 (list_word k)" using D1[OF word_ix_list[OF k]] False k len by simp
    then show ?thesis using block_list_cong[where D' = D', OF L(2)[OF k] keep[OF k]] False by simp
  qed
  have ent: "entries (F(len := base # F len)) = insert (len, base) (entries F)"
    using len by (auto simp: entries_def split: if_splits)
  have disj: "extent len base \<inter> extent (fst y) (snd y) = {}" if "y \<in> entries F" for y
    using new that unfolding free_blocks_def by (cases y) fastforce
  have cnt: "D' 1 16 = of_nat (\<Sum>k < 20. 2 ^ k * length ((F(len := base # F len)) k))"
  proof -
    have "(\<Sum>k < 20. 2 ^ k * length ((F(len := base # F len)) k)) = (\<Sum>k < 20. 2 ^ k * length (F k)) + 2 ^ len"
      using sum_upd[OF len, of F "base # F len"] by (simp add: algebra_simps)
    then show ?thesis using D1[OF word_ix_count] len L(6) by simp
  qed
  show ?thesis unfolding lists_ok_def ent
  proof (intro conjI allI impI ballI)
    fix x y
    assume "x \<in> insert (len, base) (entries F)" "y \<in> insert (len, base) (entries F)" "x \<noteq> y"
    then show "extent (fst x) (snd x) \<inter> extent (fst y) (snd y) = {}"
      using disj[of x] disj[of y] L(5)[of x y] by auto
  next
    fix z assume "z \<in> insert (len, base) (entries F)"
    then show "case z of (k, b) \<Rightarrow> 1 \<le> unat b \<and> unat b + 2 ^ k \<le> nb"
      using base L(4) by (auto simp: entries_def)
  next
    fix k :: nat assume k: "k < 20"
    show "distinct ((F(len := base # F len)) k)" using L(3)[OF k] L(3)[OF len] ne[OF len] by auto
  qed (use L(1) bl cnt in auto)
qed

lemma lists_ok_pop:
  assumes ok: "lists_ok nb D F" and len: "len < 20" and F: "F len = rt # bs"
    and D1: "\<And>j. word_ix j \<Longrightarrow> D' 1 j = (if j = list_word len then D (rt * 4) 0 else if j = 16 then D 1 16 - 2 ^ len else D 1 j)"
    and Dx: "\<And>x. x \<noteq> 1 \<Longrightarrow> D' x = D x"
  shows "lists_ok nb D' (F(len := bs))"
proof -
  note L = lists_okD[OF ok]
  have keep: "D' (b * 4) 0 = D (b * 4) 0" if k: "k < 20" and b: "b \<in> set (F k)" for k b
  proof -
    have "unat b + 2 ^ k \<le> 2 ^ 30" using L(4)[OF k b] L(1) by linarith
    then have "unat b < 2 ^ 30" using zero_less_power[of "2 :: nat" k] by linarith
    then show ?thesis using Dx[of "b * 4"] block_sector_ne[of b] L(4)[OF k b] by simp
  qed
  have bl: "block_list D' (D' 1 (list_word k)) ((F(len := bs)) k)" if k: "k < 20" for k
  proof (cases "k = len")
    case True
    have "block_list D (D (rt * 4) 0) bs" using L(2)[OF len] F by simp
    then have "block_list D' (D (rt * 4) 0) bs" by (rule block_list_cong) (use keep[OF len] F in simp)
    then show ?thesis using True D1[OF word_ix_list[OF len]] by simp
  next
    case False
    have "D' 1 (list_word k) = D 1 (list_word k)" using D1[OF word_ix_list[OF k]] False k len by simp
    then show ?thesis using block_list_cong[where D' = D', OF L(2)[OF k] keep[OF k]] False by simp
  qed
  have ent: "entries (F(len := bs)) \<subseteq> entries F" using F by (auto simp: entries_def split: if_splits)
  have cnt: "D' 1 16 = of_nat (\<Sum>k < 20. 2 ^ k * length ((F(len := bs)) k))"
  proof -
    have "(\<Sum>k < 20. 2 ^ k * length (F k)) = (\<Sum>k < 20. 2 ^ k * length ((F(len := bs)) k)) + 2 ^ len"
      using sum_upd[OF len, of F bs] F by (simp add: algebra_simps)
    then show ?thesis using D1[OF word_ix_count] len L(6) by simp
  qed
  show ?thesis unfolding lists_ok_def
  proof (intro conjI allI impI ballI)
    fix k :: nat assume k: "k < 20"
    show "distinct ((F(len := bs)) k)" using L(3)[OF k] L(3)[OF len] F by auto
  next
    fix x y
    assume "x \<in> entries (F(len := bs))" "y \<in> entries (F(len := bs))" "x \<noteq> y"
    then show "extent (fst x) (snd x) \<inter> extent (fst y) (snd y) = {}" using ent L(5) by blast
  next
    fix z assume "z \<in> entries (F(len := bs))"
    then have "z \<in> entries F" using ent by blast
    then show "case z of (k, b) \<Rightarrow> 1 \<le> unat b \<and> unat b + 2 ^ k \<le> nb" using L(4) by (auto simp: entries_def)
  qed (use L(1) bl cnt in auto)
qed

lemma free_blocks_push: "len < 20 \<Longrightarrow> free_blocks (F(len := base # F len)) = extent len base \<union> free_blocks F"
  by (auto simp: free_blocks_def entries_def split: if_splits)

lemma free_blocks_pop:
  assumes ok: "lists_ok nb D F" and len: "len < 20" and F: "F len = rt # bs"
  shows "free_blocks (F(len := bs)) = free_blocks F - extent len rt" "extent len rt \<subseteq> free_blocks F"
proof -
  note L = lists_okD[OF ok]
  have rt: "(len, rt) \<in> entries F" using len F by (simp add: entries_def)
  show "extent len rt \<subseteq> free_blocks F" using rt by (force simp: free_blocks_def)
  have "rt \<notin> set bs" using L(3)[OF len] F by simp
  then have e: "entries (F(len := bs)) = entries F - {(len, rt)}"
    using F len by (auto simp: entries_def split: if_splits)
  have "extent k b \<inter> extent len rt = {}" if "(k, b) \<in> entries F - {(len, rt)}" for k b
    using L(5)[of "(k, b)" "(len, rt)"] that rt by auto
  moreover have "free_blocks F = free_blocks (F(len := bs)) \<union> extent len rt"
    unfolding free_blocks_def e using rt by (fastforce)
  ultimately show "free_blocks (F(len := bs)) = free_blocks F - extent len rt"
    unfolding free_blocks_def[of "F(len := bs)"] e by blast
qed


lemmas device_ops = read_block_def write_block_def buf_word_def buf_put_def list_word_def

lemma freeBlock_ok:
  assumes ok: "fs_ok s" "lists_ok nb (disk_word s) F" and len: "len < 20"
    and base: "1 \<le> unat base" "unat base + 2 ^ len \<le> nb" and new: "extent len base \<inter> free_blocks F = {}"
  shows "\<exists>s'. freeBlock base len s = Some s' \<and> fs_ok s' \<and> fs_rest s' = fs_rest s \<and>
    lists_ok nb (disk_word s') (F(len := base # F len)) \<and>
    (\<forall>x. x \<noteq> 1 \<and> x \<noteq> base * 4 \<longrightarrow> disk_word s' x = disk_word s x) \<and>
    (\<forall>j. word_ix j \<and> j \<noteq> 16 \<and> j \<noteq> list_word len \<longrightarrow> disk_word s' 1 j = disk_word s 1 j)"
proof -
  have "unat base < 2 ^ 30" using base(2) lists_okD(1)[OF ok(2)] zero_less_power[of "2 :: nat" len] by linarith
  then have l1: "base * 4 \<noteq> 1" using base(1) by (rule block_sector_ne)
  have eq: "freeBlock base len s = do { s \<leftarrow> read_block 1 s; let cid = buf_word s (list_word len);
      let s = buf_put 16 (buf_word s 16 + 2 ^ len) s; let s = buf_put (list_word len) base s;
      s \<leftarrow> write_block 1 s; let s = buf_put 0 cid s; write_block (base * 4) s }"
    by (simp add: freeBlock_def device_ops add.assoc Let_def)
  obtain s' where s': "freeBlock base len s = Some s'" "fs_ok s'" "fs_rest s' = fs_rest s"
      "\<forall>j. word_ix j \<longrightarrow> disk_word s' 1 j = (if j = list_word len then base
         else if j = 16 then disk_word s 1 16 + 2 ^ len else disk_word s 1 j)"
      "disk_word s' (base * 4) 0 = disk_word s 1 (list_word len)"
      "\<forall>x. x \<noteq> 1 \<and> x \<noteq> base * 4 \<longrightarrow> disk_word s' x = disk_word s x"
    using fsdev.push_block[OF ok(1) word_ix_list[OF len] word_ix_count list_word_ne(1)[OF len] l1, of "2 ^ len" base]
    unfolding eq by blast
  have "lists_ok nb (disk_word s') (F(len := base # F len))"
    by (rule lists_ok_push[OF ok(2) len base new]) (use s'(4-6) in auto)
  then show ?thesis using s' by auto
qed

lemma take_block_ok:
  assumes ok: "fs_ok s" "lists_ok nb (disk_word s) F" and len: "len < 20" and F: "F len = rt # bs"
  shows "\<exists>s'. take_block rt len s = Some s' \<and> fs_ok s' \<and> fs_rest s' = fs_rest s \<and>
    lists_ok nb (disk_word s') (F(len := bs)) \<and> (\<forall>x. x \<noteq> 1 \<longrightarrow> disk_word s' x = disk_word s x) \<and>
    (\<forall>j. word_ix j \<and> j \<noteq> 16 \<and> j \<noteq> list_word len \<longrightarrow> disk_word s' 1 j = disk_word s 1 j)"
proof -
  have eq: "take_block rt len s = do { s \<leftarrow> read_block (rt * 4) s; let nxt = buf_word s 0; s \<leftarrow> read_block 1 s;
      let s = buf_put (list_word len) nxt s; let s = buf_put 16 (buf_word s 16 - 2 ^ len) s; write_block 1 s }"
    by (simp add: take_block_def device_ops add.assoc Let_def)
  obtain s' where s': "take_block rt len s = Some s'" "fs_ok s'" "fs_rest s' = fs_rest s"
      "\<forall>j. word_ix j \<longrightarrow> disk_word s' 1 j = (if j = list_word len then disk_word s (rt * 4) 0
         else if j = 16 then disk_word s 1 16 - 2 ^ len else disk_word s 1 j)"
      "\<forall>x. x \<noteq> 1 \<longrightarrow> disk_word s' x = disk_word s x"
    using fsdev.pop_block[OF ok(1) word_ix_list[OF len] word_ix_count list_word_ne(1)[OF len], of "rt * 4" "2 ^ len"]
    unfolding eq by blast
  have "lists_ok nb (disk_word s') (F(len := bs))"
    by (rule lists_ok_pop[OF ok(2) len F]) (use s'(4,5) in auto)
  then show ?thesis using s' by auto
qed

text \<open>
  What an allocator step may change: the free lists in the super block, and sectors of blocks that
  are or become free.
\<close>

definition alloc_step :: "nat set \<Rightarrow> fs \<Rightarrow> fs \<Rightarrow> bool" where
  "alloc_step A s s' \<longleftrightarrow> fs_ok s' \<and> fs_rest s' = fs_rest s \<and>
     (\<forall>x. x \<noteq> 1 \<and> \<not> (\<exists>b. x = b * 4 \<and> unat b \<in> A) \<longrightarrow> disk_word s' x = disk_word s x) \<and>
     (\<forall>j. word_ix j \<and> (unat j < 16 \<or> 100 \<le> unat j) \<longrightarrow> disk_word s' 1 j = disk_word s 1 j)"

lemma alloc_step_refl: "fs_ok s \<Longrightarrow> alloc_step A s s"
  by (simp add: alloc_step_def)

lemma alloc_step_trans: "alloc_step A s s' \<Longrightarrow> alloc_step A s' s'' \<Longrightarrow> alloc_step A s s''"
  by (auto simp: alloc_step_def)

lemma alloc_step_mono: "alloc_step A s s' \<Longrightarrow> A \<subseteq> B \<Longrightarrow> alloc_step B s s'"
  unfolding alloc_step_def by (elim conjE, intro conjI) (assumption, assumption, metis subsetD, assumption)

lemma super_words: "unat j < 16 \<or> 100 \<le> unat j \<Longrightarrow> len < 20 \<Longrightarrow> j \<noteq> 16 \<and> j \<noteq> list_word len"
  using unat_list_word[of len] by auto

lemma freeBlock_step:
  assumes "fs_ok s" "lists_ok nb (disk_word s) F" "len < 20" "1 \<le> unat base" "unat base + 2 ^ len \<le> nb"
    "extent len base \<inter> free_blocks F = {}"
  shows "\<exists>s'. freeBlock base len s = Some s' \<and> lists_ok nb (disk_word s') (F(len := base # F len)) \<and>
    alloc_step (extent len base) s s'"
proof -
  obtain s' where s': "freeBlock base len s = Some s'" "fs_ok s'" "fs_rest s' = fs_rest s"
      "lists_ok nb (disk_word s') (F(len := base # F len))"
      "\<forall>x. x \<noteq> 1 \<and> x \<noteq> base * 4 \<longrightarrow> disk_word s' x = disk_word s x"
      "\<forall>j. word_ix j \<and> j \<noteq> 16 \<and> j \<noteq> list_word len \<longrightarrow> disk_word s' 1 j = disk_word s 1 j"
    using freeBlock_ok[OF assms] by blast
  have "disk_word s' x = disk_word s x" if "x \<noteq> 1" "\<not> (\<exists>b. x = b * 4 \<and> unat b \<in> extent len base)" for x
    using s'(5) that extent_self[of base len] by blast
  moreover have "disk_word s' 1 j = disk_word s 1 j" if "word_ix j" "unat j < 16 \<or> 100 \<le> unat j" for j
    using s'(6) that super_words[OF that(2) assms(3)] by blast
  ultimately show ?thesis using s'(1-4) unfolding alloc_step_def by blast
qed

lemma take_block_step:
  assumes "fs_ok s" "lists_ok nb (disk_word s) F" "len < 20" "F len = rt # bs"
  shows "\<exists>s'. take_block rt len s = Some s' \<and> lists_ok nb (disk_word s') (F(len := bs)) \<and> alloc_step A s s'"
proof -
  obtain s' where s': "take_block rt len s = Some s'" "fs_ok s'" "fs_rest s' = fs_rest s"
      "lists_ok nb (disk_word s') (F(len := bs))" "\<forall>x. x \<noteq> 1 \<longrightarrow> disk_word s' x = disk_word s x"
      "\<forall>j. word_ix j \<and> j \<noteq> 16 \<and> j \<noteq> list_word len \<longrightarrow> disk_word s' 1 j = disk_word s 1 j"
    using take_block_ok[OF assms] by blast
  have "disk_word s' 1 j = disk_word s 1 j" if "word_ix j" "unat j < 16 \<or> 100 \<le> unat j" for j
    using s'(6) that super_words[OF that(2) assms(3)] by blast
  then show ?thesis using s'(1-5) unfolding alloc_step_def by blast
qed

lemma split_block_ok:
  assumes "fs_ok s" "lists_ok nb (disk_word s) F" "len \<le> l2" "l2 < 20" "1 \<le> unat rt" "unat rt + 2 ^ l2 \<le> nb"
    "extent l2 rt \<inter> free_blocks F = {}"
  shows "\<exists>s' F'. split_block rt len l2 s = Some s' \<and> lists_ok nb (disk_word s') F' \<and>
    free_blocks F' = free_blocks F \<union> (extent l2 rt - extent len rt) \<and> alloc_step (extent l2 rt) s s'"
  using assms
proof (induction l2 arbitrary: s F)
  case 0
  then show ?case using alloc_step_refl by (intro exI[of _ s] exI[of _ F]) simp
next
  case (Suc l2)
  show ?case
  proof (cases "len \<le> l2")
    case True
    have nb: "nb \<le> 2 ^ 30" using lists_okD(1)[OF Suc.prems(2)] .
    have u2: "unat (2 ^ l2 :: u32) = 2 ^ l2"
      using Suc.prems(4) unat_of_nat_small[where 'a = 32, of "2 ^ l2"] power_strict_increasing[of l2 32 "2 :: nat"] by simp
    have ub: "unat (rt + 2 ^ l2) = unat rt + 2 ^ l2"
      using Suc.prems(6) nb u2 by (subst unat_plus_small) auto
    have top: "extent l2 (rt + 2 ^ l2) = extent (Suc l2) rt - extent l2 rt"
      unfolding extent_def ub by auto
    obtain s1 where s1: "freeBlock (rt + 2 ^ l2) l2 s = Some s1"
        "lists_ok nb (disk_word s1) (F(l2 := (rt + 2 ^ l2) # F l2))" "alloc_step (extent l2 (rt + 2 ^ l2)) s s1"
      using freeBlock_step[OF Suc.prems(1,2), of l2 "rt + 2 ^ l2"] Suc.prems(4-7) ub top by auto
    let ?F = "F(l2 := (rt + 2 ^ l2) # F l2)"
    have fb: "free_blocks ?F = extent l2 (rt + 2 ^ l2) \<union> free_blocks F" using Suc.prems(4) by (simp add: free_blocks_push)
    have sub: "extent l2 rt \<subseteq> extent (Suc l2) rt" by (auto simp: extent_def)
    have ok1: "fs_ok s1" using s1(3) by (simp add: alloc_step_def)
    have d: "extent l2 rt \<inter> free_blocks ?F = {}" unfolding fb top using Suc.prems(7) sub by blast
    have b: "unat rt + 2 ^ l2 \<le> nb" using Suc.prems(6) by simp
    obtain s' F' where s': "split_block rt len l2 s1 = Some s'" "lists_ok nb (disk_word s') F'"
        "free_blocks F' = free_blocks ?F \<union> (extent l2 rt - extent len rt)" "alloc_step (extent l2 rt) s1 s'"
      using Suc.IH[OF ok1 s1(2) True Suc_lessD[OF Suc.prems(4)] Suc.prems(5) b d] by blast
    have "extent len rt \<subseteq> extent l2 rt" using True by (auto simp: extent_def intro: less_le_trans power_increasing)
    then have "free_blocks F' = free_blocks F \<union> (extent (Suc l2) rt - extent len rt)"
      unfolding s'(3) fb top using sub by blast
    moreover have "alloc_step (extent (Suc l2) rt) s s'"
      using alloc_step_trans[OF alloc_step_mono[OF s1(3)] alloc_step_mono[OF s'(4)]] sub top by blast
    ultimately show ?thesis using True s1(1) s'(1,2) by auto
  next
    case False
    then have "len = Suc l2" using Suc.prems(3) by simp
    then show ?thesis using Suc.prems alloc_step_refl by (intro exI[of _ s] exI[of _ F]) simp
  qed
qed

lemma free_blocks_nat:
  assumes "lists_ok nb D F" "len < 20" "F len = rt # bs"
  shows "rt \<noteq> 0" "D 1 (list_word len) = rt" "1 \<le> unat rt" "unat rt + 2 ^ len \<le> nb"
  using lists_okD(2)[OF assms(1,2)] lists_okD(4)[OF assms(1,2), of rt] assms(3) by auto

lemma free_list_empty: "lists_ok nb D F \<Longrightarrow> k < 20 \<Longrightarrow> D 1 (list_word k) = 0 \<longleftrightarrow> F k = []"
  using lists_okD(2)[of nb D F k] by (cases "F k") auto

lemma list_word_load: "load32 (cmem s) (FREE_BLOCK k) = buf_word s (list_word k)"
  by (simp add: buf_word_def list_word_def add.assoc)

declare larger_block.simps [simp del]

lemma larger_block_eq:
  "larger_block len l2 s = (if l2 < 20 then
      if buf_word s (list_word l2) \<noteq> 0
      then map_option (Pair (buf_word s (list_word l2))) (take_block (buf_word s (list_word l2)) l2 s \<bind>
        split_block (buf_word s (list_word l2)) len l2)
      else larger_block len (l2 + 1) s else Some (0, s))"
  by (subst larger_block.simps, unfold list_word_load) (auto simp: Let_def map_option_case split: bind_splits option.splits)

text \<open>The search through the longer lists, with the super block in the buffer.\<close>

lemma larger_block_none:
  "(\<And>k. l2 \<le> k \<Longrightarrow> k < 20 \<Longrightarrow> buf_word s (list_word k) = 0) \<Longrightarrow> larger_block len l2 s = Some (0, s)"
proof (induction "20 - l2" arbitrary: l2)
  case (Suc d)
  then show ?case by (subst larger_block_eq) simp
qed (subst larger_block_eq, simp)

lemma split_taken_block:
  assumes ok: "fs_ok s" "lists_ok nb (disk_word s) F" and len: "len \<le> l2" "l2 < 20" and F: "F l2 = rt # bs"
  shows "\<exists>s' F'. take_block rt l2 s \<bind> split_block rt len l2 = Some s' \<and> lists_ok nb (disk_word s') F' \<and>
    extent len rt \<subseteq> free_blocks F \<and> free_blocks F' = free_blocks F - extent len rt \<and> alloc_step (free_blocks F) s s'"
proof -
  note pop = free_blocks_pop[OF ok(2) len(2) F]
  note rt = free_blocks_nat[OF ok(2) len(2) F]
  obtain s1 where s1: "take_block rt l2 s = Some s1" "lists_ok nb (disk_word s1) (F(l2 := bs))" "alloc_step (free_blocks F) s s1"
    using take_block_step[OF ok len(2) F] by blast
  have ok1: "fs_ok s1" using s1(3) by (simp add: alloc_step_def)
  have d: "extent l2 rt \<inter> free_blocks (F(l2 := bs)) = {}" unfolding pop(1) by blast
  obtain s' F' where s': "split_block rt len l2 s1 = Some s'" "lists_ok nb (disk_word s') F'"
      "free_blocks F' = free_blocks (F(l2 := bs)) \<union> (extent l2 rt - extent len rt)" "alloc_step (extent l2 rt) s1 s'"
    using split_block_ok[OF ok1 s1(2) len rt(3,4) d] by blast
  have "extent len rt \<subseteq> extent l2 rt" using len by (auto simp: extent_def intro: less_le_trans power_increasing)
  then have "free_blocks F' = free_blocks F - extent len rt" "extent len rt \<subseteq> free_blocks F"
    unfolding s'(3) pop(1) using pop(2) by blast+
  moreover have "alloc_step (free_blocks F) s s'"
    by (rule alloc_step_trans[OF s1(3) alloc_step_mono[OF s'(4) pop(2)]])
  ultimately show ?thesis using s1(1) s'(1,2) by auto
qed

lemma larger_block_some:
  assumes ok: "fs_ok s" "lists_ok nb (disk_word s) F" and len: "len \<le> l2"
    and buf: "\<And>k. k < 20 \<Longrightarrow> buf_word s (list_word k) = disk_word s 1 (list_word k)"
    and ex: "l2 \<le> k" "k < 20" "F k \<noteq> []"
  shows "\<exists>rt s' F'. larger_block len l2 s = Some (rt, s') \<and> rt \<noteq> 0 \<and> lists_ok nb (disk_word s') F' \<and>
    extent len rt \<subseteq> free_blocks F \<and> free_blocks F' = free_blocks F - extent len rt \<and> alloc_step (free_blocks F) s s'"
  using len ex(1)
proof (induction "k - l2" arbitrary: l2)
  case 0
  then have "l2 = k" by simp
  obtain rt bs where F: "F k = rt # bs" using ex by (cases "F k") auto
  note rt = free_blocks_nat[OF ok(2) ex(2) F]
  obtain s' F' where s': "take_block rt k s \<bind> split_block rt len k = Some s'" "lists_ok nb (disk_word s') F'"
    "extent len rt \<subseteq> free_blocks F" "free_blocks F' = free_blocks F - extent len rt" "alloc_step (free_blocks F) s s'"
    using split_taken_block[OF ok _ ex(2) F, of len] 0(2) \<open>l2 = k\<close> by auto
  have "larger_block len k s = Some (rt, s')"
    using s'(1) rt ex(2) buf[OF ex(2)] by (subst larger_block_eq) simp
  then show ?case using s' rt \<open>l2 = k\<close> by auto
next
  case (Suc d)
  then have l2: "l2 < 20" "len \<le> l2 + 1" "l2 + 1 \<le> k" "d = k - (l2 + 1)" using ex(2) by auto
  note IH = Suc.hyps(1)[OF l2(4,2,3)]
  show ?case
  proof (cases "F l2")
    case Nil
    then have "buf_word s (list_word l2) = 0" using free_list_empty[OF ok(2) l2(1)] buf[OF l2(1)] by simp
    then have "larger_block len l2 s = larger_block len (l2 + 1) s"
      using l2(1) by (subst larger_block_eq) simp
    then show ?thesis using IH by simp
  next
    case (Cons rt bs)
    note rt = free_blocks_nat[OF ok(2) l2(1) Cons]
    obtain s' F' where s': "take_block rt l2 s \<bind> split_block rt len l2 = Some s'" "lists_ok nb (disk_word s') F'"
      "extent len rt \<subseteq> free_blocks F" "free_blocks F' = free_blocks F - extent len rt" "alloc_step (free_blocks F) s s'"
      using split_taken_block[OF ok Suc.prems(1) l2(1) Cons] by blast
    have "larger_block len l2 s = Some (rt, s')"
      using s'(1) rt l2(1) buf[OF l2(1)] by (subst larger_block_eq) simp
    then show ?thesis using s' rt by auto
  qed
qed

lemma mallocBlock_ok:
  assumes ok: "fs_ok s" "lists_ok nb (disk_word s) F" and len: "len < 20"
  shows "if \<exists>k. len \<le> k \<and> k < 20 \<and> F k \<noteq> []
    then \<exists>rt s' F'. mallocBlock len s = Some (rt, s') \<and> rt \<noteq> 0 \<and> lists_ok nb (disk_word s') F' \<and>
      extent len rt \<subseteq> free_blocks F \<and> free_blocks F' = free_blocks F - extent len rt \<and> alloc_step (free_blocks F) s s'
    else \<exists>s'. mallocBlock len s = Some (0, s') \<and> disk s' = disk s \<and> alloc_step {} s s'"
proof -
  obtain s1 where s1: "read_blocks 1 1 s = Some s1" "fs_ok s1" "fs_rest s1 = fs_rest s" "disk s1 = disk s"
      "\<forall>q i. q < unat (1 :: u32) \<and> unat i + 4 \<le> 512 \<longrightarrow> buf_word s1 (of_nat (512 * q) + i) = disk_word s (1 + of_nat q) i"
    using read_blocks_ok[OF ok(1), of 1 1] by auto
  have same: "disk_word s1 = disk_word s"
    using s1(3,4) by (intro ext) (simp add: disk_word_def fs_rest_def)
  have buf: "buf_word s1 (list_word k) = disk_word s1 1 (list_word k)" if "k < 20" for k
    using s1(5)[rule_format, of 0 "list_word k"] unat_list_word[OF that] that by (simp add: same)
  have ok1: "lists_ok nb (disk_word s1) F" using ok(2) same by simp
  have step1: "alloc_step A s s1" for A using s1 same by (simp add: alloc_step_def)
  have m: "mallocBlock len s = (let ret = buf_word s1 (list_word len) in
      if ret = 0 then larger_block len (len + 1) s1 else do { s \<leftarrow> take_block ret len s1; Some (ret, s) })"
    by (simp add: mallocBlock_def s1(1) list_word_load Let_def del: of_nat_Suc, simp only: list_word_load[symmetric] add.assoc, simp)
  show ?thesis
  proof (cases "F len")
    case Nil
    then have e: "mallocBlock len s = larger_block len (len + 1) s1"
      using free_list_empty[OF ok1 len] buf[OF len] by (simp add: m)
    show ?thesis
    proof (cases "\<exists>k. len \<le> k \<and> k < 20 \<and> F k \<noteq> []")
      case True
      then obtain k where "len + 1 \<le> k" "k < 20" "F k \<noteq> []" using Nil by (metis Suc_eq_plus1 le_antisym not_less_eq_eq)
      from larger_block_some[OF s1(2) ok1 _ buf this, of len] show ?thesis
        unfolding if_P[OF True] e using alloc_step_trans[OF step1] by fastforce
    next
      case False
      then have "buf_word s1 (list_word k) = 0" if "len + 1 \<le> k" "k < 20" for k
        using that free_list_empty[OF ok1 that(2)] buf[OF that(2)] by auto
      then have "larger_block len (len + 1) s1 = Some (0, s1)" by (rule larger_block_none)
      then show ?thesis unfolding if_not_P[OF False] e using s1(4) step1 by blast
    qed
  next
    case (Cons rt bs)
    then have ex: "\<exists>k. len \<le> k \<and> k < 20 \<and> F k \<noteq> []" using len by auto
    note rt = free_blocks_nat[OF ok1 len Cons]
    obtain s' where s': "take_block rt len s1 = Some s'" "lists_ok nb (disk_word s') (F(len := bs))" "alloc_step (free_blocks F) s1 s'"
      using take_block_step[OF s1(2) ok1 len Cons] by blast
    have "mallocBlock len s = Some (rt, s')" using s'(1) rt buf[OF len] by (simp add: m)
    moreover have "alloc_step (free_blocks F) s s'" by (rule alloc_step_trans[OF step1 s'(3)])
    ultimately show ?thesis unfolding if_P[OF ex]
      using rt s'(2) free_blocks_pop[OF ok1 len Cons] by blast
  qed
qed

text \<open>
  C23. The block allocator: whenever the free lists on disk are well formed (linked through the
  blocks, disjoint, inside the partition, counted by the free size), \<^verbatim>\<open>mallocBlock(len)\<close> returns a
  block of 2^len free blocks if a list of that size or a larger one is non-empty, splitting the
  larger block; the lists stay well formed and lose exactly the returned blocks. It returns 0 and
  leaves the disk alone otherwise. Either way the variables, the memory outside the message page and
  all sectors apart from the super block and the free blocks are unchanged.
\<close>

theorem mallocBlock_takes_block:
  assumes "fs_ok s" "lists_ok nb (disk_word s) F" "len < 20"
  shows "if \<exists>k. len \<le> k \<and> k < 20 \<and> F k \<noteq> []
    then \<exists>rt s' F'. mallocBlock len s = Some (rt, s') \<and> rt \<noteq> 0 \<and> lists_ok nb (disk_word s') F' \<and>
      extent len rt \<subseteq> free_blocks F \<and> free_blocks F' = free_blocks F - extent len rt \<and> alloc_step (free_blocks F) s s'
    else \<exists>s'. mallocBlock len s = Some (0, s') \<and> disk s' = disk s \<and> alloc_step {} s s'"
  using assms by (rule mallocBlock_ok)

text \<open>A disk with one free block of size 2, at block 5.\<close>

definition small_fs :: fs where
  "small_fs = \<lparr>cmem = store32 FILE_MSG_PAGE 3 (\<lambda>_. 0), hmem = \<lambda>_. 0,
     disk = (\<lambda>l. if l = 1 then store32 24 5 (store32 16 2 (\<lambda>_. 0)) else (\<lambda>_. 0)),
     msg_mapped = True, handle = 1, root = 0\<rparr>"

lemma load32_zero: "load32 (\<lambda>_. 0) a = 0"
  by (simp add: load32_def)

lemma small_fs_words:
  "part_base small_fs = 0" "l \<noteq> 1 \<Longrightarrow> disk_word small_fs l i = 0"
  "word_ix i \<Longrightarrow> disk_word small_fs 1 i = (if i = 24 then 5 else if i = 16 then 2 else 0)"
proof -
  show b: "part_base small_fs = 0" by (simp add: part_base_def small_fs_def load32_zero)
  show "l \<noteq> 1 \<Longrightarrow> disk_word small_fs l i = 0"
    by (simp add: disk_word_def b) (simp add: small_fs_def load32_zero)
  assume i: "word_ix i"
  have far: "unat i + 4 \<le> unat c \<or> unat c + 4 \<le> unat i" if "i \<noteq> c" "word_ix c" for c
  proof -
    have "unat i \<noteq> unat c" using that by (simp add: word_unat_eq_iff)
    then show ?thesis using i that unfolding word_ix_def dvd_def by auto
  qed
  have "word_ix 24" "word_ix 16" by (simp_all add: word_ix_def)
  then show "disk_word small_fs 1 i = (if i = 24 then 5 else if i = 16 then 2 else 0)"
    using far[of 24] far[of 16] i unfolding disk_word_def b
    by (auto simp: small_fs_def load32_zero load32_outside word_ix_def)
qed

lemma small_fs_ok: "fs_ok small_fs" "lists_ok 16 (disk_word small_fs) ((\<lambda>_. [])(1 := [5]))"
proof -
  show "fs_ok small_fs" unfolding fs_ok_def small_fs_words(1)
    by (simp add: client_ok_def small_fs_def load32_zero)
  have l: "list_word k = 24 \<longleftrightarrow> k = 1" if "k < 20" for k
    using list_word_eq[OF that, of 1] by (simp add: list_word_def)
  have "(\<Sum>k<20. 2 ^ k * length ((if k = Suc 0 then [5] else []) :: u32 list)) = (2 :: nat)"
    by (simp add: lessThan_nat_numeral lessThan_Suc)
  then show "lists_ok 16 (disk_word small_fs) ((\<lambda>_. [])(1 := [5]))"
    by (auto simp: lists_ok_def small_fs_words l entries_def split: if_splits)
qed

theorem mallocBlock_takes_block_witness:
  "\<exists>rt s'. mallocBlock 0 small_fs = Some (rt, s') \<and> unat rt \<in> {5, 6} \<and> fs_ok s'"
proof -
  have e: "\<exists>k :: nat. 0 \<le> k \<and> k < 20 \<and> ((\<lambda>_. [])(1 := [5 :: u32])) k \<noteq> []" by (rule exI[of _ 1]) simp
  have "free_blocks ((\<lambda>_. [])(1 := [5])) = {5, 6}"
    by (auto simp: free_blocks_def entries_def extent_def)
  then show ?thesis
    using mallocBlock_takes_block[OF small_fs_ok, of 0, unfolded if_P[OF e]]
    by (fastforce simp: extent_def alloc_step_def)
qed

section \<open>Files\<close>

text \<open>
  The bytes and words of block \<open>c\<close>, the extents recorded in a file block, and the data block that
  holds a given block of the file: block 0 stands for none.
\<close>

definition block_byte :: "fs \<Rightarrow> u32 \<Rightarrow> nat \<Rightarrow> u8" where
  "block_byte s c j = disk s (c * 4 + part_base s + of_nat (j div 512)) (of_nat (j mod 512))"

definition block_word :: "fs \<Rightarrow> u32 \<Rightarrow> nat \<Rightarrow> u32" where
  "block_word s c j = disk_word s (c * 4 + of_nat (j div 512)) (of_nat (j mod 512))"

definition extents :: "fs \<Rightarrow> u32 \<Rightarrow> (u32 \<times> u32) list" where
  "extents s f = takeWhile (\<lambda>(a, n). n \<noteq> 0)
     (map (\<lambda>i. (block_word s f (1024 + 8 * i), block_word s f (1028 + 8 * i))) [0..<128])"

fun locate :: "(u32 \<times> u32) list \<Rightarrow> u32 \<Rightarrow> u32" where
  "locate [] off = 0"
| "locate ((a, n) # xs) off = (if off < n then a else locate xs (off - n))"

lemma read_blocks_bytes:
  assumes ok: "fs_ok s"
  shows "\<exists>s'. read_blocks off 4 s = Some s' \<and> fs_ok s' \<and> fs_rest s' = fs_rest s \<and> disk s' = disk s \<and>
     (\<forall>j < 2048. cmem s' (FILE_DATA + of_nat j) = disk s (off + part_base s + of_nat (j div 512)) (of_nat (j mod 512))) \<and>
     (\<forall>j. j + 4 \<le> 2048 \<and> 4 dvd j \<longrightarrow> buf_word s' (of_nat j) = disk_word s (off + of_nat (j div 512)) (of_nat (j mod 512)))"
proof -
  have c: "client_ok (handle s) (part_base s) s" using ok by (simp add: fs_ok_def)
  obtain s' where s': "read_blocks off 4 s = Some s'" "fs_ok s'" "fs_rest s' = fs_rest s" "disk s' = disk s"
     "\<forall>q i. q < unat (4 :: u32) \<and> unat i + 4 \<le> 512 \<longrightarrow> buf_word s' (of_nat (512 * q) + i) = disk_word s (off + of_nat q) i"
    using read_blocks_ok[OF ok, of 4 off] by auto
  obtain m where m: "cmem s' = get_sectors 4 (off + part_base s) FILE_DATA (disk s) m"
    using fileRead_ok[OF c, of 4 off] s'(1) by (auto simp: read_blocks_def)
  have "cmem s' (FILE_DATA + of_nat j) = disk s (off + part_base s + of_nat (j div 512)) (of_nat (j mod 512))" if "j < 2048" for j
    using that by (simp add: m get_sectors_def unat_of_nat_small)
  moreover have "buf_word s' (of_nat j) = disk_word s (off + of_nat (j div 512)) (of_nat (j mod 512))" if j: "j + 4 \<le> 2048" "4 dvd j" for j
  proof -
    have "4 dvd j mod 512" using j(2) by (rule dvd_mod) simp
    then obtain k where "j mod 512 = 4 * k" ..
    then have "j mod 512 + 4 \<le> 512" using mod_less_divisor[of 512 j] by simp
    then have "unat (of_nat (j mod 512) :: u32) + 4 \<le> 512" by (subst unat_of_nat_small) auto
    moreover have "(of_nat (512 * (j div 512)) + of_nat (j mod 512) :: u32) = of_nat j"
      unfolding of_nat_add[symmetric] by simp
    ultimately show ?thesis using s'(5)[rule_format, of "j div 512" "of_nat (j mod 512)"] j(1) by auto
  qed
  ultimately show ?thesis using s'(1-4) by auto
qed

declare seek_from.simps [simp del]

lemma seek_from_locate:
  assumes "\<And>i. i < 128 \<Longrightarrow> load32 m (FILE_DATA + 1024 + 8 * of_nat i) = A i \<and> load32 m (FILE_DATA + 1024 + 8 * of_nat i + 4) = N i" "k \<le> 128"
  shows "seek_from (of_nat k) off m = locate (takeWhile (\<lambda>(a, n). n \<noteq> 0) (map (\<lambda>i. (A i, N i)) [k..<128])) off"
  using assms(2)
proof (induction "128 - k" arbitrary: k off)
  case 0
  then show ?case by (subst seek_from.simps) simp
next
  case (Suc d)
  then have k: "k < 128" by simp
  then have u: "(of_nat k :: u32) < 128" by (simp add: word_less_nat_alt unat_of_nat_small)
  have "(of_nat k + 1 :: u32) = of_nat (k + 1)" by simp
  then have IH: "seek_from (of_nat k + 1) (off - N k) m =
      locate (takeWhile (\<lambda>(a, n). n \<noteq> 0) (map (\<lambda>i. (A i, N i)) [k + 1..<128])) (off - N k)"
    using Suc.hyps(1)[of "k + 1" "off - N k"] Suc.hyps(2) k by (simp add: add.commute)
  show ?case
    unfolding upt_conv_Cons[OF k] using u assms(1)[OF k] IH by (subst seek_from.simps) (simp add: Let_def)
qed

lemma seekDataBlock_ok:
  assumes ok: "fs_ok s"
  shows "\<exists>s'. seekDataBlock f off s = Some (locate (extents s f) off, s') \<and> fs_ok s' \<and> fs_rest s' = fs_rest s \<and> disk s' = disk s"
proof -
  obtain s' where s': "read_blocks (f * 4) 4 s = Some s'" "fs_ok s'" "fs_rest s' = fs_rest s" "disk s' = disk s"
     "\<forall>j. j + 4 \<le> 2048 \<and> 4 dvd j \<longrightarrow> buf_word s' (of_nat j) = disk_word s (f * 4 + of_nat (j div 512)) (of_nat (j mod 512))"
    using read_blocks_bytes[OF ok] by blast
  have "seek_from (of_nat 0) off (cmem s') = locate (extents s f) off"
    unfolding extents_def
  proof (rule seek_from_locate)
    fix i :: nat
    assume "i < 128"
    then show "load32 (cmem s') (FILE_DATA + 1024 + 8 * of_nat i) = block_word s f (1024 + 8 * i) \<and>
        load32 (cmem s') (FILE_DATA + 1024 + 8 * of_nat i + 4) = block_word s f (1028 + 8 * i)"
      using s'(5)[rule_format, of "1024 + 8 * i"] s'(5)[rule_format, of "1028 + 8 * i"]
      by (auto simp: buf_word_def block_word_def algebra_simps)
  qed simp
  then show ?thesis using s' by (auto simp: seekDataBlock_def)
qed


text \<open>Replacing the message page at 0 keeps the state of the file system.\<close>

lemma message_page:
  assumes ok: "fs_ok s" and m: "\<And>a. 4096 \<le> unat a \<Longrightarrow> m a = cmem s a"
  shows "fs_ok (s\<lparr>cmem := m\<rparr>)" "part_base (s\<lparr>cmem := m\<rparr>) = part_base s"
    "block_byte (s\<lparr>cmem := m\<rparr>) = block_byte s" "block_word (s\<lparr>cmem := m\<rparr>) = block_word s"
    "extents (s\<lparr>cmem := m\<rparr>) = extents s"
proof -
  show b: "part_base (s\<lparr>cmem := m\<rparr>) = part_base s" by (simp add: part_base_def)
  have "load32 m FILE_MSG_PAGE = load32 (cmem s) FILE_MSG_PAGE"
  proof (rule load32_cong)
    fix i :: nat
    assume "i < 4"
    then have "unat (FILE_MSG_PAGE + of_nat i) = 0xB0000000 + i"
      by (subst unat_plus_small) (simp_all add: unat_of_nat_small)
    then show "m (FILE_MSG_PAGE + of_nat i) = cmem s (FILE_MSG_PAGE + of_nat i)" using m by simp
  qed
  then show "fs_ok (s\<lparr>cmem := m\<rparr>)" using ok unfolding fs_ok_def b by (simp add: client_ok_def)
  show "block_byte (s\<lparr>cmem := m\<rparr>) = block_byte s" by (intro ext) (simp add: block_byte_def b)
  show w: "block_word (s\<lparr>cmem := m\<rparr>) = block_word s"
    by (intro ext) (simp add: block_word_def disk_word_def b)
  show "extents (s\<lparr>cmem := m\<rparr>) = extents s" by (intro ext) (simp add: extents_def w)
qed

lemma fs_rest_low:
  assumes "fs_rest s' = fs_rest s" "unat a < 0xB0000000"
  shows "cmem s' a = cmem s a"
proof -
  have "\<not> unat (a - FILE_MSG_PAGE) < 4096"
    using unat_diff_small[of a FILE_MSG_PAGE 4096] assms(2) by auto
  then show ?thesis using fun_cong[of _ _ a, OF arg_cong[OF assms(1), of "\<lambda>(_, _, _, _, m). m"]]
    by (simp add: fs_rest_def)
qed

lemma fs_rest_part: "fs_rest s' = fs_rest s \<Longrightarrow> part_base s' = part_base s \<and> root s' = root s \<and> handle s' = handle s"
  by (simp add: fs_rest_def)

lemma fs_read_ok:
  assumes ok: "fs_ok s"
  shows "\<exists>s'. fs_read s = Some (True, s') \<and> fs_ok s' \<and> disk s' = disk s \<and> part_base s' = part_base s \<and>
    (\<forall>j < 2048. cmem s' (2048 + of_nat j) = block_byte s (locate (extents s (load32 (cmem s) 8)) (load32 (cmem s) 12)) j)"
proof -
  define c where "c = locate (extents s (load32 (cmem s) 8)) (load32 (cmem s) 12)"
  obtain s1 where s1: "seekDataBlock (load32 (cmem s) 8) (load32 (cmem s) 12) s = Some (c, s1)" "fs_ok s1"
      "fs_rest s1 = fs_rest s" "disk s1 = disk s"
    using seekDataBlock_ok[OF ok] unfolding c_def by blast
  obtain s2 where s2: "read_blocks (c * 4) 4 s1 = Some s2" "fs_ok s2" "fs_rest s2 = fs_rest s1" "disk s2 = disk s1"
      "\<forall>j < 2048. cmem s2 (FILE_DATA + of_nat j) = disk s1 (c * 4 + part_base s1 + of_nat (j div 512)) (of_nat (j mod 512))"
    using read_blocks_bytes[OF s1(2)] by blast
  let ?m = "memcpy 2048 FILE_DATA 2048 (cmem s2)"
  have m: "?m a = (if unat (a - 2048) < 2048 then cmem s2 (FILE_DATA + (a - 2048)) else cmem s2 a)" for a
    by (subst memcpy_apply) simp_all
  have hi: "?m a = cmem s2 a" if "4096 \<le> unat a" for a
    using unat_diff_small[of a 2048 2048] that unfolding m by auto
  note mp = message_page[OF s2(2) hi]
  have "?m (2048 + of_nat j) = block_byte s c j" if "j < 2048" for j
    using that s2(5) fs_rest_part[OF s1(3)] s1(4) by (simp add: m unat_of_nat_small block_byte_def)
  moreover have "fs_read s = Some (True, s2\<lparr>cmem := ?m\<rparr>)" by (simp add: fs_read_def s1(1) s2(1))
  ultimately show ?thesis unfolding c_def[symmetric]
    using mp(1,2) s1(4) s2(4) fs_rest_part[OF s2(3)] fs_rest_part[OF s1(3)] by simp
qed

lemma fs_write_ok:
  assumes ok: "fs_ok s"
  shows "\<exists>s' c. c = locate (extents s (load32 (cmem s) 8)) (load32 (cmem s) 12) \<and> fs_write s = Some (True, s') \<and>
    fs_ok s' \<and> part_base s' = part_base s \<and>
    (\<forall>j < 2048. block_byte s' c j = cmem s (2048 + of_nat j)) \<and>
    (\<forall>x. 4 \<le> unat (x - c * 4) \<longrightarrow> disk_word s' x = disk_word s x \<and> disk s' (x + part_base s) = disk s (x + part_base s)) \<and>
    (\<forall>a. unat a < 4096 \<longrightarrow> cmem s' a = cmem s a)"
proof -
  define c where "c = locate (extents s (load32 (cmem s) 8)) (load32 (cmem s) 12)"
  obtain s1 where s1: "seekDataBlock (load32 (cmem s) 8) (load32 (cmem s) 12) s = Some (c, s1)" "fs_ok s1"
      "fs_rest s1 = fs_rest s" "disk s1 = disk s"
    using seekDataBlock_ok[OF ok] unfolding c_def by blast
  let ?m = "memcpy FILE_DATA 2048 2048 (cmem s1)"
  let ?s = "s1\<lparr>cmem := ?m\<rparr>"
  have m: "?m a = (if unat (a - FILE_DATA) < 2048 then cmem s1 (2048 + (a - FILE_DATA)) else cmem s1 a)" for a
    by (subst memcpy_apply) simp_all
  have b: "part_base ?s = part_base s1" by (simp add: part_base_def)
  have low: "?m a = cmem s1 a" if "unat a < 0xB0000800" for a
    using unat_diff_small[of a FILE_DATA 2048] that unfolding m by auto
  have "load32 ?m FILE_MSG_PAGE = load32 (cmem s1) FILE_MSG_PAGE"
  proof (rule load32_cong)
    fix i :: nat
    assume "i < 4"
    then have "unat (FILE_MSG_PAGE + of_nat i) = 0xB0000000 + i"
      by (subst unat_plus_small) (simp_all add: unat_of_nat_small)
    then show "?m (FILE_MSG_PAGE + of_nat i) = cmem s1 (FILE_MSG_PAGE + of_nat i)" using low \<open>i < 4\<close> by simp
  qed
  then have ok': "fs_ok ?s" using s1(2) unfolding fs_ok_def b by (simp add: client_ok_def)
  obtain s2 where s2: "write_blocks (c * 4) 4 ?s = Some s2" "fs_ok s2" "fs_rest s2 = fs_rest ?s"
      "\<forall>x. unat (4 :: u32) \<le> unat (x - c * 4) \<longrightarrow> disk_word s2 x = disk_word ?s x"
      "disk s2 = put_sectors (unat (4 :: u32)) (c * 4 + part_base ?s) FILE_DATA (cmem ?s) (disk ?s)"
    using write_blocks_ok[OF ok', of 4 "c * 4"] by auto
  note p1 = fs_rest_part[OF s1(3)]
  have p2: "part_base s2 = part_base s" using fs_rest_part[OF s2(3)] b p1 by simp
  have "block_byte s2 c j = cmem s (2048 + of_nat j)" if j: "j < 2048" for j
  proof -
    have u: "unat (of_nat (j div 512) :: u32) = j div 512" "unat (of_nat (j mod 512) :: u32) = j mod 512"
      "unat (of_nat j :: u32) = j" using j by (auto intro: unat_of_nat_small less_trans[OF mod_less_divisor])
    have d: "j div 512 < 4" using j by (simp add: less_mult_imp_div_less)
    have "unat (2048 + of_nat j :: u32) = 2048 + j" using j u(3) by (subst unat_plus_small) simp_all
    moreover have "block_byte s2 c j = ?m (FILE_DATA + of_nat j)"
      using j u d by (simp add: block_byte_def s2(5) p2 b p1 put_sectors_def del: of_nat_add of_nat_mult)
    ultimately show ?thesis using j u fs_rest_low[OF s1(3), of "2048 + of_nat j"] by (simp add: m)
  qed
  moreover have "disk_word s2 x = disk_word s x \<and> disk s2 (x + part_base s) = disk s (x + part_base s)" if "4 \<le> unat (x - c * 4)" for x
  proof
    show "disk_word s2 x = disk_word s x"
      using s2(4) that s1(4) p1 by (intro ext) (simp add: disk_word_def b)
    show "disk s2 (x + part_base s) = disk s (x + part_base s)"
      unfolding s2(5) using that s1(4) by (subst put_sectors_other) (simp_all add: b p1)
  qed
  moreover have "cmem s2 a = cmem s a" if "unat a < 4096" for a
    using fs_rest_low[OF s2(3), of a] low[of a] fs_rest_low[OF s1(3), of a] that by simp
  moreover have "fs_write s = Some (True, s2)" by (simp add: fs_write_def s1(1) s2(1))
  ultimately show ?thesis unfolding c_def[symmetric] using s2(2) p2 by blast
qed

lemma block_apart:
  assumes "unat g < 2 ^ 30" "unat c < 2 ^ 30" "g \<noteq> c" "q < 4"
  shows "4 \<le> unat (g * 4 + of_nat q - c * 4 :: u32)"
proof -
  have ne: "unat g \<noteq> unat c" using assms(3) by (simp add: word_unat_eq_iff)
  have q: "unat (of_nat q :: u32) = q" using assms(4) by (intro unat_of_nat_small) simp
  have gq: "unat (g * 4 + of_nat q) = 4 * unat g + q"
    using assms unat_times4[OF assms(1)] q by (subst unat_plus_small) simp_all
  note c4 = unat_times4[OF assms(2)]
  show ?thesis
  proof (cases "unat c < unat g")
    case True
    then have "c * 4 \<le> g * 4 + of_nat q" by (simp add: word_le_nat_alt gq c4)
    then show ?thesis using True by (simp add: unat_sub gq c4)
  next
    case False
    then have lt: "g * 4 + of_nat q < c * 4" using ne assms(4) by (simp add: word_less_nat_alt gq c4)
    have "unat (g * 4 + of_nat q - c * 4) = 2 ^ 32 + unat (g * 4 + of_nat q) - unat (c * 4)"
      using unat_sub_if'[of "g * 4 + of_nat q" "c * 4"] lt by (simp add: word_less_nat_alt)
    then have e: "unat (g * 4 + of_nat q - c * 4) = 2 ^ 32 + (4 * unat g + q) - 4 * unat c" unfolding gq c4 .
    show ?thesis unfolding e using assms(2) by simp
  qed
qed

lemma mod_512: "unat (of_nat (j mod 512) :: u32) = j mod 512"
  using mod_less_divisor[of 512 j] by (intro unat_of_nat_small) simp

lemma other_block:
  assumes "unat g < 2 ^ 30" "unat c < 2 ^ 30" "g \<noteq> c" "part_base s' = part_base s" "j < 2048"
    "\<forall>x. 4 \<le> unat (x - c * 4) \<longrightarrow> disk_word s' x = disk_word s x \<and> disk s' (x + part_base s) = disk s (x + part_base s)"
  shows "block_byte s' g j = block_byte s g j" "block_word s' g j = block_word s g j"
proof -
  have "j div 512 < 4" using assms(5) by (simp add: less_mult_imp_div_less)
  from assms(6)[rule_format, OF block_apart[OF assms(1-3) this]]
  show "block_byte s' g j = block_byte s g j" "block_word s' g j = block_word s g j"
    by (simp_all add: block_byte_def block_word_def assms(4) add.assoc add.commute[of "part_base s"])
qed

lemma extents_cong: "(\<And>j. j < 2048 \<Longrightarrow> block_word s' g j = block_word s g j) \<Longrightarrow> extents s' g = extents s g"
  unfolding extents_def by (intro arg_cong[of _ _ "takeWhile _"] map_cong) auto

lemma locate_past_end: "(\<Sum>(a, n) \<leftarrow> xs. unat n) \<le> unat off \<Longrightarrow> locate xs off = 0"
proof (induction xs arbitrary: off)
  case (Cons x xs)
  obtain a n where x: "x = (a, n)" by force
  then have n: "n \<le> off" using Cons.prems by (simp add: word_le_nat_alt)
  then show ?case using Cons.IH[of "off - n"] Cons.prems x by (auto simp: unat_sub dest: leD)
qed simp

text \<open>
  The driver passes 28 bits of a sector number to the drive. A block is addressable when all its
  sectors, counted from the start of the disk, are below that limit.
\<close>

definition addressable :: "fs \<Rightarrow> u32 \<Rightarrow> bool" where
  "addressable s x \<longleftrightarrow> unat (part_base s) + 4 * unat x + 4 \<le> 2 ^ 28"

lemma addressable_small: "addressable s x \<Longrightarrow> unat x < 2 ^ 30"
  by (simp add: addressable_def)

text \<open>
  C24. Files keep what is written to them: the write message stores its 2048 bytes in the block that
  the file's extents give for the offset, and changes no other sector of the disk; a read message
  that arrives later, for any file other than the block itself, gets the new bytes where its extents
  lead to that block and the old ones elsewhere. All blocks involved lie below the 28-bit limit of the
  driver. The file calls of the message library put the request into the message page; its exchange
  with the driver is one step, the round of the driver's loop on the store of sectors that the PIO
  routines implement below that limit (\<open>sector_transfers\<close> and \<open>hd_round_pio\<close>).
\<close>

theorem file_write_then_read:
  assumes ok: "fs_ok s" and msg: "load32 (cmem s) 0 = 3" "load32 (cmem s) 4 = 3"
    and c: "c = locate (extents s (load32 (cmem s) 8)) (load32 (cmem s) 12)"
    and g: "g \<noteq> c" "b = locate (extents s g) off"
    and lim: "addressable s (load32 (cmem s) 8)" "addressable s c" "addressable s g" "addressable s b"
  shows "\<exists>s'. fs_round s = Some (True, s') \<and>
    (\<forall>x j. addressable s x \<and> j < 2048 \<longrightarrow> block_byte s' x j = (if x = c then cmem s (2048 + of_nat j) else block_byte s x j)) \<and>
    (\<forall>l. 4 \<le> unat (l - (c * 4 + part_base s)) \<longrightarrow> disk s' l = disk s l) \<and>
    (\<forall>m. (\<forall>a. 4096 \<le> unat a \<longrightarrow> m a = cmem s' a) \<and> load32 m 0 = 3 \<and> load32 m 4 = 2 \<and> load32 m 8 = g \<and> load32 m 12 = off \<longrightarrow>
      (\<exists>s''. fs_round (s'\<lparr>cmem := m\<rparr>) = Some (True, s'') \<and> disk s'' = disk s' \<and>
        (\<forall>j < 2048. cmem s'' (2048 + of_nat j) = (if b = c then cmem s (2048 + of_nat j) else block_byte s b j))))"
proof -
  note small = lim[THEN addressable_small]
  obtain s' where s': "fs_write s = Some (True, s')" "fs_ok s'" "part_base s' = part_base s"
    "\<forall>j < 2048. block_byte s' c j = cmem s (2048 + of_nat j)"
    "\<forall>x. 4 \<le> unat (x - c * 4) \<longrightarrow> disk_word s' x = disk_word s x \<and> disk s' (x + part_base s) = disk s (x + part_base s)"
    using fs_write_ok[OF ok] unfolding c[symmetric] by blast
  have blocks: "block_byte s' x j = (if x = c then cmem s (2048 + of_nat j) else block_byte s x j)"
    if "addressable s x" "j < 2048" for x j
    using s'(4) that other_block(1)[OF addressable_small[OF that(1)] small(2) _ s'(3) that(2) s'(5)] by simp
  have rest: "disk s' l = disk s l" if "4 \<le> unat (l - (c * 4 + part_base s))" for l
    using s'(5)[rule_format, of "l - part_base s"] that by (simp add: diff_diff_eq ac_simps)
  have ext: "extents s' g = extents s g"
    by (rule extents_cong) (rule other_block(2)[OF small(3,2) g(1) s'(3) _ s'(5)])
  have "\<exists>s''. fs_round (s'\<lparr>cmem := m\<rparr>) = Some (True, s'') \<and> disk s'' = disk s' \<and>
        (\<forall>j < 2048. cmem s'' (2048 + of_nat j) = (if b = c then cmem s (2048 + of_nat j) else block_byte s b j))"
    if m: "\<forall>a. 4096 \<le> unat a \<longrightarrow> m a = cmem s' a" "load32 m 0 = 3" "load32 m 4 = 2" "load32 m 8 = g" "load32 m 12 = off" for m
  proof -
    note mp = message_page[OF s'(2) m(1)[rule_format]]
    obtain s'' where "fs_read (s'\<lparr>cmem := m\<rparr>) = Some (True, s'')" "disk s'' = disk s'"
      "\<forall>j < 2048. cmem s'' (2048 + of_nat j) = block_byte s' b j"
      using fs_read_ok[OF mp(1)] mp(3,5) m(4,5) ext g(2) by auto
    then show ?thesis using blocks[OF lim(4)] m(2,3) by (auto simp: fs_round_def)
  qed
  moreover have "fs_round s = Some (True, s')" using msg s'(1) by (simp add: fs_round_def)
  ultimately show ?thesis using blocks rest by blast
qed

text \<open>
  C25. Writing past the end of a file: the message is answered like any other, and the 2048 bytes land
  in block 0, so that the super block becomes the second 512 bytes of the message.
\<close>

theorem file_write_past_end:
  assumes ok: "fs_ok s" and msg: "load32 (cmem s) 0 = 3" "load32 (cmem s) 4 = 3"
    and past: "(\<Sum>(a, n) \<leftarrow> extents s (load32 (cmem s) 8). unat n) \<le> unat (load32 (cmem s) 12)"
  shows "\<exists>s'. fs_round s = Some (True, s') \<and> (\<forall>i. word_ix i \<longrightarrow> disk_word s' 1 i = load32 (cmem s) (2560 + i))"
proof -
  have c: "locate (extents s (load32 (cmem s) 8)) (load32 (cmem s) 12) = 0" by (rule locate_past_end[OF past])
  obtain s' where s': "fs_write s = Some (True, s')" "part_base s' = part_base s"
    "\<forall>j < 2048. block_byte s' 0 j = cmem s (2048 + of_nat j)"
    using fs_write_ok[OF ok] unfolding c by blast
  have "disk_word s' 1 i = load32 (cmem s) (2560 + i)" if i: "word_ix i" for i
    unfolding disk_word_def
  proof (rule load32_cong)
    fix k :: nat
    assume k: "k < 4"
    let ?j = "512 + (unat i + k)"
    have b: "?j < 2048" "?j div 512 = 1" "?j mod 512 = unat i + k"
      using i k by (auto simp: word_ix_def div_add_self1 mod_add_self1)
    have "2048 + of_nat ?j = 2560 + i + (of_nat k :: u32)" by simp
    then show "disk s' (1 + part_base s') (i + of_nat k) = cmem s (2560 + i + of_nat k)"
      using s'(3)[rule_format, OF b(1)] b(2,3) by (simp add: block_byte_def s'(2) algebra_simps)
  qed
  then show ?thesis using msg s'(1) by (auto simp: fs_round_def)
qed

text \<open>A disk with one file, block 2, whose only data block is block 3.\<close>

definition one_file :: "u32 \<Rightarrow> fs" where
  "one_file off = \<lparr>cmem = store32 FILE_MSG_PAGE 3 (store32 12 off (store32 8 2 (store32 4 3 (store32 0 3 (\<lambda>_. 7))))),
     hmem = \<lambda>_. 0, disk = (\<lambda>l. if l = 10 then store32 4 1 (store32 0 3 (\<lambda>_. 0)) else (\<lambda>_. 0)),
     msg_mapped = True, handle = 1, root = 2\<rparr>"

lemma one_file_ok:
  "fs_ok (one_file off)" "extents (one_file off) 2 = [(3, 1)]" "load32 (cmem (one_file off)) 0 = 3" "load32 (cmem (one_file off)) 4 = 3"
  "load32 (cmem (one_file off)) 8 = 2" "load32 (cmem (one_file off)) 12 = off"
proof -
  have b: "part_base (one_file off) = 0" by (simp add: part_base_def one_file_def load32_zero)
  show "fs_ok (one_file off)" unfolding fs_ok_def b by (simp add: client_ok_def one_file_def load32_zero)
  show "load32 (cmem (one_file off)) 0 = 3" "load32 (cmem (one_file off)) 4 = 3"
    "load32 (cmem (one_file off)) 8 = 2" "load32 (cmem (one_file off)) 12 = off"
    by (simp_all add: one_file_def load32_outside load32_store32[of 0, simplified])
  have w: "disk_word (one_file off) 10 0 = 3" "disk_word (one_file off) 10 4 = 1" "disk_word (one_file off) 10 12 = 0"
    unfolding disk_word_def b by (simp_all add: one_file_def load32_outside load32_zero load32_store32[of 0, simplified])
  have u: "[0..<128] = 0 # 1 # [2..<128]" by (simp add: upt_rec)
  show "extents (one_file off) 2 = [(3, 1)]"
    unfolding extents_def u by (simp add: block_word_def w)
qed

theorem file_write_then_read_witness:
  "\<exists>s'. fs_round (one_file 0) = Some (True, s') \<and> block_byte s' 3 100 = 7"
proof -
  have "cmem (one_file 0) 2148 = 7" by (simp add: one_file_def store32_apply)
  moreover have "part_base (one_file 0) = 0" by (simp add: part_base_def one_file_def load32_zero)
  then have "addressable (one_file 0) 2" "addressable (one_file 0) 3" "addressable (one_file 0) 0"
    by (simp_all add: addressable_def)
  moreover have l: "3 = locate (extents (one_file 0) 2) 0" "(2 :: u32) \<noteq> 3" by (simp_all add: one_file_ok)
  ultimately obtain s' where "fs_round (one_file 0) = Some (True, s')"
      "\<forall>x j. addressable (one_file 0) x \<and> j < 2048 \<longrightarrow>
         block_byte s' x j = (if x = 3 then cmem (one_file 0) (2048 + of_nat j) else block_byte (one_file 0) x j)"
    using file_write_then_read[of "one_file 0" 3 2 3 0, OF one_file_ok(1,3,4) _ l(2,1)] unfolding one_file_ok by blast
  then show ?thesis using \<open>addressable (one_file 0) 3\<close> \<open>cmem (one_file 0) 2148 = 7\<close> by (intro exI[of _ s']) simp
qed

theorem file_write_past_end_witness:
  "\<exists>s'. fs_round (one_file 1) = Some (True, s') \<and> disk_word s' 1 0 = load32 (cmem (one_file 1)) 2560"
  using file_write_past_end[OF one_file_ok(1,3,4), of 1] by (fastforce simp: one_file_ok)

section \<open>Start-up and formatting\<close>

text \<open>
  The start of \<^verbatim>\<open>norlitfs_bottom\<close>: the partition table is read through the disk driver, the first
  partition of type 6E is opened and its super block checked. The string constant \<^verbatim>\<open>"$MBR"\<close> is at
  \<open>mbr\<close>, the array \<^verbatim>\<open>partName\<close> on the stack at \<open>partName\<close>. The flag is false where the process exits.
\<close>

fun put_string :: "u32 \<Rightarrow> string \<Rightarrow> bytes \<Rightarrow> bytes" where
  "put_string a [] m = m(a := 0)"
| "put_string a (c # t) m = put_string (a + 1) t (m(a := of_char c))"

function find_norlit :: "u32 \<Rightarrow> bytes \<Rightarrow> u32" where
  "find_norlit part m =
     (if part < load32 m (FILE_DATA + 8)
      then if BIT_CLEAR (load32 m (part_addr FILE_DATA part)) 31 = 0x6E then part else find_norlit (part + 1) m
      else part)"
  by pat_completeness auto
termination
proof (relation "measure (\<lambda>(part, m). 2 ^ 32 - unat part)", goal_cases)
  case (2 part m)
  then have "unat part + 1 < 2 ^ 32"
    using unsigned_less[of "load32 m (FILE_DATA + 8)", where 'a = nat] by (simp add: word_less_nat_alt)
  then have "unat (part + 1) = unat part + 1" by (subst unat_plus_small) auto
  then show ?case using \<open>unat part + 1 < 2 ^ 32\<close> by simp
qed simp

definition fs_start :: "u32 \<Rightarrow> u32 \<Rightarrow> fs \<Rightarrow> (bool \<times> fs) option" where
  "fs_start mbr partName s = do {
     (h, s) \<leftarrow> fileOpen mbr s;
     let part = find_norlit 0 (cmem s);
     if part = load32 (cmem s) (FILE_DATA + 8) then Some (False, s\<lparr>handle := h\<rparr>)
     else case sprintf \<lparr>args = \<lambda>_. part + 1, fbytes = cmem s, buf_addr = partName, tmp_addr = 0\<rparr> ''%d'' of
       Inl _ \<Rightarrow> None
     | Inr (t, _) \<Rightarrow> do {
         (h, s) \<leftarrow> fileOpen partName (s\<lparr>handle := h, cmem := put_string partName t (cmem s)\<rparr>);
         s \<leftarrow> read_blocks 1 1 (s\<lparr>handle := h\<rparr>);
         if map (\<lambda>i. cmem s (FILE_DATA + of_nat i)) [0..<8] = map of_char ''NorlitFS''
         then Some (True, s\<lparr>root := load32 (cmem s) (FILE_DATA + 12)\<rparr>)
         else Some (False, s) } }"

text \<open>
  \<^verbatim>\<open>mkfs\<close>: the copy of the kernel file, the empty super block, and the loop that frees the blocks from
  \<open>address\<close> on, one block of each size at either end.
\<close>

function copy_kernel :: "u32 \<Rightarrow> u32 \<Rightarrow> fs \<Rightarrow> fs option" where
  "copy_kernel i ker s =
     (if i < 20 then do {
        s \<leftarrow> write_blocks (4 * i + 8) 4 (s\<lparr>cmem := memcpy FILE_DATA ker 2048 (cmem s)\<rparr>);
        copy_kernel (i + 1) (ker + 2048) s }
      else Some s)"
  by pat_completeness auto
termination
proof (relation "measure (\<lambda>(i, ker, s). 20 - unat i)", goal_cases)
  case (2 i ker s)
  then have "unat i < 20" by (simp add: word_less_nat_alt)
  moreover from this have "unat (i + 1) = unat i + 1" by (subst unat_plus_small) auto
  ultimately show ?case by simp
qed simp

function format_from :: "nat \<Rightarrow> u32 \<Rightarrow> u32 \<Rightarrow> fs \<Rightarrow> fs option" where
  "format_from len address sz s =
     (if len < 20 then
        let sizep = 2 ^ len in
        if sz < sizep then Some s
        else do {
          (address, sz, s) \<leftarrow>
            (if address AND sizep \<noteq> 0
             then map_option (\<lambda>s. (address + sizep, sz - sizep, s)) (freeBlock address len s)
             else Some (address, sz, s));
          (sz, s) \<leftarrow>
            (if sz AND sizep \<noteq> 0
             then map_option (\<lambda>s. (sz - sizep, s)) (freeBlock (address + sz - sizep) len s)
             else Some (sz, s));
          format_from (len + 1) address sz s }
      else Some s)"
  by pat_completeness auto
termination by (relation "measure (\<lambda>(len, address, sz, s). 20 - len)") auto

definition mkfs :: "u32 \<Rightarrow> u32 \<Rightarrow> fs \<Rightarrow> fs option" where
  "mkfs psize rootName s = do {
     let m = memcpy FILE_DATA 0xC000A000 512 (cmem s);
     let m = memcpy (FILE_DATA + 512) 0xC0009000 512 m;
     let m = memcpy (FILE_DATA + 1024) 0xC0008000 1024 m;
     s \<leftarrow> write_blocks 4 4 (s\<lparr>cmem := m\<rparr>);
     s \<leftarrow> fileRead 0 0 1 s;
     s \<leftarrow> fileWrite 0 0 1 (s\<lparr>cmem := memcpy FILE_DATA 0xC000A000 446 (cmem s)\<rparr>);
     s \<leftarrow> copy_kernel 0 0xC000B000 s;
     let m = fold (\<lambda>i m. m(FILE_DATA + of_nat i := of_char (''NorlitFS'' ! i))) [0..<8] (cmem s);
     let m = store32 (FILE_DATA + 8) (psize div 4) m;
     let m = fold (\<lambda>k. store32 (FREE_BLOCK k) 0) [0..<20] m;
     s \<leftarrow> write_blocks 1 1 (s\<lparr>cmem := m\<rparr>);
     s \<leftarrow> format_from 0 22 (psize div 4 - 22) s;
     (rootBlock, s) \<leftarrow> createFileBlock rootName s;
     s \<leftarrow> read_blocks 1 1 s;
     let s = put_word (FILE_DATA + 12) rootBlock s;
     write_blocks 1 1 s }"


lemma bit_block:
  fixes A :: u32
  assumes "len < 32" "2 ^ len dvd unat A"
  shows "A AND 2 ^ len = 0 \<longleftrightarrow> 2 ^ (len + 1) dvd unat A"
proof -
  obtain q where q: "unat A = 2 ^ len * q" using assms(2) ..
  have "A AND 2 ^ len \<noteq> 0 \<longleftrightarrow> bit A len"
    using BIT_TEST_bit[of A len] by (simp add: BIT_TEST_def)
  also have "\<dots> \<longleftrightarrow> bit (unat A) len" by (simp add: bit_unsigned_iff)
  also have "\<dots> \<longleftrightarrow> odd q" by (simp add: bit_iff_odd q)
  finally show ?thesis by (auto simp: q)
qed

lemma unat_pow: "len < 32 \<Longrightarrow> unat (2 ^ len :: u32) = 2 ^ len"
  using unat_of_nat_small[where 'a = 32, of "2 ^ len"] power_strict_increasing[of len 32 "2 :: nat"] by simp

lemma interval_apart: "X \<subseteq> {b..<c} \<Longrightarrow> {a..<c} \<inter> Y = {} \<Longrightarrow> a \<le> b \<Longrightarrow> X \<inter> (Y \<union> {a..<b}) = {}" for a b c :: nat
  by (fastforce simp: subset_iff disjoint_iff)

lemma interval_mid: "{a..<d} \<inter> Y = {} \<Longrightarrow> a \<le> b \<Longrightarrow> c \<le> d \<Longrightarrow> {b..<c} \<inter> (Y \<union> {a..<b} \<union> {c..<d}) = {}" for a b c d :: nat
  by (fastforce simp: disjoint_iff)

declare format_from.simps [simp del]

lemma format_from_ok:
  assumes "fs_ok s" "lists_ok nb (disk_word s) F" "1 \<le> unat A" "unat A + unat S \<le> nb" "unat S < 2 ^ 20" "len \<le> 20"
    "2 ^ len dvd unat A" "2 ^ len dvd unat S" "{unat A..<unat A + unat S} \<inter> free_blocks F = {}"
  shows "\<exists>s' F'. format_from len A S s = Some s' \<and> lists_ok nb (disk_word s') F' \<and>
    free_blocks F' = free_blocks F \<union> {unat A..<unat A + unat S} \<and> alloc_step {unat A..<unat A + unat S} s s'"
  using assms
proof (induction "20 - len" arbitrary: len A S s F)
  case 0
  then have "len = 20" by simp
  then have "unat S = 0" using 0(9,6) by (auto dest: dvd_imp_le)
  then show ?case using 0 \<open>len = 20\<close> by (subst format_from.simps) (auto intro!: exI[of _ F] alloc_step_refl)
next
  case (Suc d)
  then have len: "len < 20" "d = 20 - (len + 1)" by auto
  have P: "unat (2 ^ len :: u32) = 2 ^ len" using len by (intro unat_pow) simp
  have nb: "nb \<le> 2 ^ 30" using lists_okD(1)[OF Suc.prems(2)] .
  show ?case
  proof (cases "S < 2 ^ len")
    case True
    then have "unat S < 2 ^ len" by (simp add: word_less_nat_alt P)
    then have "unat S = 0" using Suc.prems(8) by (auto dest: dvd_imp_le)
    then show ?thesis using Suc.prems(1,2) len True
      by (subst format_from.simps) (auto intro!: exI[of _ F] alloc_step_refl simp: Let_def)
  next
    case False
    then have SP: "2 ^ len \<le> unat S" by (simp add: word_less_nat_alt P not_less)
    text \<open>The block at the low end.\<close>
    obtain A1 S1 s1 F1 where one: "(if A AND 2 ^ len \<noteq> 0 then map_option (\<lambda>s. (A + 2 ^ len, S - 2 ^ len, s)) (freeBlock A len s)
        else Some (A, S, s)) = Some (A1, S1, s1)" "lists_ok nb (disk_word s1) F1" "fs_ok s1"
      "alloc_step {unat A..<unat A1} s s1" "free_blocks F1 = free_blocks F \<union> {unat A..<unat A1}"
      "2 ^ (len + 1) dvd unat A1" "2 ^ len dvd unat S1" "unat A \<le> unat A1" "unat A1 + unat S1 = unat A + unat S" "unat S1 \<le> unat S"
    proof (cases "A AND 2 ^ len = 0")
      case True
      then show ?thesis
        using that[of A S s F] Suc.prems bit_block[of len A] len alloc_step_refl by simp
    next
      case odd: False
      have uA: "unat (A + 2 ^ len) = unat A + 2 ^ len" using Suc.prems(4) nb SP P by (subst unat_plus_small) auto
      have uS: "unat (S - 2 ^ len) = unat S - 2 ^ len" using SP P by (subst unat_sub) (simp_all add: word_le_nat_alt)
      have ext: "extent len A = {unat A..<unat (A + 2 ^ len)}" by (simp add: extent_def uA)
      have "extent len A \<subseteq> {unat A..<unat A + unat S}" unfolding ext uA using SP by simp
      then have "extent len A \<inter> free_blocks F = {}" using Suc.prems(9) by blast
      then obtain s' where s': "freeBlock A len s = Some s'" "lists_ok nb (disk_word s') (F(len := A # F len))" "alloc_step (extent len A) s s'"
        using freeBlock_step[OF Suc.prems(1,2) len(1) Suc.prems(3)] Suc.prems(4) SP by fastforce
      have "2 ^ (len + 1) dvd unat A + 2 ^ len"
      proof -
        obtain q where q: "unat A = 2 ^ len * q" using Suc.prems(7) ..
        have "\<not> 2 ^ (len + 1) dvd unat A" using bit_block[OF _ Suc.prems(7)] odd len by simp
        then have "odd q" by (auto simp: q)
        then obtain r where "q = 2 * r + 1" by (rule oddE)
        then show ?thesis by (simp add: q dvd_def) (metis add.commute distrib_left mult.assoc mult.commute mult_2 nat_mult_1_right)
      qed
      moreover have "2 ^ len dvd unat S - 2 ^ len" using Suc.prems(8) by (simp add: dvd_diff_nat)
      moreover have "fs_ok s'" using s'(3) by (simp add: alloc_step_def)
      ultimately show ?thesis
        using that[of "A + 2 ^ len" "S - 2 ^ len" s' "F(len := A # F len)"] odd s' free_blocks_push[OF len(1), of F A] uA uS SP
        by (simp add: ext Un_commute)
    qed
    text \<open>The block at the high end.\<close>
    obtain S2 s2 F2 where two: "(if S1 AND 2 ^ len \<noteq> 0 then map_option (\<lambda>s. (S1 - 2 ^ len, s)) (freeBlock (A1 + S1 - 2 ^ len) len s1)
        else Some (S1, s1)) = Some (S2, s2)" "lists_ok nb (disk_word s2) F2" "fs_ok s2"
      "alloc_step {unat A1 + unat S2..<unat A + unat S} s1 s2" "free_blocks F2 = free_blocks F1 \<union> {unat A1 + unat S2..<unat A + unat S}"
      "2 ^ (len + 1) dvd unat S2" "unat S2 \<le> unat S1"
    proof (cases "S1 AND 2 ^ len = 0")
      case True
      then show ?thesis
        using that[of S1 s1 F1] one bit_block[OF _ one(7)] len alloc_step_refl by simp
    next
      case odd: False
      obtain q where q: "unat S1 = 2 ^ len * q" using one(7) ..
      have "\<not> 2 ^ (len + 1) dvd unat S1" using bit_block[OF _ one(7)] odd len by simp
      then have "odd q" by (auto simp: q)
      then obtain r where r: "q = 2 * r + 1" by (rule oddE)
      have S1P: "2 ^ len \<le> unat S1" by (simp add: q r)
      have uS: "unat (S1 - 2 ^ len) = unat S1 - 2 ^ len" using S1P P by (subst unat_sub) (simp_all add: word_le_nat_alt)
      have uA1: "unat (A1 + S1) = unat A1 + unat S1" using one(9) Suc.prems(4) nb by (subst unat_plus_small) auto
      have uB: "unat (A1 + S1 - 2 ^ len) = unat A1 + unat S1 - 2 ^ len"
        using S1P P uA1 by (subst unat_sub) (simp_all add: word_le_nat_alt)
      have ext: "extent len (A1 + S1 - 2 ^ len) = {unat A1 + unat (S1 - 2 ^ len)..<unat A + unat S}"
        using S1P one(9) by (simp add: extent_def uB uS)
      have "extent len (A1 + S1 - 2 ^ len) \<subseteq> {unat A1..<unat A + unat S}" unfolding ext using one(8) by simp
      then have "extent len (A1 + S1 - 2 ^ len) \<inter> free_blocks F1 = {}"
        unfolding one(5) by (rule interval_apart[OF _ Suc.prems(9) one(8)])
      then obtain s' where s': "freeBlock (A1 + S1 - 2 ^ len) len s1 = Some s'"
          "lists_ok nb (disk_word s') (F1(len := (A1 + S1 - 2 ^ len) # F1 len))" "alloc_step (extent len (A1 + S1 - 2 ^ len)) s1 s'"
        using freeBlock_step[OF one(3,2) len(1), of "A1 + S1 - 2 ^ len"] Suc.prems(3,4) S1P one(8,9) uB by fastforce
      have "2 ^ (len + 1) dvd unat S1 - 2 ^ len" unfolding q r by (simp add: algebra_simps)
      moreover have "fs_ok s'" using s'(3) by (simp add: alloc_step_def)
      ultimately show ?thesis
        using that[of "S1 - 2 ^ len" s' "F1(len := (A1 + S1 - 2 ^ len) # F1 len)"] odd s' free_blocks_push[OF len(1), of F1] uS S1P
        by (simp add: ext Un_commute)
    qed
    have step: "format_from len A S s = format_from (len + 1) A1 S2 s2"
      using len(1) False one(1) two(1) by (subst format_from.simps) (simp add: Let_def split: if_splits)
    have "unat A1 + unat S2 \<le> nb" using one(9) two(7) Suc.prems(4) by linarith
    moreover have "{unat A1..<unat A1 + unat S2} \<inter> free_blocks F2 = {}"
      unfolding two(5) one(5) by (rule interval_mid[OF Suc.prems(9) one(8)]) (use one(9) two(7) in simp)
    ultimately obtain s' F' where s': "format_from (len + 1) A1 S2 s2 = Some s'" "lists_ok nb (disk_word s') F'"
      "free_blocks F' = free_blocks F2 \<union> {unat A1..<unat A1 + unat S2}" "alloc_step {unat A1..<unat A1 + unat S2} s2 s'"
      using Suc.hyps(1)[OF len(2) two(3,2) _ _ _ _ one(6) two(6)] Suc.prems(3,5) one(8,10) two(7) len(1) by fastforce
    have "free_blocks F' = free_blocks F \<union> {unat A..<unat A + unat S}"
      unfolding s'(3) two(5) one(5) using one(8,9) two(7) by auto
    moreover have "alloc_step {unat A..<unat A + unat S} s s'"
      by (rule alloc_step_trans[OF alloc_step_mono[OF one(4)] alloc_step_trans[OF alloc_step_mono[OF two(4)] alloc_step_mono[OF s'(4)]]])
        (use one(8,9) two(7) in auto)
    ultimately show ?thesis unfolding step using s'(1,2) by blast
  qed
qed

text \<open>
  C26. Formatting: on a super block whose lists and free size are zero, the loop of \<^verbatim>\<open>mkfs\<close> puts every
  block from the first one after the kernel to the end of a partition of up to 2^20 blocks into the
  lists, each exactly once, and touches nothing else.
\<close>

theorem format_frees_partition:
  assumes "fs_ok s" "\<And>k. k < 20 \<Longrightarrow> disk_word s 1 (list_word k) = 0" "disk_word s 1 16 = 0"
    and "1 \<le> unat address" "unat address + unat n < 2 ^ 30" "unat n < 2 ^ 20"
  shows "\<exists>s' F. format_from 0 address n s = Some s' \<and> lists_ok (unat address + unat n) (disk_word s') F \<and>
    free_blocks F = {unat address..<unat address + unat n} \<and>
    alloc_step {unat address..<unat address + unat n} s s'"
proof -
  have e: "free_blocks (\<lambda>_. []) = {}" by (simp add: free_blocks_def entries_def)
  have "lists_ok (unat address + unat n) (disk_word s) (\<lambda>_. [])"
    using assms by (simp add: lists_ok_def entries_def)
  from format_from_ok[OF assms(1) this assms(4) _ assms(6), of 0] show ?thesis by (simp add: e)
qed

theorem format_frees_partition_witness:
  "\<exists>s' F. format_from 0 22 1000 (small_fs\<lparr>disk := \<lambda>_ _. 0\<rparr>) = Some s' \<and> free_blocks F = {22..<1022} \<and>
     lists_ok 1022 (disk_word s') F"
proof -
  let ?s = "small_fs\<lparr>disk := \<lambda>_ _. 0\<rparr>"
  have b: "part_base ?s = part_base small_fs" by (simp add: part_base_def)
  have "fs_ok ?s" using small_fs_ok(1) unfolding fs_ok_def b by (simp add: client_ok_def)
  moreover have "disk_word ?s l i = 0" for l i by (simp add: disk_word_def load32_zero)
  ultimately show ?thesis using format_frees_partition[of ?s 22 1000] by fastforce
qed

end
