(* ===== verification/Video.thy ===== *)
theory Video
  imports Font Lib Format "HOL-Library.Signed_Division"
begin

text \<open>
  The video console, \<^verbatim>\<open>kernel/driver/video/video.c\<close>: the drawing routines on the linear frame buffer,
  the console that renders the text other processes put, and the text buffer between them. The
  frame buffer starts at address 0 of the driver process, as \<^verbatim>\<open>VIDEO_MEMORY_LINEAR\<close> says.
\<close>

section \<open>Drawing\<close>

record video =
  xRes :: u16
  yRes :: u16
  bpl :: u16
  bpp :: u16
  vmem :: bytes

definition drawPoint :: "u16 \<Rightarrow> u16 \<Rightarrow> u32 \<Rightarrow> video \<Rightarrow> video" where
  "drawPoint x y rgb v =
     (let pos = ucast y * ucast (bpl v) + ucast x * ucast (bpp v)
      in v\<lparr>vmem := (vmem v)(pos := ucast rgb, pos + 1 := ucast (drop_bit 8 rgb), pos + 2 := ucast (drop_bit 16 rgb))\<rparr>)"

text \<open>The two nested loops of \<^verbatim>\<open>fillRect\<close>, the inner one on a row.\<close>

lemma word_loop: "x < n \<Longrightarrow> unat n - unat (x + 1) < unat n - unat x" for x n :: "'a::len word"
proof -
  assume lt: "x < n"
  then have "unat x + 1 \<le> unat n" by (simp add: word_less_nat_alt)
  then have "unat x + 1 < 2 ^ LENGTH('a)" by (rule le_less_trans) (rule unsigned_less)
  then have "unat (x + 1) = unat x + 1" by (subst unat_plus_small) (auto simp: unat_1)
  then show ?thesis using lt by (simp add: word_less_nat_alt)
qed

function fill_row :: "u32 \<Rightarrow> u16 \<Rightarrow> u16 \<Rightarrow> u16 \<Rightarrow> video \<Rightarrow> video" where
  "fill_row color y x x1 v = (if x < x1 then fill_row color y (x + 1) x1 (drawPoint x y color v) else v)"
  by pat_completeness auto
termination by (relation "measure (\<lambda>(color, y, x, x1, v). unat x1 - unat x)") (simp_all add: word_loop)

function fillRect :: "u32 \<Rightarrow> u16 \<Rightarrow> u16 \<Rightarrow> u16 \<Rightarrow> u16 \<Rightarrow> video \<Rightarrow> video" where
  "fillRect color x0 y x1 y1 v =
     (if y < y1 then fillRect color x0 (y + 1) x1 y1 (fill_row color y x0 x1 v) else v)"
  by pat_completeness auto
termination by (relation "measure (\<lambda>(color, x0, y, x1, y1, v). unat y1 - unat y)") (simp_all add: word_loop)

text \<open>
  The colour of step \<open>i\<close> of \<open>n\<close> of a gradient; the differences are computed in signed 16 bits and the
  quotient in \<^verbatim>\<open>int\<close>, which truncates towards 0.
\<close>

definition channel :: "u32 \<Rightarrow> u32 \<Rightarrow> nat \<Rightarrow> u16 \<Rightarrow> u16 \<Rightarrow> int" where
  "channel color1 color2 sh i n =
     (let r = uint (ucast (drop_bit sh color1) :: u8);
          r1 = uint (ucast (drop_bit sh color2) :: u8) - r
      in uint i * r1 sdiv uint n + r)"

definition gradient_color :: "u32 \<Rightarrow> u32 \<Rightarrow> u16 \<Rightarrow> u16 \<Rightarrow> u32" where
  "gradient_color color1 color2 i n =
     push_bit 16 (word_of_int (channel color1 color2 16 i n)) + push_bit 8 (word_of_int (channel color1 color2 8 i n))
     + word_of_int (channel color1 color2 0 i n)"

text \<open>A column of the horizontal gradient, and the two loops, from step \<open>i\<close> on.\<close>

function fill_column :: "u32 \<Rightarrow> u16 \<Rightarrow> u16 \<Rightarrow> u16 \<Rightarrow> video \<Rightarrow> video" where
  "fill_column color x y y1 v = (if y < y1 then fill_column color x (y + 1) y1 (drawPoint x y color v) else v)"
  by pat_completeness auto
termination by (relation "measure (\<lambda>(color, x, y, y1, v). unat y1 - unat y)") (simp_all add: word_loop)

function gradient_rows :: "u32 \<Rightarrow> u32 \<Rightarrow> u16 \<Rightarrow> u16 \<Rightarrow> u16 \<Rightarrow> u16 \<Rightarrow> u16 \<Rightarrow> video \<Rightarrow> video" where
  "gradient_rows color1 color2 x0 y0 x1 n i v =
     (if i < n then gradient_rows color1 color2 x0 y0 x1 n (i + 1)
        (fill_row (gradient_color color1 color2 i n) (i + y0) x0 x1 v) else v)"
  by pat_completeness auto
termination by (relation "measure (\<lambda>(color1, color2, x0, y0, x1, n, i, v). unat n - unat i)") (simp_all add: word_loop)

function gradient_columns :: "u32 \<Rightarrow> u32 \<Rightarrow> u16 \<Rightarrow> u16 \<Rightarrow> u16 \<Rightarrow> u16 \<Rightarrow> u16 \<Rightarrow> video \<Rightarrow> video" where
  "gradient_columns color1 color2 x0 y0 y1 n i v =
     (if i < n then gradient_columns color1 color2 x0 y0 y1 n (i + 1)
        (fill_column (gradient_color color1 color2 i n) (i + x0) y0 y1 v) else v)"
  by pat_completeness auto
termination by (relation "measure (\<lambda>(color1, color2, x0, y0, y1, n, i, v). unat n - unat i)") (simp_all add: word_loop)

definition fillGradient :: "u32 \<Rightarrow> u32 \<Rightarrow> u16 \<Rightarrow> u16 \<Rightarrow> u16 \<Rightarrow> u16 \<Rightarrow> bool \<Rightarrow> video \<Rightarrow> video" where
  "fillGradient color1 color2 x0 y0 x1 y1 hori v =
     (if hori then gradient_columns color1 color2 x0 y0 y1 (x1 - x0) 0 v
      else gradient_rows color1 color2 x0 y0 x1 (y1 - y0) 0 v)"

section \<open>Text\<close>

definition draw_row :: "u8 \<Rightarrow> u32 \<Rightarrow> u16 \<Rightarrow> u16 \<Rightarrow> video \<Rightarrow> video" where
  "draw_row bits color x y v =
     fold (\<lambda>k v. if BIT_TEST bits (7 - k) then drawPoint (x + of_nat k) y color v else v) [0..<8] v"

text \<open>The table ends after character 0x84; the code reads on past it.\<close>

definition drawChar :: "u8 \<Rightarrow> u32 \<Rightarrow> u16 \<Rightarrow> u16 \<Rightarrow> video \<Rightarrow> kerror + video" where
  "drawChar chr color x yn v =
     (if unat chr * 16 + 16 \<le> length font_ascii
      then Inr (fold (\<lambda>i. draw_row (font_ascii ! (unat chr * 16 + i)) color x (yn + of_nat i)) [0..<16] v)
      else Inl Bad_Index)"

text \<open>\<^verbatim>\<open>drawString\<close> on the characters of the string.\<close>

fun drawString :: "u8 list \<Rightarrow> u32 \<Rightarrow> u16 \<Rightarrow> u16 \<Rightarrow> video \<Rightarrow> kerror + video" where
  "drawString [] color x y v = Inr v"
| "drawString (c # s) color x y v =
     (if c = 13 then drawString s color 0 y v
      else if c = 10 then drawString s color x (y + 16) v
      else if c = 9 then drawString s color (x + 64) y v
      else if c = 8 then (if x = 0 then drawString s color (xRes v - 8) (y - 16) v else drawString s color (x - 8) y v)
      else if c = 12 then drawString s color 0 0 v
      else if c = 1 then drawString s color x (let y = y - 16 in if y < 24 then 24 else y) v
      else and_then (drawChar c color x y v) (\<lambda>v.
        let x = x + 8
        in if xRes v \<le> x then drawString s color (x - xRes v) (y + 16) v else drawString s color x y v))"

section \<open>The console\<close>

text \<open>
  The cursor is two signed 16-bit variables; \<open>s16\<close> is the conversion to that type. One character
  of the text, the \<^verbatim>\<open>switch\<close> and the adjustments after it.
\<close>

definition s16 :: "int \<Rightarrow> int" where
  "s16 = signed_take_bit 15"

definition console_switch :: "u8 \<Rightarrow> int \<Rightarrow> int \<Rightarrow> video \<Rightarrow> kerror + (int \<times> int \<times> video)" where
  "console_switch c x y v =
     (if c = 13 then Inr (4, y, v)
      else if c = 10 then Inr (x, s16 (y + 16), v)
      else if c = 9 then
        let x = s16 (x - (x - 4) smod 64 + 64)
        in if uint (xRes v) - x < 64 then Inr (4, s16 (y + 16), v) else Inr (x, y, v)
      else if c = 8 then Inr (s16 (x - 8), y, v)
      else if c = 12 then Inr (4, 28, fillRect 0x300A24 0 24 (xRes v) (yRes v) v)
      else if c = 1 then Inr (x, s16 (y - 16), v)
      else
        let v = fillRect 0x300A24 (word_of_int x) (word_of_int y) (word_of_int (x + 8)) (word_of_int (y + 16)) v
        in and_then (drawChar c 0xFFFFFF (word_of_int x) (word_of_int y) v) (\<lambda>v. Inr (s16 (x + 8), y, v)))"

definition console_wrap :: "int \<times> int \<times> video \<Rightarrow> int \<times> int \<times> video" where
  "console_wrap xyv =
     (let (x, y, v) = xyv;
          (x, y) =
            (if s16 (uint (xRes v) - 4) \<le> x then (s16 (x - (uint (xRes v) - 8)), s16 (y + 16))
             else if x < 4 then (s16 (x + (uint (xRes v) - 8)), s16 (y - 16))
             else (x, y));
          y = (if y < 28 then 28 else if uint (yRes v) - 16 < y then s16 (y - 16) else y)
      in (x, y, v))"

definition console_char :: "u8 \<Rightarrow> int \<times> int \<times> video \<Rightarrow> kerror + (int \<times> int \<times> video)" where
  "console_char c = (\<lambda>(x, y, v). and_then (console_switch c x y v) (\<lambda>s. Inr (console_wrap s)))"

fun console :: "u8 list \<Rightarrow> int \<times> int \<times> video \<Rightarrow> kerror + (int \<times> int \<times> video)" where
  "console [] s = Inr s"
| "console (c # cs) s = and_then (console_char c s) (console cs)"

text \<open>
  The status line with the free memory, drawn before the text of every frame. The array \<^verbatim>\<open>a\<close> that
  \<^verbatim>\<open>vsprintf\<close> fills has 12 bytes: a text that does not fit with its zero is an error here, for the
  code writes it over the variables next to \<^verbatim>\<open>a\<close>.
\<close>

definition status_args :: "u32 \<Rightarrow> nat \<Rightarrow> u32" where
  "status_args free i =
     (if i = 0 then free div 1024 div 1024 else if i = 1 then free mod (1024 * 1024) div 1024 else free mod 1024)"

definition status_text :: "u32 \<Rightarrow> kerror + fmt_state" where
  "status_text free =
     vsprintf \<lparr>args = status_args free, fbytes = (\<lambda>_. 0), buf_addr = 0, tmp_addr = 0\<rparr> ''%dMB%4dKB%4dBytes''"

definition draw_status :: "u32 \<Rightarrow> video \<Rightarrow> kerror + video" where
  "draw_status free v =
     and_then (status_text free) (\<lambda>t.
       if length (out t) < 12
       then drawString (map of_char (out t)) 0xFFFFFF 104 4 (fillGradient 0x5A574E 0x3F3E39 104 4 272 20 False v)
       else Inl Bad_Index)"

text \<open>What \<^verbatim>\<open>video_driver\<close> draws first, and one round of its loop on the text \<open>cs\<close>.\<close>

definition video_start :: "video \<Rightarrow> kerror + (int \<times> int \<times> video)" where
  "video_start v =
     (let v = fillGradient 0x5A574E 0x3F3E39 0 0 (xRes v) 24 False v;
          v = fillRect 0x300A24 0 24 (xRes v) (yRes v) v
      in and_then (drawString (map of_char ''Norlit OS'') 0xFFFFFF 6 4 v) (\<lambda>v. Inr (4, 28, v)))"

definition video_frame :: "u32 \<Rightarrow> u8 list \<Rightarrow> int \<times> int \<times> video \<Rightarrow> kerror + (int \<times> int \<times> video)" where
  "video_frame free cs = (\<lambda>(x, y, v). and_then (draw_status free v) (\<lambda>v. console cs (x, y, v)))"

section \<open>The text buffer\<close>

record text_buffer =
  tmem :: bytes
  pointer :: u32
  buffer :: u32



text \<open>The start of \<^verbatim>\<open>init_video\<close>: the text moves to the new buffer at \<open>new\<close>.\<close>

definition move_buffer :: "u32 \<Rightarrow> text_buffer \<Rightarrow> text_buffer option" where
  "move_buffer new s =
     map_option (\<lambda>m. let p = pointer s + (new - buffer s)
                     in s\<lparr>tmem := m(p := 0), pointer := p, buffer := new\<rparr>) (strcpy new (buffer s) (tmem s))"










section \<open>What drawing does to the screen\<close>

text \<open>
  A mode the routines work for: at least three bytes for each pixel, rows that do not overlap, and a
  frame buffer inside the address space.
\<close>

definition mode_ok :: "video \<Rightarrow> bool" where
  "mode_ok v \<longleftrightarrow> 3 \<le> unat (bpp v) \<and> unat (xRes v) * unat (bpp v) \<le> unat (bpl v) \<and> unat (yRes v) * unat (bpl v) < 2 ^ 32"

text \<open>The mode that \<^verbatim>\<open>init_video\<close> takes from the loader's \<^verbatim>\<open>VESAModeInfo\<close>.\<close>

record vesa_mode =
  bytesPerLine :: u16
  width :: u16
  height :: u16
  bitsPerPixel :: u8

definition set_mode :: "vesa_mode \<Rightarrow> video \<Rightarrow> video" where
  "set_mode currentMode v = v\<lparr>xRes := width currentMode, yRes := height currentMode,
     bpl := bytesPerLine currentMode, bpp := ucast (bitsPerPixel currentMode div 8)\<rparr>"

lemma set_mode_ok:
  assumes "24 \<le> bitsPerPixel m" "unat (width m) * (unat (bitsPerPixel m) div 8) \<le> unat (bytesPerLine m)"
  shows "mode_ok (set_mode m v)"
proof -
  have b: "unat (ucast (bitsPerPixel m div 8) :: u16) = unat (bitsPerPixel m) div 8"
  proof -
    have "unat (bitsPerPixel m div 8) < 2 ^ 8" using unsigned_less[of "bitsPerPixel m div 8", where ?'a = nat] by simp
    then show ?thesis by (simp add: unsigned_ucast_eq take_bit_nat_eq_self unat_div)
  qed
  have "unat (height m) * unat (bytesPerLine m) \<le> (2 ^ 16 - 1) * (2 ^ 16 - 1)"
    using unsigned_less[of "height m", where ?'a = nat] unsigned_less[of "bytesPerLine m", where ?'a = nat]
    by (intro mult_le_mono) simp_all
  then have "unat (height m) * unat (bytesPerLine m) < 2 ^ 32" by simp
  moreover have "3 \<le> unat (bitsPerPixel m) div 8" using assms(1) by (simp add: word_le_nat_alt)
  ultimately show ?thesis using assms(2) by (simp add: mode_ok_def set_mode_def b)
qed

definition same_mode :: "video \<Rightarrow> video \<Rightarrow> bool" where
  "same_mode v v' \<longleftrightarrow> xRes v' = xRes v \<and> yRes v' = yRes v \<and> bpl v' = bpl v \<and> bpp v' = bpp v"

definition pixel_addr :: "video \<Rightarrow> nat \<Rightarrow> nat \<Rightarrow> nat" where
  "pixel_addr v x y = y * unat (bpl v) + x * unat (bpp v)"

text \<open>The three colour bytes of a pixel, as the low 24 bits of a colour.\<close>

definition pixel :: "video \<Rightarrow> nat \<Rightarrow> nat \<Rightarrow> u8 \<times> u8 \<times> u8" where
  "pixel v x y = (let a = of_nat (pixel_addr v x y) in (vmem v a, vmem v (a + 1), vmem v (a + 2)))"

definition rgb_bytes :: "u32 \<Rightarrow> u8 \<times> u8 \<times> u8" where
  "rgb_bytes c = (ucast c, ucast (drop_bit 8 c), ucast (drop_bit 16 c))"

text \<open>
  The effect of a drawing operation: the pixels where \<open>P\<close> gives a colour get it, the others and the
  memory outside the frame buffer stay.
\<close>

definition painted :: "(nat \<Rightarrow> nat \<Rightarrow> u32 option) \<Rightarrow> video \<Rightarrow> video \<Rightarrow> bool" where
  "painted P v v' \<longleftrightarrow> same_mode v v' \<and>
     (\<forall>x < unat (xRes v). \<forall>y < unat (yRes v).
        pixel v' x y = (case P x y of None \<Rightarrow> pixel v x y | Some c \<Rightarrow> rgb_bytes c)) \<and>
     (\<forall>a. unat (yRes v) * unat (bpl v) \<le> unat a \<longrightarrow> vmem v' a = vmem v a)"

definition over :: "(nat \<Rightarrow> nat \<Rightarrow> u32 option) \<Rightarrow> (nat \<Rightarrow> nat \<Rightarrow> u32 option) \<Rightarrow> nat \<Rightarrow> nat \<Rightarrow> u32 option" where
  "over Q P = (\<lambda>x y. case Q x y of None \<Rightarrow> P x y | Some c \<Rightarrow> Some c)"

definition nothing :: "nat \<Rightarrow> nat \<Rightarrow> u32 option" where
  "nothing = (\<lambda>x y. None)"

definition box :: "u32 \<Rightarrow> nat \<Rightarrow> nat \<Rightarrow> nat \<Rightarrow> nat \<Rightarrow> nat \<Rightarrow> nat \<Rightarrow> u32 option" where
  "box c x0 y0 x1 y1 = (\<lambda>x y. if x0 \<le> x \<and> x < x1 \<and> y0 \<le> y \<and> y < y1 then Some c else None)"

lemma painted_refl: "painted nothing v v"
  by (simp add: painted_def same_mode_def nothing_def)

lemma painted_mode: "painted P v v' \<Longrightarrow> mode_ok v \<Longrightarrow> mode_ok v'"
  by (simp add: painted_def mode_ok_def same_mode_def)

lemma painted_same: "painted P v v' \<Longrightarrow> same_mode v v'"
  by (simp add: painted_def)

lemma painted_trans: "painted P v v' \<Longrightarrow> painted Q v' v'' \<Longrightarrow> painted (over Q P) v v''"
  unfolding painted_def same_mode_def over_def by (auto split: option.splits)

lemma painted_cong: "painted P v v' \<Longrightarrow> (\<And>x y. x < unat (xRes v) \<Longrightarrow> y < unat (yRes v) \<Longrightarrow> P x y = Q x y) \<Longrightarrow> painted Q v v'"
  by (auto simp: painted_def split: option.splits)

lemma pixel_addr_bound:
  assumes "mode_ok v" "x < unat (xRes v)" "y < unat (yRes v)"
  shows "pixel_addr v x y + 3 \<le> unat (yRes v) * unat (bpl v)"
proof -
  have "(x + 1) * unat (bpp v) \<le> unat (xRes v) * unat (bpp v)" using assms(2) by (intro mult_le_mono1) simp
  then have "x * unat (bpp v) + 3 \<le> unat (bpl v)" using assms(1) by (simp add: mode_ok_def)
  moreover have "(y + 1) * unat (bpl v) \<le> unat (yRes v) * unat (bpl v)" using assms(3) by (intro mult_le_mono1) simp
  ultimately show ?thesis by (simp add: pixel_addr_def)
qed

lemma pixel_addr_apart:
  assumes ok: "mode_ok v" and x: "x < unat (xRes v)" "x' < unat (xRes v)" and ne: "(x, y) \<noteq> (x', y')"
  shows "pixel_addr v x y + 3 \<le> pixel_addr v x' y' \<or> pixel_addr v x' y' + 3 \<le> pixel_addr v x y"
proof -
  have row: "pixel_addr v a b + 3 \<le> pixel_addr v a' b'" if "a < unat (xRes v)" "b < b'" for a b a' b'
  proof -
    have "(a + 1) * unat (bpp v) \<le> unat (xRes v) * unat (bpp v)" using that by (intro mult_le_mono1) simp
    then have "a * unat (bpp v) + 3 \<le> unat (bpl v)" using ok by (simp add: mode_ok_def)
    moreover have "(b + 1) * unat (bpl v) \<le> b' * unat (bpl v)" using that by (intro mult_le_mono1) simp
    ultimately show ?thesis by (simp add: pixel_addr_def)
  qed
  have col: "pixel_addr v a b + 3 \<le> pixel_addr v a' b" if "a < a'" for a a' b
  proof -
    have "(a + 1) * unat (bpp v) \<le> a' * unat (bpp v)" using that by (intro mult_le_mono1) simp
    then show ?thesis using ok by (simp add: pixel_addr_def mode_ok_def)
  qed
  show ?thesis using row[of x y y' x'] row[of x' y' y x] col[of x x' y] col[of x' x y] x ne
    by (cases y y' rule: linorder_cases; cases x x' rule: linorder_cases) auto
qed

lemma of_nat_unat_ucast: "(of_nat (unat w) :: 'b::len word) = ucast w" for w :: "'a::len word"
  by transfer simp

lemma drawPoint_painted:
  assumes ok: "mode_ok v" and x: "unat x < unat (xRes v)" and y: "unat y < unat (yRes v)"
  shows "painted (\<lambda>px py. if px = unat x \<and> py = unat y then Some c else None) v (drawPoint x y c v)"
proof -
  define a where "a = pixel_addr v (unat x) (unat y)"
  have b: "a + 3 \<le> unat (yRes v) * unat (bpl v)" using pixel_addr_bound[OF ok x y] by (simp add: a_def)
  have lim: "unat (yRes v) * unat (bpl v) < 2 ^ 32" using ok by (simp add: mode_ok_def)
  have pos: "ucast y * ucast (bpl v) + ucast x * ucast (bpp v) = (of_nat a :: u32)"
    by (simp add: a_def pixel_addr_def of_nat_unat_ucast)
  have ua: "unat (of_nat n :: u32) = n" if "n < 2 ^ 32" for n using that by (intro unat_of_nat_small) simp
  have v': "vmem (drawPoint x y c v) = (vmem v)(of_nat a := ucast c, of_nat a + 1 := ucast (drop_bit 8 c), of_nat a + 2 := ucast (drop_bit 16 c))"
    by (simp add: drawPoint_def Let_def pos)
  have m: "same_mode v (drawPoint x y c v)" by (simp add: same_mode_def drawPoint_def Let_def)
  have far: "vmem (drawPoint x y c v) (of_nat n) = vmem v (of_nat n)" if "n < 2 ^ 32" "n < a \<or> a + 3 \<le> n" for n
  proof -
    have "(of_nat n :: u32) \<noteq> of_nat (a + k)" if "k < 3" for k
    proof
      assume "(of_nat n :: u32) = of_nat (a + k)"
      moreover have "a + k < 2 ^ 32" "n \<noteq> a + k" using \<open>k < 3\<close> \<open>n < a \<or> a + 3 \<le> n\<close> b lim by auto
      ultimately show False using ua[OF \<open>n < 2 ^ 32\<close>] ua[of "a + k"] by metis
    qed
    from this[of 0] this[of 1] this[of 2] show ?thesis by (simp add: v' add.commute)
  qed
  have "pixel (drawPoint x y c v) px py = (if px = unat x \<and> py = unat y then rgb_bytes c else pixel v px py)"
    if p: "px < unat (xRes v)" "py < unat (yRes v)" for px py
  proof (cases "(px, py) = (unat x, unat y)")
    case True
    have "(of_nat a :: u32) \<noteq> of_nat a + 1" "(of_nat a :: u32) \<noteq> of_nat a + 2" "(of_nat a :: u32) + 1 \<noteq> of_nat a + 2" by simp_all
    then show ?thesis using True m
      by (simp add: pixel_def v' rgb_bytes_def pixel_addr_def a_def[unfolded pixel_addr_def, symmetric] same_mode_def)
  next
    case False
    define n where "n = pixel_addr v px py"
    have "n + 3 \<le> a \<or> a + 3 \<le> n" using pixel_addr_apart[OF ok p(1) x] False unfolding a_def n_def by blast
    moreover have "n + 3 < 2 ^ 32" using pixel_addr_bound[OF ok p] lim by (simp add: n_def)
    ultimately have "vmem (drawPoint x y c v) (of_nat (n + k)) = vmem v (of_nat (n + k))" if "k < 3" for k
      using that by (intro far) auto
    from this[of 0] this[of 1] this[of 2]
    have "vmem (drawPoint x y c v) (of_nat n) = vmem v (of_nat n)" "vmem (drawPoint x y c v) (of_nat n + 1) = vmem v (of_nat n + 1)"
      "vmem (drawPoint x y c v) (of_nat n + 2) = vmem v (of_nat n + 2)" by (simp_all add: add.commute)
    moreover have "pixel_addr (drawPoint x y c v) px py = n" using m by (simp add: n_def pixel_addr_def same_mode_def)
    ultimately have "pixel (drawPoint x y c v) px py = pixel v px py"
      by (simp add: pixel_def Let_def n_def[symmetric])
    then show ?thesis using False by auto
  qed
  moreover have "vmem (drawPoint x y c v) w = vmem v w" if "unat (yRes v) * unat (bpl v) \<le> unat w" for w
    using far[of "unat w"] that b unsigned_less[of w, where 'a = nat] by simp
  ultimately show ?thesis using m by (simp add: painted_def)
qed


lemma unat_Suc16: "x < n \<Longrightarrow> unat (x + 1) = unat x + 1" for x n :: u16
proof -
  assume "x < n"
  then have "unat x + 1 \<le> unat n" by (simp add: word_less_nat_alt)
  then have "unat x + 1 < 2 ^ LENGTH(16)" by (rule le_less_trans) (rule unsigned_less)
  then show ?thesis by (subst unat_plus_small) auto
qed

declare fill_row.simps [simp del] fillRect.simps [simp del] fill_column.simps [simp del]
  gradient_rows.simps [simp del] gradient_columns.simps [simp del]

lemma fill_row_painted:
  assumes "mode_ok v" "unat x1 \<le> unat (xRes v)" "unat y < unat (yRes v)"
  shows "painted (box c (unat x) (unat y) (unat x1) (unat y + 1)) v (fill_row c y x x1 v)"
  using assms
proof (induction c y x x1 v rule: fill_row.induct)
  case (1 c y x x1 v)
  show ?case
  proof (cases "x < x1")
    case True
    then have lt: "unat x < unat x1" by (simp add: word_less_nat_alt)
    let ?v = "drawPoint x y c v"
    have p: "painted (\<lambda>px py. if px = unat x \<and> py = unat y then Some c else None) v ?v"
      using 1(2-4) lt by (intro drawPoint_painted) auto
    note m = painted_same[OF p, unfolded same_mode_def] painted_mode[OF p 1(2)]
    have q: "painted (box c (unat x + 1) (unat y) (unat x1) (unat y + 1)) ?v (fill_row c y (x + 1) x1 ?v)"
      using 1(1)[OF True m(2)] 1(3,4) m(1) unat_Suc16[OF True] by simp
    show ?thesis using painted_trans[OF p q] True
      by (subst fill_row.simps) (auto elim!: painted_cong simp: over_def box_def lt)
  next
    case False
    then show ?thesis using painted_refl[of v]
      by (subst fill_row.simps) (auto elim!: painted_cong simp: nothing_def box_def word_less_nat_alt)
  qed
qed

lemma fillRect_painted:
  assumes "mode_ok v" "unat x1 \<le> unat (xRes v)" "unat y1 \<le> unat (yRes v)"
  shows "painted (box c (unat x0) (unat y0) (unat x1) (unat y1)) v (fillRect c x0 y0 x1 y1 v)"
  using assms
proof (induction c x0 y0 x1 y1 v rule: fillRect.induct)
  case (1 c x0 y x1 y1 v)
  show ?case
  proof (cases "y < y1")
    case True
    then have lt: "unat y < unat y1" by (simp add: word_less_nat_alt)
    let ?v = "fill_row c y x0 x1 v"
    have p: "painted (box c (unat x0) (unat y) (unat x1) (unat y + 1)) v ?v"
      using 1(2-4) lt by (intro fill_row_painted) auto
    note m = painted_same[OF p, unfolded same_mode_def] painted_mode[OF p 1(2)]
    have q: "painted (box c (unat x0) (unat y + 1) (unat x1) (unat y1)) ?v (fillRect c x0 (y + 1) x1 y1 ?v)"
      using 1(1)[OF True m(2)] 1(3,4) m(1) unat_Suc16[OF True] by simp
    show ?thesis using painted_trans[OF p q] True
      by (subst fillRect.simps) (use lt in \<open>auto elim!: painted_cong simp: over_def box_def\<close>)
  next
    case False
    then show ?thesis using painted_refl[of v]
      by (subst fillRect.simps) (auto elim!: painted_cong simp: nothing_def box_def word_less_nat_alt)
  qed
qed

text \<open>The glyph of a character in the cell at \<open>(x0, y0)\<close>.\<close>

definition glyph_bit :: "u8 \<Rightarrow> nat \<Rightarrow> nat \<Rightarrow> bool" where
  "glyph_bit chr i j \<longleftrightarrow> bit (font_ascii ! (unat chr * 16 + j)) (7 - i)"

definition row_bits :: "u8 \<Rightarrow> u32 \<Rightarrow> nat \<Rightarrow> nat \<Rightarrow> nat \<Rightarrow> nat \<Rightarrow> nat \<Rightarrow> u32 option" where
  "row_bits b c x0 y0 n = (\<lambda>x y. if x0 \<le> x \<and> x < x0 + n \<and> y = y0 \<and> bit b (7 - (x - x0)) then Some c else None)"

lemma draw_row_painted:
  assumes "mode_ok v" "unat x + 8 \<le> unat (xRes v)" "unat y < unat (yRes v)"
  shows "painted (row_bits b c (unat x) (unat y) 8) v (draw_row b c x y v)"
proof -
  have "painted (row_bits b c (unat x) (unat y) n) v
      (fold (\<lambda>k v. if BIT_TEST b (7 - k) then drawPoint (x + of_nat k) y c v else v) [0..<n] v)" if "n \<le> 8" for n
    using that
  proof (induction n)
    case 0
    then show ?case using painted_refl[of v] by (auto elim!: painted_cong simp: nothing_def row_bits_def)
  next
    case (Suc n)
    let ?v = "fold (\<lambda>k v. if BIT_TEST b (7 - k) then drawPoint (x + of_nat k) y c v else v) [0..<n] v"
    have p: "painted (row_bits b c (unat x) (unat y) n) v ?v" using Suc by simp
    note m = painted_same[OF p, unfolded same_mode_def] painted_mode[OF p assms(1)]
    have u: "unat (x + of_nat n) = unat x + n"
    proof -
      have "unat x + n < 2 ^ LENGTH(16)"
        using Suc.prems assms(2) unsigned_less[of "xRes v", where 'a = nat] by simp
      then show ?thesis using Suc.prems by (subst unat_plus_small) (simp_all add: unat_of_nat_small)
    qed
    have q: "painted (\<lambda>px py. if px = unat x + n \<and> py = unat y then Some c else None) ?v (drawPoint (x + of_nat n) y c ?v)"
      using drawPoint_painted[OF m(2), of "x + of_nat n" y c] m(1) assms(2,3) Suc.prems u by simp
    show ?case
    proof (cases "BIT_TEST b (7 - n)")
      case True
      then show ?thesis using painted_trans[OF p q]
        by (auto elim!: painted_cong simp: over_def row_bits_def BIT_TEST_bit less_Suc_eq)
    next
      case False
      then show ?thesis using p
        by (auto elim!: painted_cong simp: row_bits_def BIT_TEST_bit less_Suc_eq)
    qed
  qed
  from this[of 8] show ?thesis by (simp add: draw_row_def)
qed

definition glyph :: "u8 \<Rightarrow> u32 \<Rightarrow> nat \<Rightarrow> nat \<Rightarrow> nat \<Rightarrow> nat \<Rightarrow> nat \<Rightarrow> u32 option" where
  "glyph chr c x0 y0 n = (\<lambda>x y. if x0 \<le> x \<and> x < x0 + 8 \<and> y0 \<le> y \<and> y < y0 + n \<and> glyph_bit chr (x - x0) (y - y0) then Some c else None)"

lemma drawChar_painted:
  assumes "mode_ok v" "unat x + 8 \<le> unat (xRes v)" "unat y + 16 \<le> unat (yRes v)" "chr < 0x85"
  shows "\<exists>v'. drawChar chr c x y v = Inr v' \<and> painted (glyph chr c (unat x) (unat y) 16) v v'"
proof -
  let ?f = "\<lambda>i. draw_row (font_ascii ! (unat chr * 16 + i)) c x (y + of_nat i)"
  have "painted (glyph chr c (unat x) (unat y) n) v (fold ?f [0..<n] v)" if "n \<le> 16" for n
    using that
  proof (induction n)
    case 0
    then show ?case using painted_refl[of v] by (auto elim!: painted_cong simp: nothing_def glyph_def)
  next
    case (Suc n)
    have p: "painted (glyph chr c (unat x) (unat y) n) v (fold ?f [0..<n] v)" using Suc by simp
    note m = painted_same[OF p, unfolded same_mode_def] painted_mode[OF p assms(1)]
    have u: "unat (y + of_nat n) = unat y + n"
    proof -
      have "unat y + n < 2 ^ LENGTH(16)"
        using Suc.prems assms(3) unsigned_less[of "yRes v", where 'a = nat] by simp
      then show ?thesis using Suc.prems by (subst unat_plus_small) (simp_all add: unat_of_nat_small)
    qed
    have q: "painted (row_bits (font_ascii ! (unat chr * 16 + n)) c (unat x) (unat y + n) 8) (fold ?f [0..<n] v) (?f n (fold ?f [0..<n] v))"
      using draw_row_painted[OF m(2), of x "y + of_nat n"] m(1) assms(2,3) Suc.prems u by simp
    show ?case using painted_trans[OF p q]
      by (auto elim!: painted_cong simp: over_def row_bits_def glyph_def glyph_bit_def less_Suc_eq)
  qed
  from this[of 16] show ?thesis
    using assms(4) by (simp add: drawChar_def font_ascii_length word_less_nat_alt)
qed

section \<open>The console\<close>

text \<open>
  A screen the console works on, and the positions of its cursor: on the grid of cells, inside the
  text area below the status bar.
\<close>

definition screen_ok :: "video \<Rightarrow> bool" where
  "screen_ok v \<longleftrightarrow> mode_ok v \<and> 8 dvd uint (xRes v) \<and> 80 \<le> uint (xRes v) \<and> uint (xRes v) \<le> 32000 \<and>
     44 \<le> uint (yRes v) \<and> uint (yRes v) \<le> 32000"

definition cursor_ok :: "video \<Rightarrow> int \<Rightarrow> int \<Rightarrow> bool" where
  "cursor_ok v x y \<longleftrightarrow> 4 \<le> x \<and> x < uint (xRes v) - 4 \<and> 8 dvd (x - 4) \<and> 28 \<le> y \<and> y \<le> uint (yRes v) - 16"

definition control :: "u8 \<Rightarrow> bool" where
  "control c \<longleftrightarrow> c \<in> {13, 10, 9, 8, 12, 1}"

text \<open>What a character paints with the cursor at \<open>(x, y)\<close>.\<close>

definition char_paint :: "video \<Rightarrow> u8 \<Rightarrow> nat \<Rightarrow> nat \<Rightarrow> nat \<Rightarrow> nat \<Rightarrow> u32 option" where
  "char_paint v c x y =
     (if c = 12 then box 0x300A24 0 24 (unat (xRes v)) (unat (yRes v))
      else if control c then nothing
      else over (glyph c 0xFFFFFF x y 16) (box 0x300A24 x y (x + 8) (y + 16)))"

lemma s16_small: "- 32768 \<le> z \<Longrightarrow> z \<le> 32767 \<Longrightarrow> s16 z = z"
  by (simp add: s16_def signed_take_bit_int_eq_self)

lemma uint_unat16: "uint w = int (unat w)" for w :: u16
  by simp

lemma cursor_words:
  assumes "screen_ok v" "cursor_ok v x y"
  shows "unat (word_of_int x :: u16) = nat x" "unat (word_of_int y :: u16) = nat y"
    "unat (word_of_int (x + 8) :: u16) = nat x + 8" "unat (word_of_int (y + 16) :: u16) = nat y + 16"
    "nat x + 8 \<le> unat (xRes v)" "nat y + 16 \<le> unat (yRes v)"
proof -
  have u: "unat (word_of_int z :: u16) = nat z" if "0 \<le> z" "z < 65536" for z
  proof -
    have "word_of_int z = (of_nat (nat z) :: u16)" using that by simp
    then show ?thesis using that by (simp only:) (intro unat_of_nat_small, simp)
  qed
  obtain k where k: "x - 4 = 8 * k" using assms(2) unfolding cursor_ok_def by (elim conjE dvdE)
  obtain m where m: "uint (xRes v) = 8 * m" using assms(1) unfolding screen_ok_def by (elim conjE dvdE)
  have b: "4 \<le> x" "28 \<le> y" "x < uint (xRes v) - 4" "y + 16 \<le> uint (yRes v)" "uint (xRes v) \<le> 32000" "uint (yRes v) \<le> 32000"
    using assms by (auto simp: cursor_ok_def screen_ok_def)
  have x: "x + 8 \<le> uint (xRes v)" using k m b(3) by presburger
  have X: "x < 65536" and Y: "y < 65536" "y + 16 < 65536" "x + 8 < 65536" using b x by linarith+
  show "unat (word_of_int x :: u16) = nat x" by (rule u) (use b X in simp_all)
  show "unat (word_of_int y :: u16) = nat y" by (rule u) (use b Y in simp_all)
  have "nat (x + 8) = nat x + 8" "nat (y + 16) = nat y + 16" using b by simp_all
  then show "unat (word_of_int (x + 8) :: u16) = nat x + 8" "unat (word_of_int (y + 16) :: u16) = nat y + 16"
    using u[of "x + 8"] u[of "y + 16"] b Y by linarith+
  show "nat x + 8 \<le> unat (xRes v)" using x b(1) uint_unat16[of "xRes v"] by linarith
  show "nat y + 16 \<le> unat (yRes v)" using b(2,4) uint_unat16[of "yRes v"] by linarith
qed

lemma console_switch_ok:
  assumes ok: "screen_ok v" "cursor_ok v x y" and c: "c < 0x85"
  shows "\<exists>x' y' v'. console_switch c x y v = Inr (x', y', v') \<and> painted (char_paint v c (nat x) (nat y)) v v' \<and>
    8 dvd (x' - 4) \<and> - 4 \<le> x' \<and> x' \<le> uint (xRes v) - 4 \<and>
    y' \<in> {y - 16, y, y + 16, 28} \<and> (x' < 4 \<or> x' = uint (xRes v) - 4 \<longrightarrow> y' = y) \<and>
    (\<not> control c \<longrightarrow> x' = x + 8 \<and> y' = y)"
proof -
  define W where "W = uint (xRes v)"
  define H where "H = uint (yRes v)"
  have W: "uint (xRes v) = W" by (simp add: W_def)
  have m: "mode_ok v" using ok(1) by (simp add: screen_ok_def)
  obtain k where k: "x - 4 = 8 * k" using ok(2) unfolding cursor_ok_def by (elim conjE dvdE)
  obtain n where n: "W = 8 * n" using ok(1) unfolding screen_ok_def W_def by (elim conjE dvdE)
  have b: "4 \<le> x" "x < W - 4" "28 \<le> y" "y \<le> H - 16" "W \<le> 32000" "H \<le> 32000" "80 \<le> W" "44 \<le> H"
    using ok by (auto simp: cursor_ok_def screen_ok_def W_def H_def)
  have x8: "x + 8 \<le> W - 4" using k n b(2) by presburger
  have k0: "0 \<le> k" using k b(1) by simp
  have d12: "8 dvd x - 12" using k by (intro dvdI[of _ _ "k - 1"]) simp
  note cw = cursor_words[OF ok]
  have s: "s16 (x + 8) = x + 8" "s16 (x - 8) = x - 8" "s16 (y + 16) = y + 16" "s16 (y - 16) = y - 16"
    using b by (simp_all add: s16_small)
  consider "c = 13" | "c = 10" | "c = 9" | "c = 8" | "c = 12" | "c = 1" | "\<not> control c" by (auto simp: control_def)
  then show ?thesis
  proof cases
    case 3
    let ?t = "x - (x - 4) smod 64 + 64"
    have sm: "(x - 4) smod 64 = 8 * (k mod 8)" using k k0 mult_mod_right[of 8 k 8] by (simp add: signed_modulo_int_def sgn_if)
    define r where "r = k mod 8"
    have kb: "0 \<le> r" "r < 8" "r \<le> k" using k0 by (auto simp: r_def zmod_le_nonneg_dividend)
    have t: "?t = 4 + 8 * (k - r + 8)" unfolding sm r_def[symmetric] using k by simp
    have ts: "s16 ?t = ?t" unfolding t using b k kb by (intro s16_small) auto
    have pt: "painted (char_paint v c (nat x) (nat y)) v v" using 3 painted_refl by (simp add: char_paint_def control_def)
    show ?thesis
    proof (cases "W - ?t < 64")
      case True
      then have "console_switch c x y v = Inr (4, y + 16, v)" using 3 ts s W by (simp add: console_switch_def Let_def)
      then show ?thesis using pt b 3 by (intro exI[of _ 4] exI[of _ "y + 16"] exI[of _ v]) (simp add: W_def[symmetric] H_def[symmetric] control_def)
    next
      case False
      then have "console_switch c x y v = Inr (?t, y, v)" using 3 ts W by (simp add: console_switch_def Let_def)
      moreover have "8 dvd ?t - 4" unfolding t by simp
      moreover have "4 \<le> ?t" unfolding t using kb by simp
      ultimately show ?thesis using pt b 3 False
        by (intro exI[of _ ?t] exI[of _ y] exI[of _ v]) (simp add: W_def[symmetric] H_def[symmetric] control_def)
    qed
  next
    case 5
    have "painted (char_paint v c (nat x) (nat y)) v (fillRect 0x300A24 0 24 (xRes v) (yRes v) v)"
      using fillRect_painted[OF m order_refl order_refl, of "0x300A24" 0 24] 5 by (simp add: char_paint_def)
    then show ?thesis using 5 b by (simp add: console_switch_def W_def[symmetric] H_def[symmetric] control_def)
  next
    case 7
    let ?v = "fillRect 0x300A24 (word_of_int x) (word_of_int y) (word_of_int (x + 8)) (word_of_int (y + 16)) v"
    have p: "painted (box 0x300A24 (nat x) (nat y) (nat x + 8) (nat y + 16)) v ?v"
      using fillRect_painted[OF m, of "word_of_int (x + 8)" "word_of_int (y + 16)" "0x300A24" "word_of_int x" "word_of_int y"] cw by simp
    note pm = painted_same[OF p, unfolded same_mode_def] painted_mode[OF p m]
    obtain v' where v': "drawChar c 0xFFFFFF (word_of_int x) (word_of_int y) ?v = Inr v'"
        "painted (glyph c 0xFFFFFF (nat x) (nat y) 16) ?v v'"
      using drawChar_painted[OF pm(2), of "word_of_int x" "word_of_int y" c "0xFFFFFF"] pm(1) cw c by auto
    have "painted (char_paint v c (nat x) (nat y)) v v'"
      using painted_trans[OF p v'(2)] 7 by (auto simp: char_paint_def control_def)
    moreover have "console_switch c x y v = Inr (x + 8, y, v')"
      using 7 v'(1) s by (simp add: console_switch_def control_def and_then_def)
    moreover have "8 dvd x + 8 - 4" using k by (intro dvdI[of _ _ "k + 1"]) simp
    ultimately show ?thesis using b x8
      by (intro exI[of _ "x + 8"] exI[of _ y] exI[of _ v']) (simp add: W_def[symmetric] H_def[symmetric])
  qed (use painted_refl[of v] b s k ok(2) d12 in \<open>auto simp: console_switch_def char_paint_def control_def cursor_ok_def W_def[symmetric] H_def[symmetric]\<close>)
qed

lemma console_wrap_ok:
  assumes ok: "screen_ok v" "cursor_ok v x y"
    and x': "8 dvd (x' - 4)" "- 4 \<le> x'" "x' \<le> uint (xRes v) - 4"
    and y': "y' \<in> {y - 16, y, y + 16, 28}" "x' < 4 \<or> x' = uint (xRes v) - 4 \<longrightarrow> y' = y"
    and m: "same_mode v v'"
  shows "\<exists>x'' y''. console_wrap (x', y', v') = (x'', y'', v') \<and> cursor_ok v' x'' y'' \<and>
    (x'' = (if x' = uint (xRes v) - 4 then 4 else if x' < 4 then uint (xRes v) - 12 else x')) \<and>
    (x' = uint (xRes v) - 4 \<longrightarrow> y'' = (if uint (yRes v) - 16 < y + 16 then y else y + 16)) \<and>
    (4 \<le> x' \<and> x' < uint (xRes v) - 4 \<and> 28 \<le> y' \<and> y' \<le> uint (yRes v) - 16 \<longrightarrow> y'' = y')"
proof -
  define W where "W = uint (xRes v)"
  define H where "H = uint (yRes v)"
  have v': "uint (xRes v') = W" "uint (yRes v') = H" using m by (simp_all add: same_mode_def W_def H_def)
  have b: "28 \<le> y" "y \<le> H - 16" "W \<le> 32000" "H \<le> 32000" "80 \<le> W" "44 \<le> H"
    using ok by (auto simp: cursor_ok_def screen_ok_def W_def H_def)
  obtain k where k: "x' - 4 = 8 * k" using x'(1) ..
  obtain n where n: "W = 8 * n" using ok(1) unfolding screen_ok_def W_def by (elim conjE dvdE)
  have s: "s16 (W - 4) = W - 4" "s16 (x' - (W - 8)) = x' - (W - 8)" "s16 (y + 16) = y + 16" "s16 (y - 16) = y - 16" "s16 (y' - 16) = y' - 16"
    "s16 (W - 12) = W - 12" "s16 y = y"
    using b x' y'(1) unfolding W_def[symmetric] H_def[symmetric] by (auto simp: s16_small)
  consider (right) "x' = W - 4" | (left) "x' < 4" | (mid) "4 \<le> x'" "x' < W - 4"
    using x'(3) unfolding W_def[symmetric] by linarith
  then show ?thesis
  proof cases
    case right
    then have "y' = y" using y'(2) by (simp add: W_def)
    then show ?thesis using right b s v' unfolding cursor_ok_def W_def[symmetric] H_def[symmetric] v'
      by (simp add: console_wrap_def Let_def v')
  next
    case left
    then have "y' = y" using y'(2) by simp
    have "k = - 1" using k x'(2) left by presburger
    then have x4: "x' = - 4" using k by simp
    have "8 dvd W - 16" unfolding n by (intro dvdI[of _ _ "n - 2"]) simp
    then show ?thesis using x4 \<open>y' = y\<close> b s v' unfolding cursor_ok_def W_def[symmetric] H_def[symmetric] v'
      by (simp add: console_wrap_def Let_def v')
  next
    case mid
    then show ?thesis using b s v' x'(1) y'(1) unfolding cursor_ok_def W_def[symmetric] H_def[symmetric] v'
      by (auto simp: console_wrap_def Let_def v')
  qed
qed

lemma console_char_ok:
  assumes ok: "screen_ok v" "cursor_ok v x y" and c: "c < 0x85"
  shows "\<exists>x' y' v'. console_char c (x, y, v) = Inr (x', y', v') \<and> painted (char_paint v c (nat x) (nat y)) v v' \<and>
    cursor_ok v' x' y' \<and>
    (\<not> control c \<longrightarrow> (x', y') = (if x + 8 < uint (xRes v) - 4 then (x + 8, y)
        else (4, if uint (yRes v) - 16 < y + 16 then y else y + 16)))"
proof -
  obtain x1 y1 v1 where s: "console_switch c x y v = Inr (x1, y1, v1)" "painted (char_paint v c (nat x) (nat y)) v v1"
    and x1: "8 dvd (x1 - 4)" "- 4 \<le> x1" "x1 \<le> uint (xRes v) - 4"
    and y1: "y1 \<in> {y - 16, y, y + 16, 28}" "x1 < 4 \<or> x1 = uint (xRes v) - 4 \<longrightarrow> y1 = y"
    and pr: "\<not> control c \<longrightarrow> x1 = x + 8 \<and> y1 = y"
    using console_switch_ok[OF ok c] by blast
  obtain x2 y2 where w: "console_wrap (x1, y1, v1) = (x2, y2, v1)" "cursor_ok v1 x2 y2"
    "x2 = (if x1 = uint (xRes v) - 4 then 4 else if x1 < 4 then uint (xRes v) - 12 else x1)"
    "x1 = uint (xRes v) - 4 \<longrightarrow> y2 = (if uint (yRes v) - 16 < y + 16 then y else y + 16)"
    "4 \<le> x1 \<and> x1 < uint (xRes v) - 4 \<and> 28 \<le> y1 \<and> y1 \<le> uint (yRes v) - 16 \<longrightarrow> y2 = y1"
    using console_wrap_ok[OF ok x1 y1 painted_same[OF s(2)]] by blast
  have "console_char c (x, y, v) = Inr (x2, y2, v1)" by (simp add: console_char_def s(1) w(1))
  moreover have "(x2, y2) = (if x + 8 < uint (xRes v) - 4 then (x + 8, y)
        else (4, if uint (yRes v) - 16 < y + 16 then y else y + 16))" if "\<not> control c"
  proof (cases "x + 8 < uint (xRes v) - 4")
    case True
    then show ?thesis using pr that w(3,5) ok(2) by (simp add: cursor_ok_def)
  next
    case False
    then have "x1 = uint (xRes v) - 4" using pr that x1(3) by auto
    then show ?thesis using False w(3,4) by simp
  qed
  ultimately show ?thesis using s(2) w(2) by (intro exI[of _ x2] exI[of _ y2] exI[of _ v1]) simp
qed

text \<open>A drawing operation that changes pixels of the area \<open>R\<close> only.\<close>

definition touches :: "(nat \<Rightarrow> nat \<Rightarrow> bool) \<Rightarrow> video \<Rightarrow> video \<Rightarrow> bool" where
  "touches R v v' \<longleftrightarrow> same_mode v v' \<and>
     (\<forall>x < unat (xRes v). \<forall>y < unat (yRes v). \<not> R x y \<longrightarrow> pixel v' x y = pixel v x y) \<and>
     (\<forall>a. unat (yRes v) * unat (bpl v) \<le> unat a \<longrightarrow> vmem v' a = vmem v a)"

lemma painted_touches: "painted P v v' \<Longrightarrow> (\<And>x y. P x y \<noteq> None \<Longrightarrow> R x y) \<Longrightarrow> touches R v v'"
  unfolding painted_def touches_def by (metis option.case_eq_if)

lemma touches_refl: "touches R v v"
  by (simp add: touches_def same_mode_def)

lemma touches_trans: "touches R v v' \<Longrightarrow> touches R v' v'' \<Longrightarrow> touches R v v''"
  by (auto simp: touches_def same_mode_def)

lemma touches_mono: "touches R v v' \<Longrightarrow> (\<And>x y. R x y \<Longrightarrow> Q x y) \<Longrightarrow> touches Q v v'"
  by (auto simp: touches_def)

lemma touches_same: "touches R v v' \<Longrightarrow> same_mode v v'"
  by (simp add: touches_def)

lemma screen_ok_same: "same_mode v v' \<Longrightarrow> screen_ok v \<Longrightarrow> screen_ok v'"
  by (simp add: screen_ok_def mode_ok_def same_mode_def)

lemma cursor_ok_same: "same_mode v v' \<Longrightarrow> cursor_ok v' x y = cursor_ok v x y"
  by (simp add: cursor_ok_def same_mode_def)

text \<open>The text area starts below the 24 rows of the title and status bar.\<close>

lemma char_paint_text_area:
  assumes "screen_ok v" "cursor_ok v x y" "painted (char_paint v c (nat x) (nat y)) v v'"
  shows "touches (\<lambda>x y. 24 \<le> y) v v'"
proof (rule painted_touches[OF assms(3)])
  fix px py
  have "24 \<le> nat y" using assms(2) unfolding cursor_ok_def by linarith
  then show "char_paint v c (nat x) (nat y) px py \<noteq> None \<Longrightarrow> 24 \<le> py"
    by (auto simp: char_paint_def nothing_def box_def over_def glyph_def split: if_splits)
qed

lemma console_ok:
  assumes "screen_ok v" "cursor_ok v x y" "\<forall>c \<in> set cs. c < 0x85"
  shows "\<exists>x' y' v'. console cs (x, y, v) = Inr (x', y', v') \<and> cursor_ok v' x' y' \<and> touches (\<lambda>x y. 24 \<le> y) v v'"
  using assms
proof (induction cs arbitrary: x y v)
  case Nil
  then show ?case by (simp add: touches_refl)
next
  case (Cons c cs)
  obtain x1 y1 v1 where 1: "console_char c (x, y, v) = Inr (x1, y1, v1)" "painted (char_paint v c (nat x) (nat y)) v v1" "cursor_ok v1 x1 y1"
    using console_char_ok[OF Cons.prems(1,2), of c] Cons.prems(3) by auto
  note b = char_paint_text_area[OF Cons.prems(1,2) 1(2)]
  have "screen_ok v1" using screen_ok_same[OF painted_same[OF 1(2)] Cons.prems(1)] .
  then obtain x' y' v' where "console cs (x1, y1, v1) = Inr (x', y', v')" "cursor_ok v' x' y'" "touches (\<lambda>x y. 24 \<le> y) v1 v'"
    using Cons.IH[of v1 x1 y1] 1(3) Cons.prems(3) by auto
  then show ?case using 1(1) touches_trans[OF b] by auto
qed

lemma drawString_ok:
  assumes "mode_ok v" "unat x + 8 * length cs < unat (xRes v)" "unat y + 16 \<le> unat (yRes v)" "\<forall>c \<in> set cs. c < 0x85 \<and> \<not> control c"
  shows "\<exists>v'. drawString cs color x y v = Inr v' \<and> touches (\<lambda>px py. unat y \<le> py \<and> py < unat y + 16) v v'"
  using assms
proof (induction cs arbitrary: x v)
  case Nil
  then show ?case by (simp add: touches_refl)
next
  case (Cons c cs)
  obtain v1 where 1: "drawChar c color x y v = Inr v1" "painted (glyph c color (unat x) (unat y) 16) v v1"
    using drawChar_painted[OF Cons.prems(1), of x y c color] Cons.prems(2-4) by auto
  note m = painted_same[OF 1(2), unfolded same_mode_def] painted_mode[OF 1(2) Cons.prems(1)]
  have "unat x + 8 < 2 ^ LENGTH(16)" using Cons.prems(2) unsigned_less[of "xRes v", where 'a = nat] by simp
  then have u: "unat (x + 8) = unat x + 8" by (subst unat_plus_small) simp_all
  have t: "touches (\<lambda>px py. unat y \<le> py \<and> py < unat y + 16) v v1"
    by (rule painted_touches[OF 1(2)]) (auto simp: glyph_def split: if_splits)
  obtain v2 where 2: "drawString cs color (x + 8) y v1 = Inr v2" "touches (\<lambda>px py. unat y \<le> py \<and> py < unat y + 16) v1 v2"
    using Cons.IH[OF m(2), of "x + 8"] m(1) Cons.prems(2-4) u by auto
  have "\<not> xRes v1 \<le> x + 8" using Cons.prems(2) m(1) u by (simp add: word_le_nat_alt)
  moreover have "c \<noteq> 13" "c \<noteq> 10" "c \<noteq> 9" "c \<noteq> 8" "c \<noteq> 12" "c \<noteq> 1" using Cons.prems(4) by (auto simp: control_def)
  ultimately have "drawString (c # cs) color x y v = Inr v2" using 1(1) 2(1) by (simp add: Let_def)
  then show ?case using touches_trans[OF t 2(2)] by blast
qed

lemma gradient_rows_painted:
  assumes "mode_ok v" "unat x1 \<le> unat (xRes v)" "unat y0 + unat n \<le> unat (yRes v)"
  shows "painted (\<lambda>x y. if unat x0 \<le> x \<and> x < unat x1 \<and> unat y0 + unat i \<le> y \<and> y < unat y0 + unat n
     then Some (gradient_color c1 c2 (of_nat (y - unat y0)) n) else None) v (gradient_rows c1 c2 x0 y0 x1 n i v)"
  using assms
proof (induction c1 c2 x0 y0 x1 n i v rule: gradient_rows.induct)
  case (1 c1 c2 x0 y0 x1 n i v)
  show ?case
  proof (cases "i < n")
    case True
    then have lt: "unat i < unat n" by (simp add: word_less_nat_alt)
    have u: "unat (i + y0) = unat y0 + unat i"
    proof -
      have "unat i + unat y0 < 2 ^ LENGTH(16)" using lt 1(4) unsigned_less[of "yRes v", where 'a = nat] by simp
      then show ?thesis by (subst unat_plus_small) simp_all
    qed
    let ?v = "fill_row (gradient_color c1 c2 i n) (i + y0) x0 x1 v"
    have p: "painted (box (gradient_color c1 c2 i n) (unat x0) (unat y0 + unat i) (unat x1) (unat y0 + unat i + 1)) v ?v"
      using fill_row_painted[OF 1(2,3), of "i + y0"] 1(4) lt u by simp
    note m = painted_same[OF p, unfolded same_mode_def] painted_mode[OF p 1(2)]
    have q: "painted (\<lambda>x y. if unat x0 \<le> x \<and> x < unat x1 \<and> unat y0 + (unat i + 1) \<le> y \<and> y < unat y0 + unat n
       then Some (gradient_color c1 c2 (of_nat (y - unat y0)) n) else None) ?v (gradient_rows c1 c2 x0 y0 x1 n (i + 1) ?v)"
      using 1(1)[OF True m(2)] 1(3,4) m(1) unat_Suc16[OF True] by simp
    have e: "(of_nat y :: u16) - y0 = i" if "unat y0 + unat i \<le> y" "\<not> Suc (unat y0 + unat i) \<le> y" for y
    proof -
      have "y = unat y0 + unat i" using that by simp
      then show ?thesis by simp
    qed
    show ?thesis using painted_trans[OF p q] True
      by (subst gradient_rows.simps) (use lt in \<open>auto elim!: painted_cong simp: over_def box_def e\<close>)
  next
    case False
    then show ?thesis using painted_refl[of v]
      by (subst gradient_rows.simps) (auto elim!: painted_cong simp: nothing_def word_less_nat_alt)
  qed
qed

section \<open>The status line\<close>

lemma radix_digits_length: "n < 10 ^ k \<Longrightarrow> 0 < k \<Longrightarrow> length (radix_digits 10 n) \<le> k"
proof (induction k arbitrary: n)
  case (Suc k)
  show ?case
  proof (cases "n < 10")
    case False
    then have "0 < k" using Suc.prems(1) by (cases k) auto
    moreover have "n div 10 < 10 ^ k" using Suc.prems(1) by (simp add: less_mult_imp_div_less mult.commute)
    ultimately show ?thesis using Suc.IH[of "n div 10"] False by (subst radix_digits.simps) simp
  qed (subst radix_digits.simps, simp)
qed simp

lemma number_unsigned:
  assumes "unat a < 10 ^ k" "0 < k" "k \<le> 9"
  shows "max (nat w) 1 \<le> length (number 10 w SIGN a)" "length (number 10 w SIGN a) \<le> max (nat w) k"
proof -
  have "(10 :: nat) ^ k \<le> 10 ^ 9" using assms(3) by (intro power_increasing) simp_all
  then have "unat a < 2 ^ 31" using assms(1) by simp
  then have "int (unat a) < int (2 ^ 31)" by (simp only: of_nat_less_iff)
  then have "uint a < 2 ^ 31" by simp
  moreover have "- (2 ^ 31) \<le> uint a" by (rule order_trans[of _ 0]) simp_all
  ultimately have "sint a = uint a" by (simp add: sint_uint signed_take_bit_int_eq_self)
  then have nn: "0 \<le> sint a" by simp
  have mag: "itoa_magnitude a SIGN = unat a" using nn by (simp add: itoa_magnitude_def)
  have sg: "itoa_sign a SIGN = []" "itoa_prefix 10 SIGN = []"
    using nn by (simp_all add: itoa_sign_def itoa_prefix_def flag_SIGN)
  have num: "itoa_number a 10 SIGN = map ((!) (digit_chars SIGN)) (rev (radix_digits 10 (unat a)))"
    by (simp add: itoa_number_def mag rev_map)
  have n: "number 10 w SIGN a = replicate (nat (w - int (length (radix_digits 10 (unat a))))) (CHR '' '') @ itoa_number a 10 SIGN"
    by (simp add: number_def sg flag_SIGN itoa_padding_def num)
  have l: "1 \<le> length (radix_digits 10 (unat a))" "length (radix_digits 10 (unat a)) \<le> k"
    using radix_digits_length[OF assms(1,2)] by (simp_all add: Suc_le_eq)
  then show "max (nat w) 1 \<le> length (number 10 w SIGN a)" "length (number 10 w SIGN a) \<le> max (nat w) k"
    unfolding n num by auto
qed

definition status_pieces :: "piece list" where
  "status_pieces = [Directive [] None None Dec, Text (CHR ''M''), Text (CHR ''B''), Directive [] (Some 4) None Dec,
     Text (CHR ''K''), Text (CHR ''B''), Directive [] (Some 4) None Dec, Text (CHR ''B''), Text (CHR ''y''),
     Text (CHR ''t''), Text (CHR ''e''), Text (CHR ''s'')]"

lemma status_text_ok:
  "\<exists>t. status_text free = Inr t \<and> 18 \<le> length (out t) \<and> length (out t) \<le> 21"
proof -
  let ?env = "\<lparr>args = status_args free, fbytes = (\<lambda>_. 0), buf_addr = 0, tmp_addr = 0\<rparr>"
  have f: "concat (map unparse status_pieces) = ''%dMB%4dKB%4dBytes''" by (simp add: status_pieces_def digit_char_def)
  have wf: "\<forall>p \<in> set status_pieces. wf_piece p" "str_args_ok ?env 0 status_pieces" by (simp_all add: status_pieces_def)
  note r = vsprintf_from_pieces[of status_pieces ?env "\<lparr>out = [], arg_ix = 0, stores = []\<rparr>"]
  let ?a = "number 10 (- 1) SIGN (status_args free 0)"
  let ?b = "number 10 4 SIGN (status_args free 1)"
  let ?c = "number 10 4 SIGN (status_args free 2)"
  have out: "render ?env 0 status_pieces = ?a @ ''MB'' @ ?b @ ''KB'' @ ?c @ ''Bytes''"
    by (simp add: status_pieces_def width_of_def flag_bits_def numeral_2_eq_2)
  have s: "status_text free = Inr \<lparr>out = ?a @ ''MB'' @ ?b @ ''KB'' @ ?c @ ''Bytes'', arg_ix = directives status_pieces, stores = []\<rparr>"
    using r wf unfolding status_text_def vsprintf_def f[symmetric] out[symmetric] by simp
  have k: "0 < (4 :: nat)" "(4 :: nat) \<le> 9" by simp_all
  have "unat (status_args free 0) < 10 ^ 4" "unat (status_args free 1) < 10 ^ 4" "unat (status_args free 2) < 10 ^ 4"
    using unsigned_less[of free, where 'a = nat]
    by (simp_all add: status_args_def unat_div_distrib unat_mod_distrib div_mult2_eq[symmetric] less_mult_imp_div_less)
  note n = number_unsigned[OF this(1) k, of "- 1"] number_unsigned[OF this(2) k, of 4] number_unsigned[OF this(3) k, of 4]
  let ?t = "?a @ ''MB'' @ ?b @ ''KB'' @ ?c @ ''Bytes''"
  have "length ?t = length ?a + length ?b + length ?c + 9" by simp
  moreover have "1 \<le> length ?a" "length ?a \<le> 4" "4 \<le> length ?b" "length ?b \<le> 4" "4 \<le> length ?c" "length ?c \<le> 4"
    using n by simp_all
  ultimately have "18 \<le> length ?t" "length ?t \<le> 21" by linarith+
  then show ?thesis unfolding s by (intro exI[of _ "\<lparr>out = ?t, arg_ix = directives status_pieces, stores = []\<rparr>"]) simp
qed

lemma fillGradient_painted:
  assumes "mode_ok v" "unat x1 \<le> unat (xRes v)" "unat y0 \<le> unat y1" "unat y1 \<le> unat (yRes v)"
  shows "painted (\<lambda>x y. if unat x0 \<le> x \<and> x < unat x1 \<and> unat y0 \<le> y \<and> y < unat y1
     then Some (gradient_color c1 c2 (of_nat (y - unat y0)) (y1 - y0)) else None) v (fillGradient c1 c2 x0 y0 x1 y1 False v)"
proof -
  have "y0 \<le> y1" using assms(3) by (simp add: word_le_nat_alt)
  then have u: "unat (y1 - y0) = unat y1 - unat y0" by (rule unat_sub)
  then have "unat y0 + unat (y1 - y0) = unat y1" using assms(3) by simp
  then show ?thesis
    using gradient_rows_painted[OF assms(1,2), of y0 "y1 - y0" x0 0 c1 c2] assms(4) by (simp add: fillGradient_def)
qed

text \<open>
  The status line does not fit its array: whatever the amount of free memory, \<^verbatim>\<open>vsprintf\<close> writes
  18 to 21 characters and a zero into the 12 bytes of \<^verbatim>\<open>a\<close>, in every frame.
\<close>

lemma status_line_overflows:
  "draw_status free v = Inl Bad_Index" "video_frame free cs (x, y, v) = Inl Bad_Index"
  using status_text_ok[of free] by (auto simp: draw_status_def video_frame_def)

lemma video_start_ok:
  assumes ok: "screen_ok v"
  shows "\<exists>v'. video_start v = Inr (4, 28, v') \<and> touches (\<lambda>x y. True) v v'"
proof -
  have m: "mode_ok v" and r: "80 \<le> unat (xRes v)" "44 \<le> unat (yRes v)"
    using ok uint_unat16[of "xRes v"] uint_unat16[of "yRes v"] unfolding screen_ok_def by linarith+
  let ?v1 = "fillGradient 0x5A574E 0x3F3E39 0 0 (xRes v) 24 False v"
  have 1: "touches (\<lambda>x y. True) v ?v1" by (rule painted_touches[OF fillGradient_painted]) (use m r in auto)
  note s1 = touches_same[OF 1, unfolded same_mode_def]
  have m1: "mode_ok ?v1" using m s1 by (simp add: mode_ok_def)
  let ?v2 = "fillRect 0x300A24 0 24 (xRes ?v1) (yRes ?v1) ?v1"
  have 2: "touches (\<lambda>x y. True) ?v1 ?v2" by (rule painted_touches[OF fillRect_painted]) (use m1 in auto)
  note s2 = touches_same[OF 2, unfolded same_mode_def]
  have m2: "mode_ok ?v2" using m1 s2 by (simp add: mode_ok_def)
  have c: "\<forall>c \<in> set (map of_char ''Norlit OS''). c < (0x85 :: u8) \<and> \<not> control c" by (simp add: control_def)
  obtain v' where v': "drawString (map of_char ''Norlit OS'') 0xFFFFFF 6 4 ?v2 = Inr v'" "touches (\<lambda>px py. unat (4 :: u16) \<le> py \<and> py < unat (4 :: u16) + 16) ?v2 v'"
    using drawString_ok[OF m2 _ _ c, of 6 4 "0xFFFFFF"] s1 s2 r by auto
  have "touches (\<lambda>x y. True) v v'" by (rule touches_trans[OF 1 touches_trans[OF 2 touches_mono[OF v'(2)]]]) simp
  then show ?thesis using v'(1) by (simp add: video_start_def Let_def)
qed

text \<open>
  C31. The console stays on the screen: what the driver draws first ends and sets the cursor, and any text of the
  characters in the font is rendered to the end, the cursor comes back to a cell of the text area, the title
  bar above it keeps its pixels, the mode stays, and no byte outside the frame buffer is written, for every
  mode whose rows hold whole cells. The status line of a frame is not part of this: its array overflows.
\<close>

theorem console_stays_on_screen:
  assumes "screen_ok v" "\<forall>c \<in> set cs. c < 0x85" "cursor_ok v x y"
  shows "(\<exists>v0. video_start v = Inr (4, 28, v0) \<and> cursor_ok v0 4 28 \<and> same_mode v v0 \<and>
      (\<forall>a. unat (yRes v) * unat (bpl v) \<le> unat a \<longrightarrow> vmem v0 a = vmem v a)) \<and>
    (\<exists>x' y' v'. console cs (x, y, v) = Inr (x', y', v') \<and> cursor_ok v' x' y' \<and> same_mode v v' \<and>
      (\<forall>px < unat (xRes v). \<forall>py < 24. pixel v' px py = pixel v px py) \<and>
      (\<forall>a. unat (yRes v) * unat (bpl v) \<le> unat a \<longrightarrow> vmem v' a = vmem v a))"
proof
  obtain v0 where 0: "video_start v = Inr (4, 28, v0)" "touches (\<lambda>x y. True) v v0" using video_start_ok[OF assms(1)] by blast
  have "cursor_ok v 4 28" using assms(1) by (simp add: cursor_ok_def screen_ok_def)
  then have "cursor_ok v0 4 28" using cursor_ok_same[OF touches_same[OF 0(2)]] by simp
  then show "\<exists>v0. video_start v = Inr (4, 28, v0) \<and> cursor_ok v0 4 28 \<and> same_mode v v0 \<and>
      (\<forall>a. unat (yRes v) * unat (bpl v) \<le> unat a \<longrightarrow> vmem v0 a = vmem v a)"
    using 0 touches_same[OF 0(2)] by (intro exI[of _ v0]) (simp add: touches_def)
  obtain x' y' v' where 2: "console cs (x, y, v) = Inr (x', y', v')" "cursor_ok v' x' y'" "touches (\<lambda>x y. 24 \<le> y) v v'"
    using console_ok[OF assms(1,3,2)] by blast
  have "24 \<le> unat (yRes v)" using assms(1) uint_unat16[of "yRes v"] unfolding screen_ok_def by linarith
  then have "\<forall>px < unat (xRes v). \<forall>py < 24. pixel v' px py = pixel v px py" using 2(3) by (simp add: touches_def)
  moreover have "\<forall>a. unat (yRes v) * unat (bpl v) \<le> unat a \<longrightarrow> vmem v' a = vmem v a" using 2(3) by (simp add: touches_def)
  ultimately show "\<exists>x' y' v'. console cs (x, y, v) = Inr (x', y', v') \<and> cursor_ok v' x' y' \<and> same_mode v v' \<and>
      (\<forall>px < unat (xRes v). \<forall>py < 24. pixel v' px py = pixel v px py) \<and>
      (\<forall>a. unat (yRes v) * unat (bpl v) \<le> unat a \<longrightarrow> vmem v' a = vmem v a)"
    using 2(1,2) touches_same[OF 2(3)] by (intro exI[of _ x'] exI[of _ y'] exI[of _ v'] conjI)
qed

definition vga :: video where
  "vga = \<lparr>xRes = 640, yRes = 480, bpl = 2560, bpp = 4, vmem = \<lambda>_. 0\<rparr>"

lemma vga_ok: "screen_ok vga" "cursor_ok vga 4 28"
  by (simp_all add: screen_ok_def mode_ok_def cursor_ok_def vga_def)

theorem console_stays_on_screen_witness:
  "\<exists>x' y' v'. console [72, 105, 10] (4, 28, vga) = Inr (x', y', v') \<and> cursor_ok v' x' y'"
  using console_stays_on_screen[OF vga_ok(1) _ vga_ok(2), of "[72, 105, 10]"] by fastforce

text \<open>
  C32. A printed character replaces its cell: every pixel of the cell gets the text colour where the
  glyph of the font has a bit and the background elsewhere, every other pixel stays; the cursor
  moves to the next cell, at the end of a line to the start of the next one, and on the last line it
  stays on that line.
\<close>

theorem console_char_paints_cell:
  assumes "screen_ok v" "cursor_ok v x y" "c < 0x85" "\<not> control c"
  shows "\<exists>v'. console_char c (x, y, v) = Inr
      (if x + 8 < uint (xRes v) - 4 then x + 8 else 4,
       if x + 8 < uint (xRes v) - 4 \<or> uint (yRes v) - 16 < y + 16 then y else y + 16, v') \<and>
    (\<forall>px < unat (xRes v). \<forall>py < unat (yRes v). pixel v' px py =
      (if nat x \<le> px \<and> px < nat x + 8 \<and> nat y \<le> py \<and> py < nat y + 16
       then rgb_bytes (if glyph_bit c (px - nat x) (py - nat y) then 0xFFFFFF else 0x300A24)
       else pixel v px py))"
proof -
  obtain x' y' v' where s: "console_char c (x, y, v) = Inr (x', y', v')" "painted (char_paint v c (nat x) (nat y)) v v'"
    "(x', y') = (if x + 8 < uint (xRes v) - 4 then (x + 8, y) else (4, if uint (yRes v) - 16 < y + 16 then y else y + 16))"
    using console_char_ok[OF assms(1-3)] assms(4) by blast
  have c: "c \<noteq> 12" using assms(4) by (auto simp: control_def)
  have "pixel v' px py = (if nat x \<le> px \<and> px < nat x + 8 \<and> nat y \<le> py \<and> py < nat y + 16
       then rgb_bytes (if glyph_bit c (px - nat x) (py - nat y) then 0xFFFFFF else 0x300A24)
       else pixel v px py)" if "px < unat (xRes v)" "py < unat (yRes v)" for px py
    using s(2) that assms(4) c by (simp add: painted_def char_paint_def over_def glyph_def box_def)
  then show ?thesis using s(1,3) by (intro exI[of _ v']) (auto split: if_splits)
qed

theorem console_char_paints_cell_witness:
  "\<exists>v'. console_char 0x41 (4, 28, vga) = Inr (12, 28, v') \<and> pixel v' 4 28 = (0x24, 0x0A, 0x30)"
proof -
  have g: "\<not> glyph_bit 0x41 0 0" by (simp add: glyph_bit_def font_ascii_def font_rows_def)
  have k: "\<not> control 0x41" "(0x41 :: u8) < 0x85" by (simp_all add: control_def)
  obtain v' where v': "console_char 0x41 (4, 28, vga) = Inr (12, 28, v')"
    "\<forall>px < unat (xRes vga). \<forall>py < unat (yRes vga). pixel v' px py =
      (if nat 4 \<le> px \<and> px < nat 4 + 8 \<and> nat 28 \<le> py \<and> py < nat 28 + 16
       then rgb_bytes (if glyph_bit 0x41 (px - nat 4) (py - nat 28) then 0xFFFFFF else 0x300A24)
       else pixel vga px py)"
    using console_char_paints_cell[OF vga_ok(1,2) k(2,1)] by (auto simp: vga_def)
  have "pixel v' 4 28 = rgb_bytes 0x300A24" using v'(2)[rule_format, of 4 28] g by (simp add: vga_def)
  then show ?thesis using v'(1) by (simp add: rgb_bytes_def)
qed

lemma sdiv_between:
  fixes r :: int
  assumes "0 \<le> i" "i < n"
  shows "min 0 r \<le> i * r sdiv n \<and> i * r sdiv n \<le> max 0 r"
proof -
  have a: "\<bar>i * r\<bar> div n \<le> \<bar>r\<bar>"
  proof -
    have "\<bar>i * r\<bar> \<le> n * \<bar>r\<bar>" using assms by (simp add: abs_mult mult_right_mono)
    then have "\<bar>i * r\<bar> div n \<le> n * \<bar>r\<bar> div n" using assms by (intro zdiv_mono1) auto
    then show ?thesis using assms by simp
  qed
  have "0 \<le> \<bar>i * r\<bar> div n" using assms by (simp add: pos_imp_zdiv_nonneg_iff)
  then show ?thesis using a assms
    by (auto simp: signed_divide_int_def sgn_mult sgn_if mult_less_0_iff zero_less_mult_iff min_def max_def)
qed

lemma channel_between:
  assumes "i < n"
  shows "uint (min (ucast (drop_bit sh c1)) (ucast (drop_bit sh c2)) :: u8) \<le> channel c1 c2 sh i n \<and>
    channel c1 c2 sh i n \<le> uint (max (ucast (drop_bit sh c1)) (ucast (drop_bit sh c2)) :: u8)"
  using sdiv_between[of "uint i" "uint n" "uint (ucast (drop_bit sh c2) :: u8) - uint (ucast (drop_bit sh c1) :: u8)"] assms
  by (auto simp: channel_def Let_def word_less_def word_le_def min_def max_def split: if_splits)

lemma rgb_bytes_sum:
  assumes "A < 256" "B < 256" "C < 256"
  shows "rgb_bytes (push_bit 16 (of_nat A) + push_bit 8 (of_nat B) + of_nat C) = (of_nat C, of_nat B, of_nat A)"
proof -
  define g where "g = (push_bit 16 (of_nat A) + push_bit 8 (of_nat B) + of_nat C :: u32)"
  have "g = of_nat (65536 * A + 256 * B + C)" by (simp add: g_def push_bit_eq_mult algebra_simps)
  then have g: "unat g = 65536 * A + 256 * B + C" using assms by (simp only:) (intro unat_of_nat_small, simp)
  have b: "(ucast (drop_bit k g) :: u8) = of_nat (unat g div 2 ^ k)" for k
    by (metis of_nat_unat_ucast unat_drop_bit_eq drop_bit_eq_div)
  have "(65536 :: u8) = 0" "(256 :: u8) = 0" by simp_all
  then have "(of_nat (65536 * A + 256 * B + C) :: u8) = of_nat C" by (simp only: of_nat_add of_nat_mult of_nat_numeral) simp
  moreover have "(of_nat (256 * A + B) :: u8) = of_nat B" using \<open>(256 :: u8) = 0\<close> by (simp only: of_nat_add of_nat_mult of_nat_numeral) simp
  moreover have "(65536 * A + 256 * B + C) div 2 ^ 8 = 256 * A + B" "(65536 * A + 256 * B + C) div 2 ^ 16 = A"
    using assms by simp_all
  ultimately show ?thesis using b[of 0] b[of 8] b[of 16] unfolding g_def[symmetric] rgb_bytes_def g by simp
qed

lemma gradient_bytes:
  assumes "i < n"
  shows "rgb_bytes (gradient_color c1 c2 i n) =
    (word_of_int (channel c1 c2 0 i n), word_of_int (channel c1 c2 8 i n), word_of_int (channel c1 c2 16 i n))"
proof -
  have "0 \<le> channel c1 c2 sh i n \<and> channel c1 c2 sh i n < 256" for sh
  proof
    show "0 \<le> channel c1 c2 sh i n" by (rule order_trans[OF _ conjunct1[OF channel_between[OF assms]]]) simp
    show "channel c1 c2 sh i n < 256"
      by (rule le_less_trans[OF conjunct2[OF channel_between[OF assms]]])
        (use unsigned_less[of "max (ucast (drop_bit sh c1)) (ucast (drop_bit sh c2)) :: u8", where 'a = int] in simp)
  qed
  then have w: "channel c1 c2 sh i n = int (nat (channel c1 c2 sh i n)) \<and> nat (channel c1 c2 sh i n) < 256" for sh
    by (simp add: nat_less_iff)
  have e: "word_of_int (channel c1 c2 sh i n) = (of_nat (nat (channel c1 c2 sh i n)) :: u32)"
    "word_of_int (channel c1 c2 sh i n) = (of_nat (nat (channel c1 c2 sh i n)) :: u8)" for sh
    using w[of sh] by (metis of_int_of_nat_eq)+
  show ?thesis unfolding gradient_color_def e by (rule rgb_bytes_sum) (use w in blast)+
qed


text \<open>
  The gradient of the title bar: each row of the rectangle gets one colour, whose three channels
  lie between those of the two end colours, the first row is the first colour, and every other pixel
  stays.
\<close>

theorem gradient_between:
  assumes "mode_ok v" "unat x1 \<le> unat (xRes v)" "unat y0 \<le> unat y1" "unat y1 \<le> unat (yRes v)"
    and "px < unat (xRes v)" "py < unat (yRes v)"
  shows "pixel (fillGradient c1 c2 x0 y0 x1 y1 False v) px py =
    (if unat x0 \<le> px \<and> px < unat x1 \<and> unat y0 \<le> py \<and> py < unat y1
     then let ch = (\<lambda>sh. channel c1 c2 sh (of_nat (py - unat y0)) (y1 - y0))
          in (word_of_int (ch 0), word_of_int (ch 8), word_of_int (ch 16))
     else pixel v px py) \<and>
    (unat y0 \<le> py \<and> py < unat y1 \<longrightarrow> (\<forall>sh. channel c1 c2 sh (of_nat (py - unat y0)) (y1 - y0)
       \<in> {uint (min (ucast (drop_bit sh c1)) (ucast (drop_bit sh c2)) :: u8) ..
           uint (max (ucast (drop_bit sh c1)) (ucast (drop_bit sh c2)) :: u8)}) \<and>
      (\<forall>sh. channel c1 c2 sh 0 (y1 - y0) = uint (ucast (drop_bit sh c1) :: u8)))"
proof -
  have lt: "(of_nat (py - unat y0) :: u16) < y1 - y0" if "unat y0 \<le> py" "py < unat y1"
  proof -
    have "y0 \<le> y1" using assms(3) by (simp add: word_le_nat_alt)
    then have "unat (y1 - y0) = unat y1 - unat y0" by (rule unat_sub)
    moreover have "unat (of_nat (py - unat y0) :: u16) = py - unat y0"
      using that unsigned_less[of y1, where 'a = nat] by (intro unat_of_nat_small) simp
    ultimately show ?thesis using that by (simp add: word_less_nat_alt diff_less_mono del: of_nat_diff)
  qed
  have "pixel (fillGradient c1 c2 x0 y0 x1 y1 False v) px py =
    (if unat x0 \<le> px \<and> px < unat x1 \<and> unat y0 \<le> py \<and> py < unat y1
     then rgb_bytes (gradient_color c1 c2 (of_nat (py - unat y0)) (y1 - y0)) else pixel v px py)"
    using fillGradient_painted[OF assms(1-4), of x0 c1 c2] assms(5,6) by (simp add: painted_def)
  then show ?thesis using gradient_bytes[OF lt] channel_between[OF lt]
    by (auto simp: Let_def channel_def signed_divide_int_def simp del: of_nat_diff)
qed

theorem gradient_between_witness:
  "pixel (fillGradient 0x5A574E 0x3F3E39 0 0 640 24 False vga) 5 0 = (0x4E, 0x57, 0x5A)"
  using gradient_between[of vga 640 0 24 5 0 "0x5A574E" "0x3F3E39" 0] vga_ok(1)
  by (simp add: screen_ok_def vga_def channel_def signed_divide_int_def)

section \<open>From the text buffer to the driver\<close>


















end
