(* ===== verification/Apic.thy ===== *)
theory Apic
  imports Page Bytes
begin

text \<open>
  The interrupt controllers, \<^verbatim>\<open>kernel/driver/apic.c\<close> and \<^verbatim>\<open>kernel/include/apic.h\<close>, and the ACPI
  tables that describe them, \<^verbatim>\<open>kernel/driver/acpi.c\<close>. The registers of the controllers are a
  parameter; console output, the MSR and CR3 writes are left out.
\<close>

section \<open>Registers\<close>

text \<open>The two memory-mapped accesses; a register is at its address.\<close>

record 'd mmio =
  mread :: "u32 \<Rightarrow> 'd \<Rightarrow> u32"
  mwrite :: "u32 \<Rightarrow> u32 \<Rightarrow> 'd \<Rightarrow> 'd"

abbreviation (input) APIC_REG_ADDR :: u32 where "APIC_REG_ADDR \<equiv> 0xFEE00000"
abbreviation (input) IO_APIC_ADDR :: u32 where "IO_APIC_ADDR \<equiv> 0xFEC00000"

definition apic_write :: "'d mmio \<Rightarrow> u32 \<Rightarrow> u32 \<Rightarrow> 'd \<Rightarrow> 'd" where
  "apic_write io reg v d = mwrite io (APIC_REG_ADDR + reg) v d"

definition apic_read :: "'d mmio \<Rightarrow> u32 \<Rightarrow> 'd \<Rightarrow> u32" where
  "apic_read io reg d = mread io (APIC_REG_ADDR + reg) d"

definition io_apic_read :: "'d mmio \<Rightarrow> u32 \<Rightarrow> 'd \<Rightarrow> u32 \<times> 'd" where
  "io_apic_read io reg d = (let d = mwrite io IO_APIC_ADDR reg d in (mread io (IO_APIC_ADDR + 0x10) d, d))"

definition io_apic_write :: "'d mmio \<Rightarrow> u32 \<Rightarrow> u32 \<Rightarrow> 'd \<Rightarrow> 'd" where
  "io_apic_write io reg v d = mwrite io (IO_APIC_ADDR + 0x10) v (mwrite io IO_APIC_ADDR reg d)"

definition IO_APIC_RED :: "u32 \<Rightarrow> u32" where
  "IO_APIC_RED x = 0x10 + x * 2"

section \<open>Set-up\<close>

text \<open>The page table for the register pages, entered in the kernel's directory at \<open>kernelPDE\<close>.\<close>

definition map_apics :: "u32 \<Rightarrow> u32 \<Rightarrow> kmem \<Rightarrow> kerror + kmem" where
  "map_apics kernelPDE io_apic_addr s =
     and_then (memory_alloc 12 s) (\<lambda>(apic_ptes, s).
     let s = fill_words apic_ptes 1024 s;
         s = store_entry apic_ptes (va2pte IO_APIC_ADDR) (io_apic_addr + 0b11011) s;
         s = store_entry apic_ptes (va2pte APIC_REG_ADDR) (APIC_REG_ADDR + 0b11011) s
     in Inr (store_entry kernelPDE (va2pde APIC_REG_ADDR) (va2pa apic_ptes + 0b11011) s))"

text \<open>One round of each of the three loops over the redirection table.\<close>

definition set_line :: "'d mmio \<Rightarrow> u8 \<Rightarrow> u32 \<Rightarrow> 'd \<Rightarrow> 'd" where
  "set_line io apic_id n d =
     io_apic_write io (IO_APIC_RED n) (0x10000 + 0x20 + n)
       (io_apic_write io (IO_APIC_RED n + 1) (push_bit 24 (ucast apic_id)) d)"

definition clear_line :: "'d mmio \<Rightarrow> u8 \<Rightarrow> u32 \<Rightarrow> 'd \<Rightarrow> 'd" where
  "clear_line io apic_id n d =
     io_apic_write io (IO_APIC_RED n) 0x10000
       (io_apic_write io (IO_APIC_RED n + 1) (push_bit 24 (ucast apic_id)) d)"

definition override_line :: "'d mmio \<Rightarrow> u32 list \<Rightarrow> nat \<Rightarrow> 'd \<Rightarrow> 'd" where
  "override_line io irqOverride n d =
     (if irqOverride ! n \<noteq> of_nat n
      then io_apic_write io (IO_APIC_RED (irqOverride ! n)) (0x10000 + 0x20 + of_nat n) d
      else d)"

definition enable_apic :: "'d mmio \<Rightarrow> 'd \<Rightarrow> 'd" where
  "enable_apic io d = apic_write io 0x370 0x40 (apic_write io 0xF0 (BIT_SET (apic_read io 0xF0 d) 8) d)"

definition apic_id_of :: "'d mmio \<Rightarrow> 'd \<Rightarrow> u8" where
  "apic_id_of io d = ucast (drop_bit 24 (apic_read io 0x20 d))"

text \<open>
  \<^verbatim>\<open>init_apic\<close> after the mapping; the first component is \<^verbatim>\<open>cpuPage.cpuid\<close>. The last read is the one of
  the I/O APIC's identifier for the console.
\<close>

definition init_lines :: "'d mmio \<Rightarrow> u32 list \<Rightarrow> 'd \<Rightarrow> u8 \<times> 'd" where
  "init_lines io irqOverride d =
     (let apic_id = apic_id_of io d;
          d = fold (\<lambda>n. set_line io apic_id (of_nat n)) [0..<16] d;
          d = fold (\<lambda>n. clear_line io apic_id (of_nat n)) [16..<24] d;
          d = fold (override_line io irqOverride) [0..<16] d;
          d = enable_apic io d
      in (apic_id, snd (io_apic_read io 0 d)))"

definition init_apic :: "'d mmio \<Rightarrow> u32 \<Rightarrow> u32 list \<Rightarrow> u32 \<Rightarrow> kmem \<times> 'd \<Rightarrow> kerror + (u8 \<times> kmem \<times> 'd)" where
  "init_apic io kernelPDE irqOverride io_apic_addr = (\<lambda>(s, d).
     and_then (map_apics kernelPDE io_apic_addr s) (\<lambda>s.
     let (apic_id, d) = init_lines io irqOverride d in Inr (apic_id, s, d)))"

definition init_apic_ap :: "'d mmio \<Rightarrow> 'd \<Rightarrow> u8 \<times> 'd" where
  "init_apic_ap io d = (let d = enable_apic io d in (apic_id_of io d, d))"

section \<open>Interrupt lines\<close>

definition registerIRQ :: "u8 \<Rightarrow> 'h \<Rightarrow> 'h list \<Rightarrow> 'h list" where
  "registerIRQ irq inth handlerTable2 = handlerTable2[unat irq := inth]"

definition enableIRQ :: "'d mmio \<Rightarrow> u32 list \<Rightarrow> u8 \<Rightarrow> 'd \<Rightarrow> 'd" where
  "enableIRQ io irqOverride irq d =
     (let adr = IO_APIC_RED (irqOverride ! unat irq);
          (v, d) = io_apic_read io adr d
      in io_apic_write io adr (BIT_CLEAR v 16) d)"

definition disableIRQ :: "'d mmio \<Rightarrow> u32 list \<Rightarrow> u8 \<Rightarrow> 'd \<Rightarrow> 'd" where
  "disableIRQ io irqOverride irq d =
     (let adr = IO_APIC_RED (irqOverride ! unat irq);
          (v, d) = io_apic_read io adr d
      in io_apic_write io adr (BIT_SET v 16) d)"

section \<open>The ACPI tables\<close>

text \<open>
  \<^verbatim>\<open>acpi_check_rsdp\<close> on the memory the kernel sees; for a table of revision 0 it stores a length
  behind the 20 bytes of that version.
\<close>

definition acpi_check_rsdp :: "u32 \<Rightarrow> bytes \<Rightarrow> bool \<times> bytes" where
  "acpi_check_rsdp rsdp m =
     (if checksum rsdp 20 m \<noteq> 0 then (False, m)
      else if m (rsdp + 15) \<noteq> 0 then (checksum rsdp (load32 m (rsdp + 20)) m = 0, m)
      else (True, store32 (rsdp + 20) 20 m))"

text \<open>The search in steps of 16 bytes below \<open>end\<close>; the constant \<^verbatim>\<open>"RSD PTR "\<close> is at \<open>rsd\<close>.\<close>

partial_function (option) find_from :: "u32 \<Rightarrow> u32 \<Rightarrow> u32 \<Rightarrow> bytes \<Rightarrow> (u32 option \<times> bytes) option" where
  "find_from rsd sig limit m =
     (if sig < limit then
        if memcmp sig rsd 8 m = 0 then
          let (ok, m) = acpi_check_rsdp sig m
          in if ok then Some (Some sig, m) else find_from rsd (sig + 16) limit m
        else find_from rsd (sig + 16) limit m
      else Some (None, m))"

definition acpi_find_rsdp :: "u32 \<Rightarrow> bytes \<Rightarrow> (u32 option \<times> bytes) option" where
  "acpi_find_rsdp rsd m =
     (case find_from rsd 0xC00E0000 0xC00FFFFF m of
        None \<Rightarrow> None
      | Some (Some sig, m) \<Rightarrow> Some (Some sig, m)
      | Some (None, m) \<Rightarrow>
          let ebda = ucast (load16 m (0x40E + PAGE_OFFSET)) * 0x10 + PAGE_OFFSET
          in find_from rsd ebda (ebda + 0x3FF) m)"

text \<open>
  \<^verbatim>\<open>returnVirtualAddress\<close>: page \<open>n\<close> of the window at \<^verbatim>\<open>TEMP_MAP_POSITION\<close>, the first free one, shows
  the page of the physical address; \<open>phys\<close> is the physical memory and \<open>m\<close> what the kernel sees.
\<close>

definition returnVirtualAddress :: "bytes \<Rightarrow> u32 \<Rightarrow> nat \<times> bytes \<Rightarrow> kerror + (u32 \<times> nat \<times> bytes)" where
  "returnVirtualAddress phys phyaddr = (\<lambda>(n, m).
     if 1024 \<le> n then Inl Bad_Index
     else let page = 0x40000000 + of_nat n * 4096
       in Inr (page + (phyaddr AND 0xFFF), n + 1,
            \<lambda>a. if unat (a - page) < 4096 then phys ((phyaddr AND NOT 0xFFF) + (a - page)) else m a))"

text \<open>
  The \<^verbatim>\<open>switch\<close> of \<^verbatim>\<open>acpi_apic\<close> on one entry of the MADT: the state is the number of processors, the
  address of the I/O APIC and the overrides. \<open>None\<close> is the \<^verbatim>\<open>continue\<close> at a second I/O APIC, which
  goes back to the head of the loop without leaving the entry.
\<close>

definition madt_entry :: "bytes \<Rightarrow> u32 \<Rightarrow> u8 \<times> u32 \<times> u32 list \<Rightarrow> (kerror + (u8 \<times> u32 \<times> u32 list)) option" where
  "madt_entry m header = (\<lambda>(pros, io_apic_base, irqOverride).
     if m header = 0 then Some (Inr (pros + 1, io_apic_base, irqOverride))
     else if m header = 1 then
       if io_apic_base \<noteq> 0 then None
       else Some (Inr (pros, load32 m (header + 4), irqOverride))
     else if m header = 2 then
       if 16 \<le> m (header + 3) then Some (Inl Bad_Index)
       else Some (Inr (pros, io_apic_base, irqOverride[unat (m (header + 3)) := load32 m (header + 4)]))
     else Some (Inr (pros, io_apic_base, irqOverride)))"

partial_function (option) madt_loop ::
  "bytes \<Rightarrow> u32 \<Rightarrow> u32 \<Rightarrow> u8 \<times> u32 \<times> u32 list \<Rightarrow> (kerror + (u8 \<times> u32 \<times> u32 list)) option" where
  "madt_loop m header len st =
     (if len = 0 then Some (Inr st)
      else case madt_entry m header st of
        None \<Rightarrow> madt_loop m header len st
      | Some (Inl e) \<Rightarrow> Some (Inl e)
      | Some (Inr st) \<Rightarrow> madt_loop m (header + ucast (m (header + 1))) (len - ucast (m (header + 1))) st)"

definition acpi_apic :: "u32 \<Rightarrow> u32 list \<Rightarrow> bytes \<Rightarrow> (kerror + (u8 \<times> u32 \<times> u32 list)) option" where
  "acpi_apic madt irqOverride m =
     map_option (\<lambda>r. and_then r (\<lambda>(pros, io_apic_base, ov).
         if io_apic_base = 0 then Inl Halt else Inr (pros, io_apic_base, ov)))
       (madt_loop m (madt + 44) (load32 m (madt + 4) - 44) (0, 0, irqOverride))"

text \<open>
  The loop of \<^verbatim>\<open>init_acpi\<close> over the entries of the RSDT from \<open>index\<close> on, up to the MADT: its address,
  and the memory with the pages mapped on the way.
\<close>

function find_madt :: "bytes \<Rightarrow> u32 \<Rightarrow> u32 \<Rightarrow> u32 \<Rightarrow> nat \<times> bytes \<Rightarrow> kerror + (u32 option \<times> nat \<times> bytes)" where
  "find_madt phys rsdt index max_entries s =
     (if index < max_entries then
        and_then (returnVirtualAddress phys (load32 (snd s) (rsdt + 36 + 4 * index)) s) (\<lambda>(entry, s).
        if load32 (snd s) entry = 0x43495041 then Inr (Some entry, s)
        else find_madt phys rsdt (index + 1) max_entries s)
      else Inr (None, s))"
  by pat_completeness auto
termination
proof (relation "measure (\<lambda>(phys, rsdt, index, max_entries, s). unat max_entries - unat index)", goal_cases)
  case (2 phys rsdt index max_entries s x y z)
  then have "unat index + 1 \<le> unat max_entries" by (simp add: word_less_nat_alt)
  then have "unat index + 1 < 2 ^ LENGTH(32)" by (rule le_less_trans) (rule unsigned_less)
  then have "unat (index + 1) = unat index + 1" by (subst unat_plus_small) auto
  then show ?case using \<open>unat index + 1 \<le> unat max_entries\<close> by simp
qed simp

definition init_acpi :: "bytes \<Rightarrow> u32 \<Rightarrow> u32 list \<Rightarrow> bytes \<Rightarrow> (kerror + (u8 \<times> u32 \<times> u32 list) option) option" where
  "init_acpi phys rsd irqOverride m =
     (case acpi_find_rsdp rsd m of
        None \<Rightarrow> None
      | Some (None, m) \<Rightarrow> Some (Inl Halt)
      | Some (Some rsdp, m) \<Rightarrow>
          (case and_then (returnVirtualAddress phys (load32 m (rsdp + 16)) (0, m)) (\<lambda>(rsdt, s).
             find_madt phys rsdt 0 ((load32 (snd s) (rsdt + 4) - 36) div 4) s) of
             Inl e \<Rightarrow> Some (Inl e)
           | Inr (None, s) \<Rightarrow> Some (Inr None)
           | Inr (Some madt, s) \<Rightarrow> map_option (map_sum id Some) (acpi_apic madt irqOverride (snd s))))"

section \<open>Interrupt routing\<close>

text \<open>
  The documented behaviour of the I/O APIC that the code relies on: a write to the select register
  selects, a write to the window stores in the selected register, a read of the window reads it, and
  accesses to the local APIC leave it alone.
\<close>

definition io_apic_law :: "'d mmio \<Rightarrow> ('d \<Rightarrow> u32) \<Rightarrow> ('d \<Rightarrow> u32 \<Rightarrow> u32) \<Rightarrow> bool" where
  "io_apic_law io sel regs \<longleftrightarrow>
     (\<forall>r d. sel (mwrite io IO_APIC_ADDR r d) = r \<and> regs (mwrite io IO_APIC_ADDR r d) = regs d) \<and>
     (\<forall>v d. regs (mwrite io (IO_APIC_ADDR + 0x10) v d) = (regs d)(sel d := v)) \<and>
     (\<forall>d. mread io (IO_APIC_ADDR + 0x10) d = regs d (sel d)) \<and>
     (\<forall>a v d. APIC_REG_ADDR \<le> a \<longrightarrow> regs (mwrite io a v d) = regs d)"

lemma io_apic_regs:
  assumes "io_apic_law io sel regs"
  shows "regs (io_apic_write io r v d) = (regs d)(r := v)"
    "fst (io_apic_read io r d) = regs d r" "regs (snd (io_apic_read io r d)) = regs d"
    "regs (enable_apic io d) = regs d"
  using assms by (simp_all add: io_apic_law_def io_apic_write_def io_apic_read_def Let_def enable_apic_def apic_write_def)

lemma io_apic_red_eq:
  assumes "unat p < 24" "unat q < 24"
  shows "IO_APIC_RED p = IO_APIC_RED q \<longleftrightarrow> p = q" "IO_APIC_RED p \<noteq> IO_APIC_RED q + 1"
proof -
  have u: "unat (IO_APIC_RED x) = 16 + 2 * unat x" if "unat x < 24" for x
  proof -
    have "unat (x * 2) = unat x * 2" using that by (simp add: unat_word_ariths)
    then show ?thesis using that unfolding IO_APIC_RED_def by (subst unat_plus_small) simp_all
  qed
  have u1: "unat (IO_APIC_RED x + 1) = 17 + 2 * unat x" if "unat x < 24" for x
    using that u[OF that] by (subst unat_plus_small) simp_all
  show "IO_APIC_RED p = IO_APIC_RED q \<longleftrightarrow> p = q" using u[OF assms(1)] u[OF assms(2)] by (auto simp: word_unat_eq_iff)
  show "IO_APIC_RED p \<noteq> IO_APIC_RED q + 1"
  proof
    assume "IO_APIC_RED p = IO_APIC_RED q + 1"
    then have "16 + 2 * unat p = 17 + 2 * unat q" using u[OF assms(1)] u1[OF assms(2)] by simp
    then show False by presburger
  qed
qed

text \<open>The redirection table after the first two loops and during the third.\<close>

lemma first_lines:
  assumes io: "io_apic_law io sel regs"
  shows "n \<le> 24 \<Longrightarrow> \<forall>p < n. regs (fold (\<lambda>n. if n < 16 then set_line io a (of_nat n) else clear_line io a (of_nat n)) [0..<n] d) (IO_APIC_RED (of_nat p))
      = (if p < 16 then 0x10020 + of_nat p else 0x10000) \<and>
    regs (fold (\<lambda>n. if n < 16 then set_line io a (of_nat n) else clear_line io a (of_nat n)) [0..<n] d) (IO_APIC_RED (of_nat p) + 1)
      = push_bit 24 (ucast a)"
proof (induction n)
  case (Suc n)
  let ?d = "fold (\<lambda>n. if n < 16 then set_line io a (of_nat n) else clear_line io a (of_nat n)) [0..<n] d"
  have "(of_nat p :: u32) = of_nat n \<longleftrightarrow> p = n" if "p < 24" for p
  proof
    assume "(of_nat p :: u32) = of_nat n"
    then have "unat (of_nat p :: u32) = unat (of_nat n :: u32)" by (rule arg_cong)
    then show "p = n" using that Suc.prems by (simp add: unat_of_nat_small)
  qed simp
  moreover have "unat (of_nat p :: u32) < 24" if "p < 24" for p using that by (simp add: unat_of_nat_small)
  ultimately have r: "IO_APIC_RED (of_nat p) = IO_APIC_RED (of_nat n) \<longleftrightarrow> p = n"
      "IO_APIC_RED (of_nat p) \<noteq> IO_APIC_RED (of_nat n) + 1" "IO_APIC_RED (of_nat p) + 1 \<noteq> IO_APIC_RED (of_nat n)" if "p < 24" for p
    using io_apic_red_eq[of "of_nat p" "of_nat n"] io_apic_red_eq(2)[of "of_nat n" "of_nat p"] that Suc.prems
    by (metis Suc_le_lessD)+
  have IH: "\<forall>p < n. regs ?d (IO_APIC_RED (of_nat p)) = (if p < 16 then 0x10020 + of_nat p else 0x10000) \<and>
      regs ?d (IO_APIC_RED (of_nat p) + 1) = push_bit 24 (ucast a)" using Suc by simp
  show ?case
  proof (intro allI impI)
    fix p
    assume "p < Suc n"
    then show "regs (fold (\<lambda>n. if n < 16 then set_line io a (of_nat n) else clear_line io a (of_nat n)) [0..<Suc n] d) (IO_APIC_RED (of_nat p))
      = (if p < 16 then 0x10020 + of_nat p else 0x10000) \<and>
      regs (fold (\<lambda>n. if n < 16 then set_line io a (of_nat n) else clear_line io a (of_nat n)) [0..<Suc n] d) (IO_APIC_RED (of_nat p) + 1)
      = push_bit 24 (ucast a)"
      using IH[rule_format, of p] r[of p] Suc.prems
      by (cases "p = n") (auto simp: set_line_def clear_line_def io_apic_regs[OF io])
  qed
qed simp

lemma masked_values: "n < 16 \<Longrightarrow> BIT_TEST (0x10020 + of_nat n :: u32) 16"
proof -
  assume "n < 16"
  then have "n \<in> set [0..<16]" by simp
  moreover have "\<forall>n \<in> set [0..<16]. BIT_TEST (0x10020 + of_nat n :: u32) 16" by code_simp
  ultimately show ?thesis by blast
qed

lemma unmasked_values: "n < 16 \<Longrightarrow> BIT_CLEAR (0x10020 + of_nat n :: u32) 16 = 0x20 + of_nat n"
proof -
  assume "n < 16"
  then have "n \<in> set [0..<16]" by simp
  moreover have "\<forall>n \<in> set [0..<16]. BIT_CLEAR (0x10020 + of_nat n :: u32) 16 = 0x20 + of_nat n" by code_simp
  ultimately show ?thesis by blast
qed

lemma remasked_values: "n < 16 \<Longrightarrow> BIT_SET (0x20 + of_nat n :: u32) 16 = 0x10020 + of_nat n"
proof -
  assume "n < 16"
  then have "n \<in> set [0..<16]" by simp
  moreover have "\<forall>n \<in> set [0..<16]. BIT_SET (0x20 + of_nat n :: u32) 16 = 0x10020 + of_nat n" by code_simp
  ultimately show ?thesis by blast
qed

lemma override_lines:
  assumes io: "io_apic_law io sel regs" and ov: "\<forall>n < 16. unat (ov ! n) < 24" and i: "i < 16"
    and own: "\<forall>j < 16. j \<noteq> i \<longrightarrow> ov ! j = ov ! i \<longrightarrow> ov ! j = of_nat j"
    and start: "ov ! i = of_nat i \<longrightarrow> regs d (IO_APIC_RED (ov ! i)) = 0x10020 + of_nat i"
    and masked: "\<forall>p. unat p < 24 \<longrightarrow> BIT_TEST (regs d (IO_APIC_RED p)) 16"
  shows "k \<le> 16 \<Longrightarrow> (\<forall>p. unat p < 24 \<longrightarrow> regs (fold (override_line io ov) [0..<k] d) (IO_APIC_RED p + 1) = regs d (IO_APIC_RED p + 1) \<and>
      BIT_TEST (regs (fold (override_line io ov) [0..<k] d) (IO_APIC_RED p)) 16) \<and>
    (ov ! i = of_nat i \<or> i < k \<longrightarrow> regs (fold (override_line io ov) [0..<k] d) (IO_APIC_RED (ov ! i)) = 0x10020 + of_nat i)"
proof (induction k)
  case 0
  then show ?case using start masked by simp
next
  case (Suc k)
  let ?d = "fold (override_line io ov) [0..<k] d"
  have IH: "(\<forall>p. unat p < 24 \<longrightarrow> regs ?d (IO_APIC_RED p + 1) = regs d (IO_APIC_RED p + 1) \<and> BIT_TEST (regs ?d (IO_APIC_RED p)) 16) \<and>
    (ov ! i = of_nat i \<or> i < k \<longrightarrow> regs ?d (IO_APIC_RED (ov ! i)) = 0x10020 + of_nat i)" using Suc by simp
  have k: "k < 16" using Suc.prems by simp
  then have uk: "unat (ov ! k) < 24" and ui: "unat (ov ! i) < 24" using ov i by auto
  have step: "fold (override_line io ov) [0..<Suc k] d = override_line io ov k ?d" by simp
  show ?case
  proof (cases "ov ! k = of_nat k")
    case True
    then have "override_line io ov k ?d = ?d" by (simp add: override_line_def)
    moreover have "ov ! i = of_nat i" if "i = k" using that True by simp
    ultimately show ?thesis unfolding step using IH by (auto simp: less_Suc_eq)
  next
    case False
    then have w: "regs (override_line io ov k ?d) = (regs ?d)(IO_APIC_RED (ov ! k) := 0x10020 + of_nat k)"
      by (simp add: override_line_def io_apic_regs[OF io])
    have "regs (override_line io ov k ?d) (IO_APIC_RED p + 1) = regs d (IO_APIC_RED p + 1) \<and>
        BIT_TEST (regs (override_line io ov k ?d) (IO_APIC_RED p)) 16" if "unat p < 24" for p
      using IH that io_apic_red_eq(2)[OF uk that] masked_values[OF k] unfolding w by (auto simp del: of_nat_Suc)
    moreover have "regs (override_line io ov k ?d) (IO_APIC_RED (ov ! i)) = 0x10020 + of_nat i"
      if "ov ! i = of_nat i \<or> i < Suc k"
    proof (cases "k = i")
      case True
      then show ?thesis unfolding w by simp
    next
      case ne: False
      have "ov ! k \<noteq> ov ! i" using own k ne False by auto
      then have "IO_APIC_RED (ov ! i) \<noteq> IO_APIC_RED (ov ! k)" using io_apic_red_eq(1)[OF ui uk] by auto
      then show ?thesis unfolding w using IH that ne by auto
    qed
    ultimately show ?thesis unfolding step by blast
  qed
qed

lemma lines_split: "fold (\<lambda>n. clear_line io a (of_nat n)) [16..<24] (fold (\<lambda>n. set_line io a (of_nat n)) [0..<16] d) =
    fold (\<lambda>n. if n < 16 then set_line io a (of_nat n) else clear_line io a (of_nat n)) [0..<24] d"
proof -
  have "[0..<24] = [0..<16] @ [16..<24]" using upt_add_eq_append[of 0 16 8] by simp
  moreover have "fold (\<lambda>n. if n < 16 then set_line io a (of_nat n) else clear_line io a (of_nat n)) [0..<16] d
      = fold (\<lambda>n. set_line io a (of_nat n)) [0..<16] d" by (rule fold_cong) simp_all
  moreover have "fold (\<lambda>n. if n < 16 then set_line io a (of_nat n) else clear_line io a (of_nat n)) [16..<24] e
      = fold (\<lambda>n. clear_line io a (of_nat n)) [16..<24] e" for e by (rule fold_cong) auto
  ultimately show ?thesis by simp
qed

lemma routing_ok:
  assumes io: "io_apic_law io sel regs" and ov: "\<forall>n < 16. unat (ov ! n) < 24" and i: "i < 16"
    and own: "\<forall>j < 16. j \<noteq> i \<longrightarrow> ov ! j = ov ! i \<longrightarrow> ov ! j = of_nat j"
    and init: "init_lines io ov d = (a, d')"
  shows "(\<forall>p. unat p < 24 \<longrightarrow> BIT_TEST (regs d' (IO_APIC_RED p)) 16) \<and> a = apic_id_of io d \<and>
    (let d'' = enableIRQ io ov (of_nat i) d'; r = IO_APIC_RED (ov ! i)
     in regs d'' = (regs d')(r := 0x20 + of_nat i) \<and> regs d'' (r + 1) = push_bit 24 (ucast a) \<and>
        regs (disableIRQ io ov (of_nat i) d'') = regs d')"
proof -
  define d1 where "d1 = fold (\<lambda>n. if n < 16 then set_line io a (of_nat n) else clear_line io a (of_nat n)) [0..<24] d"
  have a: "a = apic_id_of io d" and d': "d' = snd (io_apic_read io 0 (enable_apic io (fold (override_line io ov) [0..<16] d1)))"
    using init[unfolded init_lines_def Let_def lines_split, THEN prod.inject[THEN iffD1]] unfolding d1_def by blast+
  have f: "regs d1 (IO_APIC_RED p) = (if unat p < 16 then 0x10020 + p else 0x10000) \<and> regs d1 (IO_APIC_RED p + 1) = push_bit 24 (ucast a)"
    if "unat p < 24" for p
    using first_lines[OF io order_refl, of a d, rule_format, OF that] by (simp add: d1_def[symmetric])
  have masked: "\<forall>p. unat p < 24 \<longrightarrow> BIT_TEST (regs d1 (IO_APIC_RED p)) 16"
  proof (intro allI impI)
    fix p :: u32
    assume p: "unat p < 24"
    show "BIT_TEST (regs d1 (IO_APIC_RED p)) 16"
      using f[OF p] masked_values[of "unat p"] by (simp add: BIT_TEST_def)
  qed
  have "unat (of_nat i :: u32) = i" using i by (simp add: unat_of_nat_small)
  then have start: "ov ! i = of_nat i \<longrightarrow> regs d1 (IO_APIC_RED (ov ! i)) = 0x10020 + of_nat i"
    using f[of "of_nat i"] i by auto
  note o = override_lines[OF io ov i own start masked order_refl]
  have regs': "regs d' = regs (fold (override_line io ov) [0..<16] d1)" by (simp add: d' io_apic_regs[OF io])
  have ui: "unat (ov ! i) < 24" using ov i by simp
  have low: "regs d' (IO_APIC_RED (ov ! i)) = 0x10020 + of_nat i" and high: "regs d' (IO_APIC_RED (ov ! i) + 1) = push_bit 24 (ucast a)"
    using o i f[OF ui] ui unfolding regs' by auto
  have u8: "unat (of_nat i :: u8) = i" using i by (simp add: unat_of_nat_small)
  have e: "regs (enableIRQ io ov (of_nat i) d') = (regs d')(IO_APIC_RED (ov ! i) := 0x20 + of_nat i)"
    by (simp add: enableIRQ_def Let_def u8 case_prod_beta io_apic_regs[OF io] low unmasked_values[OF i])
  have "regs (disableIRQ io ov (of_nat i) (enableIRQ io ov (of_nat i) d')) = regs d'"
    by (rule ext) (simp add: disableIRQ_def Let_def u8 case_prod_beta io_apic_regs[OF io] e remasked_values[OF i] low)
  then show ?thesis using a o e high io_apic_red_eq(2)[OF ui ui] unfolding regs'[symmetric] by (simp add: Let_def)
qed

text \<open>
  C19. Interrupt routing: after \<^verbatim>\<open>init_apic\<close> has programmed the redirection table with the overrides
  of the ACPI tables, every pin is masked, and \<^verbatim>\<open>enableIRQ(i)\<close> unmasks exactly the pin of line \<open>i\<close>, with
  vector 0x20 + \<open>i\<close> and this processor as the destination; \<^verbatim>\<open>disableIRQ\<close> undoes it. The line must not
  share its pin with another override.
\<close>

theorem irq_routing:
  assumes io: "io_apic_law io sel regs" and ov: "\<forall>n < 16. unat (ov ! n) < 24" and i: "i < 16"
    and own: "\<forall>j < 16. j \<noteq> i \<longrightarrow> ov ! j = ov ! i \<longrightarrow> ov ! j = of_nat j"
    and init: "init_lines io ov d = (a, d')"
  shows "(\<forall>p. unat p < 24 \<longrightarrow> BIT_TEST (regs d' (IO_APIC_RED p)) 16) \<and> a = apic_id_of io d \<and>
    (let d'' = enableIRQ io ov (of_nat i) d'; r = IO_APIC_RED (ov ! i)
     in regs d'' = (regs d')(r := 0x20 + of_nat i) \<and> regs d'' (r + 1) = push_bit 24 (ucast a) \<and>
        regs (disableIRQ io ov (of_nat i) d'') = regs d')"
  by (rule routing_ok[OF assms])

text \<open>Registers that follow the law, and the usual override of the timer line to pin 2.\<close>

definition plain_mmio :: "(u32 \<times> (u32 \<Rightarrow> u32) \<times> (u32 \<Rightarrow> u32)) mmio" where
  "plain_mmio = \<lparr>mread = \<lambda>a (s, r, l). if a = IO_APIC_ADDR + 0x10 then r s else l a,
     mwrite = \<lambda>a v (s, r, l). if a = IO_APIC_ADDR then (v, r, l) else if a = IO_APIC_ADDR + 0x10 then (s, r(s := v), l) else (s, r, l(a := v))\<rparr>"

lemma plain_mmio_law: "io_apic_law plain_mmio fst (\<lambda>(s, r, l). r)"
  by (auto simp: io_apic_law_def plain_mmio_def)

theorem irq_routing_witness:
  "\<exists>a d'. init_lines plain_mmio (2 # map of_nat [1..<16]) (0, \<lambda>_. 0, \<lambda>_. 0x07000000) = (a, d') \<and>
     (\<lambda>(s, r, l). r) (enableIRQ plain_mmio (2 # map of_nat [1..<16]) (of_nat 0) d') 0x14 = 0x20"
proof -
  define ov :: "u32 list" where "ov = 2 # map of_nat [1..<16]"
  obtain a d' where i: "init_lines plain_mmio ov (0, \<lambda>_. 0, \<lambda>_. 0x07000000) = (a, d')" by (rule prod.exhaust)
  have ov: "\<forall>n < 16. unat (ov ! n) < 24" "\<forall>j < 16. j \<noteq> 0 \<longrightarrow> ov ! j = ov ! 0 \<longrightarrow> ov ! j = of_nat j" "ov ! 0 = 2"
    unfolding ov_def by (auto simp: nth_Cons' unat_of_nat_small)
  have "(\<lambda>(s, r, l). r) (enableIRQ plain_mmio ov (of_nat 0) d') 0x14 = 0x20"
    using irq_routing[OF plain_mmio_law ov(1) _ ov(2) i] by (simp add: Let_def IO_APIC_RED_def ov(3))
  then show ?thesis using i unfolding ov_def by blast
qed

section \<open>Parsing the MADT\<close>

text \<open>
  An entry is its type and what follows the type and length bytes. \<open>madt_fold\<close> is the reading the ACPI
  specification gives to a list of entries, one after the other; None stands for a second I/O APIC.
\<close>

type_synonym madt_item = "u8 \<times> u8 list"

abbreviation (input) item_bytes :: "madt_item \<Rightarrow> u8 list" where
  "item_bytes e \<equiv> fst e # of_nat (2 + length (snd e)) # snd e"

definition word_at :: "u8 list \<Rightarrow> nat \<Rightarrow> u32" where
  "word_at p k = ucast (p ! k) OR push_bit 8 (ucast (p ! (k + 1))) OR push_bit 16 (ucast (p ! (k + 2)))
     OR push_bit 24 (ucast (p ! (k + 3)))"

definition item_ok :: "madt_item \<Rightarrow> bool" where
  "item_ok = (\<lambda>(t, p). length p < 254 \<and> (t = 1 \<longrightarrow> 6 \<le> length p \<and> word_at p 2 \<noteq> 0) \<and>
     (t = 2 \<longrightarrow> 6 \<le> length p \<and> p ! 1 < 16))"

definition processors :: "madt_item list \<Rightarrow> nat" where
  "processors es = length [e \<leftarrow> es. fst e = 0]"

definition io_apics :: "madt_item list \<Rightarrow> u32 list" where
  "io_apics es = [word_at p 2. (t, p) \<leftarrow> es, t = 1]"

definition overrides :: "madt_item list \<Rightarrow> u32 list \<Rightarrow> u32 list" where
  "overrides es ov = fold (\<lambda>(t, p) ov. if t = 2 then ov[unat (p ! 1) := word_at p 2] else ov) es ov"

definition bytes_at :: "bytes \<Rightarrow> u32 \<Rightarrow> u8 list \<Rightarrow> bool" where
  "bytes_at m a bs \<longleftrightarrow> (\<forall>i < length bs. m (a + of_nat i) = bs ! i)"

lemma bytes_at_Cons: "bytes_at m a (b # bs) \<longleftrightarrow> m a = b \<and> bytes_at m (a + 1) bs"
  by (auto simp: bytes_at_def less_Suc_eq_0_disj algebra_simps)

lemma bytes_at_append: "bytes_at m a (xs @ ys) \<longleftrightarrow> bytes_at m a xs \<and> bytes_at m (a + of_nat (length xs)) ys"
  by (induction xs arbitrary: a) (auto simp: bytes_at_Cons bytes_at_def[of _ _ "[]"] algebra_simps)

lemma bytes_at_word: "bytes_at m a p \<Longrightarrow> k + 4 \<le> length p \<Longrightarrow> load32 m (a + of_nat k) = word_at p k"
proof -
  assume h: "bytes_at m a p" "k + 4 \<le> length p"
  have n: "m (a + of_nat k + of_nat i) = p ! (k + i)" if "i < 4" for i
    using h that unfolding bytes_at_def by (simp add: algebra_simps flip: of_nat_add)
  show ?thesis using n[of 0] n[of 1] n[of 2] n[of 3] by (simp add: load32_def word_at_def)
qed

text \<open>A second I/O APIC keeps the loop at its entry.\<close>

lemma madt_stuck:
  assumes "len \<noteq> 0" "madt_entry m header st = None"
  shows "madt_loop m header len st = None"
proof -
  have "len = 0 \<or> madt_entry m header st \<noteq> None" if "madt_loop m header len st = Some y" for y
    using _ that
    by (rule madt_loop.raw_induct[where P = "\<lambda>m h l s y. l = 0 \<or> madt_entry m h s \<noteq> None"])
      (fastforce split: if_splits option.splits)
  then show ?thesis using assms by (cases "madt_loop m header len st") auto
qed

lemma madt_entry_item:
  assumes "bytes_at m a (item_bytes (t, p))" "item_ok (t, p)"
  shows "madt_entry m a (n, b, ov) =
     (if t = 0 then Some (Inr (n + 1, b, ov))
      else if t = 1 then if b \<noteq> 0 then None else Some (Inr (n, word_at p 2, ov))
      else Some (Inr (n, b, overrides [(t, p)] ov)))"
    "ucast (m (a + 1)) = (of_nat (length (item_bytes (t, p))) :: u32)"
proof -
  have b: "m a = t" "m (a + 1) = of_nat (2 + length p)" and p: "bytes_at m (a + 1 + 1) p"
    using assms(1) by (simp_all add: bytes_at_Cons)
  have w: "load32 m (a + 4) = word_at p 2" if "6 \<le> length p"
    using bytes_at_word[OF p, of 2] that by (simp add: algebra_simps)
  have s: "m (a + 3) = p ! 1" if "6 \<le> length p"
    using p that unfolding bytes_at_def by (auto simp: algebra_simps dest!: spec[of _ 1])
  show "madt_entry m a (n, b, ov) =
     (if t = 0 then Some (Inr (n + 1, b, ov))
      else if t = 1 then if b \<noteq> 0 then None else Some (Inr (n, word_at p 2, ov))
      else Some (Inr (n, b, overrides [(t, p)] ov)))"
    using assms(2) w s by (auto simp: madt_entry_def b item_ok_def overrides_def not_le)
  have "length p < 254" using assms(2) by (simp add: item_ok_def)
  then have "unat (of_nat (2 + length p) :: u8) = 2 + length p" by (subst unat_of_nat_small) auto
  then have "unat (ucast (m (a + 1)) :: u32) = 2 + length p" unfolding b by (simp add: unat_ucast_widen)
  then have "ucast (m (a + 1)) = (of_nat (2 + length p) :: u32)" by (rule word_of_natI)
  then show "ucast (m (a + 1)) = (of_nat (length (item_bytes (t, p))) :: u32)" by simp
qed

lemma overrides_Cons: "overrides ((t, p) # es) ov = overrides es (overrides [(t, p)] ov)"
  by (simp add: overrides_def)

lemma overrides_other: "t \<noteq> 2 \<Longrightarrow> overrides [(t, p)] ov = ov"
  by (simp add: overrides_def)

lemma madt_loop_items:
  assumes "bytes_at m a (concat (map (\<lambda>e. item_bytes e) es))" "\<forall>e \<in> set es. item_ok e"
    "length (concat (map (\<lambda>e. item_bytes e) es)) < 2 ^ 32"
  shows "madt_loop m a (of_nat (length (concat (map (\<lambda>e. item_bytes e) es)))) (n, b, ov) =
    (case (if b = 0 then io_apics es else b # io_apics es) of
       [] \<Rightarrow> Some (Inr (n + of_nat (processors es), 0, overrides es ov))
     | [b'] \<Rightarrow> Some (Inr (n + of_nat (processors es), b', overrides es ov))
     | _ \<Rightarrow> None)"
  using assms
proof (induction es arbitrary: a n b ov)
  case Nil
  then show ?case by (simp add: madt_loop.simps[of _ _ 0] io_apics_def processors_def overrides_def)
next
  case (Cons e es)
  obtain t p where e: "e = (t, p)" by (rule prod.exhaust)
  define L where "L = length (concat (map (\<lambda>e. item_bytes e) es))"
  define k where "k = length (item_bytes e)"
  have len: "length (concat (map (\<lambda>e. item_bytes e) (e # es))) = k + L" by (simp add: L_def k_def)
  have ok: "item_ok (t, p)" and oks: "\<forall>e \<in> set es. item_ok e" using Cons.prems(2) e by auto
  have here: "bytes_at m a (item_bytes (t, p))" and rest: "bytes_at m (a + of_nat k) (concat (map (\<lambda>e. item_bytes e) es))"
    using Cons.prems(1) unfolding e by (simp_all add: bytes_at_append bytes_at_Cons k_def e algebra_simps)
  have kL: "k + L < 2 ^ 32" using Cons.prems(3) unfolding len .
  have nz: "(of_nat (k + L) :: u32) \<noteq> 0"
  proof
    assume "(of_nat (k + L) :: u32) = 0"
    moreover have "unat (of_nat (k + L) :: u32) = k + L" by (rule unat_of_nat_small) (use kL in simp)
    ultimately show False by (simp add: k_def)
  qed
  have w: "ucast (m (a + 1)) = (of_nat k :: u32)" using madt_entry_item(2)[OF here ok] by (simp add: k_def e)
  have IH: "madt_loop m (a + of_nat k) (of_nat L) (n, b, ov) =
    (case (if b = 0 then io_apics es else b # io_apics es) of
       [] \<Rightarrow> Some (Inr (n + of_nat (processors es), 0, overrides es ov))
     | [b'] \<Rightarrow> Some (Inr (n + of_nat (processors es), b', overrides es ov))
     | _ \<Rightarrow> None)" for n b ov
    using Cons.IH[OF rest oks] kL unfolding L_def by simp
  have step: "madt_loop m a (of_nat (k + L)) (n, b, ov) =
    (case madt_entry m a (n, b, ov) of None \<Rightarrow> None | Some (Inl er) \<Rightarrow> Some (Inl er)
      | Some (Inr st) \<Rightarrow> madt_loop m (a + of_nat k) (of_nat L) st)"
  proof (cases "madt_entry m a (n, b, ov)")
    case None
    then show ?thesis using madt_stuck[OF nz None] by simp
  next
    case (Some r)
    then show ?thesis by (subst madt_loop.simps) (use nz in \<open>simp add: w split: sum.splits\<close>)
  qed
  have p: "processors ((t, p) # es) = (if t = 0 then 1 else 0) + processors es"
    and i: "io_apics ((t, p) # es) = (if t = 1 then [word_at p 2] else []) @ io_apics es"
    by (simp_all add: processors_def io_apics_def)
  consider "t = 0" | "t = 1" "b = 0" | "t = 1" "b \<noteq> 0" | "t \<noteq> 0" "t \<noteq> 1" by blast
  then show ?case
  proof cases
    case 1
    then show ?thesis
      unfolding len step unfolding madt_entry_item(1)[OF here ok] e p i overrides_Cons[of t p es]
      by (auto simp: IH overrides_other add.assoc split: list.splits)
  next
    case 2
    then have "word_at p 2 \<noteq> 0" using ok by (simp add: item_ok_def)
    then show ?thesis
      using 2 unfolding len step unfolding madt_entry_item(1)[OF here ok] e p i overrides_Cons[of t p es]
      by (simp add: IH overrides_other)
  next
    case 3
    then show ?thesis unfolding len step unfolding madt_entry_item(1)[OF here ok] e i by simp
  next
    case 4
    then show ?thesis
      unfolding len step unfolding madt_entry_item(1)[OF here ok] e p i overrides_Cons[of t p es]
      by (auto simp: IH split: list.splits)
  qed
qed

text \<open>
  C21. Reading the MADT: of a well-formed table with one I/O APIC the parser returns the number of
  processors (modulo 256), the address of that I/O APIC and the interrupt overrides entered in order;
  without an I/O APIC it halts the machine; with two it never returns, since the \<^verbatim>\<open>continue\<close> skips the
  step to the next entry.
\<close>

theorem madt_parse:
  assumes "bytes_at m (madt + 44) (concat (map (\<lambda>e. item_bytes e) es))" "\<forall>e \<in> set es. item_ok e"
    and "load32 m (madt + 4) = 44 + of_nat (length (concat (map (\<lambda>e. item_bytes e) es)))"
    and "length (concat (map (\<lambda>e. item_bytes e) es)) < 2 ^ 32"
  shows "acpi_apic madt ov m =
    (case io_apics es of
       [] \<Rightarrow> Some (Inl Halt)
     | [b] \<Rightarrow> Some (Inr (of_nat (processors es), b, overrides es ov))
     | _ \<Rightarrow> None)"
proof -
  have "b \<noteq> 0" if "b \<in> set (io_apics es)" for b
    using that assms(2) by (force simp: io_apics_def item_ok_def split: if_splits)
  then show ?thesis
    using madt_loop_items[OF assms(1,2,4), of 0 0 ov]
    unfolding acpi_apic_def assms(3) by (auto simp: and_then_def split: list.splits)
qed

text \<open>Two processors, an I/O APIC at 0xFEC00000 and the timer line on pin 2.\<close>

definition sample_items :: "madt_item list" where
  "sample_items = [(0, [0, 0, 1, 0, 0, 0]), (0, [1, 1, 1, 0, 0, 0]),
     (1, [2, 0, 0, 0, 0xC0, 0xFE, 0, 0, 0, 0]), (2, [0, 0, 2, 0, 0, 0, 0, 0])]"

definition sample_madt :: bytes where
  "sample_madt a = (if 44 \<le> a \<and> a < 82
     then concat (map (\<lambda>e. item_bytes e) sample_items) ! unat (a - 44) else if a = 4 then 82 else 0)"

theorem madt_parse_witness:
  "acpi_apic 0 (map of_nat [0..<16]) sample_madt = Some (Inr (2, 0xFEC00000, 2 # map of_nat [1..<16]))"
proof -
  have l: "length (concat (map (\<lambda>e. item_bytes e) sample_items)) = 38" by (simp add: sample_items_def)
  have "bytes_at sample_madt 44 (concat (map (\<lambda>e. item_bytes e) sample_items))"
    unfolding bytes_at_def l
  proof (intro allI impI)
    fix i :: nat
    assume i: "i < 38"
    have "unat (44 + of_nat i :: u32) = 44 + i" using i by (subst unat_plus_small) (simp_all add: unat_of_nat_small)
    then show "sample_madt (44 + of_nat i) = concat (map (\<lambda>e. item_bytes e) sample_items) ! i"
      using i by (auto simp: sample_madt_def word_less_nat_alt word_le_nat_alt unat_of_nat_small)
  qed
  moreover have "\<forall>e \<in> set sample_items. item_ok e" by (simp add: sample_items_def item_ok_def word_at_def)
  moreover have "load32 sample_madt 4 = 82" by (simp add: load32_def sample_madt_def)
  ultimately have "acpi_apic 0 (map of_nat [0..<16]) sample_madt = (case io_apics sample_items of
       [] \<Rightarrow> Some (Inl Halt)
     | [b] \<Rightarrow> Some (Inr (of_nat (processors sample_items), b, overrides sample_items (map of_nat [0..<16])))
     | _ \<Rightarrow> None)"
    using madt_parse[of sample_madt 0 sample_items "map of_nat [0..<16]"] l by simp
  then show ?thesis
    by (simp add: sample_items_def io_apics_def processors_def overrides_def word_at_def upt_rec)
qed

end
