(* ===== verification/Boot.thy ===== *)
theory Boot
  imports Page
begin

text \<open>
  Setting up memory: \<^verbatim>\<open>kernel/memory/paging.c\<close> and \<^verbatim>\<open>init_memory\<close> of
  \<^verbatim>\<open>kernel/memory/memory.c\<close>. The memory map of the BIOS is the argument; the loads of CR3 and the
  console output are left out. The lemmas say what the kernel's page tables translate and which
  memory the allocator is given.
\<close>

section \<open>Page tables of the kernel\<close>

text \<open>
  The table of all physical pages: 4 MB are taken, those the memory does not need are given back.
  The results are \<^verbatim>\<open>flatPTEs\<close> and \<^verbatim>\<open>allocpages\<close>.
\<close>

definition flat_table :: "u32 \<Rightarrow> kmem \<Rightarrow> kerror + (u32 \<times> u32 \<times> kmem)" where
  "flat_table memsize s =
     (let pages = va2flat_pte memsize in
      and_then (memory_alloc 22 s) (\<lambda>(flatPTEs, s).
      let allocpages = (pages + 1024 - 1) AND NOT (1024 - 1) in
      and_then (memory_free_nocheck (flatPTEs + allocpages * 4) (push_bit 22 1 - allocpages * 4) s) (\<lambda>s.
      let s = fold (\<lambda>i. store_entry flatPTEs (of_nat i) (of_nat i * 0x1000 + 0b11111)) [0..<unat pages] s;
          s = fold (\<lambda>i. store_entry flatPTEs (of_nat i) (of_nat i * 0x1000)) [unat pages..<unat allocpages] s
      in Inr (flatPTEs, allocpages, s))))"

text \<open>A processor's copy of the first table, with a page of its own at \<^verbatim>\<open>KERNEL_STRUCTURE\<close>.\<close>

definition own_table :: "u32 \<Rightarrow> kmem \<Rightarrow> kerror + (u32 \<times> kmem)" where
  "own_table flatPTEs s =
     and_then (memory_alloc 12 s) (\<lambda>(kernel_page, s).
     let s = copy_words kernel_page flatPTEs 1024 s in
     and_then (memory_alloc 12 s) (\<lambda>(page, s).
     Inr (kernel_page, store_entry kernel_page (va2flat_pte 0x7000) (page - PAGE_OFFSET + 0b11111) s)))"

definition kernel_directory :: "u32 \<Rightarrow> u32 \<Rightarrow> u32 \<Rightarrow> kmem \<Rightarrow> kerror + (u32 \<times> kmem)" where
  "kernel_directory flatPTEs allocpages kernel_page s =
     and_then (memory_alloc 12 s) (\<lambda>(kernelPDE, s).
     let maxpdeentry = allocpages div 1024;
         maxpdeentry = (if va2pde 0x30000000 < maxpdeentry then va2pde 0x30000000 else maxpdeentry);
         offset = unat (va2pde PAGE_OFFSET);
         s = fold (\<lambda>i. store_entry kernelPDE (of_nat i) 0) [0..<offset] s;
         s = store_entry kernelPDE (of_nat offset) (va2pa kernel_page + 0b11111) s;
         s = fold (\<lambda>i. store_entry kernelPDE (of_nat (offset + i)) (va2pa flatPTEs + of_nat i * 0x1000 + 0b11111))
               [1..<unat maxpdeentry] s;
         s = fold (\<lambda>i. store_entry kernelPDE (of_nat (offset + i)) 0) [max 1 (unat maxpdeentry)..<1024 - offset] s
     in Inr (kernelPDE, s))"

definition init_paging :: "u32 \<Rightarrow> kmem \<Rightarrow> kerror + (u32 \<times> u32 \<times> kmem)" where
  "init_paging memsize s =
     and_then (flat_table memsize s) (\<lambda>(flatPTEs, allocpages, s).
     and_then (own_table flatPTEs s) (\<lambda>(kernel_page, s).
     and_then (kernel_directory flatPTEs allocpages kernel_page s) (\<lambda>(kernelPDE, s).
     Inr (flatPTEs, kernelPDE, s))))"

definition init_paging_ap :: "u32 \<Rightarrow> u32 \<Rightarrow> kmem \<Rightarrow> kerror + kmem" where
  "init_paging_ap flatPTEs kernelPDE s =
     and_then (own_table flatPTEs s) (\<lambda>(kernel_page, s).
     Inr (store_entry kernelPDE (va2pde PAGE_OFFSET) (va2pa kernel_page + 0b11111) s))"

section \<open>The memory map\<close>

record ards =
  ards_base :: u64
  ards_limit :: u64
  ards_type :: u32

abbreviation (input) KERNEL_END :: u32 where "KERNEL_END \<equiv> 0x10A000"
abbreviation (input) LOADER_MAPPED :: u32 where "LOADER_MAPPED \<equiv> 0x1000000"
abbreviation (input) MAX_MAPPING :: u32 where "MAX_MAPPING \<equiv> 0x30000000"

text \<open>
  The part of an item that the first and the second loop give to the allocator: its physical
  address and length, if any. Addresses and lengths are cut to 32 bits as in the code; both loops
  clip in the same way.
\<close>

definition clip :: "u32 \<Rightarrow> u32 \<Rightarrow> u32 \<Rightarrow> u32 \<Rightarrow> (u32 \<times> u32) option" where
  "clip lo hi base limit =
     (if base < lo \<and> limit + base \<le> lo then None
      else
        let (base, limit) = (if base < lo then (lo, limit + base - lo) else (base, limit));
            limit = (if hi < base + limit then hi - base else limit)
        in Some (base, limit))"

definition early_range :: "ards \<Rightarrow> (u32 \<times> u32) option" where
  "early_range ai =
     (if ards_type ai = 1 \<and> ards_base ai < 0x1000000
      then clip KERNEL_END LOADER_MAPPED (ucast (ards_base ai)) (ucast (ards_limit ai)) else None)"

definition late_range :: "ards \<Rightarrow> (u32 \<times> u32) option" where
  "late_range ai =
     (if ards_type ai = 1 \<and> ards_base ai < 0x30000000
      then clip LOADER_MAPPED MAX_MAPPING (ucast (ards_base ai)) (ucast (ards_limit ai)) else None)"

fun free_ranges :: "(ards \<Rightarrow> (u32 \<times> u32) option) \<Rightarrow> ards list \<Rightarrow> kmem \<Rightarrow> kerror + kmem" where
  "free_ranges part [] s = Inr s"
| "free_ranges part (ai # items) s =
     and_then (case part ai of None \<Rightarrow> Inr s | Some (base, limit) \<Rightarrow> memory_free_nocheck (PAGE_OFFSET + base) limit s)
       (free_ranges part items)"

text \<open>\<^verbatim>\<open>max\<close> after the first loop: the end of the last item of type 1, 3 or 4.\<close>

definition memory_top :: "ards list \<Rightarrow> u64" where
  "memory_top items = fold (\<lambda>ai m. if ards_type ai \<in> {1, 3, 4} then ards_base ai + ards_limit ai else m) items 0"

text \<open>
  Page faults are not modelled: every access here is taken to succeed. \<open>memory_set_up\<close> states for which
  memory maps the bytes involved are mapped.
\<close>

definition init_memory :: "ards list \<Rightarrow> kmem \<Rightarrow> kerror + (u32 \<times> u32 \<times> kmem)" where
  "init_memory items s =
     and_then (free_ranges early_range items s) (\<lambda>s.
     if memory_top items < 0x1000000 then Inl Halt
     else and_then (init_paging (ucast (memory_top items)) s) (\<lambda>(flatPTEs, kernelPDE, s).
     and_then (free_ranges late_range items s) (\<lambda>s.
     Inr (flatPTEs, kernelPDE, s))))"

section \<open>Runs of stores\<close>

lemma unat_entry:
  fixes t :: u32
  assumes "unat t + 4 * i < 2 ^ 32"
  shows "unat (t + 4 * of_nat i) = unat t + 4 * i"
proof -
  have i: "unat (of_nat i :: u32) = i" using assms by (intro unat_of_nat_small) simp
  have "unat (4 * of_nat i :: u32) = 4 * i" using assms i by (simp add: unat_word_ariths)
  then show ?thesis using assms by (subst unat_plus_small) simp_all
qed

lemma entry_words_ne:
  fixes t :: u32
  assumes "unat t + 4 * i < 2 ^ 32" "unat t + 4 * j < 2 ^ 32" "i \<noteq> j"
  shows "t + 4 * of_nat i \<noteq> t + 4 * of_nat j"
proof
  assume "t + 4 * of_nat i = t + 4 * of_nat j"
  then have "unat (t + 4 * of_nat i) = unat (t + 4 * of_nat j)" by (rule arg_cong)
  then show False using assms(3) unfolding unat_entry[OF assms(1)] unat_entry[OF assms(2)] by simp
qed

lemma fold_store_other:
  "(\<And>i. lo \<le> i \<Longrightarrow> i < hi \<Longrightarrow> x \<noteq> t + 4 * of_nat i) \<Longrightarrow>
    mem (fold (\<lambda>i. store_entry t (of_nat i) (f i)) [lo..<hi] s) x = mem s x"
proof (induction hi)
  case (Suc n)
  then show ?case by (cases "lo \<le> n") (auto simp: store_entry_def)
qed simp

lemma fold_store_at:
  assumes "unat t + 4 * hi \<le> 2 ^ 32" "lo \<le> i" "i < hi"
  shows "mem (fold (\<lambda>i. store_entry t (of_nat i) (f i)) [lo..<hi] s) (t + 4 * of_nat i) = f i"
  using assms
proof (induction hi)
  case (Suc n)
  then show ?case
    using entry_words_ne[of t i n] by (cases "i = n") (auto simp: store_entry_def)
qed simp

lemma fold_store_inv:
  "free_inv s F \<Longrightarrow> (\<And>i. lo \<le> i \<Longrightarrow> i < hi \<Longrightarrow> unat (t + 4 * of_nat i) \<notin> free_area F) \<Longrightarrow>
    free_inv (fold (\<lambda>i. store_entry t (of_nat i) (f i)) [lo..<hi] s) F"
proof (induction hi)
  case (Suc n)
  then show ?case by (cases "lo \<le> n") (auto simp: store_entry_def intro!: free_inv_write)
qed simp

lemma fold_shift: "fold (\<lambda>i. g (k + i)) [a..<b] = fold g [k + a..<k + b]" for k :: nat
proof -
  have "[k + a..<k + b] = map ((+) k) [a..<b]"
    by (rule nth_equalityI) simp_all
  then show ?thesis by (simp add: fold_map o_def)
qed

section \<open>The flat table\<close>

lemma good_sub:
  assumes "good_block a 22" "k < 1024"
  shows "good_block (a + of_nat k * 0x1000) 12" "unat (a + of_nat k * 0x1000) = unat a + 4096 * k"
proof -
  have "(a :: u32) + of_nat k * 0x1000 = a + 4 * of_nat (1024 * k)" by (simp add: mult.commute)
  then show u: "unat (a + of_nat k * 0x1000) = unat a + 4096 * k"
    using assms unat_entry[of a "1024 * k"] by (simp add: good_block_def mult.commute)
  have "(2 :: nat) ^ 12 dvd 2 ^ 22" by (rule le_imp_power_dvd) simp
  then have "2 ^ 12 dvd unat a" using assms(1) unfolding good_block_def by (meson dvd_trans)
  then show "good_block (a + of_nat k * 0x1000) 12" using assms unfolding good_block_def u by auto
qed

lemma round_up_1024:
  assumes "unat p < 2 ^ 20"
  shows "unat ((p + 1024 - 1) AND NOT (1024 - 1) :: u32) = 1024 * ((unat p + 1023) div 1024)"
proof -
  have "p + 1024 - 1 = p + (0x3FF :: u32)" by simp
  then have u: "unat (p + 1024 - 1) = unat p + 1023" using assms by (simp add: unat_plus_small)
  have "unat ((p + 1024 - 1) AND NOT (1024 - 1)) = unat (p + 1024 - 1) - unat (p + 1024 - 1) mod 1024"
  proof -
    have "(x :: u32) AND NOT (1024 - 1) = push_bit 10 (drop_bit 10 x)" for x
    proof -
      have "(1024 - 1 :: u32) = mask 10" by (simp add: mask_eq_exp_minus_1)
      then show ?thesis by (auto simp: bit_eq_iff bit_simps simp del: diff_numeral_simps)
    qed
    moreover have "push_bit 10 (drop_bit 10 x) = x - take_bit 10 x" for x :: u32
      using bits_ident[of 10 x] by (metis add_diff_cancel_right')
    moreover have "unat (take_bit 10 x) = unat x mod 1024" for x :: u32
      unfolding unsigned_take_bit_eq by (simp add: take_bit_eq_mod)
    ultimately show ?thesis by (metis unat_minus_le mod_less_eq_dividend word_le_nat_alt)
  qed
  then show ?thesis unfolding u by (metis minus_mod_eq_mult_div)
qed

lemma unat_va2flat_pte: "unat (va2flat_pte x) = unat x div 4096"
  unfolding va2flat_pte_def drop_bit_eq_div by (simp add: unat_div_distrib)

abbreviation (input) table_pages :: "u32 \<Rightarrow> nat" where
  "table_pages memsize \<equiv> 1024 * ((unat (va2flat_pte memsize) + 1023) div 1024)"

definition flat_bytes :: "u32 \<Rightarrow> u32 \<Rightarrow> nat set" where
  "flat_bytes flat memsize = {unat flat ..< unat flat + 4 * table_pages memsize}"

definition flat_entries :: "u32 \<Rightarrow> u32 \<Rightarrow> kmem \<Rightarrow> bool" where
  "flat_entries flat memsize s \<longleftrightarrow> (\<forall>i < table_pages memsize.
     mem s (flat + 4 * of_nat i) = of_nat i * 0x1000 + (if i < unat (va2flat_pte memsize) then 31 else 0))"

lemma table_pages_bound: "table_pages memsize \<le> 2 ^ 20" "unat (va2flat_pte memsize) \<le> table_pages memsize"
proof -
  have p: "unat (va2flat_pte memsize) < 2 ^ 20"
    using unsigned_less[of memsize, where ?'a = nat] by (simp add: unat_va2flat_pte)
  then show "table_pages memsize \<le> 2 ^ 20" by simp
  show "unat (va2flat_pte memsize) \<le> table_pages memsize" by simp
qed

lemma flat_table_ok:
  assumes inv: "free_inv s F" and big: "\<exists>b \<ge> 22. F b \<noteq> []"
  obtains flat s' F' where "flat_table memsize s = Inr (flat, of_nat (table_pages memsize), s')"
    "good_block flat 22" "block flat 22 \<subseteq> free_area F" "free_inv s' F'"
    "free_area F' = free_area F - flat_bytes flat memsize"
    "\<And>x. unat x \<notin> free_area F \<Longrightarrow> mem s' x = mem s x" "flat_entries flat memsize s'"
proof -
  define n where "n = unat (va2flat_pte memsize)"
  define N where "N = table_pages memsize"
  have n: "n < 2 ^ 20" "n \<le> N" "N \<le> 2 ^ 20"
    using unsigned_less[of memsize, where ?'a = nat] table_pages_bound[of memsize]
    by (simp_all add: n_def N_def unat_va2flat_pte)
  obtain flat s1 F1 where a: "memory_alloc 22 s = Inr (flat, s1)" "good_block flat 22" "block flat 22 \<subseteq> free_area F"
      "free_inv s1 F1" "free_area F1 = free_area F - block flat 22" "\<And>x. unat x \<notin> free_area F - block flat 22 \<Longrightarrow> mem s1 x = mem s x"
    using memory_alloc_ok(1)[OF inv, of 22] big unfolding allocates_def by auto
  have fl: "0xC0000000 \<le> unat flat" "unat flat + 2 ^ 22 \<le> 0xF0000000" "4 dvd unat flat"
    using a(2) by (auto simp: good_block_def intro: dvd_trans[of 4 "2 ^ 22"])
  have "unat ((va2flat_pte memsize + 1024 - 1) AND NOT (1024 - 1)) = N"
    using round_up_1024[of "va2flat_pte memsize"] n(1) by (simp only: n_def N_def)
  then have alloc: "(va2flat_pte memsize + 1024 - 1) AND NOT (1024 - 1) = of_nat N" by (metis word_of_natI)
  have e: "unat (flat + of_nat N * 4) = unat flat + 4 * N"
    using unat_entry[of flat N] n(3) fl by (simp add: mult.commute)
  have "unat (of_nat N * 4 :: u32) = 4 * N"
    using n(3) by (simp add: unat_word_ariths unat_of_nat_small)
  then have z: "unat (push_bit 22 1 - of_nat N * 4 :: u32) = 2 ^ 22 - 4 * N"
    using n(3) by (subst unat_minus_le) (simp_all add: word_le_nat_alt push_bit_eq_mult)
  have sp: "span (flat + of_nat N * 4) (push_bit 22 1 - of_nat N * 4) = {unat flat + 4 * N ..< unat flat + 2 ^ 22}"
    unfolding span_def e z using n(3) by simp
  have sub: "{unat flat + 4 * N ..< unat flat + 2 ^ 22} \<subseteq> block flat 22" by (auto simp: block_def)
  have "frees s1 (free_area F1 \<union> span (flat + of_nat N * 4) (push_bit 22 1 - of_nat N * 4))
      (memory_free_nocheck (flat + of_nat N * 4) (push_bit 22 1 - of_nat N * 4) s1)"
  proof (rule memory_free_nocheck_ok[OF a(4)])
    show "4 dvd unat (flat + of_nat N * 4)" unfolding e using fl by simp
    show "4 dvd unat (push_bit 22 1 - of_nat N * 4 :: u32)" unfolding z using n(3) by (auto intro: dvd_diff_nat)
    show "in_bounds (flat + of_nat N * 4) (push_bit 22 1 - of_nat N * 4)"
      unfolding in_bounds_def e z using fl n(3) by simp
    show "span (flat + of_nat N * 4) (push_bit 22 1 - of_nat N * 4) \<inter> free_area F1 = {}"
      unfolding sp a(5) using sub by blast
  qed
  then obtain s2 F2 where f: "memory_free_nocheck (flat + of_nat N * 4) (push_bit 22 1 - of_nat N * 4) s1 = Inr s2"
      "free_inv s2 F2" "free_area F2 = free_area F1 \<union> {unat flat + 4 * N ..< unat flat + 2 ^ 22}"
      "\<And>x. unat x \<notin> free_area F2 \<Longrightarrow> mem s2 x = mem s1 x"
    unfolding frees_def sp by blast
  have area: "free_area F2 = free_area F - flat_bytes flat memsize"
    unfolding f(3) a(5) flat_bytes_def N_def[symmetric] using a(3) n(3) by (auto simp: block_def)
  have in_flat: "unat (flat + 4 * of_nat i) \<in> flat_bytes flat memsize" if "i < N" for i
    using unat_entry[of flat i] that n(3) fl by (auto simp: flat_bytes_def N_def[symmetric])
  define s3 where "s3 = fold (\<lambda>i. store_entry flat (of_nat i) (of_nat i * 0x1000 + 0b11111)) [0..<n] s2"
  define s4 where "s4 = fold (\<lambda>i. store_entry flat (of_nat i) (of_nat i * 0x1000)) [n..<N] s3"
  have "free_inv s3 F2" unfolding s3_def
    by (rule fold_store_inv[OF f(2)]) (use in_flat n(2) area in auto)
  then have inv4: "free_inv s4 F2" unfolding s4_def
    by (rule fold_store_inv) (use in_flat area in auto)
  have flat_sub: "flat_bytes flat memsize \<subseteq> free_area F"
    using a(3) n(3) by (auto simp: flat_bytes_def block_def N_def[symmetric])
  have other: "mem s4 x = mem s x" if "unat x \<notin> free_area F" for x
  proof -
    have ne: "x \<noteq> flat + 4 * of_nat i" if "i < N" for i
      using in_flat[OF that] flat_sub \<open>unat x \<notin> free_area F\<close> by auto
    have "mem s4 x = mem s3 x" unfolding s4_def by (rule fold_store_other) (use ne in blast)
    also have "\<dots> = mem s2 x" unfolding s3_def by (rule fold_store_other) (use ne n(2) in auto)
    also have "\<dots> = mem s x" using f(4)[of x] a(6)[of x] that area by auto
    finally show ?thesis .
  qed
  have at: "mem s4 (flat + 4 * of_nat i) = of_nat i * 0x1000 + (if i < n then 31 else 0)" if "i < N" for i
  proof (cases "i < n")
    case True
    have "mem s4 (flat + 4 * of_nat i) = mem s3 (flat + 4 * of_nat i)" unfolding s4_def
      by (rule fold_store_other, rule entry_words_ne) (use True that n fl in auto)
    also have "\<dots> = of_nat i * 0x1000 + 0b11111" unfolding s3_def
      by (rule fold_store_at) (use True n fl in auto)
    finally show ?thesis using True by simp
  next
    case False
    have "mem s4 (flat + 4 * of_nat i) = of_nat i * 0x1000" unfolding s4_def
      by (rule fold_store_at) (use False that n fl in auto)
    then show ?thesis using False by simp
  qed
  have uN: "unat (of_nat N :: u32) = N" using n(3) by (intro unat_of_nat_small) simp
  have "flat_table memsize s = Inr (flat, of_nat N, s4)"
    unfolding flat_table_def Let_def a(1) and_then_simps prod.case alloc f(1) uN n_def[symmetric] s4_def s3_def by simp
  then show thesis
    using that[of flat s4 F2] a(2,3) inv4 area other at
    unfolding flat_entries_def N_def n_def by blast
qed

section \<open>A processor's first table and the directory\<close>

lemma own_table_ok:
  assumes inv: "free_inv s F" and r: "2 \<le> room F" and fl: "good_block flat 12" "block flat 12 \<inter> free_area F = {}"
  obtains kp own s' F' where "own_table flat s = Inr (kp, s')" "good_block kp 12" "good_block own 12" "kp \<noteq> own"
    "block kp 12 \<subseteq> free_area F" "block own 12 \<subseteq> free_area F" "free_inv s' F'"
    "free_area F' = free_area F - block kp 12 - block own 12" "room F = room F' + 2"
    "\<And>x. unat x \<notin> free_area F \<Longrightarrow> mem s' x = mem s x"
    "\<And>j. unat j < 1024 \<Longrightarrow> load_entry kp j s' = (if j = 7 then va2pa own + 31 else load_entry flat j s)"
proof -
  have "has_page F" using has_page_room[OF inv] r by simp
  then obtain kp s1 F1 where k: "memory_alloc 12 s = Inr (kp, s1)" "good_block kp 12" "block kp 12 \<subseteq> free_area F"
      "free_inv s1 F1" "free_area F1 = free_area F - block kp 12" "\<And>x. unat x \<notin> free_area F1 \<Longrightarrow> mem s1 x = mem s x"
    using alloc_page[OF inv] by metis
  have r1: "room F = Suc (room F1)" by (rule room_alloc[OF k(2,3,5)])
  have ne: "kp \<noteq> flat" using fl(2) k(3) block_self[of kp 12] by auto
  define s2 where "s2 = copy_words kp flat 1024 s1"
  have dis: "block kp 12 \<inter> free_area F1 = {}" using k(5) by blast
  have inv2: "free_inv s2 F1" unfolding s2_def
    by (rule copy_words_inv[OF k(4)]) (use good_page_room[OF k(2), of 1024] dis in \<open>auto simp: block_def\<close>)
  have l2: "load_entry u i s2 = (if u = kp then load_entry flat i s1 else load_entry u i s1)"
    if "good_block u 12" "unat i < 1024" for u i
    using load_copy_entries[OF k(2) fl(1) ne that, of 0 1024 s1] by (simp add: s2_def)
  have "has_page F1" using has_page_room[OF k(4)] r r1 by simp
  then obtain own s3 F3 where o: "memory_alloc 12 s2 = Inr (own, s3)" "good_block own 12" "block own 12 \<subseteq> free_area F1"
      "free_inv s3 F3" "free_area F3 = free_area F1 - block own 12" "\<And>x. unat x \<notin> free_area F3 \<Longrightarrow> mem s3 x = mem s2 x"
    using alloc_page[OF inv2] by metis
  have r3: "room F1 = Suc (room F3)" by (rule room_alloc[OF o(2,3,5)])
  have seven: "va2flat_pte 0x7000 = 7" by (simp add: va2flat_pte_def drop_bit_eq_div)
  define s4 where "s4 = store_entry kp 7 (own - PAGE_OFFSET + 0b11111) s3"
  have dis3: "block kp 12 \<inter> free_area F3 = {}" using k(5) o(5) by blast
  have inv4: "free_inv s4 F3" unfolding s4_def by (rule store_entry_inv[OF o(4) k(2) dis3]) simp
  have lk: "load_entry kp j s4 = (if j = 7 then va2pa own + 31 else load_entry flat j s)" if "unat j < 1024" for j
  proof (cases "j = 7")
    case True
    then show ?thesis using load_store_entry[OF k(2) k(2), of j 7] by (simp add: s4_def va2pa_def)
  next
    case False
    have "unat (kp + 4 * j) \<notin> free_area F3" using entry_in_block[OF k(2) that] dis3 by blast
    then have "load_entry kp j s4 = load_entry kp j s2"
      using load_store_entry[OF k(2) k(2) that, of 7] False o(6) by (simp add: s4_def load_entry_def)
    also have "\<dots> = load_entry flat j s1" using l2[OF k(2) that] by simp
    also have "\<dots> = load_entry flat j s"
      using entry_in_block[OF fl(1) that] fl(2) k(5,6) unfolding load_entry_def by blast
    finally show ?thesis using False by simp
  qed
  have frame: "mem s4 x = mem s x" if x: "unat x \<notin> free_area F" for x
  proof -
    have "unat x \<notin> block kp 12" using x k(3) by blast
    then have "mem s4 x = mem s3 x" unfolding s4_def using store_outside[OF k(2), of 7 x] by simp
    also have "\<dots> = mem s2 x" using x k(5) o(5,6) by simp
    also have "\<dots> = mem s1 x"
      using copy_written[OF k(2) _ \<open>unat x \<notin> block kp 12\<close> fl(1) ne, of 0 1024] by (simp add: s2_def)
    also have "\<dots> = mem s x" using x k(5,6) by simp
    finally show ?thesis .
  qed
  have "own_table flat s = Inr (kp, s4)"
    unfolding own_table_def k(1) and_then_simps prod.case Let_def s2_def[symmetric] o(1) seven s4_def ..
  moreover have "kp \<noteq> own" using o(3) k(5) block_self[of own 12] by auto
  moreover have "free_area F3 = free_area F - block kp 12 - block own 12" using k(5) o(5) by simp
  moreover have "block own 12 \<subseteq> free_area F" using o(3) k(5) by blast
  ultimately show thesis using that[OF _ k(2) o(2) _ k(3) _ inv4 _ _ frame lk] r1 r3 by simp
qed

abbreviation (input) mapped_tables :: "nat \<Rightarrow> nat" where
  "mapped_tables n \<equiv> min (n div 1024) 192"

lemma kernel_directory_ok:
  assumes inv: "free_inv s F" and r: "1 \<le> room F" and n: "n \<le> 2 ^ 20" "1024 \<le> n"
  obtains kd s' F' where "kernel_directory flat (of_nat n) kp s = Inr (kd, s')" "good_block kd 12"
    "block kd 12 \<subseteq> free_area F" "free_inv s' F'" "free_area F' = free_area F - block kd 12" "room F = room F' + 1"
    "\<And>x. unat x \<notin> free_area F \<Longrightarrow> mem s' x = mem s x"
    "\<And>j. unat j < 1024 \<Longrightarrow> load_entry kd j s' =
       (if unat j < 768 then 0 else if unat j = 768 then va2pa kp + 31
        else if unat j < 768 + mapped_tables n then va2pa flat + of_nat (unat j - 768) * 0x1000 + 31 else 0)"
proof -
  have "has_page F" using has_page_room[OF inv] r by simp
  then obtain kd s1 F1 where k: "memory_alloc 12 s = Inr (kd, s1)" "good_block kd 12" "block kd 12 \<subseteq> free_area F"
      "free_inv s1 F1" "free_area F1 = free_area F - block kd 12" "\<And>x. unat x \<notin> free_area F1 \<Longrightarrow> mem s1 x = mem s x"
    using alloc_page[OF inv] by metis
  define M where "M = mapped_tables n"
  have M: "1 \<le> M" "M \<le> 192" using n by (simp_all add: M_def)
  have "unat (of_nat n :: u32) = n" using n by (intro unat_of_nat_small) simp
  then have un: "unat (of_nat n div 1024 :: u32) = n div 1024" by (simp add: unat_div_distrib)
  have v: "unat (va2pde 0x30000000) = 192" "unat (va2pde PAGE_OFFSET) = 768" by (simp_all add: unat_va2pde)
  have m: "unat (if va2pde 0x30000000 < of_nat n div 1024 then va2pde 0x30000000 else of_nat n div 1024) = M"
    using un v(1) by (simp add: M_def word_less_nat_alt)
  define g where "g i = va2pa flat + of_nat (i - 768) * 0x1000 + 31" for i
  define s2 where "s2 = fold (\<lambda>i. store_entry kd (of_nat i) 0) [0..<768] s1"
  define s3 where "s3 = store_entry kd (of_nat 768) (va2pa kp + 0b11111) s2"
  define s4 where "s4 = fold (\<lambda>i. store_entry kd (of_nat i) (g i)) [769..<768 + M] s3"
  define s5 where "s5 = fold (\<lambda>i. store_entry kd (of_nat i) 0) [768 + M..<1024] s4"
  have g: "fold (\<lambda>i. store_entry kd (of_nat (768 + i)) (va2pa flat + of_nat i * 0x1000 + 0b11111)) [1..<M] s3 = s4"
    using fold_shift[of "\<lambda>i. store_entry kd (of_nat i) (g i)" 768 1 M] by (simp add: s4_def g_def add.commute)
  have z: "fold (\<lambda>i. store_entry kd (of_nat (768 + i)) 0) [M..<256] s4 = s5"
    using fold_shift[of "\<lambda>i. store_entry kd (of_nat i) 0" 768 M 256] by (simp add: s5_def)
  have run: "kernel_directory flat (of_nat n) kp s = Inr (kd, s5)"
    unfolding kernel_directory_def k(1) and_then_simps prod.case Let_def m v s2_def[symmetric] s3_def[symmetric] g
    using z M by (simp add: max_def)
  have kd: "0xC0000000 \<le> unat kd" "unat kd + 4096 \<le> 0xF0000000" using k(2) by (simp_all add: good_block_def)
  have inb: "unat (kd + 4 * of_nat i) \<in> block kd 12" if "i < 1024" for i
    using unat_entry[of kd i] kd that by (auto simp: block_def)
  have dis: "block kd 12 \<inter> free_area F1 = {}" using k(5) by blast
  then have nf: "unat (kd + 4 * of_nat i) \<notin> free_area F1" if "i < 1024" for i using inb[OF that] by blast
  have "free_inv s2 F1" unfolding s2_def by (rule fold_store_inv[OF k(4)]) (use nf in simp)
  then have "free_inv s3 F1" unfolding s3_def by (rule store_entry_inv[OF _ k(2) dis]) simp
  then have "free_inv s4 F1" unfolding s4_def by (rule fold_store_inv) (use nf M in simp)
  then have inv5: "free_inv s5 F1" unfolding s5_def by (rule fold_store_inv) (use nf in simp)
  have other: "mem s5 x = mem s x" if x: "unat x \<notin> free_area F" for x
  proof -
    have ne: "x \<noteq> kd + 4 * of_nat i" if "i < 1024" for i using inb[OF that] x k(3) by blast
    have "mem s5 x = mem s4 x" unfolding s5_def by (rule fold_store_other) (use ne in simp)
    also have "\<dots> = mem s3 x" unfolding s4_def by (rule fold_store_other) (use ne M in simp)
    also have "\<dots> = mem s2 x" unfolding s3_def using ne[of 768] by (simp add: store_entry_def)
    also have "\<dots> = mem s1 x" unfolding s2_def by (rule fold_store_other) (use ne in simp)
    also have "\<dots> = mem s x" using x k(5,6) by simp
    finally show ?thesis .
  qed
  have apart: "kd + 4 * of_nat i \<noteq> kd + 4 * of_nat j" if "i < 1024" "j < 1024" "i \<noteq> j" for i j
    by (rule entry_words_ne) (use kd that in auto)
  have at: "load_entry kd j s5 = (if unat j < 768 then 0 else if unat j = 768 then va2pa kp + 31
      else if unat j < 768 + M then va2pa flat + of_nat (unat j - 768) * 0x1000 + 31 else 0)" if j: "unat j < 1024" for j
  proof -
    define i where "i = unat j"
    have ji: "j = of_nat i" by (simp add: i_def)
    have i: "i < 1024" using j by (simp add: i_def)
    have e5: "mem s5 (kd + 4 * of_nat i) = (if 768 + M \<le> i then 0 else mem s4 (kd + 4 * of_nat i))"
    proof (cases "768 + M \<le> i")
      case True
      then show ?thesis using fold_store_at[of kd 1024 "768 + M" i "\<lambda>_. 0" s4] kd i by (simp add: s5_def)
    next
      case False
      have "mem s5 (kd + 4 * of_nat i) = mem s4 (kd + 4 * of_nat i)" unfolding s5_def
        by (rule fold_store_other, rule apart) (use False i in auto)
      then show ?thesis using False by simp
    qed
    have e4: "mem s4 (kd + 4 * of_nat i) = (if 769 \<le> i \<and> i < 768 + M then g i else mem s3 (kd + 4 * of_nat i))"
    proof (cases "769 \<le> i \<and> i < 768 + M")
      case True
      then show ?thesis using fold_store_at[of kd "768 + M" 769 i g s3] kd M by (simp add: s4_def)
    next
      case False
      have "mem s4 (kd + 4 * of_nat i) = mem s3 (kd + 4 * of_nat i)" unfolding s4_def
        by (rule fold_store_other, rule apart) (use False i M in auto)
      then show ?thesis unfolding if_not_P[OF False] .
    qed
    have e3: "mem s3 (kd + 4 * of_nat i) = (if i = 768 then va2pa kp + 31 else mem s2 (kd + 4 * of_nat i))"
      using apart[OF i, of 768] by (auto simp: s3_def store_entry_def)
    have e2: "mem s2 (kd + 4 * of_nat i) = 0" if "i < 768"
      using fold_store_at[of kd 768 0 i "\<lambda>_. 0" s1] kd that by (simp add: s2_def)
    show ?thesis unfolding load_entry_def ji e5 e4 e3 using e2 i M by (auto simp: g_def unat_of_nat_small)
  qed
  show thesis using that[OF run k(2,3) inv5 k(5) _ other at[unfolded M_def]] room_alloc[OF k(2,3,5)] by simp
qed

section \<open>What the directory translates\<close>

definition kernel_translate :: "kmem \<Rightarrow> u32 \<Rightarrow> u32 \<Rightarrow> u32 option" where
  "kernel_translate s kd la =
     (let e = load_entry kd (va2pde la) s; t = load_entry (table_of e) (va2pte la) s
      in if BIT_TEST e 0 \<and> BIT_TEST t 0 then Some (t AND NOT 0xFFF) else None)"

text \<open>
  The first \<open>pages\<close> pages of memory, at most up to \<^verbatim>\<open>MAX_MAPPING\<close>, at \<^verbatim>\<open>PAGE_OFFSET\<close>, except that page 7
  shows the page \<open>own\<close>.
\<close>

definition kernel_map :: "kmem \<Rightarrow> u32 \<Rightarrow> nat \<Rightarrow> u32 \<Rightarrow> bool" where
  "kernel_map s kd pages own \<longleftrightarrow> (\<forall>la. kernel_translate s kd la =
     (if la < PAGE_OFFSET then None
      else let p = va2flat_pte (va2pa la)
        in if p = 7 then Some (va2pa own) else if unat p < min pages 0x30000 then Some (p * 0x1000) else None))"

lemma aligned_plus_31:
  assumes "x AND 0xFFF = (0 :: u32)"
  shows "(x + 31) AND NOT 0xFFF = x" "BIT_TEST (x + 31) 0" "\<not> BIT_TEST x 0" "x AND NOT 0xFFF = x"
proof -
  have m: "(0xFFF :: u32) = mask 12" "(31 :: u32) = mask 5" by (simp_all add: mask_eq_exp_minus_1)
  have low: "\<not> bit x n" if "n < 12" for n
  proof
    assume "bit x n"
    then have "bit (x AND mask 12) n" using that by (simp add: bit_simps bit_imp_le_length)
    then show False using assms unfolding m(1) by simp
  qed
  have "x AND 31 = 0" unfolding m(2) by (rule bit_eqI) (use low in \<open>auto simp: bit_simps\<close>)
  then have o: "x + 31 = x OR 31" by (rule disjunctive_add_eq_or)
  show "(x + 31) AND NOT 0xFFF = x" unfolding o by (rule entry_page[OF assms]) simp
  show "BIT_TEST (x + 31) 0" unfolding o unfolding m(2) by (simp add: BIT_TEST_bit bit_simps)
  show "\<not> BIT_TEST x 0" using low[of 0] by (simp add: BIT_TEST_bit)
  show "x AND NOT 0xFFF = x" using entry_page[OF assms, of 0] by simp
qed

lemma table_of_plus: "good_block a 12 \<Longrightarrow> table_of (va2pa a + 31) = a"
  using aligned_plus_31(1)[OF va2pa_aligned] by (simp add: table_of_def)

lemma frame_aligned: "unat q < 2 ^ 20 \<Longrightarrow> (q * 0x1000) AND 0xFFF = 0" for q :: u32
proof -
  assume "unat q < 2 ^ 20"
  then have "unat (q * 0x1000) = unat q * 4096" by (simp add: unat_word_ariths)
  then show ?thesis unfolding page_aligned_iff by simp
qed

lemma page_split:
  fixes a :: nat
  assumes "0xC0000000 \<le> a"
  shows "(a - 0xC0000000) div 4096 = 1024 * (a div 4194304 - 768) + a mod 4194304 div 4096"
proof -
  define b where "b = a - 0xC0000000"
  have b: "a = 768 * 4194304 + b" using assms by (simp add: b_def)
  have "a div 4194304 = 768 + b div 4194304" unfolding b by simp
  moreover have "a mod 4194304 = b mod 4194304" unfolding b by (rule mod_mult_self3)
  moreover have "b div 4096 = 1024 * (b div 4194304) + b mod 4194304 div 4096"
    using div_mult2_eq[of b 4096 1024] mod_mult2_eq[of b 4096 1024] div_mult_mod_eq[of "b div 4096" 1024] by simp
  moreover have "a - 0xC0000000 = b" unfolding b by simp
  ultimately show ?thesis by simp
qed

lemma kernel_mapI:
  fixes memsize flat kd kp own :: u32 and s :: kmem
  defines "n \<equiv> unat (va2flat_pte memsize)" and "N \<equiv> table_pages memsize"
  assumes top: "0x1000000 \<le> memsize" and fl: "good_block flat 22" and kp: "good_block kp 12" and own: "good_block own 12"
    and kpe: "\<And>j. unat j < 1024 \<Longrightarrow> load_entry kp j s = (if j = 7 then va2pa own + 31 else load_entry flat j s)"
    and kde: "\<And>j. unat j < 1024 \<Longrightarrow> load_entry kd j s =
       (if unat j < 768 then 0 else if unat j = 768 then va2pa kp + 31
        else if unat j < 768 + mapped_tables N then va2pa flat + of_nat (unat j - 768) * 0x1000 + 31 else 0)"
    and fle: "flat_entries flat memsize s"
  shows "kernel_map s kd n own"
  unfolding kernel_map_def
proof
  fix la :: u32
  have n4096: "4096 \<le> n" using top by (simp add: n_def unat_va2flat_pte word_le_nat_alt)
  have N: "n \<le> N" "N \<le> 2 ^ 20" "1024 dvd N" using table_pages_bound[of memsize] by (simp_all add: n_def N_def)
  define j where "j = va2pte la"
  have j: "unat j < 1024" by (simp add: j_def va2pte_bound)
  have d: "unat (va2pde la) < 1024" by (rule va2pde_bound)
  note flat_at = fle[unfolded flat_entries_def, rule_format, folded n_def N_def]
  show "kernel_translate s kd la =
     (if la < PAGE_OFFSET then None
      else let p = va2flat_pte (va2pa la)
        in if p = 7 then Some (va2pa own) else if unat p < min n 0x30000 then Some (p * 0x1000) else None)"
  proof (cases "la < PAGE_OFFSET")
    case True
    then show ?thesis using kde[OF d] user_pde[OF True] by (simp add: kernel_translate_def BIT_TEST_def)
  next
    case False
    then have la: "0xC0000000 \<le> unat la" by (simp add: word_le_nat_alt not_less)
    define p where "p = va2flat_pte (va2pa la)"
    define k where "k = unat (va2pde la) - 768"
    have pd: "768 \<le> unat (va2pde la)" using la by (simp add: unat_va2pde)
    have "unat (va2pa la) = unat la - 0xC0000000"
      using la by (simp add: va2pa_def unat_minus_le word_le_nat_alt)
    then have up: "unat p = 1024 * k + unat j"
      using la page_split unfolding p_def k_def j_def unat_va2flat_pte unat_va2pde unat_va2pte by simp
    have k256: "k < 256" using d pd by (simp add: k_def)
    have p20: "unat p < 2 ^ 20" using up k256 j by simp
    have p_eq: "p = of_nat (1024 * k + unat j)" using up by (metis word_of_natI)
    note fr = aligned_plus_31[OF frame_aligned[OF p20]]
    have present: "(if BIT_TEST (p * 0x1000 + (if unat p < n then 31 else 0)) 0
        then Some ((p * 0x1000 + (if unat p < n then 31 else 0)) AND NOT 0xFFF) else None)
        = (if unat p < n then Some (p * 0x1000) else None)"
      using fr by (cases "unat p < n") simp_all
    have p7: "p = 7 \<longleftrightarrow> k = 0 \<and> j = 7"
    proof -
      have "1024 * k + unat j = 7 \<longleftrightarrow> k = 0 \<and> unat j = 7" by (cases k) auto
      then show ?thesis using up by (simp add: word_unat_eq_iff)
    qed
    consider "k = 0" | "0 < k" "k < mapped_tables N" | "0 < k" "mapped_tables N \<le> k" by linarith
    then have "kernel_translate s kd la = (if p = 7 then Some (va2pa own) else if unat p < min n 0x30000 then Some (p * 0x1000) else None)"
    proof cases
      case 1
      then have e: "load_entry kd (va2pde la) s = va2pa kp + 31" using kde[OF d] pd by (simp add: k_def)
      have b: "BIT_TEST (va2pa kp + 31) 0" by (rule aligned_plus_31(2)[OF va2pa_aligned[OF kp]])
      have t: "load_entry kp j s = (if j = 7 then va2pa own + 31 else p * 0x1000 + 31)"
        using kpe[OF j] flat_at[of "unat j"] j n4096 N(1) up 1 by (simp add: load_entry_def p_eq)
      have "unat p < n" "unat p < 0x30000" using up j 1 n4096 by simp_all
      then show ?thesis
        unfolding kernel_translate_def Let_def e table_of_plus[OF kp] j_def[symmetric] t p7
        using 1 b aligned_plus_31[OF va2pa_aligned[OF own]] fr by simp
    next
      case 2
      have kl: "k < 1024" using k256 by simp
      have e: "load_entry kd (va2pde la) s = va2pa (flat + of_nat k * 0x1000) + 31"
      proof -
        have "unat (va2pde la) = 768 + k" using pd by (simp add: k_def)
        then have "768 < unat (va2pde la)" "unat (va2pde la) < 768 + mapped_tables N" using 2 by simp_all
        then have "load_entry kd (va2pde la) s = va2pa flat + of_nat k * 0x1000 + 31" using kde[OF d] by (simp add: k_def)
        then show ?thesis by (simp add: va2pa_def algebra_simps)
      qed
      note g = good_sub[OF fl kl]
      have b: "BIT_TEST (va2pa (flat + of_nat k * 0x1000) + 31) 0" by (rule aligned_plus_31(2)[OF va2pa_aligned[OF g(1)]])
      have "1024 * k + unat j < N" using 2(2) j N(3) by (auto elim!: dvdE)
      then have t: "load_entry (flat + of_nat k * 0x1000) j s = p * 0x1000 + (if unat p < n then 31 else 0)"
      proof -
        have "flat + of_nat k * 0x1000 + 4 * j = flat + 4 * p" unfolding p_eq by (simp add: algebra_simps)
        moreover have "mem s (flat + 4 * p) = p * 0x1000 + (if unat p < n then 31 else 0)"
          using flat_at[of "unat p"] \<open>1024 * k + unat j < N\<close> unfolding up[symmetric] by simp
        ultimately show ?thesis by (simp only: load_entry_def)
      qed
      have "unat p < 0x30000" using up j 2(2) by simp
      then show ?thesis
        unfolding kernel_translate_def Let_def e table_of_plus[OF g(1)] j_def[symmetric] t p7
        using 2(1) b present by auto
    next
      case 3
      then have "load_entry kd (va2pde la) s = 0" using kde[OF d] pd n4096 N(1) by (auto simp: k_def)
      moreover have "\<not> unat p < min n 0x30000"
        using 3(2) up N(1,3) by (auto elim!: dvdE simp: min_def split: if_splits)
      ultimately show ?thesis using 3(1) p7 by (simp add: kernel_translate_def BIT_TEST_def)
    qed
    then show ?thesis using False by (simp add: p_def Let_def)
  qed
qed

section \<open>Paging\<close>

lemma big_block:
  assumes "free_inv s F" "2 \<le> b" "2 ^ b dvd unat a" "block a b \<subseteq> free_area F"
  shows "\<exists>b' \<ge> b. F b' \<noteq> []"
  using free_block_covered[of F b a] assms by (metis empty_iff free_inv_def list.set(1))

lemma spare_tail:
  assumes "good_block flat 22" "block flat 22 \<subseteq> A" "memsize \<le> 0xFF400000" "free_area F = A - flat_bytes flat memsize"
  shows "3 \<le> room F"
proof -
  have n: "table_pages memsize \<le> 1021 * 1024" using assms(3) by (simp add: unat_va2flat_pte word_le_nat_alt)
  let ?page = "\<lambda>k. flat + of_nat k * 0x1000"
  have u: "unat (?page k) = unat flat + 4096 * k" "good_block (?page k) 12" if "k < 1024" for k
    using good_sub[OF assms(1) that] by simp_all
  have "?page k \<in> {a. good_block a 12 \<and> block a 12 \<subseteq> free_area F}" if "1021 \<le> k" "k < 1024" for k
  proof -
    have "block (?page k) 12 \<subseteq> block flat 22" unfolding block_def u(1)[OF that(2)] using that by auto
    moreover have "block (?page k) 12 \<inter> flat_bytes flat memsize = {}"
      unfolding block_def u(1)[OF that(2)] flat_bytes_def using that n by auto
    ultimately show ?thesis using u(2)[OF that(2)] assms(2,4) by blast
  qed
  then have sub: "?page ` {1021..<1024::nat} \<subseteq> {a. good_block a 12 \<and> block a 12 \<subseteq> free_area F}"
    by (meson atLeastLessThan_iff image_subsetI)
  have "inj_on ?page {1021..<1024}"
  proof (rule inj_onI)
    fix k l assume "k \<in> {1021..<1024::nat}" "l \<in> {1021..<1024}" "?page k = ?page l"
    then have "k < 1024" "l < 1024" "unat (?page k) = unat (?page l)" by simp_all
    then have "unat flat + 4096 * k = unat flat + 4096 * l" unfolding u(1)[OF \<open>k < 1024\<close>] u(1)[OF \<open>l < 1024\<close>] by simp
    then show "k = l" by simp
  qed
  then have "card (?page ` {1021..<1024}) = 3" by (simp add: card_image)
  then show ?thesis unfolding room_def using card_mono[OF finite sub] by simp
qed

lemma kernel_map_frame:
  fixes memsize flat kd kp own :: u32 and s t :: kmem
  assumes "0x1000000 \<le> memsize" "good_block flat 22" "good_block kp 12" "good_block own 12" "good_block kd 12"
    "\<And>j. unat j < 1024 \<Longrightarrow> load_entry kp j s = (if j = 7 then va2pa own + 31 else load_entry flat j s)"
    "\<And>j. unat j < 1024 \<Longrightarrow> load_entry kd j s =
       (if unat j < 768 then 0 else if unat j = 768 then va2pa kp + 31
        else if unat j < 768 + mapped_tables (table_pages memsize) then va2pa flat + of_nat (unat j - 768) * 0x1000 + 31 else 0)"
    "flat_entries flat memsize s"
    and same: "\<And>x. unat x \<in> flat_bytes flat memsize \<union> block kp 12 \<union> block kd 12 \<Longrightarrow> mem t x = mem s x"
  shows "kernel_map t kd (unat (va2flat_pte memsize)) own"
proof (rule kernel_mapI[OF assms(1-4)])
  have n: "1024 \<le> table_pages memsize" "table_pages memsize \<le> 2 ^ 20"
    using assms(1) table_pages_bound[of memsize] by (simp_all add: unat_va2flat_pte word_le_nat_alt)
  have fl: "unat flat + 2 ^ 22 < 2 ^ 32" using assms(2) by (simp add: good_block_def)
  have inf: "unat (flat + 4 * of_nat i) \<in> flat_bytes flat memsize" if "i < table_pages memsize" for i
    using unat_entry[of flat i] that n(2) fl by (auto simp: flat_bytes_def)
  fix j :: u32
  assume j: "unat j < 1024"
  have "unat j < table_pages memsize" using j n(1) by linarith
  then have f: "load_entry flat j t = load_entry flat j s"
    using same[of "flat + 4 * j"] inf[of "unat j"] by (simp add: load_entry_def)
  have "load_entry kp j t = load_entry kp j s" "load_entry kd j t = load_entry kd j s"
    using same entry_in_block[OF assms(3) j] entry_in_block[OF assms(5) j] by (auto simp: load_entry_def)
  then show "load_entry kp j t = (if j = 7 then va2pa own + 31 else load_entry flat j t)"
    and "load_entry kd j t = (if unat j < 768 then 0 else if unat j = 768 then va2pa kp + 31
        else if unat j < 768 + mapped_tables (table_pages memsize) then va2pa flat + of_nat (unat j - 768) * 0x1000 + 31 else 0)"
    using assms(6,7)[OF j] f by simp_all
next
  have n: "table_pages memsize \<le> 2 ^ 20" using table_pages_bound[of memsize] by simp
  have fl: "unat flat + 2 ^ 22 < 2 ^ 32" using assms(2) by (simp add: good_block_def)
  have "unat (flat + 4 * of_nat i) \<in> flat_bytes flat memsize" if "i < table_pages memsize" for i
    using unat_entry[of flat i] that n fl by (auto simp: flat_bytes_def)
  then show "flat_entries flat memsize t" using assms(8) same unfolding flat_entries_def by auto
qed

definition paged :: "u32 \<Rightarrow> kmem \<Rightarrow> (nat \<Rightarrow> u32 list) \<Rightarrow> u32 \<Rightarrow> kmem \<Rightarrow> (nat \<Rightarrow> u32 list) \<Rightarrow> nat set \<Rightarrow> bool" where
  "paged memsize s F kd s' F' U \<longleftrightarrow> free_inv s' F' \<and> U \<subseteq> free_area F \<and> free_area F' = free_area F - U \<and>
     card U = 4 * table_pages memsize + 3 * 4096 \<and> (\<forall>x. unat x \<notin> free_area F \<longrightarrow> mem s' x = mem s x) \<and>
     good_block kd 12 \<and> block kd 12 \<subseteq> U \<and> (\<exists>own. block own 12 \<subseteq> U \<and> (\<forall>t. (\<forall>x. unat x \<in> U \<longrightarrow> mem t x = mem s' x) \<longrightarrow>
        kernel_map t kd (unat (va2flat_pte memsize)) own))"

lemma init_paging_ok:
  assumes inv: "free_inv s F" and big: "\<exists>a. 2 ^ 22 dvd unat a \<and> block a 22 \<subseteq> free_area F"
    and top: "0x1000000 \<le> memsize" "memsize \<le> 0xFF400000"
  obtains flat kd s' F' U where "init_paging memsize s = Inr (flat, kd, s')" "paged memsize s F kd s' F' U"
proof -
  define N where "N = table_pages memsize"
  have "\<exists>b \<ge> 22. F b \<noteq> []" using big big_block[OF inv, of 22] by auto
  then obtain flat s1 F1 where f: "flat_table memsize s = Inr (flat, of_nat N, s1)" "good_block flat 22"
      "block flat 22 \<subseteq> free_area F" "free_inv s1 F1" "free_area F1 = free_area F - flat_bytes flat memsize"
      "\<And>x. unat x \<notin> free_area F \<Longrightarrow> mem s1 x = mem s x" "flat_entries flat memsize s1"
    using flat_table_ok[OF inv, where memsize = memsize] unfolding N_def by metis
  have N: "1024 \<le> N" "N \<le> 2 ^ 20"
    using top table_pages_bound[of memsize] by (simp_all add: N_def unat_va2flat_pte word_le_nat_alt)
  have fl12: "good_block flat 12" using good_sub[OF f(2), of 0] by simp
  have sub: "flat_bytes flat memsize \<subseteq> block flat 22" using N by (auto simp: flat_bytes_def block_def N_def)
  have fd: "block flat 12 \<subseteq> flat_bytes flat memsize" using N by (auto simp: flat_bytes_def block_def N_def)
  have r: "3 \<le> room F1" by (rule spare_tail[OF f(2,3) top(2) f(5)])
  have r2: "2 \<le> room F1" using r by simp
  have fdis: "block flat 12 \<inter> free_area F1 = {}" using fd f(5) by blast
  obtain kp own s2 F2 where k: "own_table flat s1 = Inr (kp, s2)" "good_block kp 12" "good_block own 12" "kp \<noteq> own"
      "block kp 12 \<subseteq> free_area F1" "block own 12 \<subseteq> free_area F1" "free_inv s2 F2"
      "free_area F2 = free_area F1 - block kp 12 - block own 12" "room F1 = room F2 + 2"
      "\<And>x. unat x \<notin> free_area F1 \<Longrightarrow> mem s2 x = mem s1 x"
      "\<And>j. unat j < 1024 \<Longrightarrow> load_entry kp j s2 = (if j = 7 then va2pa own + 31 else load_entry flat j s1)"
    by (rule own_table_ok[OF f(4) r2 fl12 fdis]) (rule that)
  have r1: "1 \<le> room F2" using r k(9) by simp
  obtain kd s3 F3 where d: "kernel_directory flat (of_nat N) kp s2 = Inr (kd, s3)" "good_block kd 12"
      "block kd 12 \<subseteq> free_area F2" "free_inv s3 F3" "free_area F3 = free_area F2 - block kd 12"
      "\<And>x. unat x \<notin> free_area F2 \<Longrightarrow> mem s3 x = mem s2 x"
      "\<And>j. unat j < 1024 \<Longrightarrow> load_entry kd j s3 = (if unat j < 768 then 0 else if unat j = 768 then va2pa kp + 31
        else if unat j < 768 + mapped_tables N then va2pa flat + of_nat (unat j - 768) * 0x1000 + 31 else 0)"
    by (rule kernel_directory_ok[OF k(7) r1 N(2,1)]) (rule that)
  define U where "U = flat_bytes flat memsize \<union> block kp 12 \<union> block own 12 \<union> block kd 12"
  have area: "free_area F3 = free_area F - U" unfolding U_def d(5) k(8) f(5) by blast
  have "U \<subseteq> free_area F" using sub f(3,5) k(5,6,8) d(3) unfolding U_def by blast
  have "card U = 4 * N + 3 * 4096"
  proof -
    have c: "card (block a 12) = 4096" "finite (block a 12)" for a by (simp_all add: block_def)
    have "flat_bytes flat memsize \<inter> block kp 12 = {}" "(flat_bytes flat memsize \<union> block kp 12) \<inter> block own 12 = {}"
      "(flat_bytes flat memsize \<union> block kp 12 \<union> block own 12) \<inter> block kd 12 = {}"
      using f(5) k(5,6,8) d(3) page_blocks_disjoint[OF k(2,3,4)] by blast+
    moreover have "card (flat_bytes flat memsize) = 4 * N" "finite (flat_bytes flat memsize)" by (simp_all add: flat_bytes_def N_def)
    ultimately show ?thesis unfolding U_def by (subst card_Un_disjoint, auto simp: c)+
  qed
  moreover have "mem s3 x = mem s x" if "unat x \<notin> free_area F" for x
    using that d(6)[of x] k(8) k(10)[of x] f(5) f(6)[of x] by auto
  moreover have "kernel_map t kd (unat (va2flat_pte memsize)) own" if t: "\<And>x. unat x \<in> U \<Longrightarrow> mem t x = mem s3 x" for t
  proof (rule kernel_map_frame[where s = s3, OF top(1) f(2) k(2,3) d(2)])
    have later: "mem s3 x = mem s2 x" if "unat x \<notin> free_area F2" for x
      using d(6) that by simp
    have flat_later: "mem s3 x = mem s1 x" if "unat x \<in> flat_bytes flat memsize" for x
      using later[of x] k(10)[of x] that f(5) k(8) by auto
    fix j :: u32
    assume j: "unat j < 1024"
    have "load_entry kp j s3 = load_entry kp j s2"
      using later entry_in_block[OF k(2) j] k(8) unfolding load_entry_def by blast
    moreover have "load_entry flat j s3 = load_entry flat j s1"
      using flat_later entry_in_block[OF fl12 j] fd unfolding load_entry_def by blast
    ultimately show "load_entry kp j s3 = (if j = 7 then va2pa own + 31 else load_entry flat j s3)" using k(11)[OF j] by simp
    show "load_entry kd j s3 = (if unat j < 768 then 0 else if unat j = 768 then va2pa kp + 31
        else if unat j < 768 + mapped_tables (table_pages memsize) then va2pa flat + of_nat (unat j - 768) * 0x1000 + 31 else 0)"
      using d(7)[OF j] unfolding N_def .
  next
    have inf: "unat (flat + 4 * of_nat i) \<in> flat_bytes flat memsize" if "i < N" for i
      using unat_entry[of flat i] that N f(2) by (auto simp: flat_bytes_def N_def[symmetric] good_block_def)
    have "mem s3 x = mem s1 x" if "unat x \<in> flat_bytes flat memsize" for x
      using d(6)[of x] k(10)[of x] that f(5) k(8) by auto
    then show "flat_entries flat memsize s3"
      using f(7) inf unfolding flat_entries_def N_def[symmetric] by auto
  next
    show "mem t x = mem s3 x" if "unat x \<in> flat_bytes flat memsize \<union> block kp 12 \<union> block kd 12" for x
      using that t unfolding U_def by blast
  qed
  moreover have "block own 12 \<subseteq> U" "block kd 12 \<subseteq> U" by (auto simp: U_def)
  moreover have "init_paging memsize s = Inr (flat, kd, s3)"
    unfolding init_paging_def f(1) and_then_simps prod.case k(1) d(1) ..
  ultimately show thesis
    using that[of flat kd s3 F3 U] d(2,4) area \<open>U \<subseteq> free_area F\<close> unfolding paged_def N_def by blast
qed

section \<open>The memory given to the allocator\<close>

definition region :: "ards \<Rightarrow> nat set" where
  "region ai = (if ards_type ai = 1 then {unat (ards_base ai) ..< unat (ards_base ai) + unat (ards_limit ai)} else {})"

text \<open>What the theorems ask of an item of available memory: whole words below 4 GB.\<close>

definition ards_ok :: "ards \<Rightarrow> bool" where
  "ards_ok ai \<longleftrightarrow> (ards_type ai = 1 \<and> ards_base ai < 0x30000000 \<longrightarrow>
     4 dvd unat (ards_base ai) \<and> 4 dvd unat (ards_limit ai) \<and>
     unat (ards_base ai) + unat (ards_limit ai) < 2 ^ 32)"

abbreviation (input) shifted :: "nat set \<Rightarrow> nat set" where
  "shifted A \<equiv> (+) 0xC0000000 ` A"

definition range_ok :: "nat set \<Rightarrow> (u32 \<times> u32) option \<Rightarrow> bool" where
  "range_ok A r = (case r of None \<Rightarrow> A = {}
     | Some (b, l) \<Rightarrow> span (PAGE_OFFSET + b) l = shifted A \<and> in_bounds (PAGE_OFFSET + b) l \<and>
         4 dvd unat (PAGE_OFFSET + b) \<and> 4 dvd unat l)"

lemma clip_ok:
  assumes b: "unat b + unat l < 2 ^ 32" "b < hi" and lh: "lo < hi" "unat hi \<le> 0x30000000"
    and d: "4 dvd unat b" "4 dvd unat l" "4 dvd unat lo" "4 dvd unat hi"
  shows "range_ok ({unat b ..< unat b + unat l} \<inter> {unat lo ..< unat hi}) (clip lo hi b l)"
proof -
  have ubl: "unat (b + l) = unat b + unat l" "unat (l + b) = unat b + unat l"
    using b(1) by (simp_all add: unat_plus_small)
  have bh: "unat b < unat hi" "unat lo < unat hi" using b(2) lh(1) by (simp_all add: word_less_nat_alt)
  have some: "range_ok ({unat b' ..< unat b' + unat l'} \<inter> {unat lo ..< unat hi}) (Some (b', if hi < b' + l' then hi - b' else l'))"
    if "unat b' + unat l' < 2 ^ 32" "unat lo \<le> unat b'" "unat b' < unat hi" "4 dvd unat b'" "4 dvd unat l'" for b' l'
  proof -
    define l'' where "l'' = (if hi < b' + l' then hi - b' else l')"
    have u: "unat (b' + l') = unat b' + unat l'" using that(1) by (simp add: unat_plus_small)
    have "unat (hi - b') = unat hi - unat b'" using that(3) by (intro unat_minus_le) (simp add: word_le_nat_alt)
    then have l'': "unat l'' = (if unat hi < unat b' + unat l' then unat hi - unat b' else unat l')"
      by (simp add: l''_def word_less_nat_alt u)
    have p: "unat (PAGE_OFFSET + b') = 0xC0000000 + unat b'" using that(3) lh(2) by (simp add: unat_plus_small)
    have "{unat b' ..< unat b' + unat l'} \<inter> {unat lo ..< unat hi} = {unat b' ..< unat b' + unat l''}"
      unfolding l'' using that(2,3) by auto
    moreover have "unat b' + unat l'' \<le> 0x30000000" unfolding l'' using lh(2) that(3) by auto
    moreover have "4 dvd unat l''" unfolding l'' using that(4,5) d(4) by (auto intro: dvd_diff_nat)
    ultimately show ?thesis
      unfolding range_ok_def l''_def[symmetric] option.case prod.case span_def in_bounds_def p using that(4)
      by (simp add: image_add_atLeastLessThan ac_simps)
  qed
  show ?thesis
  proof (cases "b < lo")
    case True
    then have bl: "unat b < unat lo" by (simp add: word_less_nat_alt)
    show ?thesis
    proof (cases "l + b \<le> lo")
      case True
      then have "unat b + unat l \<le> unat lo" by (simp add: word_le_nat_alt ubl)
      then show ?thesis using True \<open>b < lo\<close> by (auto simp: clip_def range_ok_def)
    next
      case False
      then have g: "unat lo < unat b + unat l" by (simp add: word_le_nat_alt ubl)
      have u: "unat (l + b - lo) = unat b + unat l - unat lo"
        using g by (subst unat_minus_le) (simp_all add: word_le_nat_alt ubl)
      have "{unat b ..< unat b + unat l} \<inter> {unat lo ..< unat hi} = {unat lo ..< unat lo + unat (l + b - lo)} \<inter> {unat lo ..< unat hi}"
        unfolding u using bl g by auto
      moreover have "4 dvd unat (l + b - lo)" unfolding u using d by (intro dvd_diff_nat dvd_add)
      ultimately show ?thesis
        using some[of lo "l + b - lo"] False True bh d u g b(1) by (simp add: clip_def)
    qed
  next
    case False
    then show ?thesis using some[of b l] b bh d by (simp add: clip_def word_less_nat_alt not_less)
  qed
qed

lemma item_range_ok:
  assumes "ards_ok ai"
  shows "range_ok (region ai \<inter> {0x10A000 ..< 0x1000000}) (early_range ai)"
    "range_ok (region ai \<inter> {0x1000000 ..< 0x30000000}) (late_range ai)"
proof -
  have cut: "unat (ucast (ards_base ai) :: u32) = unat (ards_base ai)" "unat (ucast (ards_limit ai) :: u32) = unat (ards_limit ai)"
      "4 dvd unat (ards_base ai)" "4 dvd unat (ards_limit ai)" "unat (ards_base ai) + unat (ards_limit ai) < 2 ^ 32"
    if "ards_type ai = 1" "ards_base ai < 0x30000000"
    using assms that by (auto simp: ards_ok_def unat_ucast_narrow)
  show "range_ok (region ai \<inter> {0x10A000 ..< 0x1000000}) (early_range ai)"
  proof (cases "ards_type ai = 1 \<and> ards_base ai < 0x1000000")
    case True
    then have t: "ards_type ai = 1" "ards_base ai < 0x30000000" "unat (ards_base ai) < 0x1000000"
      by (auto simp: word_less_nat_alt)
    show ?thesis
      using clip_ok[of "ucast (ards_base ai)" "ucast (ards_limit ai)" LOADER_MAPPED KERNEL_END] True t cut[OF t(1,2)]
      by (simp add: early_range_def region_def word_less_nat_alt)
  next
    case False
    then show ?thesis by (auto simp: early_range_def region_def range_ok_def word_less_nat_alt)
  qed
  show "range_ok (region ai \<inter> {0x1000000 ..< 0x30000000}) (late_range ai)"
  proof (cases "ards_type ai = 1 \<and> ards_base ai < 0x30000000")
    case True
    then show ?thesis
      using clip_ok[of "ucast (ards_base ai)" "ucast (ards_limit ai)" MAX_MAPPING LOADER_MAPPED] cut
      by (simp add: late_range_def region_def word_less_nat_alt)
  next
    case False
    then show ?thesis by (auto simp: late_range_def region_def range_ok_def word_less_nat_alt)
  qed
qed

lemma free_ranges_ok:
  assumes "free_inv s F" "\<And>ai. ai \<in> set items \<Longrightarrow> range_ok (piece ai) (part ai)"
    "sorted_wrt (\<lambda>a b. piece a \<inter> piece b = {}) items" "\<And>ai. ai \<in> set items \<Longrightarrow> shifted (piece ai) \<inter> free_area F = {}"
  shows "frees s (free_area F \<union> shifted (\<Union> (piece ` set items))) (free_ranges part items s)"
  using assms
proof (induction items arbitrary: s F)
  case Nil
  then show ?case by (auto simp: frees_def)
next
  case (Cons ai items)
  let ?r = "case part ai of None \<Rightarrow> Inr s | Some (base, limit) \<Rightarrow> memory_free_nocheck (PAGE_OFFSET + base) limit s"
  have r: "range_ok (piece ai) (part ai)" and dis: "shifted (piece ai) \<inter> free_area F = {}"
    using Cons.prems(2,4) by simp_all
  have "frees s (free_area F \<union> shifted (piece ai)) ?r" (is "frees s ?A ?r")
  proof (cases "part ai")
    case None
    then show ?thesis using r Cons.prems(1) by (auto simp: range_ok_def frees_def)
  next
    case (Some p)
    obtain b l where p: "p = (b, l)" by (rule prod.exhaust)
    show ?thesis
      using memory_free_nocheck_ok[OF Cons.prems(1), of "PAGE_OFFSET + b" l] r dis unfolding Some p range_ok_def by simp
  qed
  then obtain s1 F1 where s1: "?r = Inr s1" "free_inv s1 F1" "free_area F1 = free_area F \<union> shifted (piece ai)"
      and frame: "\<forall>x. unat x \<notin> free_area F \<union> shifted (piece ai) \<longrightarrow> mem s1 x = mem s x"
    unfolding frees_def by (elim exE conjE) (rule that)
  have "frees s1 (free_area F1 \<union> shifted (\<Union> (piece ` set items))) (free_ranges part items s1)"
  proof (rule Cons.IH[OF s1(2)])
    fix a assume a: "a \<in> set items"
    show "range_ok (piece a) (part a)" using Cons.prems(2) a by simp
    have "piece ai \<inter> piece a = {}" using Cons.prems(3) a by simp
    then have "shifted (piece ai) \<inter> shifted (piece a) = {}" by auto
    then show "shifted (piece a) \<inter> free_area F1 = {}" using Cons.prems(4)[of a] a s1(3) by auto
  next
    show "sorted_wrt (\<lambda>a b. piece a \<inter> piece b = {}) items" using Cons.prems(3) by simp
  qed
  moreover have "free_area F1 \<union> shifted (\<Union> (piece ` set items)) = free_area F \<union> shifted (\<Union> (piece ` set (ai # items)))"
    unfolding s1(3) by auto
  ultimately have f: "frees s1 (free_area F \<union> shifted (\<Union> (piece ` set (ai # items)))) (free_ranges part items s1)" by simp
  define A where "A = free_area F \<union> shifted (\<Union> (piece ` set (ai # items)))"
  have sub: "free_area F1 \<subseteq> A" unfolding A_def s1(3) by auto
  obtain s2 F2 where s2: "free_ranges part items s1 = Inr s2" "free_inv s2 F2" "free_area F2 = A"
      "\<And>x. unat x \<notin> A \<Longrightarrow> mem s2 x = mem s1 x"
    using f unfolding frees_def A_def by blast
  have "mem s2 x = mem s x" if "unat x \<notin> A" for x using s2(4)[OF that] frame sub that unfolding s1(3)[symmetric] by auto
  then have "frees s A (free_ranges part items s1)" unfolding frees_def using s2(1-3) by blast
  then show ?case unfolding A_def by (simp only: free_ranges.simps s1(1) and_then_simps)
qed

text \<open>What the memory map describes as available memory for the kernel, as bytes of its direct mapping.\<close>

definition usable :: "ards list \<Rightarrow> nat set" where
  "usable items = shifted ((\<Union> (region ` set items)) \<inter> {0x10A000 ..< 0x30000000})"

lemma init_memory_ok:
  assumes wf: "\<forall>ai \<in> set items. ards_ok ai" and disjoint: "sorted_wrt (\<lambda>a b. region a \<inter> region b = {}) items"
    and big: "\<exists>k \<in> {1, 2, 3}. {k * 0x400000 ..< (k + 1) * 0x400000} \<subseteq> \<Union> (region ` set items)"
    and top: "memory_top items \<le> 0xFF400000"
  shows "if memory_top items < 0x1000000 then init_memory items (boot_memory m) = Inl Halt
    else \<exists>flat kd s F U own. init_memory items (boot_memory m) = Inr (flat, kd, s) \<and> free_inv s F \<and>
      U \<subseteq> usable items \<inter> {..< 0xC1000000} \<and> free_area F = usable items - U \<and> good_block kd 12 \<and> block kd 12 \<union> block own 12 \<subseteq> U \<and>
      card U = 4 * (1024 * ((unat (memory_top items) div 4096 + 1023) div 1024)) + 3 * 4096 \<and>
      (\<forall>t. (\<forall>x. unat x \<in> U \<longrightarrow> mem t x = mem s x) \<longrightarrow> kernel_map t kd (unat (memory_top items) div 4096) own)"
proof -
  define early where "early ai = region ai \<inter> {0x10A000 ..< 0x1000000}" for ai
  define late where "late ai = region ai \<inter> {0x1000000 ..< 0x30000000}" for ai
  define E where "E = shifted (\<Union> (early ` set items))"
  define L where "L = shifted (\<Union> (late ` set items))"
  have "\<Union> (region ` set items) \<inter> {0x10A000 ..< 0x30000000} = \<Union> (early ` set items) \<union> \<Union> (late ` set items)"
    unfolding early_def late_def by fastforce
  then have EL: "usable items = E \<union> L" "E \<inter> L = {}"
    unfolding usable_def E_def L_def by (auto simp: early_def late_def)
  have "frees (boot_memory m) ({} \<union> shifted (\<Union> (early ` set items))) (free_ranges early_range items (boot_memory m))"
    unfolding boot_inv(2)[symmetric]
  proof (rule free_ranges_ok[OF boot_inv(1)])
    show "range_ok (early ai) (early_range ai)" if "ai \<in> set items" for ai
      using item_range_ok(1) wf that unfolding early_def by blast
    show "sorted_wrt (\<lambda>a b. early a \<inter> early b = {}) items"
      by (rule sorted_wrt_mono_rel[OF _ disjoint]) (auto simp: early_def)
    show "shifted (early ai) \<inter> free_area (\<lambda>_. []) = {}" for ai by (simp add: boot_inv(2))
  qed
  then obtain s1 F1 where s1: "free_ranges early_range items (boot_memory m) = Inr s1" "free_inv s1 F1" "free_area F1 = E"
    unfolding frees_def E_def by (elim exE conjE) (simp add: that)
  show ?thesis
  proof (cases "memory_top items < 0x1000000")
    case True
    then show ?thesis by (simp add: init_memory_def s1(1))
  next
    case False
    define size where "size = (ucast (memory_top items) :: u32)"
    have us: "unat size = unat (memory_top items)"
      using top by (simp add: size_def unat_ucast_narrow word_le_nat_alt)
    have sz: "0x1000000 \<le> size" "size \<le> 0xFF400000"
      using False top by (simp_all add: word_le_nat_alt word_less_nat_alt us)
    have "\<exists>a. 2 ^ 22 dvd unat a \<and> block a 22 \<subseteq> free_area F1"
    proof -
      obtain k where k: "k \<in> {1, 2, 3}" "{k * 0x400000 ..< (k + 1) * 0x400000} \<subseteq> \<Union> (region ` set items)" using big by blast
      then have "\<exists>a :: u32. unat a = 0xC0000000 + k * 0x400000"
        by (intro exI[of _ "of_nat (0xC0000000 + k * 0x400000)"] unat_of_nat_small) auto
      then obtain a :: u32 where a: "unat a = 0xC0000000 + k * 0x400000" by blast
      have "{k * 0x400000 ..< (k + 1) * 0x400000} \<subseteq> \<Union> (early ` set items)"
      proof
        fix x assume x: "x \<in> {k * 0x400000 ..< (k + 1) * 0x400000}"
        then have "x \<in> {0x10A000 ..< 0x1000000}" using k(1) by auto
        then show "x \<in> \<Union> (early ` set items)" using x k(2) unfolding early_def by blast
      qed
      then have "shifted {k * 0x400000 ..< (k + 1) * 0x400000} \<subseteq> E" unfolding E_def by (rule image_mono)
      moreover have "block a 22 = shifted {k * 0x400000 ..< (k + 1) * 0x400000}"
        unfolding image_add_atLeastLessThan block_def a by (simp add: ac_simps)
      moreover have "2 ^ 22 dvd unat a" unfolding a using k(1) by auto
      ultimately show ?thesis unfolding s1(3) by blast
    qed
    from init_paging_ok[OF s1(2) this sz] obtain flat kd s2 F2 U where p: "init_paging size s1 = Inr (flat, kd, s2)"
        "paged size s1 F1 kd s2 F2 U" by blast
    then obtain own where U: "free_inv s2 F2" "U \<subseteq> E" "free_area F2 = E - U" "card U = 4 * table_pages size + 3 * 4096"
        "block kd 12 \<subseteq> U" "good_block kd 12" "block own 12 \<subseteq> U"
        and map: "\<forall>t. (\<forall>x. unat x \<in> U \<longrightarrow> mem t x = mem s2 x) \<longrightarrow> kernel_map t kd (unat (va2flat_pte size)) own"
      unfolding paged_def s1(3) by (elim exE conjE) (rule that)
    have "frees s2 (free_area F2 \<union> shifted (\<Union> (late ` set items))) (free_ranges late_range items s2)"
    proof (rule free_ranges_ok[OF U(1)])
      show "range_ok (late ai) (late_range ai)" if "ai \<in> set items" for ai
        using item_range_ok(2) wf that unfolding late_def by blast
      show "sorted_wrt (\<lambda>a b. late a \<inter> late b = {}) items"
        by (rule sorted_wrt_mono_rel[OF _ disjoint]) (auto simp: late_def)
      show "shifted (late ai) \<inter> free_area F2 = {}" if "ai \<in> set items" for ai
        using EL(2) U(3) that unfolding L_def by blast
    qed
    then obtain s3 F3 where s3: "free_ranges late_range items s2 = Inr s3" "free_inv s3 F3" "free_area F3 = (E - U) \<union> L"
        and frame: "\<forall>x. unat x \<notin> (E - U) \<union> L \<longrightarrow> mem s3 x = mem s2 x"
      unfolding frees_def U(3) L_def[symmetric] by (elim exE conjE) (rule that)
    have k: "kernel_map t kd (unat (memory_top items) div 4096) own" if "\<forall>x. unat x \<in> U \<longrightarrow> mem t x = mem s3 x" for t
    proof -
      have "mem s3 x = mem s2 x" if "unat x \<in> U" for x
      proof -
        have "unat x \<notin> (E - U) \<union> L" using that U(2) EL(2) by blast
        then show ?thesis using frame by blast
      qed
      then show ?thesis using map[rule_format, of t] that by (simp add: unat_va2flat_pte us)
    qed
    have c: "card U = 4 * (1024 * ((unat (memory_top items) div 4096 + 1023) div 1024)) + 3 * 4096"
      using U(4) by (simp add: unat_va2flat_pte us)
    have r: "init_memory items (boot_memory m) = Inr (flat, kd, s3)"
      unfolding init_memory_def s1(1) and_then_simps if_not_P[OF False] size_def[symmetric] p(1) prod.case s3(1) ..
    have a: "free_area F3 = usable items - U" unfolding s3(3) EL(1) using U(2) EL(2) by blast
    have "E \<subseteq> {..< 0xC1000000}" by (auto simp: E_def early_def)
    then have sub: "U \<subseteq> usable items \<inter> {..< 0xC1000000}" using U(2) EL(1) by blast
    have pages: "block kd 12 \<union> block own 12 \<subseteq> U" using U(5,7) by blast
    show ?thesis
      unfolding if_not_P[OF False]
      by (intro exI[of _ flat] exI[of _ kd] exI[of _ s3] exI[of _ F3] exI[of _ U] exI[of _ own] conjI allI impI)
        (fact r s3(2) sub a U(6) pages c | erule k)+
  qed
qed

text \<open>The map of a machine with 128 MB.\<close>

definition pc_map :: "ards list" where
  "pc_map = map (\<lambda>(b, l, t). \<lparr>ards_base = b, ards_limit = l, ards_type = t\<rparr>)
     [(0, 0x9FC00, 1), (0x9FC00, 0x400, 2), (0xF0000, 0x10000, 2), (0x100000, 0x7EF0000, 1), (0x7FF0000, 0x10000, 3),
      (0xFFFC0000, 0x40000, 2)]"

lemma pc_map_facts:
  "\<forall>ai \<in> set pc_map. ards_ok ai" "sorted_wrt (\<lambda>a b. region a \<inter> region b = {}) pc_map"
  "\<exists>k \<in> {1, 2, 3}. {k * 0x400000 ..< (k + 1) * 0x400000} \<subseteq> \<Union> (region ` set pc_map)"
  "usable pc_map = {0xC010A000 ..< 0xC7FF0000}" "memory_top pc_map = 0x8000000"
proof -
  have r: "\<Union> (region ` set pc_map) = {0 ..< 0x9FC00} \<union> {0x100000 ..< 0x7FF0000}"
    by (simp add: pc_map_def region_def)
  have "({0 ..< 0x9FC00} \<union> {0x100000 ..< 0x7FF0000 :: nat}) \<inter> {0x10A000 ..< 0x30000000} = {0x10A000 ..< 0x7FF0000}" by auto
  then show "usable pc_map = {0xC010A000 ..< 0xC7FF0000}" unfolding usable_def r by (simp add: image_add_atLeastLessThan)
  show "memory_top pc_map = 0x8000000" by (simp add: memory_top_def pc_map_def)
  show "\<forall>ai \<in> set pc_map. ards_ok ai" by (simp add: pc_map_def ards_ok_def)
  show "sorted_wrt (\<lambda>a b. region a \<inter> region b = {}) pc_map" by (simp add: pc_map_def region_def)
  show "\<exists>k \<in> {1, 2, 3}. {k * 0x400000 ..< (k + 1) * 0x400000} \<subseteq> \<Union> (region ` set pc_map)"
    unfolding r by (intro bexI[of _ 1]) auto
qed

lemma pc_memory:
  obtains flat kd s F U own where "init_memory pc_map (boot_memory (\<lambda>_. 0)) = Inr (flat, kd, s)" "free_inv s F"
    "U \<subseteq> {..< 0xC1000000}" "free_area F = {0xC010A000 ..< 0xC7FF0000} - U" "good_block kd 12" "block kd 12 \<subseteq> U"
    "\<forall>t. (\<forall>x. unat x \<in> U \<longrightarrow> mem t x = mem s x) \<longrightarrow> kernel_map t kd 0x8000 own"
proof -
  have "memory_top pc_map \<le> 0xFF400000" by (simp add: pc_map_facts(5))
  from init_memory_ok[OF pc_map_facts(1-3) this, of "\<lambda>_. 0", unfolded pc_map_facts(4,5)]
  obtain flat kd s F U own where "init_memory pc_map (boot_memory (\<lambda>_. 0)) = Inr (flat, kd, s)" "free_inv s F"
      "U \<subseteq> {0xC010A000 ..< 0xC7FF0000} \<inter> {..< 0xC1000000}" "free_area F = {0xC010A000 ..< 0xC7FF0000} - U" "good_block kd 12"
      "block kd 12 \<union> block own 12 \<subseteq> U" "\<forall>t. (\<forall>x. unat x \<in> U \<longrightarrow> mem t x = mem s x) \<longrightarrow> kernel_map t kd 0x8000 own"
    by simp (elim exE conjE, rule that, simp_all)
  then show thesis by (intro that[of flat kd s F U own]) simp_all
qed

text \<open>
  The code takes the end of the last item for the end of memory. When no available region reaches
  beyond it and it is a page boundary, the kernel's directory maps all the memory that the second
  loop gives to the allocator, so its accesses do not fault.
\<close>

definition top_is_last :: "ards list \<Rightarrow> bool" where
  "top_is_last items \<longleftrightarrow> 4096 dvd unat (memory_top items) \<and>
     (\<forall>ai \<in> set items. \<forall>b \<in> region ai. b < unat (memory_top items))"

lemma usable_mapped:
  assumes top: "top_is_last items" and map: "kernel_map s kd (unat (memory_top items) div 4096) own"
    and a: "unat a \<in> usable items"
  shows "kernel_translate s kd a = Some (va2flat_pte (va2pa a) * 0x1000)"
proof -
  obtain b ai where b: "unat a = 0xC0000000 + b" "ai \<in> set items" "b \<in> region ai" "0x10A000 \<le> b" "b < 0x30000000"
    using a unfolding usable_def by auto
  have bt: "b < unat (memory_top items)" using top b(2,3) unfolding top_is_last_def by blast
  have ge: "\<not> a < PAGE_OFFSET" by (simp add: word_less_nat_alt b(1))
  have "unat (va2pa a) = b"
    using b(1) by (simp add: va2pa_def unat_minus_le word_le_nat_alt)
  then have p: "unat (va2flat_pte (va2pa a)) = b div 4096" by (simp add: unat_va2flat_pte)
  have seven: "va2flat_pte (va2pa a) \<noteq> 7"
  proof
    assume "va2flat_pte (va2pa a) = 7"
    then have "b div 4096 = 7" using p by simp
    then show False using b(4) by linarith
  qed
  obtain k where k: "unat (memory_top items) = 4096 * k" using top unfolding top_is_last_def dvd_def by blast
  have "b div 4096 < k" using bt unfolding k by (simp add: less_mult_imp_div_less mult.commute)
  moreover have "b div 4096 < 0x30000" using b(5) by (simp add: less_mult_imp_div_less)
  ultimately have "unat (va2flat_pte (va2pa a)) < min (unat (memory_top items) div 4096) 0x30000"
    unfolding p k by simp
  then show ?thesis using map ge seven unfolding kernel_map_def by (simp add: Let_def)
qed

text \<open>
  C10. The memory set-up: for any memory map of disjoint available regions in whole words below 4 GB that
  leaves the 4 MB at some of the addresses 4, 8 and 12 MB available and whose last item ends, on a page
  boundary, where no available region goes beyond, \<^verbatim>\<open>init_memory\<close> gives the allocator exactly the
  available memory from the end of the kernel (\<open>0x10A000\<close>) to \<^verbatim>\<open>MAX_MAPPING\<close> (\<open>0x30000000\<close>), less the
  bytes of its page tables, whose number is exact and which lie in the 16 MB the loader has mapped; from
  then on, in every state that leaves these bytes alone, the kernel's directory maps the memory
  linearly, except that the page at \<^verbatim>\<open>KERNEL_STRUCTURE\<close> is a page of its own. In particular it maps
  every byte given to the allocator. With less than 16 MB it halts.
\<close>

theorem memory_set_up:
  assumes wf: "\<forall>ai \<in> set items. ards_ok ai" and disjoint: "sorted_wrt (\<lambda>a b. region a \<inter> region b = {}) items"
    and big: "\<exists>k \<in> {1, 2, 3}. {k * 0x400000 ..< (k + 1) * 0x400000} \<subseteq> \<Union> (region ` set items)"
    and top: "memory_top items \<le> 0xFF400000" "top_is_last items"
  shows "if memory_top items < 0x1000000 then init_memory items (boot_memory m) = Inl Halt
    else \<exists>flat kd s F U own. init_memory items (boot_memory m) = Inr (flat, kd, s) \<and> free_inv s F \<and>
      U \<subseteq> usable items \<inter> {..< 0xC1000000} \<and> free_area F = usable items - U \<and> good_block kd 12 \<and> block kd 12 \<union> block own 12 \<subseteq> U \<and>
      card U = 4 * (1024 * ((unat (memory_top items) div 4096 + 1023) div 1024)) + 3 * 4096 \<and>
      (\<forall>t. (\<forall>x. unat x \<in> U \<longrightarrow> mem t x = mem s x) \<longrightarrow> kernel_map t kd (unat (memory_top items) div 4096) own \<and>
        (\<forall>a. unat a \<in> usable items \<longrightarrow> kernel_translate t kd a = Some (va2flat_pte (va2pa a) * 0x1000)))"
proof (cases "memory_top items < 0x1000000")
  case True
  then show ?thesis using init_memory_ok[OF wf disjoint big top(1), of m] by simp
next
  case False
  from init_memory_ok[OF wf disjoint big top(1), of m, unfolded if_not_P[OF False]]
  show ?thesis unfolding if_not_P[OF False] using usable_mapped[OF top(2)] by (elim ex_forward conjE) (intro conjI, assumption+, blast)
qed

theorem memory_set_up_witness:
  "\<exists>flat kd s F U own. init_memory pc_map (boot_memory (\<lambda>_. 0)) = Inr (flat, kd, s) \<and> free_inv s F \<and>
     free_area F = {0xC010A000 ..< 0xC7FF0000} - U \<and> card U = 0x23000 \<and> kernel_map s kd 0x8000 own \<and>
     kernel_translate s kd 0xC7FEFFFF = Some 0x7FEF000"
proof -
  have t: "memory_top pc_map \<le> 0xFF400000" by (simp add: pc_map_facts(5))
  have l: "top_is_last pc_map" unfolding top_is_last_def pc_map_facts(5) by (simp add: pc_map_def region_def)
  from memory_set_up[OF pc_map_facts(1-3) t l, of "\<lambda>_. 0", unfolded pc_map_facts(4,5)]
  obtain flat kd s F U own where w: "init_memory pc_map (boot_memory (\<lambda>_. 0)) = Inr (flat, kd, s)" "free_inv s F"
      "free_area F = {0xC010A000 ..< 0xC7FF0000} - U" "card U = 0x23000"
      "\<forall>t. (\<forall>x. unat x \<in> U \<longrightarrow> mem t x = mem s x) \<longrightarrow> kernel_map t kd 0x8000 own \<and>
        (\<forall>a. unat a \<in> {0xC010A000 ..< 0xC7FF0000} \<longrightarrow> kernel_translate t kd a = Some (va2flat_pte (va2pa a) * 0x1000))"
    by simp (elim exE conjE, rule that, simp_all)
  have m: "kernel_map s kd 0x8000 own" "kernel_translate s kd 0xC7FEFFFF = Some (va2flat_pte (va2pa 0xC7FEFFFF) * 0x1000)"
    using w(5)[rule_format, of s] by simp_all
  have "va2flat_pte (va2pa 0xC7FEFFFF) * 0x1000 = 0x7FEF000" by (simp add: va2flat_pte_def va2pa_def)
  then show ?thesis using w(1-4) m by (intro exI conjI) simp_all
qed

section \<open>Processes after start-up\<close>

text \<open>
  C11. Every process sees the kernel: the page directory that \<^verbatim>\<open>createProcessPDE\<close> makes from the kernel's
  directory translates every kernel address as that one does, and no user address, in the state after
  \<^verbatim>\<open>memory_set_up\<close> or any later one in which the kernel's tables are intact and the allocator is sound.
\<close>

theorem new_process_kernel_map:
  assumes inv: "free_inv s F" and room: "0 < room F" and kd: "good_block kd 12" "block kd 12 \<subseteq> U"
    and kept: "U \<inter> free_area F = {}" "\<forall>t. (\<forall>x. unat x \<in> U \<longrightarrow> mem t x = mem s x) \<longrightarrow> kernel_map t kd pages own"
  shows "\<exists>cr3 s' F'. createProcessPDE (va2pa kd) s = Inr (cr3, s') \<and> free_inv s' F' \<and> address_space s' F' cr3 \<and>
    kernel_map s' kd pages own \<and> kernel_map s' (pa2va cr3) pages own"
proof -
  have tab: "table_of (va2pa kd) = kd" using va2pa_aligned[OF kd(1)] by (simp add: table_of_aligned)
  have "block kd 12 \<inter> free_area F = {}" using kd(2) kept(1) by blast
  then obtain cr3 s' F' where c: "createProcessPDE (va2pa kd) s = Inr (cr3, s')" "free_inv s' F'" "address_space s' F' cr3"
      and o: "owned s' cr3 = [Directory \<mapsto> pa2va cr3]"
      and k: "\<forall>i. 768 \<le> unat i \<and> unat i < 1024 \<longrightarrow> kernel_half s' cr3 i = load_entry kd i s"
      and fr: "\<forall>x. unat x \<notin> free_area F \<longrightarrow> mem s' x = mem s x"
    using createProcessPDE_ok[OF inv room, of "va2pa kd"] kd(1) unfolding tab by blast
  have same: "mem s' x = mem s x" if "unat x \<in> U" for x
  proof -
    have "unat x \<notin> free_area F" using that kept(1) by blast
    then show ?thesis using fr by blast
  qed
  then have map: "kernel_map s' kd pages own" using kept(2) by blast
  have "kernel_translate s' (pa2va cr3) la = kernel_translate s' kd la" for la
  proof (cases "la < PAGE_OFFSET")
    case True
    have ue: "user_entry (va2pde la)" using user_page[OF True] .
    have "owned s' cr3 (Table (va2pde la)) = None" unfolding o by simp
    then have "load_entry (pa2va cr3) (va2pde la) s' = 0" using ue by (auto simp: Let_def split: if_splits)
    then have "kernel_translate s' (pa2va cr3) la = None" by (simp add: kernel_translate_def BIT_TEST_def)
    moreover have "kernel_translate s' kd la = None" using map True unfolding kernel_map_def by simp
    ultimately show ?thesis by simp
  next
    case False
    define i where "i = va2pde la"
    have i: "768 \<le> unat i" "unat i < 1024"
      using False va2pde_bound[of la] unfolding i_def by (simp_all add: unat_va2pde word_less_nat_alt not_less)
    have "load_entry (pa2va cr3) i s' = load_entry kd i s"
      using k i unfolding kernel_half_def user_entry_def by auto
    also have "\<dots> = load_entry kd i s'"
    proof -
      have "unat (kd + 4 * i) \<in> U" using entry_in_block[OF kd(1) i(2)] kd(2) by (rule subsetD[rotated])
      then show ?thesis using same[of "kd + 4 * i"] by (simp only: load_entry_def)
    qed
    finally show ?thesis unfolding kernel_translate_def i_def by simp
  qed
  then have "kernel_map s' (pa2va cr3) pages own" using map unfolding kernel_map_def by simp
  then show ?thesis using c map by blast
qed

theorem new_process_kernel_map_witness:
  "\<exists>flat kd s cr3 s' own. init_memory pc_map (boot_memory (\<lambda>_. 0)) = Inr (flat, kd, s) \<and>
     createProcessPDE (va2pa kd) s = Inr (cr3, s') \<and> kernel_map s' (pa2va cr3) 0x8000 own"
proof -
  obtain flat kd s F U own where w: "init_memory pc_map (boot_memory (\<lambda>_. 0)) = Inr (flat, kd, s)" "free_inv s F"
      "U \<subseteq> {..< 0xC1000000}" "free_area F = {0xC010A000 ..< 0xC7FF0000} - U" "good_block kd 12" "block kd 12 \<subseteq> U"
      "\<forall>t. (\<forall>x. unat x \<in> U \<longrightarrow> mem t x = mem s x) \<longrightarrow> kernel_map t kd 0x8000 own"
    by (rule pc_memory)
  have "0xC1000000 \<in> {a. good_block a 12 \<and> block a 12 \<subseteq> free_area F}"
    using w(3) unfolding w(4) good_block_def block_def by auto
  then have "0 < room F" unfolding room_def by (auto simp: card_gt_0_iff)
  then obtain cr3 s' where "createProcessPDE (va2pa kd) s = Inr (cr3, s')" "kernel_map s' (pa2va cr3) 0x8000 own"
    using new_process_kernel_map[OF w(2) _ w(5,6) _ w(7)] unfolding w(4) by blast
  then show ?thesis using w(1) by blast
qed

end
