(* ===== verification/Start.thy ===== *)
theory Start
  imports Apic Boot
begin

text \<open>
  Start-up, \<^verbatim>\<open>kernel/start.c\<close>: the descriptor table, the interrupt handlers, the interrupt controllers
  (\<^verbatim>\<open>init_8259A\<close> of \<^verbatim>\<open>kernel/int.c\<close>) and the timer (\<^verbatim>\<open>kernel/process/timer.c\<close>), and how these fit
  the APIC driver and the page tables. Port writes are a parameter \<open>out\<close> beside the register accesses
  of \<^verbatim>\<open>Apic\<close>; the loads of GDTR, TR and CR3 are left out.
\<close>

section \<open>The descriptor table\<close>

text \<open>The stores into \<^verbatim>\<open>baseLow\<close>, \<^verbatim>\<open>baseMiddle\<close> and \<^verbatim>\<open>baseHigh\<close> of a \<^verbatim>\<open>GDTItem\<close>.\<close>

definition set_base :: "u32 \<Rightarrow> u64 \<Rightarrow> u64" where
  "set_base adr d = (d AND 0x00FFFF000000FFFF) OR push_bit 16 (ucast (ucast adr :: u16))
     OR push_bit 32 (ucast (ucast (drop_bit 16 adr) :: u8)) OR push_bit 56 (ucast (ucast (drop_bit 24 adr) :: u8))"

definition gdt_table :: "u32 \<Rightarrow> u64 list" where
  "gdt_table adr =
     [0x0000000000000000, 0x00CF9B000000FFFF, 0x00CF92000000FFFF, 0x00CFFA000000FFFF, 0x00CFF2000000FFFF,
      set_base adr 0x0000890000000068]"

section \<open>Interrupt handlers\<close>

text \<open>
  \<^verbatim>\<open>handlerTable\<close> and \<^verbatim>\<open>handlerTable2\<close> are adjacent in the processor's page: the entry 0x30 of the
  first is the entry 0x10 of the second.
\<close>

definition start_handlers :: "'h \<Rightarrow> 'h \<Rightarrow> 'h \<Rightarrow> 'h list" where
  "start_handlers inner_exception_handler unknown_irq system_call =
     (replicate 0x20 inner_exception_handler @ replicate (256 - 0x20) unknown_irq)[0x30 := system_call]"

definition register_in :: "u8 \<Rightarrow> 'h \<Rightarrow> 'h list \<Rightarrow> 'h list" where
  "register_in irq inth table = take 0x20 table @ registerIRQ irq inth (drop 0x20 table)"

definition init_8259A :: "(u16 \<Rightarrow> u8 \<Rightarrow> 'd \<Rightarrow> 'd) \<Rightarrow> 'd \<Rightarrow> 'd" where
  "init_8259A out d = fold (\<lambda>(port, v). out port v)
     [(0x20, 0b00010001), (0x21, 0x20), (0x21, 0b00000100), (0x21, 0b00000001),
      (0xA0, 0b00010001), (0xA1, 0x28), (0xA1, 2), (0xA1, 0b00000001),
      (0x21, 0b11111111), (0xA1, 0b11111111)] d"

section \<open>The timer\<close>

definition init_timer_ap :: "'d mmio \<Rightarrow> 'h \<Rightarrow> 'h list \<times> 'd \<Rightarrow> 'h list \<times> 'd" where
  "init_timer_ap io irq0_handler = (\<lambda>(table, d).
     let d = apic_write io 0x3E0 0x3 d;
         d = apic_write io 0x320 0x20020 d;
         d = apic_write io 0x380 0xA0000 d
     in (register_in 0 irq0_handler table, d))"

text \<open>\<^verbatim>\<open>init_timer\<close> after the clock is read and before the first process runs.\<close>

definition init_timer ::
  "(u16 \<Rightarrow> u8 \<Rightarrow> 'd \<Rightarrow> 'd) \<Rightarrow> 'd mmio \<Rightarrow> u32 list \<Rightarrow> 'h \<Rightarrow> 'h list \<times> 'd \<Rightarrow> 'h list \<times> 'd" where
  "init_timer out io irqOverride apic_timer_init = (\<lambda>(table, d).
     let rate = 1193182 div 100 :: u32;
         d = out 0x43 0b00110100 d;
         d = out 0x40 (ucast rate) d;
         d = out 0x40 (ucast (drop_bit 8 rate)) d;
         table = register_in 0 apic_timer_init table;
         d = apic_write io 0x3E0 0x3 d;
         d = apic_write io 0x320 0x20 d;
         d = apic_write io 0x380 0xFFFFFFFF d
     in (table, enableIRQ io irqOverride 0 d))"

text \<open>The first tick; the second component is the lock that the other processors wait for.\<close>

definition apic_timer_init :: "'h \<Rightarrow> 'h list \<times> u32 \<Rightarrow> 'h list \<times> u32" where
  "apic_timer_init irq0_handler_bsp = (\<lambda>(table, lock). (register_in 0 irq0_handler_bsp table, 0))"

section \<open>Starting the APICs\<close>

text \<open>
  The end of \<^verbatim>\<open>acpi_apic\<close>: what it read from the tables goes to \<^verbatim>\<open>init_apic\<close>. The call of \<^verbatim>\<open>init_mp\<close> has
  no effect as the kernel is configured, with \<^verbatim>\<open>NO_SMP\<close>.
\<close>

definition start_apics :: "'d mmio \<Rightarrow> u32 \<Rightarrow> u8 \<times> u32 \<times> u32 list \<Rightarrow> kmem \<times> 'd \<Rightarrow> kerror + (u8 \<times> kmem \<times> 'd)" where
  "start_apics io kernelPDE = (\<lambda>(pros, io_apic_base, irqOverride).
     init_apic io kernelPDE irqOverride io_apic_base)"

section \<open>Segments\<close>

text \<open>A descriptor as the processor reads it.\<close>

record segment =
  seg_base :: u32
  seg_limit :: u32
  seg_access :: u8

definition segment_of :: "u64 \<Rightarrow> segment" where
  "segment_of d =
     (let raw = ucast (d AND 0xFFFF) OR ucast (drop_bit 32 d AND 0xF0000) :: u32
      in \<lparr>seg_base = ucast (drop_bit 16 d AND 0xFFFFFF) OR push_bit 24 (ucast (drop_bit 56 d)),
          seg_limit = (if bit d 55 then raw * 4096 + 4095 else raw),
          seg_access = ucast (drop_bit 40 d)\<rparr>)"

lemma tss_bits: "\<forall>n \<in> set [0..<64]. bit (0x0000890000000068 :: u64) n = (n \<in> {3, 5, 6, 40, 43, 47})"
  by code_simp

lemma mask_consts: "(0xFFFF :: u64) = mask 16" "(0xFFFFFF :: u64) = mask 24" "(0xF0000 :: u64) = push_bit 16 (mask 4)"
  "(0x00FFFF000000FFFF :: u64) = mask 16 OR push_bit 40 (mask 16)"
  by (simp_all add: mask_eq_exp_minus_1 push_bit_eq_mult)

lemma tss_segment:
  "segment_of (set_base adr 0x0000890000000068) = \<lparr>seg_base = adr, seg_limit = 0x68, seg_access = 0x89\<rparr>"
proof -
  define C :: u64 where "C = 0x0000890000000068"
  have C: "bit C n \<longleftrightarrow> n = 3 \<or> n = 5 \<or> n = 6 \<or> n = 40 \<or> n = 43 \<or> n = 47" for n
  proof (cases "n < 64")
    case True
    then show ?thesis using tss_bits unfolding C_def by auto
  next
    case False
    then show ?thesis using bit_imp_le_length[of C n] by auto
  qed
  define d where "d = set_base adr C"
  have d: "bit d n \<longleftrightarrow> n = 3 \<or> n = 5 \<or> n = 6 \<or> n = 40 \<or> n = 43 \<or> n = 47 \<or> 16 \<le> n \<and> n < 40 \<and> bit adr (n - 16)
      \<or> 56 \<le> n \<and> n < 64 \<and> bit adr (n - 32)" for n
  proof (cases "n < 64")
    case True
    have k: "bit d n \<longleftrightarrow> bit C n \<and> (n < 16 \<or> 40 \<le> n \<and> n < 56) \<or> 16 \<le> n \<and> n < 32 \<and> bit adr (n - 16)
        \<or> 32 \<le> n \<and> n < 40 \<and> bit adr (16 + (n - 32)) \<or> 56 \<le> n \<and> bit adr (24 + (n - 56))"
      unfolding d_def set_base_def mask_consts using True by (simp add: bit_simps) arith
    consider "n < 16" | "16 \<le> n" "n < 32" | "32 \<le> n" "n < 40" | "40 \<le> n" "n < 56" | "56 \<le> n" by linarith
    then show ?thesis by cases (use True in \<open>simp_all add: k C\<close>)
  next
    case False
    then show ?thesis using bit_imp_le_length[of d n] by auto
  qed
  have "seg_base (segment_of d) = adr"
    unfolding segment_of_def Let_def segment.simps mask_consts
    by (rule bit_word_eqI) (auto simp: bit_simps d)
  moreover have "seg_limit (segment_of d) = 0x68"
  proof -
    have b55: "\<not> bit d 55" by (simp add: d)
    have "bit (0x68 :: u32) n \<longleftrightarrow> n = 3 \<or> n = 5 \<or> n = 6" if "n < 32" for n
    proof -
      have "\<forall>n \<in> set [0..<32]. bit (0x68 :: u32) n = (n \<in> {3, 5, 6})" by code_simp
      then show ?thesis using that by auto
    qed
    then have "ucast (d AND 0xFFFF) OR ucast (drop_bit 32 d AND 0xF0000) = (0x68 :: u32)"
      unfolding mask_consts by (intro bit_word_eqI) (auto simp: bit_simps d)
    then show ?thesis unfolding segment_of_def Let_def by (simp add: b55)
  qed
  moreover have "seg_access (segment_of d) = 0x89"
  proof -
    have "\<forall>n \<in> set [0..<8]. bit (0x89 :: u8) n = (n \<in> {0, 3, 7})" by code_simp
    then have "bit (0x89 :: u8) n \<longleftrightarrow> n = 0 \<or> n = 3 \<or> n = 7" if "n < 8" for n using that by auto
    then show ?thesis unfolding segment_of_def Let_def segment.simps
      by (intro bit_word_eqI) (auto simp: bit_simps d)
  qed
  ultimately show ?thesis unfolding d_def C_def by (metis segment.surjective old.unit.exhaust)
qed

text \<open>
  The descriptor table: four flat segments of 4 GB, code and data of the kernel (access bytes 0x9B
  and 0x92) and of the user (0xFA and 0xF2), and the task state segment of this processor at its
  address, whatever the address.
\<close>

theorem gdt_segments:
  "map segment_of (tl (gdt_table adr)) =
     map (\<lambda>a. \<lparr>seg_base = 0, seg_limit = 0xFFFFFFFF, seg_access = a\<rparr>) [0x9B, 0x92, 0xFA, 0xF2] @
     [\<lparr>seg_base = adr, seg_limit = 0x68, seg_access = 0x89\<rparr>]"
proof -
  have "segment_of 0x00CF9B000000FFFF = \<lparr>seg_base = 0, seg_limit = 0xFFFFFFFF, seg_access = 0x9B\<rparr>"
    "segment_of 0x00CF92000000FFFF = \<lparr>seg_base = 0, seg_limit = 0xFFFFFFFF, seg_access = 0x92\<rparr>"
    "segment_of 0x00CFFA000000FFFF = \<lparr>seg_base = 0, seg_limit = 0xFFFFFFFF, seg_access = 0xFA\<rparr>"
    "segment_of 0x00CFF2000000FFFF = \<lparr>seg_base = 0, seg_limit = 0xFFFFFFFF, seg_access = 0xF2\<rparr>"
    by code_simp+
  then show ?thesis by (simp add: gdt_table_def tss_segment)
qed

section \<open>Handlers\<close>

definition register_all :: "(u8 \<times> 'h) list \<Rightarrow> 'h list \<Rightarrow> 'h list" where
  "register_all regs table = fold (\<lambda>(irq, h). register_in irq h) regs table"

lemma register_in_nth:
  assumes "0x20 + unat irq < length table"
  shows "register_in irq h table = table[0x20 + unat irq := h]"
proof -
  have "table[0x20 + unat irq := h] = (take 0x20 table @ drop 0x20 table)[0x20 + unat irq := h]" by simp
  also have "\<dots> = take 0x20 table @ (drop 0x20 table)[unat irq := h]"
    using assms by (subst list_update_append) (simp add: min_def)
  finally show ?thesis by (simp only: register_in_def registerIRQ_def)
qed

lemma register_all_nth:
  assumes "\<forall>(irq, h) \<in> set regs. unat irq < 16" "0x30 < length table" "v < length table"
  shows "length (register_all regs table) = length table \<and>
    register_all regs table ! v =
      (case map_of (rev regs) (of_nat (v - 0x20)) of Some h \<Rightarrow> if 0x20 \<le> v \<and> v < 0x30 then h else table ! v | None \<Rightarrow> table ! v)"
  using assms
proof (induction regs rule: rev_induct)
  case (snoc r regs)
  obtain irq h where r: "r = (irq, h)" by (rule prod.exhaust)
  have IH: "length (register_all regs table) = length table"
      "register_all regs table ! v =
        (case map_of (rev regs) (of_nat (v - 0x20)) of Some h \<Rightarrow> if 0x20 \<le> v \<and> v < 0x30 then h else table ! v | None \<Rightarrow> table ! v)"
    using snoc by auto
  have i: "unat irq < 16" using snoc.prems(1) r by simp
  have e: "register_all (regs @ [r]) table = (register_all regs table)[0x20 + unat irq := h]"
    using register_in_nth[of irq "register_all regs table" h] IH(1) i snoc.prems(2) by (simp add: register_all_def r)
  have v: "v = 0x20 + unat irq \<longleftrightarrow> 0x20 \<le> v \<and> v < 0x30 \<and> of_nat (v - 0x20) = irq"
  proof
    assume a: "0x20 \<le> v \<and> v < 0x30 \<and> of_nat (v - 0x20) = irq"
    then have "unat irq = v - 0x20" using unat_of_nat_small[of "v - 0x20", where ?'a = 8] by auto
    then show "v = 0x20 + unat irq" using a by simp
  qed (use i in auto)
  have "register_all (regs @ [r]) table ! v = (if v = 0x20 + unat irq then h else register_all regs table ! v)"
    using e IH(1) snoc.prems(3) by (auto simp: nth_list_update)
  then show ?case using IH e v unfolding r by (auto split: option.splits)
qed (simp add: register_all_def)

text \<open>
  Interrupt dispatch: after \<^verbatim>\<open>cstart\<close> has filled the tables and drivers have registered handlers for
  any of the 16 interrupt lines, every vector has one: the 32 exceptions the exception handler, vector
  0x20 + \<open>i\<close> the last handler registered for line \<open>i\<close>, vector 0x30 the system call, and all others the
  one for unknown interrupts.
\<close>

theorem interrupt_dispatch:
  assumes "\<forall>(irq, h) \<in> set regs. unat irq < 16"
  shows "length (register_all regs (start_handlers inner unknown sys)) = 256 \<and>
    (\<forall>v < 256. register_all regs (start_handlers inner unknown sys) ! v =
       (if v < 0x20 then inner else if v = 0x30 then sys
        else if v < 0x30 then (case map_of (rev regs) (of_nat (v - 0x20)) of Some h \<Rightarrow> h | None \<Rightarrow> unknown) else unknown))"
proof -
  let ?t = "start_handlers inner unknown sys"
  have l: "length ?t = 256" by (simp add: start_handlers_def)
  have t: "?t ! v = (if v < 0x20 then inner else if v = 0x30 then sys else unknown)" if "v < 256" for v
    using that by (auto simp: start_handlers_def nth_list_update nth_append)
  have "length (register_all regs ?t) = 256" using register_all_nth[OF assms, of ?t 0] l by simp
  moreover have "register_all regs ?t ! v =
       (if v < 0x20 then inner else if v = 0x30 then sys
        else if v < 0x30 then (case map_of (rev regs) (of_nat (v - 0x20)) of Some h \<Rightarrow> h | None \<Rightarrow> unknown) else unknown)"
    if "v < 256" for v
    using register_all_nth[OF assms, of ?t v] l t[OF that] that by (auto split: option.splits)
  ultimately show ?thesis by blast
qed

theorem interrupt_dispatch_witness:
  "register_all [(1, 7), (12, 8), (1, 9)] (start_handlers 0 1 (2 :: nat)) ! 0x21 = 9 \<and>
   register_all [(1, 7), (12, 8), (1, 9)] (start_handlers 0 1 (2 :: nat)) ! 0x30 = 2"
  using interrupt_dispatch[of "[(1, 7), (12, 8), (1, 9)]" 0 1 "2 :: nat"] by simp

section \<open>The 8259 interrupt controllers\<close>

text \<open>
  The documented answer of an 8259 whose command port is \<open>ctl\<close>: the first initialisation word, sent to
  the command port, starts a sequence of three words on the data port: the vector, the cascade and the
  mode; otherwise the data port holds the mask.
\<close>

datatype pic_phase = Operating | Awaits_Vector | Awaits_Cascade | Awaits_Mode

record pic =
  pic_phase :: pic_phase
  pic_vector :: u8
  pic_mask :: u8

definition pic_step :: "u16 \<Rightarrow> u16 \<Rightarrow> u8 \<Rightarrow> pic \<Rightarrow> pic" where
  "pic_step ctl port v p =
     (if port = ctl \<and> v = 0x11 then p\<lparr>pic_phase := Awaits_Vector, pic_mask := 0\<rparr>
      else if port = ctl + 1 then
        (case pic_phase p of
           Operating \<Rightarrow> p\<lparr>pic_mask := v\<rparr>
         | Awaits_Vector \<Rightarrow> p\<lparr>pic_phase := Awaits_Cascade, pic_vector := v AND 0xF8\<rparr>
         | Awaits_Cascade \<Rightarrow> p\<lparr>pic_phase := Awaits_Mode\<rparr>
         | Awaits_Mode \<Rightarrow> p\<lparr>pic_phase := Operating\<rparr>)
      else p)"

definition pic_law :: "(u16 \<Rightarrow> u8 \<Rightarrow> 'd \<Rightarrow> 'd) \<Rightarrow> u16 \<Rightarrow> ('d \<Rightarrow> pic) \<Rightarrow> bool" where
  "pic_law out ctl pic \<longleftrightarrow> (\<forall>port v d. (port = ctl \<longrightarrow> v = 0x11) \<longrightarrow> pic (out port v d) = pic_step ctl port v (pic d))"

text \<open>
  The old interrupt controllers: whatever state they are in, even in the middle of an
  initialisation, \<^verbatim>\<open>init_8259A\<close> leaves both operating, with the vectors 0x20 and 0x28 and with every line
  masked, so that interrupts arrive through the APIC only.
\<close>

theorem interrupt_controllers_masked:
  assumes "pic_law out 0x20 master" and "pic_law out 0xA0 slave"
  shows "master (init_8259A out d) = \<lparr>pic_phase = Operating, pic_vector = 0x20, pic_mask = 0xFF\<rparr> \<and>
    slave (init_8259A out d) = \<lparr>pic_phase = Operating, pic_vector = 0x28, pic_mask = 0xFF\<rparr>"
proof -
  have "master (out port v d) = pic_step 0x20 port v (master d)" if "port = 0x20 \<longrightarrow> v = 0x11" for port v d
    using assms(1) that by (simp add: pic_law_def)
  moreover have "slave (out port v d) = pic_step 0xA0 port v (slave d)" if "port = 0xA0 \<longrightarrow> v = 0x11" for port v d
    using assms(2) that by (simp add: pic_law_def)
  ultimately show ?thesis by (simp add: init_8259A_def pic_step_def)
qed

theorem interrupt_controllers_masked_witness:
  "let out = \<lambda>port v (m, s). (pic_step 0x20 port v m, pic_step 0xA0 port v s);
       p = \<lparr>pic_phase = Awaits_Cascade, pic_vector = 8, pic_mask = 1\<rparr>
   in fst (init_8259A out (p, p)) = \<lparr>pic_phase = Operating, pic_vector = 0x20, pic_mask = 0xFF\<rparr>"
proof -
  let ?out = "\<lambda>port v (m, s). (pic_step 0x20 port v m, pic_step 0xA0 port v s)"
  have "pic_law ?out 0x20 fst" "pic_law ?out 0xA0 snd" by (auto simp: pic_law_def)
  from interrupt_controllers_masked[OF this] show ?thesis by simp
qed

section \<open>The timer interrupt\<close>

text \<open>Port writes do not reach the I/O APIC.\<close>

definition ports_apart :: "(u16 \<Rightarrow> u8 \<Rightarrow> 'd \<Rightarrow> 'd) \<Rightarrow> ('d \<Rightarrow> u32 \<Rightarrow> u32) \<Rightarrow> bool" where
  "ports_apart out regs \<longleftrightarrow> (\<forall>port v d. regs (out port v d) = regs d)"

section \<open>The registers in the address space\<close>

lemma aligned_plus:
  assumes "x AND 0xFFF = (0 :: u32)" "f AND NOT 0xFFF = 0" "bit f 0"
  shows "(x + f) AND NOT 0xFFF = x" "BIT_TEST (x + f) 0"
proof -
  have "x AND f = 0"
  proof (rule bit_word_eqI)
    fix n
    show "bit (x AND f) n = bit (0 :: u32) n"
      using arg_cong[OF assms(1), of "\<lambda>y. bit y n"] arg_cong[OF assms(2), of "\<lambda>y. bit y n"] by (auto simp: bit_simps dest: bit_imp_le_length)
  qed
  then have o: "x + f = x OR f" by (rule disjunctive_add_eq_or)
  show "(x + f) AND NOT 0xFFF = x" unfolding o by (rule entry_page[OF assms(1,2)])
  show "BIT_TEST (x + f) 0" unfolding o using assms(3) by (simp add: BIT_TEST_bit bit_simps)
qed

lemma apic_indices: "va2pte 0xFEC00000 = 0" "va2pte 0xFEE00000 = 512" "va2pde 0xFEE00000 = 1019" "va2pde 0xFEC00000 = 1019"
  by code_simp+

text \<open>
  The APIC windows: \<^verbatim>\<open>init_apic\<close> maps the two register pages where the drivers access them, the I/O
  APIC to the address of the ACPI tables, and changes no other translation of the kernel's directory
  outside this 4 MB; the allocator stays sound and gives up one page.
\<close>

theorem apic_registers_mapped:
  assumes inv: "free_inv s F" and room: "0 < room F" and kd: "good_block kd 12" "block kd 12 \<inter> free_area F = {}"
    and tables: "\<forall>i. unat i < 1024 \<and> BIT_TEST (load_entry kd i s) 0 \<longrightarrow> good_block (table_of (load_entry kd i s)) 12 \<and>
      block (table_of (load_entry kd i s)) 12 \<inter> free_area F = {} \<and> table_of (load_entry kd i s) \<noteq> kd"
    and addr: "io_apic_addr AND 0xFFF = 0"
  shows "\<exists>s' F'. map_apics kd io_apic_addr s = Inr s' \<and> free_inv s' F' \<and> room F = room F' + 1 \<and>
    (\<forall>la. kernel_translate s' kd la =
       (if va2pde la = 1019 then if va2pte la = 0 then Some io_apic_addr else if va2pte la = 512 then Some 0xFEE00000 else None
        else kernel_translate s kd la))"
proof -
  obtain a s1 F1 where a: "memory_alloc 12 s = Inr (a, s1)" "good_block a 12" "block a 12 \<subseteq> free_area F"
      "free_inv s1 F1" "free_area F1 = free_area F - block a 12" "\<And>x. unat x \<notin> free_area F1 \<Longrightarrow> mem s1 x = mem s x"
    using alloc_page[OF inv has_page_room[OF inv room]] by metis
  have dis: "block a 12 \<inter> free_area F1 = {}" and kdis: "block kd 12 \<inter> free_area F1 = {}" using a(5) kd(2) by auto
  have ne: "kd \<noteq> a" using kd(2) a(3) block_self[of a 12] by auto
  define s2 where "s2 = fill_words a 1024 s1"
  define s3 where "s3 = store_entry a 0 (io_apic_addr + 27) s2"
  define s4 where "s4 = store_entry a 512 (0xFEE00000 + 27) s3"
  define s5 where "s5 = store_entry kd 1019 (va2pa a + 27) s4"
  have run: "map_apics kd io_apic_addr s = Inr s5"
    unfolding map_apics_def a(1) and_then_simps prod.case Let_def apic_indices
    by (simp only: s2_def[symmetric] s3_def[symmetric] s4_def[symmetric] s5_def[symmetric])
  have "free_inv s2 F1" unfolding s2_def by (rule fill_page_inv[OF a(4,2) dis]) simp
  then have "free_inv s3 F1" unfolding s3_def by (rule store_entry_inv[OF _ a(2) dis]) simp
  then have "free_inv s4 F1" unfolding s4_def by (rule store_entry_inv[OF _ a(2) dis]) simp
  then have inv5: "free_inv s5 F1" unfolding s5_def by (rule store_entry_inv[OF _ kd(1) kdis]) simp
  have at: "load_entry a j s5 = (if j = 0 then io_apic_addr + 27 else if j = 512 then 0xFEE00000 + 27 else 0)" if "unat j < 1024" for j
  proof -
    have "load_entry a j s5 = load_entry a j s4" using ne load_store_entry[OF a(2) kd(1) that, of 1019] by (simp add: s5_def)
    also have "\<dots> = (if j = 512 then 0xFEE00000 + 27 else load_entry a j s3)"
      using load_store_entry[OF a(2) a(2) that, of 512] by (auto simp: s4_def)
    also have "load_entry a j s3 = (if j = 0 then io_apic_addr + 27 else load_entry a j s2)"
      unfolding s3_def by (subst load_store_entry[OF a(2) a(2) that]) simp_all
    also have "load_entry a j s2 = 0"
      using load_fill_page[OF a(2) a(2) that, of 1024] that by (simp add: s2_def)
    finally show ?thesis by auto
  qed
  have kept: "load_entry t j s5 = load_entry t j s"
    if "good_block t 12" "block t 12 \<inter> free_area F = {}" "unat j < 1024" "t = kd \<longrightarrow> j \<noteq> 1019" for t j
  proof -
    have "t \<noteq> a" using that(2) a(3) block_self[of a 12] by auto
    then have "load_entry t j s5 = load_entry t j s1"
      using load_store_entry[OF that(1) kd(1) that(3), of 1019] load_store_entry[OF that(1) a(2) that(3)] load_fill_page[OF a(2) that(1,3), of 1024] that(4)
      by (auto simp: s5_def s4_def s3_def s2_def)
    also have "\<dots> = load_entry t j s" using a(5,6) entry_in_block[OF that(1,3)] that(2) unfolding load_entry_def by blast
    finally show ?thesis .
  qed
  have f: "(27 :: u32) AND NOT 0xFFF = 0" "bit (27 :: u32) 0" by code_simp+
  have tab: "table_of (va2pa a + 27) = a" "BIT_TEST (va2pa a + 27) 0"
    using aligned_plus[OF va2pa_aligned[OF a(2)] f] by (simp_all add: table_of_def)
  have "kernel_translate s5 kd la =
       (if va2pde la = 1019 then if va2pte la = 0 then Some io_apic_addr else if va2pte la = 512 then Some 0xFEE00000 else None
        else kernel_translate s kd la)" for la
  proof (cases "va2pde la = 1019")
    case True
    have e: "load_entry kd 1019 s5 = va2pa a + 27"
      using load_store_entry[OF kd(1) kd(1), of 1019 1019] by (simp add: s5_def)
    have m: "(0xFEE00000 :: u32) AND 0xFFF = 0" by code_simp
    have "\<not> BIT_TEST (0 :: u32) 0" by (simp add: BIT_TEST_def)
    then show ?thesis
      unfolding kernel_translate_def Let_def True e tab(1) at[OF va2pte_bound] using tab(2) aligned_plus[OF addr f] aligned_plus[OF m f]
      by simp
  next
    case False
    have e: "load_entry kd (va2pde la) s5 = load_entry kd (va2pde la) s" by (rule kept[OF kd va2pde_bound]) (use False in simp)
    have "load_entry (table_of (load_entry kd (va2pde la) s)) (va2pte la) s5 = load_entry (table_of (load_entry kd (va2pde la) s)) (va2pte la) s"
      if "BIT_TEST (load_entry kd (va2pde la) s) 0"
      by (rule kept) (use tables va2pde_bound[of la] va2pte_bound[of la] that in auto)
    then show ?thesis using False unfolding kernel_translate_def Let_def e by auto
  qed
  then show ?thesis using run inv5 room_alloc[OF a(2,3,5)] by (intro exI[of _ s5] exI[of _ F1]) simp
qed

theorem apic_registers_mapped_witness:
  "\<exists>s F kd s'. free_inv s F \<and> map_apics kd 0xFEC00000 s = Inr s' \<and> kernel_translate s' kd 0xFEC00000 = Some 0xFEC00000 \<and>
     kernel_translate s' kd 0xFEE00000 = Some 0xFEE00000"
proof -
  obtain s F where s: "free_inv s F" "free_area F = {0xC0100000 ..< 0xC0110000}" "16 \<le> room F"
      "\<And>x. unat x \<notin> {0xC0100000 ..< 0xC0110000} \<Longrightarrow> mem s x = 0"
    by (rule heap_16_pages, rule that)
  let ?kd = "0xC0200000 :: u32"
  have kd: "good_block ?kd 12" by (simp add: good_block_def)
  have dis: "block ?kd 12 \<inter> free_area F = {}" unfolding s(2) by (auto simp: block_def)
  have z: "load_entry ?kd i s = 0" if "unat i < 1024" for i
    using s(4) entry_in_block[OF kd that] dis unfolding s(2) load_entry_def by blast
  have tables: "\<forall>i. unat i < 1024 \<and> BIT_TEST (load_entry ?kd i s) 0 \<longrightarrow> good_block (table_of (load_entry ?kd i s)) 12 \<and>
      block (table_of (load_entry ?kd i s)) 12 \<inter> free_area F = {} \<and> table_of (load_entry ?kd i s) \<noteq> ?kd"
  proof (intro allI impI)
    fix i :: u32
    assume i: "unat i < 1024 \<and> BIT_TEST (load_entry ?kd i s) 0"
    have "\<not> BIT_TEST (load_entry ?kd i s) 0" using z[of i] i by (simp add: BIT_TEST_def)
    then show "good_block (table_of (load_entry ?kd i s)) 12 \<and>
      block (table_of (load_entry ?kd i s)) 12 \<inter> free_area F = {} \<and> table_of (load_entry ?kd i s) \<noteq> ?kd" using i by blast
  qed
  have "0 < room F" "(0xFEC00000 :: u32) AND 0xFFF = 0" using s(3) by simp_all
  from apic_registers_mapped[OF s(1) this(1) kd dis tables this(2)] obtain s' where r: "map_apics ?kd 0xFEC00000 s = Inr s'"
      "\<And>la. kernel_translate s' ?kd la =
       (if va2pde la = 1019 then if va2pte la = 0 then Some 0xFEC00000 else if va2pte la = 512 then Some 0xFEE00000 else None
        else kernel_translate s ?kd la)" by blast
  show ?thesis
    by (intro exI[of _ s] exI[of _ F] exI[of _ ?kd] exI[of _ s']) (simp add: s(1) r apic_indices)
qed

end
