(* ===== verification/Temp_Map.thy ===== *)
theory Temp_Map
  imports Start
begin

text \<open>
  The window through which the ACPI driver reads tables that the kernel does not map,
  \<^verbatim>\<open>returnVirtualAddress\<close> and \<^verbatim>\<open>cleanUpTempMaps\<close> of \<^verbatim>\<open>kernel/driver/acpi.c\<close>, on the kernel's page
  directory. \<open>Apic\<close> has the view of it that the parser relies on; the lemmas show that the page tables give this view.
\<close>

section \<open>Operations\<close>

abbreviation (input) TEMP_MAP_POSITION :: u32 where "TEMP_MAP_POSITION \<equiv> 0x40000000"

definition temp_table :: "u32 \<Rightarrow> kmem \<Rightarrow> u32" where
  "temp_table kernelPDE s = pa2va (load_entry kernelPDE (va2pde TEMP_MAP_POSITION) s) AND NOT 0xFFF"

definition ensure_temp :: "u32 \<Rightarrow> kmem \<Rightarrow> kerror + kmem" where
  "ensure_temp kernelPDE s =
     (if BIT_TEST (load_entry kernelPDE (va2pde TEMP_MAP_POSITION) s) 0 then Inr s
      else
        and_then (memory_alloc 12 s) (\<lambda>(pg, s).
        let s = fill_words pg 1024 s
        in Inr (store_entry kernelPDE (va2pde TEMP_MAP_POSITION) (va2pa pg + 0b11011) s)))"

text \<open>The search for a free entry, which goes on past the end of the table.\<close>

partial_function (option) free_slot :: "u32 \<Rightarrow> u32 \<Rightarrow> kmem \<Rightarrow> u32 option" where
  "free_slot pgo pg s = (if BIT_TEST (load_entry pgo pg s) 0 then free_slot pgo (pg + 1) s else Some pg)"

definition map_temp :: "u32 \<Rightarrow> u32 \<Rightarrow> kmem \<Rightarrow> (kerror + (u32 \<times> kmem)) option" where
  "map_temp kernelPDE phyaddr s =
     (case ensure_temp kernelPDE s of
        Inl e \<Rightarrow> Some (Inl e)
      | Inr s \<Rightarrow>
          let pgo = temp_table kernelPDE s
          in map_option (\<lambda>pg. Inr (TEMP_MAP_POSITION + (4 * pg) * 1024 + (phyaddr AND 0xFFF),
               store_entry pgo pg ((phyaddr AND NOT 0xFFF) + 0b11011) s)) (free_slot pgo 0 s))"

definition cleanUpTempMaps :: "u32 \<Rightarrow> kmem \<Rightarrow> kerror + kmem" where
  "cleanUpTempMaps kernelPDE s =
     (if BIT_TEST (load_entry kernelPDE (va2pde TEMP_MAP_POSITION) s) 0 then
        and_then (memory_block_free (temp_table kernelPDE s) 12 s) (\<lambda>s.
        Inr (store_entry kernelPDE (va2pde TEMP_MAP_POSITION) 0 s))
      else Inr s)"

text \<open>A sequence of calls, on the page tables and on the view of \<open>Apic\<close>.\<close>

fun map_temps :: "u32 \<Rightarrow> u32 list \<Rightarrow> kmem \<Rightarrow> (kerror + (u32 list \<times> kmem)) option" where
  "map_temps kd [] s = Some (Inr ([], s))"
| "map_temps kd (p # ps) s =
     (case map_temp kd p s of
        Some (Inr (la, s)) \<Rightarrow> map_option (map_sum id (\<lambda>(las, s). (la # las, s))) (map_temps kd ps s)
      | Some (Inl e) \<Rightarrow> Some (Inl e)
      | None \<Rightarrow> None)"

fun view_temps :: "bytes \<Rightarrow> u32 list \<Rightarrow> nat \<times> bytes \<Rightarrow> kerror + (u32 list \<times> nat \<times> bytes)" where
  "view_temps phys [] st = Inr ([], st)"
| "view_temps phys (p # ps) st =
     and_then (returnVirtualAddress phys p st) (\<lambda>(la, st).
     and_then (view_temps phys ps st) (\<lambda>(las, st). Inr (la # las, st)))"

text \<open>What the kernel reads at an address.\<close>

definition kernel_sees :: "bytes \<Rightarrow> kmem \<Rightarrow> u32 \<Rightarrow> u32 \<Rightarrow> u8 option" where
  "kernel_sees phys s kd la = map_option (\<lambda>p. phys (p + (la AND 0xFFF))) (kernel_translate s kd la)"

section \<open>The state of the window\<close>

lemma temp_index: "va2pde TEMP_MAP_POSITION = 256" by code_simp

definition window :: "kmem \<Rightarrow> (nat \<Rightarrow> u32 list) \<Rightarrow> u32 \<Rightarrow> u32 list \<Rightarrow> u32 \<Rightarrow> (nat \<Rightarrow> u32 list) \<Rightarrow> kmem \<Rightarrow> bool" where
  "window s0 F0 kd pas t F s \<longleftrightarrow> good_block t 12 \<and> block t 12 \<subseteq> free_area F0 \<and> free_inv s F \<and>
     free_area F = free_area F0 - block t 12 \<and> load_entry kd 256 s = va2pa t + 27 \<and>
     (\<forall>j. unat j < 1024 \<longrightarrow> load_entry t j s = (if unat j < length pas then (pas ! unat j AND NOT 0xFFF) + 27 else 0)) \<and>
     (\<forall>u j. good_block u 12 \<and> block u 12 \<inter> free_area F0 = {} \<and> unat j < 1024 \<and> \<not> (u = kd \<and> j = 256) \<longrightarrow>
        load_entry u j s = load_entry u j s0)"

lemma entry_27:
  "(27 :: u32) AND NOT 0xFFF = 0" "bit (27 :: u32) 0"
  by code_simp+

lemma page_part: "(x AND NOT 0xFFF) AND 0xFFF = (0 :: u32)"
  by (simp add: and.assoc)

lemma page_27: "((x AND NOT 0xFFF) + 27) AND NOT 0xFFF = x AND NOT 0xFFF" "BIT_TEST ((x AND NOT 0xFFF) + 27) 0" for x :: u32
  using aligned_plus[OF page_part entry_27] by blast+

lemma temp_table_at:
  assumes "good_block t 12" "load_entry kd 256 s = va2pa t + 27"
  shows "temp_table kd s = t" "BIT_TEST (load_entry kd 256 s) 0"
proof -
  have "pa2va (va2pa t + 27) = t + 27" by (simp add: pa2va_def va2pa_def)
  moreover have "t AND 0xFFF = 0" using assms(1) unfolding page_aligned_iff good_block_def by simp
  ultimately show "temp_table kd s = t" using aligned_plus(1)[OF _ entry_27] by (simp add: temp_table_def temp_index assms(2))
  show "BIT_TEST (load_entry kd 256 s) 0" using aligned_plus(2)[OF va2pa_aligned[OF assms(1)] entry_27] by (simp add: assms(2))
qed

lemma open_window:
  assumes inv: "free_inv s F0" "0 < room F0" and kd: "good_block kd 12" "block kd 12 \<inter> free_area F0 = {}"
    and e: "\<not> BIT_TEST (load_entry kd 256 s) 0"
  obtains t F s' where "ensure_temp kd s = Inr s'" "window s F0 kd [] t F s'"
proof -
  obtain t s1 F where a: "memory_alloc 12 s = Inr (t, s1)" "good_block t 12" "block t 12 \<subseteq> free_area F0"
      "free_inv s1 F" "free_area F = free_area F0 - block t 12" "\<And>x. unat x \<notin> free_area F \<Longrightarrow> mem s1 x = mem s x"
    using alloc_page[OF inv(1) has_page_room[OF inv]] by metis
  have dis: "block t 12 \<inter> free_area F = {}" "block kd 12 \<inter> free_area F = {}" using a(5) kd(2) by auto
  have ne: "kd \<noteq> t" using kd(2) a(3) block_self[of t 12] by auto
  define s2 where "s2 = fill_words t 1024 s1"
  define s3 where "s3 = store_entry kd 256 (va2pa t + 27) s2"
  have run: "ensure_temp kd s = Inr s3"
    using e by (simp add: ensure_temp_def temp_index a(1) s2_def s3_def Let_def)
  have "free_inv s2 F" unfolding s2_def by (rule fill_page_inv[OF a(4,2) dis(1)]) simp
  then have 3: "free_inv s3 F" unfolding s3_def by (rule store_entry_inv[OF _ kd(1) dis(2)]) simp
  have l: "load_entry u j s3 = (if u = kd \<and> j = 256 then va2pa t + 27 else if u = t then 0 else load_entry u j s1)"
    if "good_block u 12" "unat j < 1024" for u j
    using load_store_entry[OF that(1) kd(1) that(2), of 256] load_fill_page[OF a(2) that, of 1024] that(2)
    by (auto simp: s3_def s2_def)
  have old: "load_entry u j s1 = load_entry u j s" if "good_block u 12" "block u 12 \<inter> free_area F0 = {}" "unat j < 1024" for u j
    using a(5,6) entry_in_block[OF that(1,3)] that(2) unfolding load_entry_def by blast
  have "u \<noteq> t" if "block u 12 \<inter> free_area F0 = {}" for u using that a(3) block_self[of t 12] by auto
  then have "window s F0 kd [] t F s3"
    unfolding window_def using a(2,3,5) 3 l[OF kd(1), of 256] l[OF a(2)] ne l old by auto
  then show thesis using that run by blast
qed

lemma free_slot_finds:
  assumes "i \<le> n" "n < 1024" "\<forall>j. unat j < n \<longrightarrow> BIT_TEST (load_entry t j s) 0" "\<not> BIT_TEST (load_entry t (of_nat n) s) 0"
  shows "free_slot t (of_nat i) s = Some (of_nat n)"
  using assms(1)
proof (induction "n - i" arbitrary: i)
  case 0
  then show ?case using assms(4) by (subst free_slot.simps) simp
next
  case (Suc k)
  then have "unat (of_nat i :: u32) < n" using assms(2) by (simp add: unat_of_nat_small)
  moreover have "free_slot t (of_nat (Suc i)) s = Some (of_nat n)" by (rule Suc(1)) (use Suc(2) in simp_all)
  ultimately show ?case using assms(3) by (subst free_slot.simps) (simp add: add.commute)
qed

lemma extend_window:
  assumes w: "window s0 F0 kd pas t F s" and kd: "good_block kd 12" "block kd 12 \<inter> free_area F0 = {}" and len: "length pas < 1024"
  obtains s' where "map_temp kd p s = Some (Inr (TEMP_MAP_POSITION + of_nat (length pas) * 4096 + (p AND 0xFFF), s'))"
    "window s0 F0 kd (pas @ [p]) t F s'"
proof -
  let ?n = "of_nat (length pas) :: u32" and ?e = "(p AND NOT 0xFFF) + 27"
  have t: "good_block t 12" "block t 12 \<subseteq> free_area F0" and inv: "free_inv s F" and F: "free_area F = free_area F0 - block t 12"
    and e: "load_entry kd 256 s = va2pa t + 27"
    and at: "\<And>j. unat j < 1024 \<Longrightarrow> load_entry t j s = (if unat j < length pas then (pas ! unat j AND NOT 0xFFF) + 27 else 0)"
    and old: "\<And>u j. good_block u 12 \<Longrightarrow> block u 12 \<inter> free_area F0 = {} \<Longrightarrow> unat j < 1024 \<Longrightarrow> \<not> (u = kd \<and> j = 256) \<Longrightarrow>
        load_entry u j s = load_entry u j s0"
    using w unfolding window_def by blast+
  note tt = temp_table_at[OF t(1) e]
  have un: "unat ?n = length pas" using len by (simp add: unat_of_nat_small)
  have other: "u \<noteq> t" if "block u 12 \<inter> free_area F0 = {}" for u using that t(2) block_self[of t 12] by auto
  have "free_slot t (of_nat 0) s = Some ?n"
  proof (rule free_slot_finds)
    show "\<forall>j. unat j < length pas \<longrightarrow> BIT_TEST (load_entry t j s) 0" using at len page_27(2) by simp
    show "\<not> BIT_TEST (load_entry t ?n s) 0" using at[of ?n] un len by (simp add: BIT_TEST_def)
  qed (use len in simp_all)
  then have run: "map_temp kd p s = Some (Inr (TEMP_MAP_POSITION + ?n * 4096 + (p AND 0xFFF), store_entry t ?n ?e s))"
    by (simp add: map_temp_def ensure_temp_def temp_index tt Let_def)
  have l: "load_entry u j (store_entry t ?n ?e s) = (if u = t \<and> j = ?n then ?e else load_entry u j s)" if "good_block u 12" "unat j < 1024" for u j
    by (rule load_store_entry[OF that(1) t(1) that(2)]) (use un len in simp)
  have "block t 12 \<inter> free_area F = {}" using F by auto
  then have inv': "free_inv (store_entry t ?n ?e s) F" by (rule store_entry_inv[OF inv t(1)]) (use un len in simp)
  have "load_entry t j (store_entry t ?n ?e s) = (if unat j < length (pas @ [p]) then ((pas @ [p]) ! unat j AND NOT 0xFFF) + 27 else 0)"
    if "unat j < 1024" for j
  proof (cases "j = ?n")
    case True
    then show ?thesis using l[OF t(1) that] un by simp
  next
    case False
    then have "unat j \<noteq> length pas" using un by (metis word_unat_eq_iff)
    then show ?thesis using l[OF t(1) that] False at[OF that] by (auto simp: nth_append)
  qed
  moreover have "load_entry kd 256 (store_entry t ?n ?e s) = va2pa t + 27" using l[OF kd(1), of 256] other[OF kd(2)] e by simp
  moreover have "load_entry u j (store_entry t ?n ?e s) = load_entry u j s0"
    if "good_block u 12" "block u 12 \<inter> free_area F0 = {}" "unat j < 1024" "\<not> (u = kd \<and> j = 256)" for u j
    using l[OF that(1,3)] other[OF that(2)] old[OF that] by simp
  ultimately have "window s0 F0 kd (pas @ [p]) t F (store_entry t ?n ?e s)"
    unfolding window_def using t inv' F by blast
  then show thesis using that run by blast
qed

fun temp_addrs :: "nat \<Rightarrow> u32 list \<Rightarrow> u32 list" where
  "temp_addrs n [] = []"
| "temp_addrs n (p # ps) = (TEMP_MAP_POSITION + of_nat n * 4096 + (p AND 0xFFF)) # temp_addrs (Suc n) ps"

lemma extend_windows:
  assumes "window s0 F0 kd pas t F s" "good_block kd 12" "block kd 12 \<inter> free_area F0 = {}" "length pas + length ps \<le> 1024"
  shows "\<exists>s'. map_temps kd ps s = Some (Inr (temp_addrs (length pas) ps, s')) \<and> window s0 F0 kd (pas @ ps) t F s'"
  using assms(1,4)
proof (induction ps arbitrary: pas s)
  case (Cons p ps)
  have "length pas < 1024" using Cons.prems(2) by simp
  from extend_window[OF Cons.prems(1) assms(2,3) this, of p] obtain s1 where
    1: "map_temp kd p s = Some (Inr (TEMP_MAP_POSITION + of_nat (length pas) * 4096 + (p AND 0xFFF), s1))"
      "window s0 F0 kd (pas @ [p]) t F s1" .
  have "length (pas @ [p]) + length ps \<le> 1024" using Cons.prems(2) by simp
  from Cons.IH[OF 1(2) this] show ?case using 1(1) by auto
qed simp

section \<open>The view\<close>

lemma in_window:
  assumes "n < 1024"
  shows "unat (a - (TEMP_MAP_POSITION + of_nat n * 4096)) < 4096 \<longleftrightarrow> va2pde a = 256 \<and> unat (va2pte a) = n"
    "unat (a - (TEMP_MAP_POSITION + of_nat n * 4096)) < 4096 \<Longrightarrow> a - (TEMP_MAP_POSITION + of_nat n * 4096) = a AND 0xFFF"
proof -
  let ?p = "TEMP_MAP_POSITION + of_nat n * 4096" and ?a = "unat a"
  have "?p = of_nat (0x40000000 + n * 4096)" by simp
  moreover have "0x40000000 + n * 4096 < 2 ^ 32" using assms by simp
  ultimately have up: "unat ?p = 0x40000000 + n * 4096" by (simp only:) (rule unat_of_nat_small, simp)
  have d: "unat (a - ?p) = (if unat ?p \<le> ?a then ?a - unat ?p else 2 ^ 32 - (unat ?p - ?a))"
    using up assms unfolding unat_sub_if_size word_le_nat_alt by (simp add: word_size)
  have b: "?a < 2 ^ 32" using unsigned_less[of a, where ?'a = nat] by simp
  have ix: "unat (va2pde a) = ?a div 2 ^ 22" "unat (va2pte a) = ?a div 2 ^ 12 mod 1024"
    using mod_mult2_eq[of ?a 4096 1024] by (simp_all add: unat_va2pde unat_va2pte)
  have pd: "va2pde a = 256 \<longleftrightarrow> ?a div 2 ^ 22 = 256" unfolding ix(1)[symmetric] by (simp add: word_unat_eq_iff)
  have s: "?a div 2 ^ 22 = ?a div 2 ^ 12 div 1024" by (simp add: div_mult2_eq[symmetric])
  have "k div 1024 = 256 \<and> k mod 1024 = n \<longleftrightarrow> k = 256 * 1024 + n" for k :: nat
  proof
    assume "k div 1024 = 256 \<and> k mod 1024 = n"
    then show "k = 256 * 1024 + n" using div_mult_mod_eq[of k 1024] by (elim conjE) (simp only:)
  next
    assume "k = 256 * 1024 + n"
    then show "k div 1024 = 256 \<and> k mod 1024 = n" using assms by (simp only: div_mult_self3 mod_mult_self3) simp
  qed
  then have q: "va2pde a = 256 \<and> unat (va2pte a) = n \<longleftrightarrow> ?a div 2 ^ 12 = 256 * 1024 + n"
    unfolding pd ix(2) s .
  have w: "unat (a - ?p) < 4096 \<longleftrightarrow> unat ?p \<le> ?a \<and> ?a < unat ?p + 4096" unfolding d using b up assms by auto
  have split: "?a = (?a div 2 ^ 12) * 4096 + ?a mod 4096" "?a mod 4096 < 4096" by simp_all
  have "(0x40000000 + n * 4096 \<le> k * 4096 + r \<and> k * 4096 + r < 0x40000000 + n * 4096 + 4096) \<longleftrightarrow> k = 256 * 1024 + n"
    if "r < 4096" for k r :: nat
    using that by (cases k "256 * 1024 + n" rule: linorder_cases) auto
  then show iff: "unat (a - ?p) < 4096 \<longleftrightarrow> va2pde a = 256 \<and> unat (va2pte a) = n"
    unfolding w q up using split by metis
  assume h: "unat (a - ?p) < 4096"
  then have "unat (a - ?p) = ?a - unat ?p" "?a div 2 ^ 12 = 256 * 1024 + n" using w d iff q by simp_all
  then have "unat (a - ?p) = ?a mod 4096" using split(1) unfolding up by linarith
  moreover have "a AND 0xFFF = take_bit 12 a" by (simp add: take_bit_eq_mask mask_eq_exp_minus_1)
  then have "unat (a AND 0xFFF) = ?a mod 4096" by (simp only: unsigned_take_bit_eq) (simp add: take_bit_eq_mod)
  ultimately show "a - ?p = a AND 0xFFF" by (simp add: word_unat_eq_iff)
qed

lemma view_temps_ok:
  "n + length ps \<le> 1024 \<Longrightarrow> \<exists>m'. view_temps phys ps (n, m) = Inr (temp_addrs n ps, n + length ps, m') \<and>
     (\<forall>a. m' a = (if va2pde a = 256 \<and> n \<le> unat (va2pte a) \<and> unat (va2pte a) < n + length ps
        then phys ((ps ! (unat (va2pte a) - n) AND NOT 0xFFF) + (a AND 0xFFF)) else m a))"
proof (induction ps arbitrary: n m)
  case (Cons p ps)
  have n: "n < 1024" using Cons.prems by simp
  define m1 where "m1 = (\<lambda>a. if unat (a - (TEMP_MAP_POSITION + of_nat n * 4096)) < 4096
    then phys ((p AND NOT 0xFFF) + (a - (TEMP_MAP_POSITION + of_nat n * 4096))) else m a)"
  have m1: "m1 a = (if va2pde a = 256 \<and> unat (va2pte a) = n then phys ((p AND NOT 0xFFF) + (a AND 0xFFF)) else m a)" for a
    using in_window[OF n, of a] by (auto simp: m1_def)
  have r: "returnVirtualAddress phys p (n, m) = Inr (TEMP_MAP_POSITION + of_nat n * 4096 + (p AND 0xFFF), Suc n, m1)"
    using n unfolding m1_def by (simp add: returnVirtualAddress_def Let_def)
  have "Suc n + length ps \<le> 1024" using Cons.prems by simp
  then obtain m' where m': "view_temps phys ps (Suc n, m1) = Inr (temp_addrs (Suc n) ps, Suc n + length ps, m')"
    "\<forall>a. m' a = (if va2pde a = 256 \<and> Suc n \<le> unat (va2pte a) \<and> unat (va2pte a) < Suc n + length ps
        then phys ((ps ! (unat (va2pte a) - Suc n) AND NOT 0xFFF) + (a AND 0xFFF)) else m1 a)"
    using Cons.IH[of "Suc n" m1] by blast
  have "m' a = (if va2pde a = 256 \<and> n \<le> unat (va2pte a) \<and> unat (va2pte a) < n + length (p # ps)
        then phys (((p # ps) ! (unat (va2pte a) - n) AND NOT 0xFFF) + (a AND 0xFFF)) else m a)" for a
  proof (cases "unat (va2pte a) = n")
    case True
    then show ?thesis using m'(2) m1[of a] by simp
  next
    case False
    then have "n \<le> unat (va2pte a) \<longleftrightarrow> Suc n \<le> unat (va2pte a)" by auto
    moreover have "(p # ps) ! (unat (va2pte a) - n) = ps ! (unat (va2pte a) - Suc n)" if "Suc n \<le> unat (va2pte a)"
      using that by (simp add: nth_Cons')
    ultimately show ?thesis using m'(2) m1[of a] False by simp
  qed
  moreover have "view_temps phys (p # ps) (n, m) = Inr (temp_addrs n (p # ps), n + length (p # ps), m')" using m'(1) r by simp
  ultimately show ?case by blast
qed auto

text \<open>The tables of a directory whose pages are apart from the free ones.\<close>

definition tables_apart :: "kmem \<Rightarrow> (nat \<Rightarrow> u32 list) \<Rightarrow> u32 \<Rightarrow> bool" where
  "tables_apart s F kd \<longleftrightarrow> (\<forall>i. unat i < 1024 \<and> BIT_TEST (load_entry kd i s) 0 \<longrightarrow>
     good_block (table_of (load_entry kd i s)) 12 \<and> block (table_of (load_entry kd i s)) 12 \<inter> free_area F = {} \<and>
     table_of (load_entry kd i s) \<noteq> kd)"

lemma same_translation:
  assumes kd: "good_block kd 12" "block kd 12 \<inter> free_area F = {}" and tab: "tables_apart s F kd"
    and old: "\<And>u j. good_block u 12 \<Longrightarrow> block u 12 \<inter> free_area F = {} \<Longrightarrow> unat j < 1024 \<Longrightarrow> \<not> (u = kd \<and> j = 256) \<Longrightarrow>
        load_entry u j s' = load_entry u j s"
    and la: "va2pde la \<noteq> 256"
  shows "kernel_translate s' kd la = kernel_translate s kd la"
proof -
  have e: "load_entry kd (va2pde la) s' = load_entry kd (va2pde la) s" by (rule old[OF kd va2pde_bound]) (use la in simp)
  have "load_entry (table_of (load_entry kd (va2pde la) s)) (va2pte la) s' = load_entry (table_of (load_entry kd (va2pde la) s)) (va2pte la) s"
    if "BIT_TEST (load_entry kd (va2pde la) s) 0"
    by (rule old) (use tab[unfolded tables_apart_def] va2pde_bound[of la] va2pte_bound[of la] that in auto)
  then show ?thesis unfolding kernel_translate_def Let_def e by auto
qed

lemma window_translate:
  assumes w: "window s0 F0 kd pas t F s" and kd: "good_block kd 12" "block kd 12 \<inter> free_area F0 = {}" and tab: "tables_apart s0 F0 kd"
  shows "kernel_translate s kd la =
    (if va2pde la = 256 then if unat (va2pte la) < length pas then Some (pas ! unat (va2pte la) AND NOT 0xFFF) else None
     else kernel_translate s0 kd la)"
proof (cases "va2pde la = 256")
  case True
  have t: "good_block t 12" and e: "load_entry kd 256 s = va2pa t + 27"
    and at: "load_entry t (va2pte la) s = (if unat (va2pte la) < length pas then (pas ! unat (va2pte la) AND NOT 0xFFF) + 27 else 0)"
    using w va2pte_bound[of la] unfolding window_def by blast+
  have "table_of (va2pa t + 27) = t" using aligned_plus(1)[OF va2pa_aligned[OF t] entry_27] by (simp add: table_of_def)
  moreover have "BIT_TEST (va2pa t + 27) 0" using temp_table_at(2)[OF t e] by (simp add: e)
  ultimately show ?thesis unfolding kernel_translate_def Let_def True e using at page_27 by (simp add: BIT_TEST_def)
next
  case False
  have "kernel_translate s kd la = kernel_translate s0 kd la"
    by (rule same_translation[OF kd tab _ False]) (use w in \<open>simp add: window_def\<close>)
  then show ?thesis using False by simp
qed

lemma close_window:
  assumes w: "window s0 F0 kd pas t F s" and kd: "good_block kd 12" "block kd 12 \<inter> free_area F0 = {}" and tab: "tables_apart s0 F0 kd"
    and e0: "\<not> BIT_TEST (load_entry kd 256 s0) 0"
  obtains s' F' where "cleanUpTempMaps kd s = Inr s'" "free_inv s' F'" "free_area F' = free_area F0"
    "\<And>la. kernel_translate s' kd la = kernel_translate s0 kd la"
proof -
  have t: "good_block t 12" "block t 12 \<subseteq> free_area F0" and inv: "free_inv s F" and F: "free_area F = free_area F0 - block t 12"
    and e: "load_entry kd 256 s = va2pa t + 27"
    and old: "\<And>u j. good_block u 12 \<Longrightarrow> block u 12 \<inter> free_area F0 = {} \<Longrightarrow> unat j < 1024 \<Longrightarrow> \<not> (u = kd \<and> j = 256) \<Longrightarrow>
        load_entry u j s = load_entry u j s0"
    using w unfolding window_def by blast+
  have "block t 12 \<inter> free_area F = {}" "free_area F \<union> block t 12 = free_area F0" using F t(2) by auto
  then obtain s1 F1 where 1: "memory_block_free t 12 s = Inr s1" "free_inv s1 F1" "free_area F1 = free_area F0"
      "\<forall>x. unat x \<notin> free_area F0 \<longrightarrow> mem s1 x = mem s x"
    using memory_block_free_ok[OF inv t(1)] unfolding frees_def by auto
  let ?s = "store_entry kd 256 0 s1"
  have run: "cleanUpTempMaps kd s = Inr ?s"
    using temp_table_at[OF t(1) e] 1(1) by (simp add: cleanUpTempMaps_def temp_index)
  have inv': "free_inv ?s F1" by (rule store_entry_inv[OF 1(2) kd(1)]) (use kd(2) 1(3) in simp_all)
  have l: "load_entry u j ?s = (if u = kd \<and> j = 256 then 0 else load_entry u j s)"
    if "good_block u 12" "block u 12 \<inter> free_area F0 = {}" "unat j < 1024" for u j
  proof -
    have "load_entry u j s1 = load_entry u j s" using 1(4) entry_in_block[OF that(1,3)] that(2) unfolding load_entry_def by blast
    then show ?thesis using load_store_entry[OF that(1) kd(1) that(3), of 256] by simp
  qed
  have "kernel_translate ?s kd la = kernel_translate s0 kd la" for la
  proof (cases "va2pde la = 256")
    case True
    have "load_entry kd 256 ?s = 0" using l[OF kd, of 256] by simp
    then show ?thesis using e0 by (simp add: kernel_translate_def True BIT_TEST_def)
  next
    case False
    show ?thesis by (rule same_translation[OF kd tab _ False]) (use l old in auto)
  qed
  then show thesis using that run inv' 1(3) by blast
qed

text \<open>
  C22. The window of the ACPI driver: mapping up to 1024 addresses into a kernel directory without one
  gives the addresses, and through the page tables the memory, that the parser's view promises:
  each page of the window shows the physical page of its address. All other translations stay, and
  \<^verbatim>\<open>cleanUpTempMaps\<close> restores the translation and gives back the page of the table.
\<close>

theorem temp_maps_refine:
  assumes inv: "free_inv s F" "0 < room F" and kd: "good_block kd 12" "block kd 12 \<inter> free_area F = {}" and tab: "tables_apart s F kd"
    and e: "\<not> BIT_TEST (load_entry kd 256 s) 0" and len: "length ps \<le> 1024"
  shows "\<exists>las m' s' s'' F''. view_temps phys ps (0, m) = Inr (las, length ps, m') \<and> map_temps kd ps s = Some (Inr (las, s')) \<and>
    (\<forall>la. if va2pde la = 256 \<and> unat (va2pte la) < length ps then kernel_sees phys s' kd la = Some (m' la)
          else kernel_translate s' kd la = kernel_translate s kd la \<and> m' la = m la) \<and>
    cleanUpTempMaps kd s' = Inr s'' \<and> free_inv s'' F'' \<and> free_area F'' = free_area F \<and>
    (\<forall>la. kernel_translate s'' kd la = kernel_translate s kd la)"
proof (cases ps)
  case Nil
  then show ?thesis using inv e by (simp add: cleanUpTempMaps_def temp_index) blast
next
  case (Cons p qs)
  obtain t F1 s1 where 1: "ensure_temp kd s = Inr s1" "window s F kd [] t F1 s1" using open_window[OF inv kd e] .
  have "good_block t 12" "load_entry kd 256 s1 = va2pa t + 27" using 1(2) by (simp_all add: window_def)
  from temp_table_at(2)[OF this] have "ensure_temp kd s1 = Inr s1" by (simp add: ensure_temp_def temp_index)
  then have "map_temp kd p s = map_temp kd p s1" using 1(1) by (simp add: map_temp_def)
  then have m: "map_temps kd ps s = map_temps kd ps s1" unfolding Cons by simp
  obtain s' where s': "map_temps kd ps s1 = Some (Inr (temp_addrs 0 ps, s'))" "window s F kd ps t F1 s'"
    using extend_windows[OF 1(2) kd, of ps] len by auto
  obtain m' where m': "view_temps phys ps (0, m) = Inr (temp_addrs 0 ps, length ps, m')"
      "\<forall>a. m' a = (if va2pde a = 256 \<and> unat (va2pte a) < length ps
        then phys ((ps ! unat (va2pte a) AND NOT 0xFFF) + (a AND 0xFFF)) else m a)"
    using view_temps_ok[of 0 ps phys m] len by auto
  obtain s'' F'' where c: "cleanUpTempMaps kd s' = Inr s''" "free_inv s'' F''" "free_area F'' = free_area F"
      "\<And>la. kernel_translate s'' kd la = kernel_translate s kd la"
    by (rule close_window[OF s'(2) kd tab e]) (rule that)
  have "if va2pde la = 256 \<and> unat (va2pte la) < length ps then kernel_sees phys s' kd la = Some (m' la)
          else kernel_translate s' kd la = kernel_translate s kd la \<and> m' la = m la" for la
  proof (cases "va2pde la = 256")
    case True
    have "kernel_translate s kd la = None" using e by (simp add: kernel_translate_def True)
    then show ?thesis using window_translate[OF s'(2) kd tab, of la] m'(2) True by (simp add: kernel_sees_def)
  next
    case False
    then show ?thesis using window_translate[OF s'(2) kd tab, of la] m'(2) by simp
  qed
  then show ?thesis using m'(1) s'(1) m c by metis
qed

theorem temp_maps_refine_witness:
  "\<exists>s F las m' s' s'' F''. free_inv s F \<and> view_temps (\<lambda>a. ucast (drop_bit 12 a)) [0x7FE0123, 0x7FE1000] (0, \<lambda>_. 0) = Inr (las, 2, m') \<and>
     map_temps 0xC0200000 [0x7FE0123, 0x7FE1000] s = Some (Inr (las, s')) \<and>
     kernel_sees (\<lambda>a. ucast (drop_bit 12 a)) s' 0xC0200000 0x40001000 = Some (m' 0x40001000) \<and>
     cleanUpTempMaps 0xC0200000 s' = Inr s'' \<and> free_area F'' = free_area F"
proof -
  obtain s F where s: "free_inv s F" "free_area F = {0xC0100000 ..< 0xC0110000}" "16 \<le> room F"
      "\<And>x. unat x \<notin> {0xC0100000 ..< 0xC0110000} \<Longrightarrow> mem s x = 0"
    by (rule heap_16_pages, rule that)
  let ?kd = "0xC0200000 :: u32"
  have kd: "good_block ?kd 12" by (simp add: good_block_def)
  have dis: "block ?kd 12 \<inter> free_area F = {}" unfolding s(2) by (auto simp: block_def)
  have z: "\<not> BIT_TEST (load_entry ?kd i s) 0" if "unat i < 1024" for i
  proof -
    have "load_entry ?kd i s = 0" using s(4) entry_in_block[OF kd that] dis unfolding s(2) load_entry_def by blast
    then show ?thesis by (simp add: BIT_TEST_def)
  qed
  have tab: "tables_apart s F ?kd" unfolding tables_apart_def using z by blast
  have e: "\<not> BIT_TEST (load_entry ?kd 256 s) 0" by (rule z) simp
  have rm: "0 < room F" using s(3) by simp
  have len: "length [0x7FE0123, 0x7FE1000 :: u32] \<le> 1024" by simp
  have ix: "va2pde 0x40001000 = 256" "va2pte 0x40001000 = 1" by code_simp+
  from temp_maps_refine[OF s(1) rm kd dis tab e len, of "\<lambda>a. ucast (drop_bit 12 a)" "\<lambda>_. 0"] obtain las m' s' s'' F'' where
    r: "view_temps (\<lambda>a. ucast (drop_bit 12 a)) [0x7FE0123, 0x7FE1000] (0, \<lambda>_. 0) = Inr (las, length [0x7FE0123, 0x7FE1000 :: u32], m')"
      "map_temps ?kd [0x7FE0123, 0x7FE1000] s = Some (Inr (las, s'))"
      "\<forall>la. if va2pde la = 256 \<and> unat (va2pte la) < length [0x7FE0123, 0x7FE1000 :: u32]
        then kernel_sees (\<lambda>a. ucast (drop_bit 12 a)) s' ?kd la = Some (m' la)
        else kernel_translate s' ?kd la = kernel_translate s ?kd la \<and> m' la = 0"
      "cleanUpTempMaps ?kd s' = Inr s''" "free_area F'' = free_area F"
    by (elim exE conjE) (rule that)
  have "kernel_sees (\<lambda>a. ucast (drop_bit 12 a)) s' ?kd 0x40001000 = Some (m' 0x40001000)"
    using r(3)[rule_format, of "0x40001000"] by (simp add: ix)
  then show ?thesis using s(1) r(1,2,4,5) by simp blast
qed

end
