(* ===== verification/Terminal.thy ===== *)
theory Terminal
  imports Windows Video
begin

text \<open>
  From the keyboard to the screen: the messages that the keyboard driver sends, the queue of the window
  manager, its echo, rendered by the console. \<open>typed\<close> says what a user expects to read for a stream of key events.
\<close>

section \<open>A line of text\<close>

definition cells :: "video \<Rightarrow> u8 list \<Rightarrow> nat \<Rightarrow> nat \<Rightarrow> bool" where
  "cells v cs X Y \<longleftrightarrow> (\<forall>n < length cs. \<forall>i < 8. \<forall>j < 16.
     pixel v (X + 8 * n + i) (Y + j) = rgb_bytes (if glyph_bit (cs ! n) i j then 0xFFFFFF else 0x300A24))"

definition same_outside :: "video \<Rightarrow> video \<Rightarrow> nat \<Rightarrow> nat \<Rightarrow> nat \<Rightarrow> bool" where
  "same_outside v v' X X' Y \<longleftrightarrow> (\<forall>px < unat (xRes v). \<forall>py < unat (yRes v).
     \<not> (X \<le> px \<and> px < X' \<and> Y \<le> py \<and> py < Y + 16) \<longrightarrow> pixel v' px py = pixel v px py)"

definition printable :: "u8 \<Rightarrow> bool" where
  "printable c \<longleftrightarrow> c < 0x85 \<and> \<not> control c"

lemma console_append: "console (as @ bs) s = and_then (console as s) (console bs)"
proof (induction as arbitrary: s)
  case (Cons a as)
  then show ?case by (cases "console_char a s") simp_all
qed simp

lemma same_outside_trans:
  assumes "same_outside v v1 X X' Y" "same_outside v1 v2 Z Z' Y" "same_mode v v1" "X \<le> Z" "X' \<le> Z'" "Z \<le> X'"
  shows "same_outside v v2 X Z' Y"
  using assms unfolding same_outside_def same_mode_def by auto

lemma cells_Cons: "cells v (c # cs) X Y \<longleftrightarrow> cells v [c] X Y \<and> cells v cs (X + 8) Y"
proof -
  have "(\<forall>n < Suc (length cs). P n) \<longleftrightarrow> P 0 \<and> (\<forall>n < length cs. P (Suc n))" for P
    using less_Suc_eq_0_disj by auto
  then show ?thesis by (simp add: cells_def algebra_simps)
qed

lemma cells_kept:
  assumes "cells v cs X Y" "same_outside v v' Z Z' Y" "X + 8 * length cs \<le> Z" "X + 8 * length cs \<le> unat (xRes v)" "Y + 16 \<le> unat (yRes v)"
  shows "cells v' cs X Y"
  unfolding cells_def
proof (intro allI impI)
  fix n i j :: nat assume n: "n < length cs" "i < 8" "j < 16"
  then have "8 * n + i < 8 * length cs" by simp
  then have "X + 8 * n + i < unat (xRes v)" "Y + j < unat (yRes v)" "\<not> Z \<le> X + 8 * n + i" using assms(3-5) n(3) by simp_all
  then have "pixel v' (X + 8 * n + i) (Y + j) = pixel v (X + 8 * n + i) (Y + j)" using assms(2) unfolding same_outside_def by blast
  then show "pixel v' (X + 8 * n + i) (Y + j) = rgb_bytes (if glyph_bit (cs ! n) i j then 0xFFFFFF else 0x300A24)"
    using assms(1) n unfolding cells_def by simp
qed

lemma print_char:
  assumes ok: "screen_ok v" "cursor_ok v col row" and c: "printable c" and col: "col + 8 < uint (xRes v) - 4"
  obtains v' where "console_char c (col, row, v) = Inr (col + 8, row, v')" "same_mode v v'" "cursor_ok v' (col + 8) row" "cells v' [c] (nat col) (nat row)"
    "same_outside v v' (nat col) (nat col + 8) (nat row)"
proof -
  have c': "c < 0x85" "\<not> control c" "c \<noteq> 12" using c by (auto simp: printable_def control_def)
  obtain v' where s: "console_char c (col, row, v) = Inr (col + 8, row, v')" "painted (char_paint v c (nat col) (nat row)) v v'" "cursor_ok v' (col + 8) row"
    using console_char_ok[OF ok c'(1)] c'(2) col by auto
  have px: "pixel v' px py = (if nat col \<le> px \<and> px < nat col + 8 \<and> nat row \<le> py \<and> py < nat row + 16
       then rgb_bytes (if glyph_bit c (px - nat col) (py - nat row) then 0xFFFFFF else 0x300A24)
       else pixel v px py)" if "px < unat (xRes v)" "py < unat (yRes v)" for px py
    using s(2) that c'(2,3) by (simp add: painted_def char_paint_def over_def glyph_def box_def)
  have "nat col + 8 \<le> unat (xRes v)" "nat row + 16 \<le> unat (yRes v)"
    using col ok(2) uint_unat16[of "xRes v"] uint_unat16[of "yRes v"] unfolding cursor_ok_def by linarith+
  then have at: "pixel v' (nat col + i) (nat row + j) = rgb_bytes (if glyph_bit c i j then 0xFFFFFF else 0x300A24)" if "i < 8" "j < 16" for i j
    using px[of "nat col + i" "nat row + j"] that by simp
  have "cells v' [c] (nat col) (nat row)" unfolding cells_def using at by simp
  moreover have "same_outside v v' (nat col) (nat col + 8) (nat row)" unfolding same_outside_def using px by auto
  ultimately show thesis using that s(1,3) painted_same[OF s(2)] by blast
qed

lemma print_line:
  assumes "screen_ok v" "cursor_ok v col row" "\<forall>c \<in> set cs. printable c" "col + 8 * int (length cs) < uint (xRes v) - 4"
  shows "\<exists>v'. console cs (col, row, v) = Inr (col + 8 * int (length cs), row, v') \<and> same_mode v v' \<and> cells v' cs (nat col) (nat row) \<and>
    same_outside v v' (nat col) (nat col + 8 * length cs) (nat row)"
  using assms
proof (induction cs arbitrary: col v)
  case Nil
  then show ?case by (simp add: cells_def same_outside_def same_mode_def)
next
  case (Cons c cs)
  have pc: "printable c" and room: "col + 8 < uint (xRes v) - 4" using Cons.prems(3,4) by simp_all
  from print_char[OF Cons.prems(1,2) pc room] obtain v1 where
    1: "console_char c (col, row, v) = Inr (col + 8, row, v1)" "same_mode v v1" "cursor_ok v1 (col + 8) row" "cells v1 [c] (nat col) (nat row)"
      "same_outside v v1 (nat col) (nat col + 8) (nat row)" .
  have dim: "xRes v1 = xRes v" "yRes v1 = yRes v" using 1(2) by (simp_all add: same_mode_def)
  have x0: "0 \<le> col" "nat (col + 8) = nat col + 8" using Cons.prems(2) unfolding cursor_ok_def by linarith+
  have "col + 8 + 8 * int (length cs) < uint (xRes v1) - 4" using Cons.prems(4) by (simp add: dim)
  then obtain v' where v': "console cs (col + 8, row, v1) = Inr (col + 8 + 8 * int (length cs), row, v')" "same_mode v1 v'"
      "cells v' cs (nat col + 8) (nat row)" "same_outside v1 v' (nat col + 8) (nat col + 8 + 8 * length cs) (nat row)"
    using Cons.IH[OF screen_ok_same[OF 1(2) Cons.prems(1)] 1(3)] Cons.prems(3) unfolding x0(2) by auto
  have b: "nat col + 8 \<le> unat (xRes v)" "nat row + 16 \<le> unat (yRes v)"
    using room Cons.prems(2) uint_unat16[of "xRes v"] uint_unat16[of "yRes v"] unfolding cursor_ok_def by linarith+
  have "cells v' [c] (nat col) (nat row)"
  proof (rule cells_kept[OF 1(4) v'(4)])
    show "nat col + 8 * length [c] \<le> unat (xRes v1)" "nat row + 16 \<le> unat (yRes v1)"
      using b by (simp_all add: dim)
  qed simp
  then have "cells v' (c # cs) (nat col) (nat row)" using v'(3) cells_Cons by blast
  moreover have "same_outside v v' (nat col) (nat col + 8 + 8 * length cs) (nat row)"
    by (rule same_outside_trans[OF 1(5) v'(4) 1(2)]) simp_all
  moreover have "same_mode v v'" using 1(2) v'(2) by (simp add: same_mode_def)
  ultimately show ?case using 1(1) v'(1) by (intro exI[of _ v']) (simp add: algebra_simps)
qed

lemma backspace:
  assumes "screen_ok v" "cursor_ok v col row" "12 \<le> col"
  shows "console_char 8 (col, row, v) = Inr (col - 8, row, v)"
proof -
  have r: "uint (xRes v) \<le> 32000" "uint (yRes v) \<le> 32000" using assms(1) by (simp_all add: screen_ok_def)
  have c: "col < uint (xRes v) - 4" "28 \<le> row" "row \<le> uint (yRes v) - 16" using assms(2) by (simp_all add: cursor_ok_def)
  have s: "s16 (col - 8) = col - 8" "s16 (uint (xRes v) - 4) = uint (xRes v) - 4"
    using r c assms(3) by (simp_all add: s16_small)
  show ?thesis using c assms(3) by (simp add: console_char_def console_switch_def console_wrap_def s)
qed

lemma cells_append: "cells v (us @ bs) X Y \<longleftrightarrow> cells v us X Y \<and> cells v bs (X + 8 * length us) Y"
proof (induction us arbitrary: X)
  case Nil
  then show ?case by (simp add: cells_def)
next
  case (Cons a us)
  have "cells v ((a # us) @ bs) X Y \<longleftrightarrow> cells v [a] X Y \<and> cells v (us @ bs) (X + 8) Y" using cells_Cons[of v a "us @ bs"] by simp
  also have "\<dots> \<longleftrightarrow> cells v (a # us) X Y \<and> cells v bs (X + 8 + 8 * length us) Y"
    using Cons.IH[of "X + 8"] cells_Cons[of v a us] by blast
  finally show ?case by (simp add: algebra_simps)
qed

section \<open>The echo of a message\<close>

definition message_text :: "KEYBOARD_MSG \<Rightarrow> u8 list" where
  "message_text m = (if key_type m \<noteq> 0 then [] else win_echo (win_key m))"

lemma printable_marks: "printable 0x20" "printable 0x84"
  by (simp_all add: printable_def control_def)

lemma echo_message:
  assumes ok: "screen_ok v" "cursor_ok v col row" and col: "12 \<le> col" and e: "\<forall>c \<in> set e. printable c" "col + 8 * int (length e) < uint (xRes v) - 4"
  shows "\<exists>v'. console ([8, 0x20, 8] @ e @ [0x84]) (col, row, v) = Inr (col + 8 * int (length e), row, v') \<and> same_mode v v' \<and>
    cursor_ok v' (col + 8 * int (length e)) row \<and> cells v' (e @ [0x84]) (nat col - 8) (nat row) \<and>
    same_outside v v' (nat col - 8) (nat col + 8 * length e) (nat row)"
proof -
  have left: "cursor_ok v (col - 8) row"
  proof -
    have "8 dvd (col - 4) - 8" by (rule dvd_diff) (use ok(2) in \<open>simp_all add: cursor_ok_def\<close>)
    then have "8 dvd col - 8 - 4" by (simp add: algebra_simps)
    then show ?thesis using ok(2) col by (simp add: cursor_ok_def)
  qed
  have n: "nat (col - 8) = nat col - 8" "8 \<le> nat col" using col by simp_all
  have r0: "col - 8 + 8 < uint (xRes v) - 4" using ok(2) by (simp add: cursor_ok_def)
  obtain v1 where 1: "console_char 0x20 (col - 8, row, v) = Inr (col, row, v1)" "same_mode v v1" "cursor_ok v1 col row"
      "same_outside v v1 (nat col - 8) (nat col) (nat row)"
    using print_char[OF ok(1) left printable_marks(1) r0] n by auto
  have dim: "xRes v1 = xRes v" using 1(2) by (simp add: same_mode_def)
  have ok1: "screen_ok v1" "cursor_ok v1 (col - 8) row" using screen_ok_same[OF 1(2) ok(1)] left cursor_ok_same[OF 1(2)] by simp_all
  have "\<forall>c \<in> set (e @ [0x84]). printable c" using e(1) printable_marks by simp
  moreover have "col - 8 + 8 * int (length (e @ [0x84])) < uint (xRes v1) - 4" using e(2) by (simp add: dim)
  ultimately obtain v' where v': "console (e @ [0x84]) (col - 8, row, v1) = Inr (col - 8 + 8 * int (length (e @ [0x84])), row, v')" "same_mode v1 v'"
      "cells v' (e @ [0x84]) (nat col - 8) (nat row)" "same_outside v1 v' (nat col - 8) (nat col - 8 + 8 * length (e @ [0x84])) (nat row)"
    using print_line[OF ok1] unfolding n(1) by blast
  have "same_outside v v' (nat col - 8) (nat col - 8 + 8 * length (e @ [0x84])) (nat row)"
    by (rule same_outside_trans[OF 1(4) v'(4) 1(2)]) (use n(2) in simp_all)
  then have out: "same_outside v v' (nat col - 8) (nat col + 8 * length e) (nat row)" using n(2) by simp
  have mode: "same_mode v v'" using 1(2) v'(2) by (simp add: same_mode_def)
  have "8 dvd (col - 4) + 8 * int (length e)" by (rule dvd_add) (use ok(2) in \<open>simp_all add: cursor_ok_def\<close>)
  then have "8 dvd col + 8 * int (length e) - 4" by (simp add: algebra_simps)
  then have "cursor_ok v (col + 8 * int (length e)) row" using ok(2) e(2) by (simp add: cursor_ok_def)
  then have cur: "cursor_ok v' (col + 8 * int (length e)) row" using cursor_ok_same[OF mode] by simp
  have "console ([8, 0x20, 8] @ e @ [0x84]) (col, row, v) = console (e @ [0x84]) (col - 8, row, v1)"
    using backspace[OF ok col] backspace[OF screen_ok_same[OF 1(2) ok(1)] 1(3) col] 1(1) by simp
  then show ?thesis using v'(1,3) out mode cur by (intro exI[of _ v']) (simp add: algebra_simps)
qed

lemma echo_messages:
  assumes "screen_ok v" "cursor_ok v col row" "12 \<le> col" "cells v [0x84] (nat col - 8) (nat row)"
    and "\<forall>m \<in> set ms. \<forall>c \<in> set (message_text m). printable c" "str = concat (map message_text ms)"
    and "col + 8 * int (length str) < uint (xRes v) - 4"
  shows "\<exists>v'. console (concat (map (\<lambda>m. windows_message (Keyboard_message m)) ms)) (col, row, v) = Inr (col + 8 * int (length str), row, v') \<and>
    same_mode v v' \<and> cells v' (str @ [0x84]) (nat col - 8) (nat row) \<and> same_outside v v' (nat col - 8) (nat col + 8 * length str) (nat row)"
  using assms
proof (induction ms arbitrary: col v str)
  case Nil
  then show ?case by (simp add: same_outside_def same_mode_def)
next
  case (Cons m ms)
  show ?case
  proof (cases "key_type m = 0")
    case False
    then show ?thesis using Cons.IH[OF Cons.prems(1-4)] Cons.prems(5-7) by (simp add: windows_message_def message_text_def)
  next
    case True
    define e where "e = win_echo (win_key m)"
    define rest where "rest = concat (map message_text ms)"
    have mt: "message_text m = e" "windows_message (Keyboard_message m) = [8, 0x20, 8] @ e @ [0x84]"
      using True by (simp_all add: message_text_def windows_message_def e_def)
    have str: "str = e @ rest" using Cons.prems(6) by (simp add: mt(1) rest_def)
    have pe: "\<forall>c \<in> set e. printable c" using Cons.prems(5) mt(1) by simp
    have re: "col + 8 * int (length e) < uint (xRes v) - 4" using Cons.prems(7) by (simp add: str)
    obtain v1 where 1: "console ([8, 0x20, 8] @ e @ [0x84]) (col, row, v) = Inr (col + 8 * int (length e), row, v1)" "same_mode v v1"
        "cursor_ok v1 (col + 8 * int (length e)) row" "cells v1 (e @ [0x84]) (nat col - 8) (nat row)"
        "same_outside v v1 (nat col - 8) (nat col + 8 * length e) (nat row)"
      using echo_message[OF Cons.prems(1-3) pe re] by blast
    have dim: "xRes v1 = xRes v" "yRes v1 = yRes v" using 1(2) by (simp_all add: same_mode_def)
    have n: "nat (col + 8 * int (length e)) = nat col + 8 * length e" "8 \<le> nat col" using Cons.prems(3) by simp_all
    have mark: "cells v1 [0x84] (nat (col + 8 * int (length e)) - 8) (nat row)" "cells v1 e (nat col - 8) (nat row)"
      using 1(4) n by (simp_all add: cells_append)
    have rr: "col + 8 * int (length e) + 8 * int (length rest) < uint (xRes v1) - 4" using Cons.prems(7) by (simp add: str dim algebra_simps)
    have "12 \<le> col + 8 * int (length e)" "\<forall>m \<in> set ms. \<forall>c \<in> set (message_text m). printable c" using Cons.prems(3,5) by simp_all
    from Cons.IH[OF screen_ok_same[OF 1(2) Cons.prems(1)] 1(3) this(1) mark(1) this(2) rest_def rr] obtain v' where
      v': "console (concat (map (\<lambda>m. windows_message (Keyboard_message m)) ms)) (col + 8 * int (length e), row, v1)
          = Inr (col + 8 * int (length e) + 8 * int (length rest), row, v')" "same_mode v1 v'"
        "cells v' (rest @ [0x84]) (nat col + 8 * length e - 8) (nat row)"
        "same_outside v1 v' (nat col + 8 * length e - 8) (nat col + 8 * length e + 8 * length rest) (nat row)"
      unfolding n(1) by blast
    have "cells v' e (nat col - 8) (nat row)"
    proof (rule cells_kept[OF mark(2) v'(4)])
      show "nat col - 8 + 8 * length e \<le> nat col + 8 * length e - 8" using n(2) by simp
      show "nat col - 8 + 8 * length e \<le> unat (xRes v1)" "nat row + 16 \<le> unat (yRes v1)"
        using re Cons.prems(2,3) uint_unat16[of "xRes v"] uint_unat16[of "yRes v"] unfolding cursor_ok_def dim by linarith+
    qed
    then have "cells v' (str @ [0x84]) (nat col - 8) (nat row)"
      using v'(3) n(2) unfolding str append.assoc by (simp only: cells_append[of v' e]) (simp add: algebra_simps)
    moreover have "same_outside v v' (nat col - 8) (nat col + 8 * length e + 8 * length rest) (nat row)"
      by (rule same_outside_trans[OF 1(5) v'(4) 1(2)]) (use n(2) in simp_all)
    moreover have "same_mode v v'" using 1(2) v'(2) by (simp add: same_mode_def)
    moreover have "console (concat (map (\<lambda>m. windows_message (Keyboard_message m)) (m # ms))) (col, row, v)
        = Inr (col + 8 * int (length str), row, v')"
      unfolding list.map concat.simps mt(2) console_append[of _ "concat _"] 1(1) and_then_simps v'(1) by (simp add: str algebra_simps)
    ultimately show ?thesis by (intro exI[of _ v']) (simp add: str algebra_simps)
  qed
qed

section \<open>The loop of the window manager\<close>

text \<open>
  One round of \<^verbatim>\<open>windowsManager\<close> as far as it puts text: a request to the keyboard driver, whose result is not
  looked at, and a \<^verbatim>\<open>receiveMessage\<close> that returned \<open>ret\<close> and left \<open>msg\<close> in the page.
\<close>

definition windows_round :: "int \<Rightarrow> win_message \<Rightarrow> u8 list" where
  "windows_round ret msg = (if ret \<noteq> - 2 then windows_message msg else [])"

text \<open>
  The messages reach the window manager through its queue in the kernel, a ring of 256 entries: a send puts an
  entry, a receive takes the oldest. What the receives take is what was put, if no send finds the
  queue full and no receive finds it empty (it would wait) and as many are taken as were put.
\<close>

lemma run_length: "length (fst (ring64.run ops q)) = length (filter (\<lambda>a. a = Take) ops)"
proof (induction ops arbitrary: q)
  case (Cons a ops)
  then show ?case by (cases a) (simp_all add: case_prod_beta Let_def)
qed simp

lemma run_all:
  assumes "ring_inv q" "ring_contents q = []" "ring64.fits 0 ops" "length (filter (\<lambda>a. a = Take) ops) = length (ring64.inputs ops)"
  shows "fst (ring64.run ops q) = ring64.inputs ops"
proof -
  have "ring64.fits (length (ring_contents q)) ops" using assms(2,3) by (simp del: length_ring_contents)
  from conjunct2[OF ring64.run_fifo[OF assms(1) this]]
  have e: "fst (ring64.run ops q) @ ring_contents (snd (ring64.run ops q)) = ring64.inputs ops" using assms(2) by simp
  from arg_cong[OF e, of length] have "ring_contents (snd (ring64.run ops q)) = []"
    using run_length[of ops q] assms(4) by (simp del: length_ring_contents)
  then show ?thesis using e by simp
qed

section \<open>From keys to cells\<close>

definition letter :: "u8 \<Rightarrow> bool" where
  "letter k \<longleftrightarrow> 0x61 \<le> k \<and> k \<le> 0x7A"

text \<open>Keys of letters, the space bar, the two shift keys and Caps Lock.\<close>

definition text_key :: "u8 \<Rightarrow> bool" where
  "text_key k \<longleftrightarrow> letter k \<or> k = 0x20 \<or> k = SHIFT_L \<or> k = SHIFT_R \<or> k = CAPS"

text \<open>What such events type: \<open>l\<close>, \<open>r\<close> and \<open>c\<close> say whether a shift key is held and whether Caps Lock is on.\<close>

fun typed :: "bool \<Rightarrow> bool \<Rightarrow> bool \<Rightarrow> key_event list \<Rightarrow> u8 list" where
  "typed l r c [] = []"
| "typed l r c (e # es) =
     (let k = event_key e
      in if k = SHIFT_L then typed (\<not> released e) r c es
         else if k = SHIFT_R then typed l (\<not> released e) c es
         else if k = CAPS then typed l r (c \<noteq> (\<not> released e)) es
         else if released e then typed l r c es
         else (if letter k \<and> c \<noteq> (l \<or> r) then k - 0x20 else k) # typed l r c es)"

lemma text_key_u8:
  "\<forall>k :: u8. letter k \<longrightarrow> k \<noteq> 0 \<and> shift_bit k = None \<and> led_bit k = None \<and> \<not> PAD_0 \<le> k - 0x20 \<and> \<not> PAD_0 \<le> k \<and>
     win_shifted k = k - 0x20 \<and> win_shifted (k - 0x20) = k \<and> win_echo k = [k] \<and> win_echo (k - 0x20) = [k - 0x20] \<and>
     printable k \<and> printable (k - 0x20) \<and> k \<notin> {0x20, SHIFT_L, SHIFT_R, CAPS}"
  unfolding all_u8 by code_simp

lemma key_text:
  assumes "text_key (event_key e)"
  shows "event_key e \<noteq> 0"
    "message_text (event_msg e m) = (if released e \<or> event_key e \<in> {SHIFT_L, SHIFT_R, CAPS} then []
       else if letter (event_key e) \<and> BIT_TEST (led m) 2 \<noteq> (BIT_TEST (shift m) 4 \<or> BIT_TEST (shift m) 5) then [event_key e - 0x20]
       else [event_key e])"
    "\<forall>c \<in> set (message_text (event_msg e m)). printable c"
proof -
  let ?k = "event_key e"
  have p: "printable 0x20" "\<not> letter 0x20" by (simp_all add: printable_def control_def letter_def)
  show nz: "?k \<noteq> 0" using assms text_key_u8 by (auto simp: text_key_def)
  have mods: "message_text (event_msg e m) = []" if "?k \<in> {SHIFT_L, SHIFT_R, CAPS}"
  proof -
    have k: "key (event_msg e m) = ?k" using nz by (simp add: event_msg_def Let_def)
    have w: "win_shifted SHIFT_L = SHIFT_L" "win_shifted SHIFT_R = SHIFT_R" "win_shifted CAPS = CAPS"
      "win_echo SHIFT_L = []" "win_echo SHIFT_R = []" "win_echo CAPS = []" by code_simp+
    have "win_echo (win_key (event_msg e m)) = []"
      using that unfolding insert_iff empty_iff win_key_def Let_def k by (elim disjE FalseE) (simp_all add: w)
    then show ?thesis by (simp add: message_text_def)
  qed
  have plain: "message_text (event_msg e m) = (if released e then []
       else if letter ?k \<and> BIT_TEST (led m) 2 \<noteq> (BIT_TEST (shift m) 4 \<or> BIT_TEST (shift m) 5) then [?k - 0x20] else [?k])" if "letter ?k"
  proof -
    note f = text_key_u8[rule_format, OF that]
    have "event_msg e m = m\<lparr>key_type := (if released e then 0x80 else 0), key := ?k\<rparr>"
      using f by (simp add: event_msg_def Let_def locks_def)
    then show ?thesis using f that by (auto simp: message_text_def win_key_def Let_def letter_def)
  qed
  have space: "message_text (event_msg e m) = (if released e then [] else [?k])" if "?k = 0x20"
    using that by (simp add: message_text_def event_msg_def Let_def win_key_def win_echo_def win_shifted_def shift_bit_def led_bit_def locks_def)
  show t: "message_text (event_msg e m) = (if released e \<or> ?k \<in> {SHIFT_L, SHIFT_R, CAPS} then []
       else if letter ?k \<and> BIT_TEST (led m) 2 \<noteq> (BIT_TEST (shift m) 4 \<or> BIT_TEST (shift m) 5) then [?k - 0x20] else [?k])"
  proof (cases "letter ?k")
    case True
    then have "?k \<notin> {SHIFT_L, SHIFT_R, CAPS}" using text_key_u8 by blast
    then show ?thesis using plain[OF True] by (simp del: insert_iff)
  next
    case False
    then show ?thesis using assms mods space by (auto simp: text_key_def)
  qed
  show "\<forall>c \<in> set (message_text (event_msg e m)). printable c"
  proof (cases "letter ?k")
    case True
    then show ?thesis unfolding t using text_key_u8 by auto
  next
    case False
    then show ?thesis unfolding t using assms p by (auto simp: text_key_def)
  qed
qed

lemma key_state:
  "BIT_TEST (shift (event_msg e m)) 4 = (if event_key e = SHIFT_L then \<not> released e else BIT_TEST (shift m) 4)"
  "BIT_TEST (shift (event_msg e m)) 5 = (if event_key e = SHIFT_R then \<not> released e else BIT_TEST (shift m) 5)"
  "BIT_TEST (led (event_msg e m)) 2 = (BIT_TEST (led m) 2 \<noteq> (event_key e = CAPS \<and> \<not> released e))"
  using event_msg_shift[of SHIFT_L 4] event_msg_shift[of SHIFT_R 5] event_msg_led[of CAPS 2] by (simp_all add: shift_bit_def led_bit_def)

lemma messages_text:
  "\<forall>e \<in> set es. text_key (event_key e) \<Longrightarrow>
     concat (map message_text (event_msgs es m)) = typed (BIT_TEST (shift m) 4) (BIT_TEST (shift m) 5) (BIT_TEST (led m) 2) es \<and>
     (\<forall>m' \<in> set (event_msgs es m). \<forall>c \<in> set (message_text m'). printable c)"
proof (induction es arbitrary: m)
  case (Cons e es)
  have k: "text_key (event_key e)" using Cons.prems by simp
  have d: "SHIFT_L \<noteq> SHIFT_R" "SHIFT_L \<noteq> CAPS" "SHIFT_R \<noteq> CAPS" by simp_all
  note f = key_text[OF k]
  show ?case using Cons.IH[of "event_msg e m"] Cons.prems f(1,3) unfolding key_state by (auto simp: f(2) Let_def)
qed simp

text \<open>
  C28. What is typed is what is read: for any stream of presses and releases of letters, space bar, shift keys and
  Caps Lock, the keyboard driver's messages, sent through the queue of the window manager and echoed by its
  loop, make the console show the text that the keys stand for at the cursor, followed by the cursor mark, and
  change no other cell, as long as the text fits the line. Sends and receives can interleave in any
  way in which the queue never overflows and all messages are received in the end; nothing else is sent to the
  window manager or put on the console meanwhile, and the console gets the text without loss.
\<close>

theorem typing_shows_text:
  assumes "\<forall>e \<in> set es. wf_event e \<and> text_key (event_key e)" "driver.reads s = concat (map event_bytes es)" "driver.sent s = []"
    and clr: "driver.clears s = map (\<lambda>e. length (lost e)) (filter locks es)"
    and str: "str = typed (BIT_TEST (shift (kb_msg s)) 4) (BIT_TEST (shift (kb_msg s)) 5) (BIT_TEST (led (kb_msg s)) 2) es"
    and queue: "ring_inv q" "ring_contents q = []" "ring64.fits 0 ops" "length (filter (\<lambda>a. a = Take) ops) = length (ring64.inputs ops)"
    and put: "ring64.inputs ops = map Keyboard_message (driver.sent (keyboard_rounds (length es) s))"
    and "screen_ok v" "cursor_ok v col row" "12 \<le> col" "cells v [0x84] (nat col - 8) (nat row)" "col + 8 * int (length str) < uint (xRes v) - 4"
  shows "\<exists>v'. console (concat (map (windows_round 5) (fst (ring64.run ops q)))) (col, row, v)
      = Inr (col + 8 * int (length str), row, v') \<and> cells v' (str @ [0x84]) (nat col - 8) (nat row) \<and>
    same_outside v v' (nat col - 8) (nat col + 8 * length str) (nat row)"
proof -
  have "map (\<lambda>e. length (lost e)) (filter locks es) = concat (map event_clears es)"
    by (induction es) (simp_all add: event_clears_def)
  then have "driver.reads s = concat (map event_bytes es) @ []" "\<forall>e \<in> set es. wf_event e" "driver.clears s = concat (map event_clears es) @ []"
    using assms(1,2) clr by simp_all
  then have sent: "driver.sent (keyboard_rounds (length es) s) = event_msgs es (kb_msg s)" using keyboard_rounds_events assms(3) by simp
  have tx: "concat (map (windows_round 5) (fst (ring64.run ops q))) = concat (map (\<lambda>m. windows_message (Keyboard_message m)) (event_msgs es (kb_msg s)))"
    unfolding run_all[OF queue] put sent by (simp add: windows_round_def comp_def)
  have "\<forall>e \<in> set es. text_key (event_key e)" using assms(1) by simp
  note mt = messages_text[OF this, of "kb_msg s"]
  have e: "str = concat (map message_text (event_msgs es (kb_msg s)))" unfolding str by (rule conjunct1[OF mt, symmetric])
  from echo_messages[OF assms(11-14) conjunct2[OF mt] e assms(15)] show ?thesis unfolding tx by (elim ex_forward) simp
qed

text \<open>
  Shift and A, Caps Lock with a byte lost, and B; the messages of the first three events wait in the queue together.
\<close>

theorem typing_shows_text_witness:
  "\<exists>v v' ms ops. console (concat (map (windows_round 5) (fst (ring64.run ops \<lparr>buf = replicate 256 (Other_message 0), p_head = 0, p_tail = 0, count = 0\<rparr>)))) (12, 28, v)
       = Inr (28, 28, v') \<and> cells v' [0x41, 0x42, 0x84] 4 28 \<and>
     ops = map Put (take 3 ms) @ replicate 3 Take @ map Put (drop 3 ms) @ replicate (length ms - 3) Take \<and>
     ms = map Keyboard_message (driver.sent (keyboard_rounds 5
       \<lparr>driver.reads = [0x2A, 0x1E, 0xAA, 0x3A, 0x20, 0xFA, 0xFA, 0x30], driver.clears = [1], port = [], kb_msg = kb_msg_init, sent = []\<rparr>))"
proof -
  define e1 where "e1 = \<lparr>lead = [], code = 0x2A, released = False, lost = []\<rparr>"
  define e2 where "e2 = \<lparr>lead = [], code = 0x1E, released = False, lost = []\<rparr>"
  define e3 where "e3 = \<lparr>lead = [], code = 0x2A, released = True, lost = []\<rparr>"
  define e4 where "e4 = \<lparr>lead = [], code = 0x3A, released = False, lost = [0x20]\<rparr>"
  define e5 where "e5 = \<lparr>lead = [], code = 0x30, released = False, lost = []\<rparr>"
  let ?es = "[e1, e2, e3, e4, e5]"
  let ?s = "\<lparr>driver.reads = [0x2A, 0x1E, 0xAA, 0x3A, 0x20, 0xFA, 0xFA, 0x30], driver.clears = [1], driver.port = [], kb_msg = kb_msg_init, driver.sent = []\<rparr>"
  let ?q = "\<lparr>buf = replicate 256 (Other_message 0), p_head = 0, p_tail = 0, count = 0\<rparr> :: (win_message, u64) ring_buf"
  have k: "event_key e1 = SHIFT_L" "event_key e2 = 0x61" "event_key e3 = SHIFT_L" "event_key e4 = CAPS" "event_key e5 = 0x62"
    "\<not> released e1" "\<not> released e2" "released e3" "\<not> released e4" "\<not> released e5"
    by (simp_all add: event_key_def keymap_def e1_def e2_def e3_def e4_def e5_def)
  have l: "\<not> locks e1" "\<not> locks e2" "\<not> locks e3" "locks e4" "\<not> locks e5" using k by (simp_all add: locks_def led_bit_def)
  have "event_bytes e1 = [0x2A]" "event_bytes e2 = [0x1E]" "event_bytes e3 = [0xAA]" "event_bytes e4 = [0x3A, 0x20, 0xFA, 0xFA]" "event_bytes e5 = [0x30]"
    using l by (simp_all add: event_bytes_def e1_def e2_def e3_def e4_def e5_def)
  then have r: "driver.reads ?s = concat (map event_bytes ?es)" by simp
  have w: "\<forall>e \<in> set ?es. wf_event e \<and> text_key (event_key e)"
    using k by (simp add: text_key_def letter_def) (simp add: wf_event_def e1_def e2_def e3_def e4_def e5_def)
  have cl: "driver.clears ?s = map (\<lambda>e. length (lost e)) (filter locks ?es)" using l by (simp add: e4_def)
  have t: "[0x41, 0x42] = typed (BIT_TEST (shift (kb_msg ?s)) 4) (BIT_TEST (shift (kb_msg ?s)) 5) (BIT_TEST (led (kb_msg ?s)) 2) ?es"
    using k by (simp add: kb_msg_init_def BIT_TEST_def letter_def)
  have len: "length ?es = 5" by simp
  define ms where "ms = map Keyboard_message (driver.sent (keyboard_rounds 5 ?s))"
  have "driver.reads ?s = concat (map event_bytes ?es) @ []" "driver.clears ?s = concat (map event_clears ?es) @ []"
    using r l by (simp_all add: event_clears_def e4_def)
  then have "driver.sent (keyboard_rounds (length ?es) ?s) = event_msgs ?es kb_msg_init"
    using keyboard_rounds_events[of ?es ?s "[]" "[]"] w by simp
  then have "ms = map Keyboard_message (event_msgs ?es kb_msg_init)" unfolding ms_def len by simp
  then have "length ms = 5" using k by (simp add: event_msgs_nth)
  then obtain m1 m2 m3 m4 m5 where m: "ms = [m1, m2, m3, m4, m5]" by (auto simp: numeral_eq_Suc length_Suc_conv)
  define ops where "ops = [Put m1, Put m2, Put m3, Take, Take, Take, Put m4, Put m5, Take, Take]"
  have q: "ring_inv ?q" "ring_contents ?q = []" "ring64.fits 0 ops" "length (filter (\<lambda>a. a = Take) ops) = length (ring64.inputs ops)"
    by (simp_all add: ring_inv_def ring_contents_def ops_def)
  have i: "ring64.inputs ops = map Keyboard_message (driver.sent (keyboard_rounds (length ?es) ?s))"
    unfolding len ms_def[symmetric] by (simp add: m ops_def)
  have x: "uint (xRes vga) = 640" by (simp add: vga_def)
  have p: "printable 0x84" "4 + 8 < uint (xRes vga) - 4" by (simp_all add: printable_def control_def x)
  from print_char[OF vga_ok(1,2) p] obtain v where v: "same_mode vga v" "cursor_ok v 12 28" "cells v [0x84] 4 28" by auto
  have "xRes v = xRes vga" using v(1) by (simp add: same_mode_def)
  then have rm: "12 + 8 * int (length [0x41, 0x42 :: u8]) < uint (xRes v) - 4" by (simp add: x)
  have n: "nat 12 - 8 = 4" "nat 28 = 28" "[0x41, 0x42] @ [0x84] = [0x41, 0x42, 0x84 :: u8]"
    "(12 :: int) + 8 * int (length [0x41, 0x42 :: u8]) = 28" by simp_all
  have c: "cells v [0x84] (nat 12 - 8) (nat 28)" unfolding n using v(3) .
  have e: "driver.sent ?s = []" by simp
  from typing_shows_text[OF w r e cl t q i screen_ok_same[OF v(1) vga_ok(1)] v(2) order_refl c rm] obtain v' where
    v': "console (concat (map (windows_round 5) (fst (ring64.run ops ?q)))) (12, 28, v) = Inr (28, 28, v')" "cells v' [0x41, 0x42, 0x84] 4 28"
    unfolding n by (elim exE conjE) (rule that)
  have "ops = map Put (take 3 ms) @ replicate 3 Take @ map Put (drop 3 ms) @ replicate (length ms - 3) Take"
    by (simp add: m ops_def numeral_eq_Suc)
  then show ?thesis using v' ms_def by blast
qed

end
