(* ===== verification/Spec2Isabelle.thy ===== *)
theory Spec2Isabelle
  imports Linked_List Rtc Memory Format Windows Process Kernel_Steps Filesystem Video Apic Boot Start Temp_Map Drivers Terminal
begin

text \<open>
  A verification library for the Norlit OS kernel, the C sources under \<^verbatim>\<open>src/kernel\<close>.

  \<^bold>\<open>The program.\<close> Norlit OS is a 32-bit x86 microkernel. The loader leaves the memory map of the BIOS
  and jumps to the kernel, which sets up its memory (\<^verbatim>\<open>memory/paging.c\<close>, \<^verbatim>\<open>memory/memory.c\<close>), the
  processor tables (\<^verbatim>\<open>start.c\<close>), the interrupt controllers as the ACPI tables describe them
  (\<^verbatim>\<open>driver/acpi.c\<close>, \<^verbatim>\<open>driver/apic.c\<close>) and the timer, makes the running code the first process and starts the
  drivers as processes. From then on everything is a process that talks to others through the system
  calls of \<^verbatim>\<open>process/proc.c\<close>: a message is a page that is mapped into the receiver
  (\<^verbatim>\<open>process/page.c\<close>). Each driver has a top half, its interrupt handler, which queues bytes, and a
  bottom half, its process. The file system is a client of the disk driver through the message
  library \<^verbatim>\<open>proclib.c\<close>; keyboard and mouse send to the window manager \<^verbatim>\<open>windows.c\<close>, whose text the
  video driver renders. All of them use \<^verbatim>\<open>lib.c\<close>, \<^verbatim>\<open>format.c\<close> and the lists of \<^verbatim>\<open>include/list.h\<close>.

  \<^bold>\<open>How the model reads.\<close> Definitions carry the names of the C functions; those for a loop or a part
  of a function have names of their own. A \<open>w\<close>-bit integer is a word of that width, so that
  arithmetic wraps as in C; \<open>sint\<close> reads it as signed where the code does. A \<^verbatim>\<open>struct\<close> is a record in a
  store keyed by its address, or lies at its offsets in a memory of words (\<^verbatim>\<open>u32\<close> structures of the heap and
  page tables) or of bytes (packed structures of disk, messages, ACPI and frame buffer). State is passed and
  returned. The result of a function that may fail is \<open>kerror + 'a\<close>: \<open>Spin\<close> for a loop that
  cannot end, \<open>Halt\<close> for a failed assertion or a panic, \<open>Bad_Index\<close> for an access outside an array, \<open>Divide_Error\<close>.
  Other constructs of C that have no meaning do not arise in what is modelled, or are named in the
  theory. Code outside \<^verbatim>\<open>src\<close>, such as the devices, is a parameter: a record of functions on a
  state \<open>'d\<close>, with the device's documented behaviour as a named law (\<open>io_apic_law\<close>, \<open>pic_law\<close>, and those of the
  drive in \<open>Harddisk\<close> and of the clock chip in \<open>Rtc\<close>); each law has an instance in a witness.

  \<^bold>\<open>Loops.\<close> There is no fuel. A loop with a bound is structural recursion, a \<open>fold\<close>, or a \<open>function\<close> with
  its measure. A loop that may run for ever (polling, walks along pointers, the scheduler's search, the ACPI
  parser, message loops) is a \<open>partial_function\<close> whose value \<open>None\<close> means that it does not return; that it returns, and
  when it does not, is part of the properties.
\<close>

section \<open>Theories\<close>

text \<open>
  \<^item> \<open>Prelude\<close> -- \<^verbatim>\<open>include/proto.h\<close>, \<^verbatim>\<open>typedef.h\<close>: word types, \<^verbatim>\<open>BIT_TEST\<close> and its kin, address
    macros, spin locks, error values and their composition \<open>and_then\<close>, shared lemmas on words and lists.
  \<^item> \<open>Linked_List\<close> -- \<^verbatim>\<open>include/list.h\<close>: a map from nodes to their links. The predicate \<open>ring\<close> says which
    list the pointers form; every operation is a list operation on it, and the iteration macro stands the removal of the entry.
  \<^item> \<open>Lib\<close>, \<open>Calendar\<close>, \<open>Format\<close> -- \<^verbatim>\<open>lib.c\<close>, \<^verbatim>\<open>format.c\<close>. Equivalence with reference definitions: 64-bit division,
    the Gregorian calendar, the format language as a grammar of pieces.
  \<^item> \<open>Rtc\<close> -- \<^verbatim>\<open>driver/rtc.c\<close>: the clock chip is a stream of answers.
  \<^item> \<open>Memory\<close> -- \<^verbatim>\<open>memory/memory.c\<close>: the buddy allocator. \<open>free_inv s F\<close> relates the chains to one list of
    blocks for each size, \<open>free_area F\<close> is the abstract state: the set of free bytes.
  \<^item> \<open>Page\<close> -- \<^verbatim>\<open>process/page.c\<close>: \<open>address_space\<close> is the invariant of a directory with its tables and pages,
    \<open>walk\<close> the translation it stands for, \<open>owned\<close> the pages it uses; \<open>space_step\<close> frames a change.
  \<^item> \<open>Process\<close> -- \<^verbatim>\<open>process/proc.c\<close>, the timer interrupt of \<^verbatim>\<open>process/timer.c\<close>, exceptions of \<^verbatim>\<open>int.c\<close>: process table,
    threads, scheduling, system calls. Lemmas: the scheduler's choice, its effect over many timer interrupts, the messages,
    creation of processes.
  \<^item> \<open>Kernel_Steps\<close> -- timer interrupts, yields, sleeps, awakenings and creations of processes as an inductive step relation, and
    the invariant \<open>kernel_inv\<close> of its reachable states, by rule induction.
  \<^item> \<open>Ring_Buffer\<close> -- the three ring buffers of the kernel have one interface, the locale \<open>fifo\<close>; it is interpreted on the
    two element widths, and \<open>Keyboard\<close>, \<open>Mouse\<close> and \<open>Process\<close> use its facts.
  \<^item> \<open>Keyboard\<close>, \<open>Mouse\<close>, \<open>Windows\<close> -- \<^verbatim>\<open>driver/keyboard\<close>, \<^verbatim>\<open>driver/mouse\<close>, \<^verbatim>\<open>windows.c\<close>. The interrupt handler and the
    parts of \<^verbatim>\<open>keyboard_read\<close> are steps in any order; the decoders are functions of the bytes that are queued, in order, and of
    how many of them each command to the device throws away.
  \<^item> \<open>Bytes\<close>, \<open>Harddisk\<close> -- \<^verbatim>\<open>driver/harddisk\<close>: loads and stores in byte memory; PIO commands, which
    implement an array of sectors on every drive that follows the ATA protocol (\<open>pio_disk\<close>: busy for any finite time after a
    command and between sectors); partition tables; the message loop.
  \<^item> \<open>Proclib\<close> -- \<^verbatim>\<open>proclib.c\<close>: send and receive loops over an abstract kernel, the file calls over the disk driver. The file
    calls exchange their page with the driver in one step, \<open>hd_exchange\<close>, and see the disk as the store of sectors that
    the driver implements below \<open>2 ^ 28\<close> sectors.
  \<^item> \<open>Block_Device\<close>, \<open>Filesystem\<close> -- \<^verbatim>\<open>driver/filesystem\<close>. The locale \<open>block_device\<close> states what the block allocator
    needs of the disk; it is interpreted on the model of the driver. \<open>lists_ok\<close> relates the free lists on disk to sets of blocks.
  \<^item> \<open>Font\<close>, \<open>Video\<close> -- \<^verbatim>\<open>driver/video\<close>: drawing on a frame buffer of bytes, the console, the text buffer.
    \<open>painted\<close> gives a drawing as a function from pixels to colours. The steps of the processes that put text and of the
    driver that reads it interleave in any order (\<open>text_step\<close>).
  \<^item> \<open>Terminal\<close> -- the loop of \<^verbatim>\<open>windows.c\<close> between keyboard and console, with the queue of its messages in between, and what a
    typed line looks like on the screen.
  \<^item> \<open>Apic\<close>, \<open>Temp_Map\<close> -- \<^verbatim>\<open>driver/apic.c\<close>, \<^verbatim>\<open>driver/acpi.c\<close>: search and parse of the tables, redirection of lines; the window
    through which the tables are read, as the parser sees it and as page tables, with a refinement between the two.
  \<^item> \<open>Boot\<close> -- \<^verbatim>\<open>memory/paging.c\<close> and \<^verbatim>\<open>init_memory\<close>: \<open>kernel_translate\<close> is the translation by the kernel's directory,
    \<open>kernel_map\<close> the linear map it is to be.
  \<^item> \<open>Start\<close>, \<open>Drivers\<close> -- \<^verbatim>\<open>start.c\<close>, \<^verbatim>\<open>int.c\<close>, \<open>init\<close> functions of timer and drivers: descriptors, handlers, controllers, and the
    numbers of the driver processes; here the parts of the kernel meet.
\<close>

section \<open>What is shown\<close>

text \<open>
  The properties are the theorems with a number. By subject:

  \<^item> Processes: in every reachable state the table is well formed and one process runs; the scheduler runs a ready process with the most ticks and returns exactly when it can; no ready process starves under
    the timer, the refill of the ticks included; a message arrives as it was sent, and the sender learns the right status; processes have the least free
    numbers, which at the start are the numbers the drivers use.
  \<^item> Memory: the allocator keeps its chains sorted and merged, fails only when there is no block, and what is freed is what was
    taken, for blocks, heap objects, address spaces and thread stacks that have grown or not. The set-up hands it exactly the
    available memory in its range, if the last item of the memory map ends where the memory ends,
    and the kernel is mapped in every process.
  \<^item> Devices: sectors are read and written as asked; the partition chain is followed to its end; the file system
    allocates from its free lists, formats a partition exactly, and reads back what it wrote, through the library
    and the driver; keys and clock are decoded and encoded right; a typed line appears on the screen; after the start exactly the lines in use reach their handlers; the console
    stays on the screen and shows what was printed.
  \<^item> Library: format language, number conversion, calendar, division, lists.

  Where the code does not do what it means to, the property says what it does: a write past the end of a file,
  the race in clearing the keyboard buffer, text put while the driver resets its buffer, the year of a clock in binary mode,
  a second I/O APIC. Lemmas show the other places: the status line of every frame overflows its array, and an
  interrupt in the middle of a read of a full keyboard buffer leaves a notification without a byte.

  Bounds in hypotheses: addresses are those of the 4 GB the machine has; a file system partition is
  at most \<open>2 ^ 20\<close> blocks, the size of its free lists; tables and texts are shorter than \<open>2 ^ 32\<close>, the width of their counters.
\<close>

section \<open>Not modelled\<close>

text \<open>
  \<^item> Assembly (\<^verbatim>\<open>boot/*.asm\<close>, \<^verbatim>\<open>kernel/interrupt.asm\<close>, \<^verbatim>\<open>process/proc.asm\<close>): boot loader and entries of interrupts.
    \<open>system_call\<close> begins with the registers as arguments, as the entry hands them over. Loads of CR3, GDTR, TR and
    MSRs have no effect on the state that is modelled; the current directory is the one of \<open>current_proc\<close>.
  \<^item> Other processors: \<^verbatim>\<open>init_mp\<close> is empty under \<^verbatim>\<open>NO_SMP\<close>; \<open>init_paging_ap\<close>, \<open>init_proc_ap\<close>, \<open>init_apic_ap\<close> and \<open>init_timer_ap\<close> are definitions.
  \<^item> Console output inside other routines; \<open>Video\<close> has the text buffer on its own.
  \<^item> The interrupts that may arrive in the middle of a driver, except in the reads of the keyboard, the clearing of its buffer and the
    text buffer; the two stores of \<^verbatim>\<open>putc\<close> are one step.
  \<^item> Page faults during the set-up of the memory: \<open>init_memory\<close> writes where the code writes, also beyond what is mapped. The
    property on it assumes that the last item of the map ends where the memory does; then everything written to is mapped.
  \<^item> The kernel's part in an exchange of messages between the file system and the disk driver: \<open>Process\<close> shows that a
    message page arrives as it was sent, and \<open>Proclib\<close> starts from there.
  \<^item> \<^verbatim>\<open>breakpoint_disp\<close> of \<^verbatim>\<open>int.c\<close> and \<^verbatim>\<open>printStartupTime\<close> of \<^verbatim>\<open>timer.c\<close>, output only; the processes \<^verbatim>\<open>FileTester\<close>, \<^verbatim>\<open>ListFile\<close>
    and \<^verbatim>\<open>Init\<close>, demonstrations.
  \<^item> \<^verbatim>\<open>test/test.c\<close>, a program of its own with copies of the headers.
\<close>

end
